(* ===== verification/Prelude.thy ===== *)
theory Prelude
  imports Main "HOL-Library.Word" "HOL-Library.Char_ord"
begin

text \<open>
  The vocabulary the component theories share.

  The program is compiled for rv32i with the ilp32 ABI
  (\<^verbatim>\<open>sw/coremark/riscinator/core_portme.mak\<close>, \<^verbatim>\<open>build/riscv.lua\<close>): \<open>char\<close> is an
  unsigned byte, \<open>int\<close>, \<open>long\<close>, \<open>size_t\<close> and pointers have 32 bits, \<open>long long\<close> has 64.
  Machine integers are words of that width. A signed C integer is the same word read with
  \<open>sint\<close>; integer promotion of a signed value is \<open>scast\<close>, of an unsigned one \<open>ucast\<close>.
  Where C leaves a result undefined and the code can get there, the model returns \<open>None\<close>.
\<close>

unbundle bit_operations_syntax

type_synonym u8 = "8 word"
type_synonym u16 = "16 word"
type_synonym u32 = "32 word"
type_synonym u64 = "64 word"
type_synonym s16 = "16 word"
type_synonym s32 = "32 word"

text \<open>A pointer of the program; \<open>NULL\<close> is the word 0.\<close>

type_synonym ptr = "32 word"

abbreviation (input) NULL :: ptr where
  "NULL \<equiv> 0"

text \<open>The result of an operation on \<open>int\<close>, where an overflow is undefined.\<close>

definition in_int :: "int \<Rightarrow> int option" where
  "in_int i = (if - (2 ^ 31) \<le> i \<and> i < 2 ^ 31 then Some i else None)"

named_theorems word_bits \<open>bitwise reading of the word operations the code uses\<close>

declare bit_and_iff [word_bits] bit_or_iff [word_bits] bit_xor_iff [word_bits]
  bit_not_iff [word_bits] bit_push_bit_iff [word_bits] bit_drop_bit_eq [word_bits]
  bit_mask_iff [word_bits]

lemma word_eqI_bits:
  fixes x y :: "'a::len word"
  assumes "\<And>n. n < LENGTH('a) \<Longrightarrow> bit x n = bit y n"
  shows "x = y"
  using assms by (intro bit_word_eqI) simp

lemma bit_word_beyond [simp]:
  "LENGTH('a) \<le> n \<Longrightarrow> \<not> bit (x :: 'a::len word) n"
  by (meson bit_imp_le_length not_less)

text \<open>Signed comparison of machine integers, as the code's \<open><\<close>, \<open>\<le>\<close> on signed types.\<close>

lemma sint_less_iff_word_sless: "sint x < sint y \<longleftrightarrow> x <s y"
  by (simp add: word_sless_alt)

lemma Option_bind_Some_iff [simp]:
  "Option.bind m f = Some y \<longleftrightarrow> (\<exists>x. m = Some x \<and> f x = Some y)"
  by (cases m) auto

lemma find_map: "find P (map f xs) = map_option f (find (P \<circ> f) xs)"
  by (induction xs) auto

lemma uint_pos_iff: "0 < uint (w :: 'a::len word) \<longleftrightarrow> w \<noteq> 0"
  using unsigned_greater_eq [of w, where ?'a = int] by (auto simp: less_le uint_0_iff)

lemma of_nat_unat: "of_nat (unat w) = (w :: 'a::len word)"
  by simp

lemma sint_of_int_small:
  "- (2 ^ (LENGTH('a) - 1)) \<le> k \<Longrightarrow> k < 2 ^ (LENGTH('a) - 1)
     \<Longrightarrow> sint (word_of_int k :: 'a::len word) = k"
  by (simp add: sint_sbintrunc' signed_take_bit_int_eq_self)

lemma sint_of_nat_small:
  assumes "n < 2 ^ (LENGTH('a) - 1)"
  shows "sint (of_nat n :: 'a::len word) = int n"
proof -
  have "int n < 2 ^ (LENGTH('a) - 1)" using assms by simp
  then have "sint (word_of_int (int n) :: 'a word) = int n"
    by (intro sint_of_int_small) (auto intro: order_trans [of _ 0])
  then show ?thesis by (simp only: of_int_of_nat_eq)
qed

lemma unat_mult_small:
  "unat x * unat y < 2 ^ LENGTH('a) \<Longrightarrow> unat (x * y :: 'a::len word) = unat x * unat y"
  by (simp add: unat_word_ariths)

end
