(* ===== verification/Crc.thy ===== *)
theory Crc
  imports Prelude
begin

text \<open>
  The 16-bit CRC of \<^verbatim>\<open>sw/coremark/core_util.c\<close> (\<open>crcu8\<close>, \<open>crcu16\<close>, \<open>crcu32\<close>,
  \<open>crc16\<close>), with which every CoreMark algorithm condenses its results. The code's loop is
  related to the bit-serial shift register of the reflected polynomial 0xA001, from which
  linearity, the byte-table form and the detection of any single changed word follow.
\<close>

section \<open>The code\<close>

text \<open>One turn of the loop of \<open>crcu8\<close>: the data byte, then the CRC.\<close>

definition crcu8_step :: "u8 \<times> u16 \<Rightarrow> u8 \<times> u16" where
  "crcu8_step = (\<lambda>(data, crc).
     let x16 = (data AND 1) XOR ((ucast crc :: u8) AND 1);
         data = drop_bit 1 data;
         (crc, carry) = (if x16 = 1 then (crc XOR 0x4002, True) else (crc, False));
         crc = drop_bit 1 crc;
         crc = (if carry then crc OR 0x8000 else crc AND 0x7fff)
     in (data, crc))"

definition crcu8 :: "u8 \<Rightarrow> u16 \<Rightarrow> u16" where
  "crcu8 data crc = snd ((crcu8_step ^^ 8) (data, crc))"

definition crcu16 :: "u16 \<Rightarrow> u16 \<Rightarrow> u16" where
  "crcu16 newval crc =
     (let crc = crcu8 (ucast newval) crc;
          crc = crcu8 (ucast (drop_bit 8 newval)) crc
      in crc)"

definition crc16 :: "s16 \<Rightarrow> u16 \<Rightarrow> u16" where
  "crc16 newval crc = crcu16 newval crc"

definition crcu32 :: "u32 \<Rightarrow> u16 \<Rightarrow> u16" where
  "crcu32 newval crc =
     (let crc = crc16 (ucast newval) crc;
          crc = crc16 (ucast (drop_bit 16 newval)) crc
      in crc)"

section \<open>The shift register\<close>

text \<open>
  The reference: the data bit is added to the bit that leaves the register, and a set
  result feeds the reversed polynomial x\<open>^16 + x^15 + x^2 + 1\<close> back.
\<close>

definition lfsr :: "bool \<Rightarrow> u16 \<Rightarrow> u16" where
  "lfsr b c = (if b \<noteq> bit c 0 then drop_bit 1 c XOR 0xA001 else drop_bit 1 c)"

text \<open>The value a register had before a step: the fed-back bit is readable in the result.\<close>

definition lfsr_back :: "bool \<Rightarrow> u16 \<Rightarrow> u16" where
  "lfsr_back b c =
     (if bit c 15 then (push_bit 1 c XOR 0x4002) OR (if b then 0 else 1)
      else push_bit 1 c OR (if b then 1 else 0))"

lemma bit_A001 [simp]: "bit (0xA001 :: u16) n \<longleftrightarrow> n = 0 \<or> n = 13 \<or> n = 15"
  and bit_2001 [simp]: "bit (0x2001 :: u16) n \<longleftrightarrow> n = 0 \<or> n = 13"
  and bit_4002 [simp]: "bit (0x4002 :: u16) n \<longleftrightarrow> n = 1 \<or> n = 14"
  and bit_8000 [simp]: "bit (0x8000 :: u16) n \<longleftrightarrow> n = 15"
  and bit_7fff [simp]: "bit (0x7fff :: u16) n \<longleftrightarrow> n < 15"
proof -
  have "n \<in> {0..<16} \<or> 16 \<le> n" by auto
  then show "bit (0xA001 :: u16) n \<longleftrightarrow> n = 0 \<or> n = 13 \<or> n = 15"
    and "bit (0x2001 :: u16) n \<longleftrightarrow> n = 0 \<or> n = 13"
    and "bit (0x4002 :: u16) n \<longleftrightarrow> n = 1 \<or> n = 14"
    and "bit (0x8000 :: u16) n \<longleftrightarrow> n = 15"
    and "bit (0x7fff :: u16) n \<longleftrightarrow> n < 15"
    by (auto simp: atLeastLessThan_nat_numeral)
qed

declare bit_numeral_word_iff [simp del]

lemma crcu8_step_lfsr: "crcu8_step (d, c) = (drop_bit 1 d, lfsr (bit d 0) c)"
proof -
  have x16: "(d AND 1) XOR ((ucast c :: u8) AND 1) = (if bit d 0 \<noteq> bit c 0 then 1 else 0)"
    by (rule word_eqI_bits) (auto simp: word_bits bit_1_iff bit_unsigned_iff)
  have fb: "drop_bit 1 (c XOR 0x4002) OR 0x8000 = drop_bit 1 c XOR 0xA001"
    by (rule word_eqI_bits) (auto simp: drop_bit_xor word_bits)
  have nf: "drop_bit 1 c AND 0x7fff = drop_bit 1 c"
    by (rule word_eqI_bits) (auto simp: word_bits dest: bit_imp_le_length)
  show ?thesis
    by (simp add: crcu8_step_def x16 fb [simplified] nf [simplified] lfsr_def Let_def)
qed

lemma crcu8_steps_lfsr:
  "(crcu8_step ^^ n) (d, c) = (drop_bit n d, fold lfsr (map (bit d) [0..<n]) c)"
  by (induction n) (simp_all add: crcu8_step_lfsr bit_drop_bit_eq)

lemma crcu8_lfsr: "crcu8 d c = fold lfsr (map (bit d) [0..<8]) c"
  by (simp only: crcu8_def crcu8_steps_lfsr snd_conv)

section \<open>Linearity, the byte table and injectivity\<close>

lemma lfsr_xor: "lfsr (a \<noteq> b) (c XOR d) = lfsr a c XOR lfsr b d"
  by (rule word_eqI_bits) (auto simp: lfsr_def word_bits drop_bit_xor)

lemma fold_lfsr_xor:
  "fold lfsr (map (\<lambda>i. f i \<noteq> g i) xs) (c XOR d)
     = fold lfsr (map f xs) c XOR fold lfsr (map g xs) d"
proof (induction xs arbitrary: c d)
  case Nil
  show ?case by simp
next
  case (Cons x xs)
  show ?case by (simp only: list.map fold_Cons o_apply lfsr_xor Cons.IH)
qed

lemma crcu8_xor: "crcu8 (d XOR d') (c XOR c') = crcu8 d c XOR crcu8 d' c'"
proof -
  have "bit (d XOR d') = (\<lambda>i. bit d i \<noteq> bit d' i)"
    by (rule ext) (simp add: bit_xor_iff)
  then show ?thesis
    by (simp only: crcu8_lfsr fold_lfsr_xor)
qed

text \<open>While the data bits equal the low bits of the register, nothing is fed back.\<close>

lemma fold_lfsr_cancel:
  assumes "\<And>i. i < n \<Longrightarrow> f i = bit c i"
  shows "fold lfsr (map f [0..<n]) c = drop_bit n c"
  using assms by (induction n) (simp_all add: lfsr_def bit_drop_bit_eq)

lemma crcu8_cancel: "crcu8 (ucast c) c = drop_bit 8 c"
  unfolding crcu8_lfsr by (rule fold_lfsr_cancel) (simp add: bit_unsigned_iff)

lemma crcu8_table: "crcu8 d c = drop_bit 8 c XOR crcu8 (d XOR ucast c) 0"
proof -
  have "crcu8 d c = crcu8 (ucast c XOR (d XOR ucast c)) (c XOR 0)"
    by (simp add: xor.left_commute [of "ucast c" d])
  also have "\<dots> = drop_bit 8 c XOR crcu8 (d XOR ucast c) 0"
    by (simp only: crcu8_xor crcu8_cancel)
  finally show ?thesis .
qed

lemma crcu16_xor: "crcu16 (m XOR n) (c XOR d) = crcu16 m c XOR crcu16 n d"
  by (simp add: crcu16_def unsigned_xor_eq drop_bit_xor crcu8_xor)

lemma crcu16_self: "crcu16 n n = 0"
proof -
  have hi: "crcu8 (ucast (drop_bit 8 n)) (drop_bit 8 n) = drop_bit 8 (drop_bit 8 n)"
    by (rule crcu8_cancel)
  have "drop_bit 8 (drop_bit 8 n) = 0"
    by (rule word_eqI_bits) (simp add: word_bits)
  then show ?thesis
    by (simp add: crcu16_def crcu8_cancel hi)
qed

lemma crcu16_shift: "crcu16 n c = crcu16 0 (c XOR n)"
  using crcu16_xor [of n n c n] by (simp add: crcu16_self)

lemma lfsr_back_lfsr: "lfsr_back b (lfsr b c) = c"
proof (rule word_eqI_bits)
  fix n :: nat
  assume "n < LENGTH(16)"
  then show "bit (lfsr_back b (lfsr b c)) n = bit c n"
    by (cases n) (auto simp: lfsr_back_def lfsr_def word_bits bit_1_iff simp del: push_bit_Suc)
qed

lemma fold_lfsr_inj: "fold lfsr bs c = fold lfsr bs c' \<Longrightarrow> c = c'"
proof (induction bs arbitrary: c c')
  case Nil
  then show ?case by simp
next
  case (Cons b bs)
  then have "lfsr b c = lfsr b c'" by simp
  then have "lfsr_back b (lfsr b c) = lfsr_back b (lfsr b c')" by simp
  then show ?case by (simp only: lfsr_back_lfsr)
qed

lemma crcu8_inj: "crcu8 d c = crcu8 d c' \<Longrightarrow> c = c'"
  unfolding crcu8_lfsr by (rule fold_lfsr_inj)

lemma crcu16_inj: "crcu16 n c = crcu16 n c' \<Longrightarrow> c = c'"
  unfolding crcu16_def Let_def by (blast dest: crcu8_inj)

lemma crcu16_data_inj: "crcu16 n c = crcu16 n' c \<longleftrightarrow> n = n'"
proof
  assume "crcu16 n c = crcu16 n' c"
  then have "crcu16 0 (c XOR n) = crcu16 0 (c XOR n')"
    by (simp only: crcu16_shift [of n] crcu16_shift [of n'])
  then have "c XOR n = c XOR n'" by (rule crcu16_inj)
  then have "c XOR (c XOR n) = c XOR (c XOR n')" by simp
  then show "n = n'" by simp
qed simp

lemma fold_crc16_inj: "fold crc16 ns c = fold crc16 ns c' \<Longrightarrow> c = c'"
proof (induction ns arbitrary: c c')
  case Nil
  then show ?case by simp
next
  case (Cons n ns)
  then have "crc16 n c = crc16 n c'" by simp
  then show ?case by (auto simp: crc16_def dest: crcu16_inj)
qed

lemma crcu8_bits: "crcu8 (ucast (drop_bit k n)) c = fold lfsr (map (bit n) [k..<k + 8]) c"
  if "k + 8 \<le> LENGTH('a)" for n :: "'a::len word"
proof -
  have "map (bit (ucast (drop_bit k n) :: u8)) [0..<8] = map (bit n) [k..<k + 8]"
    using that by (intro nth_equalityI) (auto simp: bit_unsigned_iff bit_drop_bit_eq)
  then show ?thesis by (simp only: crcu8_lfsr)
qed

lemma crcu16_bits: "crcu16 (ucast (drop_bit k n)) c = fold lfsr (map (bit n) [k..<k + 16]) c"
  if k: "k + 16 \<le> LENGTH('a)" for n :: "'a::len word"
proof -
  have lo: "ucast (ucast (drop_bit k n) :: u16) = (ucast (drop_bit k n) :: u8)"
    and hi: "ucast (drop_bit 8 (ucast (drop_bit k n) :: u16)) = (ucast (drop_bit (k + 8) n) :: u8)"
    using k by (auto intro!: word_eqI_bits simp: bit_unsigned_iff bit_drop_bit_eq algebra_simps)
  have "[k..<k + 16] = [k..<k + 8] @ [k + 8..<k + 8 + 8]"
    using upt_add_eq_append [of k "k + 8" 8] by (simp add: add.assoc)
  then show ?thesis
    unfolding crcu16_def Let_def lo hi
    using crcu8_bits [of k n] crcu8_bits [of "k + 8" n] k by simp
qed

section \<open>Properties\<close>

text \<open>C13: Every CRC function of the file runs the bit-serial register of the polynomial
  x^16 + x^15 + x^2 + 1 (reflected: 0xA001) over the bits of its argument, least significant bit
  first: 8 of them in \<open>crcu8\<close>, 16 in \<open>crcu16\<close> and \<open>crc16\<close>, 32 in \<open>crcu32\<close>.\<close>

theorem crc_is_shift_register:
  "crcu8 d c = fold lfsr (map (bit d) [0..<8]) c
   \<and> crcu16 n c = fold lfsr (map (bit n) [0..<16]) c
   \<and> crc16 n c = crcu16 n c
   \<and> crcu32 w c = fold lfsr (map (bit w) [0..<32]) c"
proof -
  have n: "crcu16 n c = fold lfsr (map (bit n) [0..<16]) c"
    using crcu16_bits [of 0 n c] by simp
  have "crcu32 w c = fold lfsr (map (bit w) ([0..<16] @ [16..<16 + 16])) c"
    using crcu16_bits [of 0 w c] crcu16_bits [of 16 w "fold lfsr (map (bit w) [0..<16]) c"]
    by (simp add: crcu32_def crc16_def Let_def)
  moreover have "[0..<16] @ [16..<16 + 16] = [0..<32::nat]" by (simp add: upt_rec)
  ultimately show ?thesis using n by (simp only: crcu8_lfsr crc16_def simp_thms)
qed

text \<open>The CRC is linear, and a byte enters it only through its sum with the low byte of
  the register: eight turns of the loop are one shift by 8 and one look-up in a table of 256
  entries.\<close>

theorem crc_byte_table:
  "crcu8 d c = drop_bit 8 c XOR crcu8 (d XOR ucast c) 0
   \<and> crcu8 (d XOR d') (c XOR c') = crcu8 d c XOR crcu8 d' c'"
  by (simp only: crcu8_table [of d c, symmetric] crcu8_xor simp_thms)

text \<open>Two result sequences that differ in exactly one 16-bit value never have the same
  CRC, whatever the seed, the position of the difference and the values around it; nor do equal
  sequences from different seeds.\<close>

theorem crc_detects_single_change:
  "(fold crc16 (xs @ m # ys) c = fold crc16 (xs @ n # ys) c \<longleftrightarrow> m = n)
   \<and> (fold crc16 xs c = fold crc16 xs d \<longleftrightarrow> c = d)"
proof -
  have "m = n" if "fold crc16 (xs @ m # ys) c = fold crc16 (xs @ n # ys) c"
  proof -
    have "fold crc16 ys (crc16 m (fold crc16 xs c)) = fold crc16 ys (crc16 n (fold crc16 xs c))"
      using that by simp
    from fold_crc16_inj [OF this] show ?thesis by (simp add: crc16_def crcu16_data_inj)
  qed
  moreover have "c = d" if "fold crc16 xs c = fold crc16 xs d"
    using that by (rule fold_crc16_inj)
  ultimately show ?thesis by blast
qed

end
