(* ===== verification/Bits.thy ===== *)
theory Bits
  imports Prelude
begin

text \<open>
  The bit helpers of \<^verbatim>\<open>sw/librtor/bits.h\<close>. C leaves a shift by 32 or more on a 32-bit
  operand undefined, so the two shifts are partial (\<open>None\<close>), and every helper built on them
  inherits that; the header's own "XXX: check that gcc handles shift by more bit-width as
  expected" is about these cases. \<open>1 << 31\<close> and the subtraction from it in \<open>bits_mask\<close> are on
  \<open>int\<close>; they are read as the two's complement result rv32i gives.

  A word is also a row of pins; the interface \<open>pin_word\<close> states what a client that assigns
  and reads single bits relies on, and the code's helpers are an instance of it.
\<close>

section \<open>The code\<close>

definition shl32 :: "u32 \<Rightarrow> u32 \<Rightarrow> u32 option" where
  "shl32 x n = (if n < 32 then Some (push_bit (unat n) x) else None)"

definition shr32 :: "u32 \<Rightarrow> u32 \<Rightarrow> u32 option" where
  "shr32 x n = (if n < 32 then Some (drop_bit (unat n) x) else None)"

definition bit_clr :: "u32 \<Rightarrow> u32 \<Rightarrow> u32 option" where
  "bit_clr x b = map_option (\<lambda>m. x AND NOT m) (shl32 1 b)"

definition bit_set :: "u32 \<Rightarrow> u32 \<Rightarrow> u32 option" where
  "bit_set x b = map_option (\<lambda>m. x OR m) (shl32 1 b)"

definition bit_assign :: "u32 \<Rightarrow> u32 \<Rightarrow> u32 \<Rightarrow> u32 option" where
  "bit_assign x b val =
     Option.bind (bit_clr x b) (\<lambda>x. map_option (\<lambda>v. x OR v) (shl32 val b))"

definition bit_is_on :: "u32 \<Rightarrow> u32 \<Rightarrow> u32 option" where
  "bit_is_on x b = map_option (\<lambda>s. s AND 1) (shr32 x b)"

definition bit_is_off :: "u32 \<Rightarrow> u32 \<Rightarrow> u32 option" where
  "bit_is_off x b = map_option (\<lambda>v. if v = 0 then 1 else 0) (bit_is_on x b)"

definition bits_mask :: "u32 \<Rightarrow> u32 option" where
  "bits_mask nbits = (if nbits = 32 then Some (NOT 0) else map_option (\<lambda>m. m - 1) (shl32 1 nbits))"

definition bits_get :: "u32 \<Rightarrow> u32 \<Rightarrow> u32 \<Rightarrow> u32 option" where
  "bits_get x lb ub =
     Option.bind (shr32 x lb) (\<lambda>s. map_option (\<lambda>m. s AND m) (bits_mask (ub - lb + 1)))"

definition bits_clr :: "u32 \<Rightarrow> u32 \<Rightarrow> u32 \<Rightarrow> u32 option" where
  "bits_clr x lb ub =
     Option.bind (bits_mask (ub - lb + 1)) (\<lambda>mask. map_option (\<lambda>m. x AND NOT m) (shl32 mask lb))"

definition bits_set :: "u32 \<Rightarrow> u32 \<Rightarrow> u32 \<Rightarrow> u32 \<Rightarrow> u32 option" where
  "bits_set x lb ub v =
     Option.bind (bits_clr x lb ub) (\<lambda>c. map_option (\<lambda>w. c OR w) (shl32 v lb))"

definition bits_eq :: "u32 \<Rightarrow> u32 \<Rightarrow> u32 \<Rightarrow> u32 \<Rightarrow> u32 option" where
  "bits_eq x lb ub val = map_option (\<lambda>v. if v = val then 1 else 0) (bits_get x lb ub)"

text \<open>The loop of \<open>bit_count\<close>: \<open>n\<close> turns remain, \<open>i\<close> is the loop variable.\<close>

primrec bit_count_loop :: "nat \<Rightarrow> u32 \<Rightarrow> u32 \<Rightarrow> u32 \<Rightarrow> u32 option" where
  "bit_count_loop 0 x i cnt = Some cnt"
| "bit_count_loop (Suc n) x i cnt =
     Option.bind (bit_is_on x i)
       (\<lambda>on. bit_count_loop n x (i + 1) (if on \<noteq> 0 then cnt + 1 else cnt))"

definition bit_count :: "u32 \<Rightarrow> u32 option" where
  "bit_count x = bit_count_loop 32 x 0 0"

definition bits_union :: "u32 \<Rightarrow> u32 \<Rightarrow> u32" where
  "bits_union x y = x OR y"

definition bits_intersect :: "u32 \<Rightarrow> u32 \<Rightarrow> u32" where
  "bits_intersect x y = x AND y"

definition bits_not :: "u32 \<Rightarrow> u32" where
  "bits_not x = NOT x"

definition bits_diff :: "u32 \<Rightarrow> u32 \<Rightarrow> u32" where
  "bits_diff A B = bits_intersect A (bits_not B)"

section \<open>Single bits\<close>

lemma shl32_Some: "n < 32 \<Longrightarrow> shl32 x n = Some (push_bit (unat n) x)"
  and shl32_None_iff: "shl32 x n = None \<longleftrightarrow> 32 \<le> n"
  and shr32_Some: "n < 32 \<Longrightarrow> shr32 x n = Some (drop_bit (unat n) x)"
  and shr32_None_iff: "shr32 x n = None \<longleftrightarrow> 32 \<le> n"
  by (auto simp: shl32_def shr32_def not_less)

lemma unat_less_32: "(n :: u32) < 32 \<Longrightarrow> unat n < 32"
  by (simp add: word_less_nat_alt)

lemma bit_clr_Some:
  "b < 32 \<Longrightarrow> bit_clr x b = Some (unset_bit (unat b) x)"
  by (auto simp: bit_clr_def shl32_Some intro!: word_eqI_bits)
     (auto simp: word_bits bit_unset_bit_iff bit_1_iff bit_exp_iff)

lemma bit_set_Some:
  "b < 32 \<Longrightarrow> bit_set x b = Some (Bit_Operations.set_bit (unat b) x)"
  by (auto simp: bit_set_def shl32_Some intro!: word_eqI_bits)
     (auto simp: word_bits bit_set_bit_iff bit_1_iff bit_exp_iff)

lemma bit_is_on_Some:
  "b < 32 \<Longrightarrow> bit_is_on x b = Some (if bit x (unat b) then 1 else 0)"
  by (auto simp: bit_is_on_def shr32_Some and_one_eq odd_iff_mod_2_eq_one bit_iff_odd_drop_bit)

lemma bit_helpers_undefined:
  "32 \<le> b \<Longrightarrow> bit_clr x b = None \<and> bit_set x b = None \<and> bit_assign x b v = None
     \<and> bit_is_on x b = None \<and> bit_is_off x b = None"
  by (simp add: bit_clr_def bit_set_def bit_assign_def bit_is_on_def bit_is_off_def
      shl32_def shr32_def not_less)

lemma bit_assign_Some:
  assumes "b < 32" and "v \<in> {0, 1}"
  shows "bit_assign x b v =
    Some (if v = 1 then Bit_Operations.set_bit (unat b) x else unset_bit (unat b) x)"
proof -
  have "unset_bit (unat b) x OR push_bit (unat b) v =
      (if v = 1 then Bit_Operations.set_bit (unat b) x else unset_bit (unat b) x)"
    using assms(2) unat_less_32 [OF assms(1)]
    by (auto intro!: word_eqI_bits
        simp: word_bits bit_set_bit_iff bit_unset_bit_iff bit_exp_iff)
  then show ?thesis
    using assms(1) by (simp add: bit_assign_def bit_clr_Some shl32_Some)
qed

lemma bit_is_off_Some:
  "b < 32 \<Longrightarrow> bit_is_off x b = Some (if bit x (unat b) then 0 else 1)"
  by (simp add: bit_is_off_def bit_is_on_Some)

section \<open>Fields of several bits\<close>

lemma bits_mask_Some: "n \<le> 32 \<Longrightarrow> bits_mask n = Some (mask (unat n))"
  by (auto simp: bits_mask_def shl32_Some mask_eq_exp_minus_1 less_le)

lemma bits_mask_None_iff: "bits_mask n = None \<longleftrightarrow> 32 < n"
  by (auto simp: bits_mask_def shl32_None_iff less_le not_less)

lemma field_width:
  assumes "(lb :: u32) \<le> ub" and "ub < 32"
  shows "unat (ub - lb + 1) = unat ub - unat lb + 1" and "ub - lb + 1 \<le> 32" and "lb < 32"
proof -
  have le: "unat lb \<le> unat ub" "unat ub < 32"
    using assms by (auto simp: word_le_nat_alt word_less_nat_alt)
  then show w: "unat (ub - lb + 1) = unat ub - unat lb + 1"
    using assms by (simp add: unat_word_ariths unat_sub)
  show "ub - lb + 1 \<le> 32" using le by (simp add: word_le_nat_alt w)
  show "lb < 32" using le by (simp add: word_less_nat_alt)
qed

lemma bits_get_Some:
  assumes "lb \<le> ub" and "ub < 32"
  shows "bits_get x lb ub = Some (take_bit (unat ub - unat lb + 1) (drop_bit (unat lb) x))"
  by (simp add: bits_get_def shr32_Some bits_mask_Some field_width [OF assms] take_bit_eq_mask)

lemma bits_get_None_iff: "bits_get x lb ub = None \<longleftrightarrow> 32 \<le> lb \<or> 32 < ub - lb + 1"
  by (auto simp: bits_get_def shr32_def bits_mask_None_iff bind_eq_None_conv not_less)

lemma bits_clr_Some:
  assumes "lb \<le> ub" and "ub < 32"
  shows "bits_clr x lb ub = Some (x AND NOT (push_bit (unat lb) (mask (unat ub - unat lb + 1))))"
  by (simp add: bits_clr_def shl32_Some bits_mask_Some field_width [OF assms])

lemma bits_set_Some:
  assumes "lb \<le> ub" and "ub < 32"
  shows "bits_set x lb ub v =
    Some ((x AND NOT (push_bit (unat lb) (mask (unat ub - unat lb + 1)))) OR push_bit (unat lb) v)"
  by (simp add: bits_set_def bits_clr_Some [OF assms] shl32_Some field_width [OF assms])

lemma bit_fits:
  assumes "unat (v :: u32) < 2 ^ w" and "w \<le> n"
  shows "\<not> bit v n"
proof -
  have "take_bit w (unat v) = unat v" using assms(1) by (simp add: take_bit_nat_eq_self)
  then have "take_bit w v = v" by (simp add: word_unat_eq_iff unsigned_take_bit_eq)
  then have "bit v n = bit (take_bit w v) n" by simp
  then show ?thesis using assms(2) by (simp add: bit_take_bit_iff)
qed

text \<open>A value that fits the field is read back, and the bits outside the field stay.\<close>

lemma bits_set_get:
  assumes r: "lb \<le> ub" "ub < 32" and v: "unat v < 2 ^ (unat ub - unat lb + 1)"
    and y: "bits_set x lb ub v = Some y"
  shows "bits_get y lb ub = Some v"
    and "\<And>n. n < unat lb \<or> unat ub < n \<Longrightarrow> bit y n = bit x n"
proof -
  have le: "unat lb \<le> unat ub" "unat ub < 32"
    using r by (auto simp: word_le_nat_alt word_less_nat_alt)
  note yb = y [unfolded bits_set_Some [OF r] option.inject, symmetric]
  note out = bit_fits [OF v]
  show "bits_get y lb ub = Some v"
    unfolding bits_get_Some [OF r] option.inject
    using le out by (intro word_eqI_bits) (auto simp: yb word_bits bit_take_bit_iff not_less)
  fix n assume n: "n < unat lb \<or> unat ub < n"
  then have "unat lb \<le> n \<Longrightarrow> \<not> bit v (n - unat lb)"
    using le by (intro out) auto
  then show "bit y n = bit x n"
    using n le by (cases "n < 32") (auto simp: yb word_bits)
qed

section \<open>Counting\<close>

lemma bit_count_loop_filter:
  assumes "unat i + n \<le> 32"
  shows "bit_count_loop n x i cnt =
    Some (cnt + of_nat (length (filter (bit x) [unat i..<unat i + n])))"
  using assms
proof (induction n arbitrary: i cnt)
  case 0
  show ?case by simp
next
  case (Suc n)
  then have i: "i < 32" and i1: "unat (i + 1) = Suc (unat i)"
    by (simp_all add: word_less_nat_alt unat_word_ariths)
  have "bit_count_loop (Suc n) x i cnt =
      bit_count_loop n x (i + 1) (if bit x (unat i) then cnt + 1 else cnt)"
    by (simp add: bit_is_on_Some i)
  also have "\<dots> = Some (cnt + of_nat (length (filter (bit x) [unat i..<unat i + Suc n])))"
    using Suc.prems by (subst Suc.IH) (auto simp: i1 upt_conv_Cons simp del: upt_Suc)
  finally show ?case .
qed

lemma bit_count_Some: "bit_count x = Some (of_nat (length (filter (bit x) [0..<32])))"
  using bit_count_loop_filter [of 0 32 x 0] by (simp add: bit_count_def del: upt_Suc)

section \<open>A word of pins\<close>

text \<open>
  The contract the GPIO driver relies on: assigning 0 or 1 to one position of a word is
  defined, is read back, and leaves every other position alone.
\<close>

locale pin_word =
  fixes asg :: "'w \<Rightarrow> u32 \<Rightarrow> u32 \<Rightarrow> 'w option"
    and lvl :: "'w \<Rightarrow> u32 \<Rightarrow> u32 option"
  assumes asg_defined: "b < 32 \<Longrightarrow> v \<in> {0, 1} \<Longrightarrow> \<exists>y. asg x b v = Some y"
    and asg_same: "b < 32 \<Longrightarrow> v \<in> {0, 1} \<Longrightarrow> asg x b v = Some y \<Longrightarrow> lvl y b = Some v"
    and asg_other: "b < 32 \<Longrightarrow> c < 32 \<Longrightarrow> c \<noteq> b \<Longrightarrow> v \<in> {0, 1} \<Longrightarrow> asg x b v = Some y
      \<Longrightarrow> lvl y c = lvl x c"
begin

primrec asgs :: "'w \<Rightarrow> (u32 \<times> u32) list \<Rightarrow> 'w option" where
  "asgs x [] = Some x"
| "asgs x (w # ws) = Option.bind (asg x (fst w) (snd w)) (\<lambda>y. asgs y ws)"

text \<open>After any sequence of writes every pin has the value last written to it.\<close>

lemma asgs_last_write:
  assumes "\<forall>(b, v) \<in> set ws. b < 32 \<and> v \<in> {0, 1}" and "c < 32"
  shows "\<exists>y. asgs x ws = Some y \<and>
    lvl y c = (case map_of (rev ws) c of Some v \<Rightarrow> Some v | None \<Rightarrow> lvl x c)"
  using assms(1)
proof (induction ws arbitrary: x)
  case Nil
  show ?case by simp
next
  case (Cons w ws)
  obtain b v where w: "w = (b, v)" and b: "b < 32" and v: "v \<in> {0, 1}"
    using Cons.prems by (cases w) auto
  obtain x' where x': "asg x b v = Some x'" using asg_defined [OF b v] by blast
  obtain y where y: "asgs x' ws = Some y"
      "lvl y c = (case map_of (rev ws) c of Some v \<Rightarrow> Some v | None \<Rightarrow> lvl x' c)"
    using Cons.IH [of x'] Cons.prems by auto
  have "lvl x' c = (if c = b then Some v else lvl x c)"
    using asg_same [OF b v x'] asg_other [OF b assms(2) _ v x'] by simp
  with y show ?case by (auto simp: w x' map_add_def split: option.splits)
qed

end

interpretation pins: pin_word bit_assign bit_is_on
proof unfold_locales
  fix b c v x y :: u32
  assume b: "b < 32" and v: "v \<in> {0, 1}"
  show "\<exists>y. bit_assign x b v = Some y" by (simp add: bit_assign_Some [OF b v])
  assume y: "bit_assign x b v = Some y"
  show "bit_is_on y b = Some v"
    using y v unat_less_32 [OF b]
    by (auto simp: bit_assign_Some [OF b v] bit_is_on_Some b bit_set_bit_iff bit_unset_bit_iff)
  assume c: "c < 32" "c \<noteq> b"
  then have "unat c \<noteq> unat b" by (simp add: word_unat_eq_iff)
  then show "bit_is_on y c = bit_is_on x c"
    using y by (auto simp: bit_assign_Some [OF b v] bit_is_on_Some c bit_set_bit_iff
        bit_unset_bit_iff split: if_splits)
qed

section \<open>Properties\<close>

text \<open>C32: \<open>bits_set\<close> followed by \<open>bits_get\<close> on a field \<open>[lb, ub]\<close> of a 32-bit word is defined,
  reads back the value written when it fits the field, and leaves every bit outside the field
  as it was.\<close>
theorem bits_set_get_roundtrip:
  assumes "lb \<le> ub" and "ub < 32" and "unat v < 2 ^ (unat ub - unat lb + 1)"
  shows "\<exists>y. bits_set x lb ub v = Some y \<and> bits_get y lb ub = Some v
    \<and> (\<forall>n. n < unat lb \<or> unat ub < n \<longrightarrow> bit y n = bit x n)"
  using bits_set_get [OF assms] bits_set_Some [OF assms(1,2)] by auto

theorem bits_set_get_roundtrip_witness:
  "\<exists>y. bits_set 0xffff0000 4 7 9 = Some y \<and> bits_get y 4 7 = Some 9
    \<and> (\<forall>n. n < unat (4::u32) \<or> unat (7::u32) < n \<longrightarrow> bit y n = bit (0xffff0000::u32) n)"
  by (rule bits_set_get_roundtrip) simp_all

text \<open>The condition on the value is needed: \<open>bits_set\<close> does not mask it, and a value wider than
  the field changes the bits above the field.\<close>

lemma bits_set_wide_leaks:
  "bits_set 0 0 3 0x10 = Some 0x10 \<and> bits_get 0x10 0 3 = Some 0"
  by (simp add: bits_set_def bits_clr_def bits_mask_def shl32_def bits_get_def shr32_def)

text \<open>\<open>bits_get\<close> has a defined result exactly when its lower bound is below 32 and the field,
  computed modulo 2^32 as \<open>ub - lb + 1\<close>, is at most 32 bits wide; any other arguments reach a
  shift by the operand's width or more, which C leaves undefined.\<close>
theorem bits_get_defined_iff:
  "(\<exists>r. bits_get x lb ub = Some r) \<longleftrightarrow> lb < 32 \<and> ub - lb + 1 \<le> 32"
  using bits_get_None_iff [of x lb ub] by (cases "bits_get x lb ub") (auto simp: not_less not_le)

text \<open>\<open>bit_count\<close> returns the number of set bits of its argument, for every 32-bit word,
  and none of its 32 shifts is undefined.\<close>
theorem bit_count_is_popcount: "\<exists>r. bit_count x = Some r \<and> unat r = card {i. bit x i}"
proof -
  have "{i. bit x i} = set (filter (bit x) [0..<32])"
    by (auto dest: bit_imp_le_length)
  then have c: "card {i. bit x i} = length (filter (bit x) [0..<32])"
    by (metis distinct_card distinct_filter distinct_upt)
  have "length (filter (bit x) [0..<32]) \<le> 32"
    using length_filter_le [of "bit x" "[0..<32]"] by (simp del: upt_Suc)
  then show ?thesis
    by (simp add: bit_count_Some c unat_of_nat del: upt_Suc)
qed

end
