(* ===== verification/Memory.thy ===== *)
theory Memory
  imports Prelude
begin

text \<open>
  The byte-addressed store of rv32i and the accessors of \<^verbatim>\<open>sw/librtor/mem.h\<close>. A store maps
  every 32-bit address to a byte; pointer arithmetic wraps at 2^32. Words are little endian.
\<close>

type_synonym mem = "ptr \<Rightarrow> u8"

section \<open>Accessors\<close>

definition get8 :: "mem \<Rightarrow> ptr \<Rightarrow> u8" where
  "get8 m a = m a"

definition put8 :: "mem \<Rightarrow> ptr \<Rightarrow> u8 \<Rightarrow> mem" where
  "put8 m a v = m(a := v)"

definition get32 :: "mem \<Rightarrow> ptr \<Rightarrow> u32" where
  "get32 m a = ucast (m a) OR push_bit 8 (ucast (m (a + 1)))
     OR push_bit 16 (ucast (m (a + 2))) OR push_bit 24 (ucast (m (a + 3)))"

definition put32 :: "mem \<Rightarrow> ptr \<Rightarrow> u32 \<Rightarrow> mem" where
  "put32 m a v = m(a := ucast v, a + 1 := ucast (drop_bit 8 v),
     a + 2 := ucast (drop_bit 16 v), a + 3 := ucast (drop_bit 24 v))"

lemma word32_bytes:
  fixes v :: u32
  shows "ucast (ucast v :: u8) OR push_bit 8 (ucast (ucast (drop_bit 8 v) :: u8))
     OR push_bit 16 (ucast (ucast (drop_bit 16 v) :: u8))
     OR push_bit 24 (ucast (ucast (drop_bit 24 v) :: u8)) = v"
proof (rule word_eqI_bits)
  fix n assume n: "n < LENGTH(32)"
  consider "n < 8" | "8 \<le> n \<and> n < 16" | "16 \<le> n \<and> n < 24" | "24 \<le> n" by linarith
  then show "bit (ucast (ucast v :: u8) OR push_bit 8 (ucast (ucast (drop_bit 8 v) :: u8))
     OR push_bit 16 (ucast (ucast (drop_bit 16 v) :: u8))
     OR push_bit 24 (ucast (ucast (drop_bit 24 v) :: u8)) :: u32) n = bit v n"
    using n by cases (auto simp: word_bits bit_unsigned_iff)
qed

lemma get32_put32: "get32 (put32 m a v) a = v"
  using word32_bytes [of v] by (simp add: get32_def put32_def)

section \<open>Byte ranges\<close>

text \<open>\<open>a\<close> is one of the \<open>n\<close> bytes from \<open>p\<close>, modulo 2^32.\<close>

definition in_range :: "ptr \<Rightarrow> ptr \<Rightarrow> nat \<Rightarrow> bool" where
  "in_range a p n \<longleftrightarrow> unat (a - p) < n"

text \<open>The bytes \<open>p, \<dots>, p + n - 1\<close> as a list.\<close>

definition bytes_at :: "mem \<Rightarrow> ptr \<Rightarrow> nat \<Rightarrow> u8 list" where
  "bytes_at m p n = map (\<lambda>i. m (p + of_nat i)) [0..<n]"

text \<open>A NUL-terminated string at \<open>p\<close>.\<close>

fun cstr :: "mem \<Rightarrow> ptr \<Rightarrow> u8 list \<Rightarrow> bool" where
  "cstr m p [] \<longleftrightarrow> m p = 0"
| "cstr m p (c # cs) \<longleftrightarrow> m p = c \<and> c \<noteq> 0 \<and> cstr m (p + 1) cs"

lemma length_bytes_at [simp]: "length (bytes_at m p n) = n"
  by (simp add: bytes_at_def)

lemma nth_bytes_at [simp]: "i < n \<Longrightarrow> bytes_at m p n ! i = m (p + of_nat i)"
  by (simp add: bytes_at_def)

lemma bytes_at_0 [simp]: "bytes_at m p 0 = []"
  by (simp add: bytes_at_def)

lemma bytes_at_Suc: "bytes_at m p (Suc n) = m p # bytes_at m (p + 1) n"
  unfolding bytes_at_def
  by (subst upt_conv_Cons) (simp_all add: map_Suc_upt [symmetric] o_def algebra_simps del: upt_Suc)

lemma in_range_iff: "n \<le> 2 ^ 32 \<Longrightarrow> in_range a p n \<longleftrightarrow> (\<exists>i < n. a = p + of_nat i)"
proof
  assume "in_range a p n"
  then have "a = p + of_nat (unat (a - p)) \<and> unat (a - p) < n"
    by (simp add: in_range_def)
  then show "\<exists>i < n. a = p + of_nat i" by blast
qed (auto simp: in_range_def unat_of_nat)

lemma in_range_Suc: "n < 2 ^ 32 \<Longrightarrow> in_range a p (Suc n) \<longleftrightarrow> a = p \<or> in_range a (p + 1) n"
proof (cases "a = p")
  case False
  assume n: "n < 2 ^ 32"
  let ?d = "a - p"
  have d: "?d \<noteq> 0" using False by simp
  then have pos: "0 < unat ?d" by (simp add: unat_gt_0)
  have "a - (p + 1) = ?d - 1" by simp
  then have "unat (a - (p + 1)) = unat ?d - 1"
    using unat_minus_one [OF d] by (simp only:)
  then show ?thesis using False pos by (auto simp: in_range_def)
qed (simp add: in_range_def)

lemma cstr_bytes_at: "cstr m p s \<Longrightarrow> bytes_at m p (length s) = s"
  by (induction s arbitrary: p) (auto simp: bytes_at_Suc)

lemma cstr_unique: "cstr m p s \<Longrightarrow> cstr m p t \<Longrightarrow> s = t"
proof (induction s arbitrary: p t)
  case Nil
  then show ?case by (cases t) auto
next
  case (Cons c cs)
  then show ?case by (cases t) auto
qed

lemma ptr_at_iff:
  fixes a p :: ptr
  assumes "k < 2 ^ 32"
  shows "a = p + of_nat k \<longleftrightarrow> unat (a - p) = k"
proof
  assume "unat (a - p) = k"
  moreover have "a = p + of_nat (unat (a - p))" by simp
  ultimately show "a = p + of_nat k" by metis
qed (use assms in \<open>simp add: unat_of_nat\<close>)

lemma unat_add_of_nat:
  fixes b :: ptr
  shows "unat b + k < 2 ^ 32 \<Longrightarrow> unat (b + of_nat k) = unat b + k"
  by (simp add: unat_word_ariths unat_of_nat)

section \<open>Writing a list of bytes\<close>

primrec store_bytes :: "mem \<Rightarrow> ptr \<Rightarrow> u8 list \<Rightarrow> mem" where
  "store_bytes m p [] = m"
| "store_bytes m p (c # cs) = store_bytes (m(p := c)) (p + 1) cs"

lemma store_bytes_append:
  "store_bytes m p (cs @ ds) = store_bytes (store_bytes m p cs) (p + of_nat (length cs)) ds"
  by (induction cs arbitrary: m p) (simp_all add: add.assoc)

lemma store_bytes_at:
  assumes "length cs \<le> 2 ^ 32"
  shows "store_bytes m p cs a = (let i = unat (a - p) in if i < length cs then cs ! i else m a)"
  using assms
proof (induction cs arbitrary: m p)
  case (Cons c cs)
  then have n: "length cs < 2 ^ 32" by simp
  show ?case
  proof (cases "a = p")
    case True
    have "\<not> unat (p - (p + 1)) < length cs"
      using n by (simp add: unsigned_minus_1_eq_mask mask_eq_exp_minus_1)
    with Cons True show ?thesis by (simp add: Let_def)
  next
    case False
    let ?d = "a - p"
    have d: "?d \<noteq> 0" using False by simp
    then have pos: "0 < unat ?d" by (simp add: unat_gt_0)
    have "a - (p + 1) = ?d - 1" by simp
    then have "unat (a - (p + 1)) = unat ?d - 1"
      using unat_minus_one [OF d] by (simp only:)
    with Cons False pos show ?thesis by (auto simp: Let_def nth_Cons')
  qed
qed simp

lemma bytes_at_store_bytes: "length cs \<le> 2 ^ 32 \<Longrightarrow> bytes_at (store_bytes m p cs) p (length cs) = cs"
  by (intro nth_equalityI) (simp_all add: store_bytes_at Let_def unat_of_nat)

lemma store_bytes_outside:
  "length cs \<le> 2 ^ 32 \<Longrightarrow> \<not> in_range a p (length cs) \<Longrightarrow> store_bytes m p cs a = m a"
  by (simp add: store_bytes_at in_range_def Let_def)

end
