(* ===== verification/Libc.thy ===== *)
theory Libc
  imports Memory
begin

text \<open>
  \<^verbatim>\<open>sw/librtor/libc/libc.c\<close>. A loop \<open>while (n--)\<close> runs its body exactly \<open>n\<close> times and is a
  recursion on that number; the two loops that end only at a NUL byte (\<open>strlen\<close>, \<open>strcmp\<close>) are
  partial, \<open>None\<close> standing for a loop that does not end.
\<close>

section \<open>The code\<close>

primrec memchr_loop :: "nat \<Rightarrow> mem \<Rightarrow> ptr \<Rightarrow> s32 \<Rightarrow> ptr" where
  "memchr_loop 0 m sp c = NULL"
| "memchr_loop (Suc n) m sp c = (if m sp = ucast c then sp else memchr_loop n m (sp + 1) c)"

definition memchr :: "mem \<Rightarrow> ptr \<Rightarrow> s32 \<Rightarrow> u32 \<Rightarrow> ptr" where
  "memchr m s c n = memchr_loop (unat n) m s c"

primrec memcmp_loop :: "nat \<Rightarrow> mem \<Rightarrow> ptr \<Rightarrow> ptr \<Rightarrow> s32 \<Rightarrow> s32" where
  "memcmp_loop 0 m c1 c2 d = d"
| "memcmp_loop (Suc n) m c1 c2 d =
     (let d = ucast (m c1) - ucast (m c2)
      in if d \<noteq> 0 then d else memcmp_loop n m (c1 + 1) (c2 + 1) d)"

definition memcmp :: "mem \<Rightarrow> ptr \<Rightarrow> ptr \<Rightarrow> u32 \<Rightarrow> s32" where
  "memcmp m s1 s2 n = memcmp_loop (unat n) m s1 s2 0"

primrec copy_up :: "nat \<Rightarrow> mem \<Rightarrow> ptr \<Rightarrow> ptr \<Rightarrow> mem" where
  "copy_up 0 m q p = m"
| "copy_up (Suc n) m q p = copy_up n (m(q := m p)) (q + 1) (p + 1)"

primrec copy_down :: "nat \<Rightarrow> mem \<Rightarrow> ptr \<Rightarrow> ptr \<Rightarrow> mem" where
  "copy_down 0 m a b = m"
| "copy_down (Suc n) m a b = copy_down n (m(a := m b)) (a - 1) (b - 1)"

definition memcpy :: "mem \<Rightarrow> ptr \<Rightarrow> ptr \<Rightarrow> u32 \<Rightarrow> mem \<times> ptr" where
  "memcpy m dst src n = (copy_up (unat n) m dst src, dst)"

definition memmove :: "mem \<Rightarrow> ptr \<Rightarrow> ptr \<Rightarrow> u32 \<Rightarrow> mem \<times> ptr" where
  "memmove m dst src count =
     (if src = dst then (m, dst)
      else if src > dst then (copy_up (unat count) m dst src, dst)
      else (copy_down (unat count) m (dst + (count - 1)) (src + (count - 1)), dst))"

primrec memset_loop :: "nat \<Rightarrow> mem \<Rightarrow> ptr \<Rightarrow> s32 \<Rightarrow> mem" where
  "memset_loop 0 m q c = m"
| "memset_loop (Suc n) m q c = memset_loop n (m(q := ucast c)) (q + 1) c"

definition memset :: "mem \<Rightarrow> ptr \<Rightarrow> s32 \<Rightarrow> u32 \<Rightarrow> mem \<times> ptr" where
  "memset m dst c n = (memset_loop (unat n) m dst c, dst)"

primrec memswap_loop :: "nat \<Rightarrow> mem \<Rightarrow> ptr \<Rightarrow> ptr \<Rightarrow> mem" where
  "memswap_loop 0 m p q = m"
| "memswap_loop (Suc n) m p q =
     (let tmp = m p; m = m(p := m q); m = m(q := tmp) in memswap_loop n m (p + 1) (q + 1))"

definition memswap :: "mem \<Rightarrow> ptr \<Rightarrow> ptr \<Rightarrow> u32 \<Rightarrow> mem" where
  "memswap m m1 m2 n = memswap_loop (unat n) m m1 m2"

definition newgap :: "u32 \<Rightarrow> u32" where
  "newgap gap =
     (let gap = (gap * 10) div 13;
          gap = (if gap = 9 \<or> gap = 10 then 11 else gap)
      in if gap < 1 then 1 else gap)"

partial_function (option) strcmp :: "mem \<Rightarrow> ptr \<Rightarrow> ptr \<Rightarrow> s32 option" where
  "strcmp m a b =
     (let ac = m a; bc = m b
      in if ac = 0 \<or> bc = 0 \<or> ac \<noteq> bc
         then Some ((if ac > bc then 1 else 0) - (if ac < bc then 1 else 0))
         else strcmp m (a + 1) (b + 1))"

partial_function (option) strlen_loop :: "mem \<Rightarrow> ptr \<Rightarrow> u32 \<Rightarrow> u32 option" where
  "strlen_loop m p ret = (if m (p + ret) \<noteq> 0 then strlen_loop m p (ret + 1) else Some ret)"

definition strlen :: "mem \<Rightarrow> ptr \<Rightarrow> u32 option" where
  "strlen m p = strlen_loop m p 0"

section \<open>Copying\<close>

text \<open>
  What a copy of \<open>n\<close> bytes from \<open>p\<close> to \<open>q\<close> is to produce: the bytes \<open>m\<close> held before, also
  where the two ranges overlap.
\<close>

definition moved :: "nat \<Rightarrow> mem \<Rightarrow> ptr \<Rightarrow> ptr \<Rightarrow> mem" where
  "moved n m q p = (\<lambda>a. if in_range a q n then m (p + (a - q)) else m a)"

text \<open>Copying upwards is right unless the destination starts inside the source, behind its
  start.\<close>

lemma copy_up_moved:
  assumes "unat (q - p) = 0 \<or> n \<le> unat (q - p)" and "n \<le> 2 ^ 32"
  shows "copy_up n m q p = moved n m q p"
  using assms
proof (induction n arbitrary: m q p)
  case 0
  show ?case by (simp add: moved_def in_range_def)
next
  case (Suc n)
  let ?m = "m(q := m p)"
  have IH: "copy_up n ?m (q + 1) (p + 1) = moved n ?m (q + 1) (p + 1)"
    using Suc.prems by (intro Suc.IH) auto
  have src: "p + (a - q) \<noteq> q" if "in_range a (q + 1) n" "q \<noteq> p" for a
  proof
    assume "p + (a - q) = q"
    then have "a - q = q - p" by (simp add: algebra_simps)
    moreover have "in_range a q (Suc n)"
      using that(1) Suc.prems(2) in_range_Suc [of n a q] by simp
    ultimately show False
      using Suc.prems(1) that(2) by (simp add: in_range_def unat_eq_0)
  qed
  have "moved n ?m (q + 1) (p + 1) a = moved (Suc n) m q p a" for a
    using Suc.prems(2) src [of a] in_range_Suc [of n a q]
    by (cases "q = p") (auto simp: moved_def)
  then show ?case by (intro ext) (simp only: copy_up.simps IH)
qed

lemma in_range_snoc: "n < 2 ^ 32 \<Longrightarrow> in_range a q (Suc n) \<longleftrightarrow> a = q + of_nat n \<or> in_range a q n"
  by (auto simp: in_range_iff less_Suc_eq)

text \<open>Copying downwards is right unless the source starts inside the destination, behind its
  start.\<close>

lemma copy_down_moved:
  assumes "unat (p - q) = 0 \<or> n \<le> unat (p - q)" and "n \<le> 2 ^ 32"
  shows "copy_down n m (q + (of_nat n - 1)) (p + (of_nat n - 1)) = moved n m q p"
  using assms
proof (induction n arbitrary: m)
  case 0
  show ?case by (simp add: moved_def in_range_def)
next
  case (Suc n)
  let ?m = "m(q + of_nat n := m (p + of_nat n))"
  have IH: "copy_down n ?m (q + (of_nat n - 1)) (p + (of_nat n - 1)) = moved n ?m q p"
    using Suc.prems by (intro Suc.IH) auto
  have src: "p + (a - q) \<noteq> q + of_nat n" if "in_range a q n" "q \<noteq> p" for a
  proof
    assume "p + (a - q) = q + of_nat n"
    then have d: "p - q = of_nat n - (a - q)" by (simp add: algebra_simps)
    from that(1) have lt: "unat (a - q) < n" by (simp add: in_range_def)
    then have "unat (of_nat n - (a - q)) = n - unat (a - q)"
      using Suc.prems(2) by (simp add: unat_sub word_le_nat_alt unat_of_nat)
    then have "unat (p - q) = n - unat (a - q)" by (simp only: d)
    with lt Suc.prems(1) show False by linarith
  qed
  have "moved n ?m q p a = moved (Suc n) m q p a" for a
    using Suc.prems(2) src [of a] in_range_snoc [of n a q]
    by (cases "q = p") (auto simp: moved_def)
  moreover have "copy_down (Suc n) m (q + (of_nat (Suc n) - 1)) (p + (of_nat (Suc n) - 1))
      = copy_down n ?m (q + (of_nat n - 1)) (p + (of_nat n - 1))"
    by (simp add: algebra_simps)
  ultimately show ?case by (intro ext) (simp only: IH)
qed

text \<open>A range of \<open>n\<close> bytes that does not run over the end of the address space.\<close>

abbreviation valid_range :: "ptr \<Rightarrow> u32 \<Rightarrow> bool" where
  "valid_range p n \<equiv> unat p + unat n \<le> 2 ^ 32"

lemma unat_le_2_32: "unat (n :: u32) \<le> 2 ^ 32"
  using unsigned_less [of n, where ?'a = nat] by simp

lemma diff_beyond:
  assumes "q < p" and "valid_range p n"
  shows "unat n \<le> unat (q - p)"
proof -
  have lt: "unat q < unat p" using assms(1) by (simp add: word_less_nat_alt)
  have "unat (q - p) = (2 ^ 32 + unat q - unat p) mod 2 ^ 32"
    using unsigned_less [of p, where ?'a = nat] lt by (simp add: unat_sub_if' )
  also have "\<dots> = 2 ^ 32 + unat q - unat p"
    using lt unat_le_2_32 [of p] by (intro mod_less) linarith
  finally show ?thesis using assms(2) by linarith
qed

lemma disjoint_ranges:
  assumes "unat p + unat n \<le> unat q" and "valid_range q n"
  shows "\<not> (in_range a p (unat n) \<and> in_range a q (unat n))"
proof
  assume "in_range a p (unat n) \<and> in_range a q (unat n)"
  then obtain i j where i: "i < unat n" "a = p + of_nat i" and j: "j < unat n" "a = q + of_nat j"
    by (auto simp: in_range_iff [OF unat_le_2_32])
  have "unat (p + of_nat i) = unat p + i" and "unat (q + of_nat j) = unat q + j"
    using i(1) j(1) assms by (simp_all add: unat_word_ariths unat_of_nat)
  then show False using i j assms(1) by simp
qed

lemma memmove_moved:
  assumes "valid_range src n" and "valid_range dst n"
  shows "memmove m dst src n = (moved (unat n) m dst src, dst)"
proof -
  consider "src = dst" | "dst < src" | "src < dst" by fastforce
  then show ?thesis
  proof cases
    case 1
    then show ?thesis by (auto simp: memmove_def moved_def)
  next
    case 2
    have "unat n \<le> unat (dst - src)" by (rule diff_beyond [OF 2 assms(1)])
    then have "copy_up (unat n) m dst src = moved (unat n) m dst src"
      by (intro copy_up_moved disjI2 unat_le_2_32)
    with 2 show ?thesis by (auto simp: memmove_def)
  next
    case 3
    have "unat n \<le> unat (src - dst)" by (rule diff_beyond [OF 3 assms(2)])
    then have "copy_down (unat n) m (dst + (of_nat (unat n) - 1)) (src + (of_nat (unat n) - 1))
        = moved (unat n) m dst src"
      by (intro copy_down_moved disjI2 unat_le_2_32)
    with 3 show ?thesis by (auto simp: memmove_def)
  qed
qed

lemma bytes_at_moved:
  assumes "n \<le> 2 ^ 32"
  shows "bytes_at (moved n m dst src) dst n = bytes_at m src n"
  using assms
  by (auto simp: moved_def bytes_at_def in_range_def unat_of_nat)

lemma moved_outside: "\<not> in_range a dst n \<Longrightarrow> moved n m dst src a = m a"
  by (simp add: moved_def)

lemma memset_loop_eq:
  "n \<le> 2 ^ 32 \<Longrightarrow> memset_loop n m q c = (\<lambda>a. if in_range a q n then ucast c else m a)"
proof (induction n arbitrary: m q)
  case 0
  show ?case by (simp add: in_range_def)
next
  case (Suc n)
  then show ?case by (auto simp: in_range_Suc)
qed

lemma memswap_loop_eq:
  assumes "n \<le> 2 ^ 32" and "\<And>a. \<not> (in_range a p n \<and> in_range a q n)"
  shows "memswap_loop n m p q = (\<lambda>a. if in_range a p n then m (q + (a - p))
    else if in_range a q n then m (p + (a - q)) else m a)"
  using assms
proof (induction n arbitrary: m p q)
  case 0
  show ?case by (simp add: in_range_def)
next
  case (Suc n)
  let ?m = "m(p := m q, q := m p)"
  have n: "n < 2 ^ 32" using Suc.prems(1) by simp
  note S = in_range_Suc [OF n]
  have dis: "\<not> (in_range a (p + 1) n \<and> in_range a (q + 1) n)" for a
    using Suc.prems(2) [of a] by (auto simp: S)
  have pq: "p \<noteq> q" "\<not> in_range p (q + 1) n" "\<not> in_range q (p + 1) n"
    using Suc.prems(2) [of p] Suc.prems(2) [of q] by (auto simp: S)
  have fresh: "q + (a - p) \<noteq> q \<and> q + (a - p) \<noteq> p" if "in_range a (p + 1) n" for a
  proof -
    have "in_range (q + (a - p)) (q + 1) n"
      using that by (simp add: in_range_def algebra_simps)
    moreover have "\<not> in_range q (q + 1) n"
      using n by (simp add: in_range_def unsigned_minus_1_eq_mask mask_eq_exp_minus_1)
    ultimately show ?thesis using pq by metis
  qed
  have fresh': "p + (a - q) \<noteq> p \<and> p + (a - q) \<noteq> q" if "in_range a (q + 1) n" for a
  proof -
    have "in_range (p + (a - q)) (p + 1) n"
      using that by (simp add: in_range_def algebra_simps)
    moreover have "\<not> in_range p (p + 1) n"
      using n by (simp add: in_range_def unsigned_minus_1_eq_mask mask_eq_exp_minus_1)
    ultimately show ?thesis using pq by metis
  qed
  have IH: "memswap_loop n ?m (p + 1) (q + 1) = (\<lambda>a. if in_range a (p + 1) n then ?m (q + (a - p))
      else if in_range a (q + 1) n then ?m (p + (a - q)) else ?m a)"
    using Suc.prems(1) dis by (subst Suc.IH) auto
  show ?case
    unfolding memswap_loop.simps Let_def IH fun_eq_iff
    using pq fresh fresh' by (auto simp: S)
qed

section \<open>Searching and comparing\<close>

lemma memchr_loop_find:
  "memchr_loop n m sp c = (case find (\<lambda>i. m (sp + of_nat i) = ucast c) [0..<n] of
     Some i \<Rightarrow> sp + of_nat i | None \<Rightarrow> NULL)"
proof (induction n arbitrary: sp)
  case 0
  show ?case by simp
next
  case (Suc n)
  have "find (\<lambda>i. m (sp + of_nat i) = ucast c) [0..<Suc n] =
      (if m sp = ucast c then Some 0
       else map_option Suc (find (\<lambda>i. m (sp + 1 + of_nat i) = ucast c) [0..<n]))"
    unfolding upt_conv_Cons [OF zero_less_Suc]
    by (simp add: map_Suc_upt [symmetric] find_map o_def algebra_simps del: upt_Suc)
  then show ?case
    by (auto simp: Suc.IH algebra_simps split: option.splits)
qed

text \<open>The first difference of two byte lists as a number, 0 if there is none; a list that is a
  proper prefix of the other counts as smaller, as if a 0 followed it.\<close>

fun byte_cmp :: "u8 list \<Rightarrow> u8 list \<Rightarrow> int" where
  "byte_cmp [] [] = 0"
| "byte_cmp [] (y # ys) = - uint y"
| "byte_cmp (x # xs) [] = uint x"
| "byte_cmp (x # xs) (y # ys) = (if x = y then byte_cmp xs ys else uint x - uint y)"

lemma sint_byte_diff: "sint (ucast (x :: u8) - ucast y :: s32) = uint x - uint (y :: u8)"
proof -
  have "0 \<le> uint x" "0 \<le> uint y" "uint x < 256" "uint y < 256"
    using unsigned_less [of x, where ?'a = int] unsigned_less [of y, where ?'a = int] by simp_all
  then have "- 256 < uint x - uint y" "uint x - uint y < 256" by linarith+
  then have "sint (word_of_int (uint x - uint y) :: s32) = uint x - uint y"
    by (intro sint_of_int_small) simp_all
  moreover have "(ucast x - ucast y :: s32) = word_of_int (uint x - uint y)"
    by (simp only: ucast_eq [of x] ucast_eq [of y] wi_hom_sub)
  ultimately show ?thesis by (simp only:)
qed

lemma sint_memcmp_loop:
  "sint (memcmp_loop n m c1 c2 0) = byte_cmp (bytes_at m c1 n) (bytes_at m c2 n)"
proof (induction n arbitrary: c1 c2)
  case 0
  show ?case by simp
next
  case (Suc n)
  have "(ucast (m c1) - ucast (m c2) :: s32) = 0 \<longleftrightarrow> m c1 = m c2"
    by (metis eq_iff_diff_eq_0 sint_byte_diff sint_0 uint_word_of_int_eq word_uint_eq_iff right_minus_eq)
  then show ?case
    by (auto simp: bytes_at_Suc Let_def Suc.IH sint_byte_diff)
qed

lemma byte_cmp_eq_0: "length xs = length ys \<Longrightarrow> byte_cmp xs ys = 0 \<longleftrightarrow> xs = ys"
  by (induction xs ys rule: byte_cmp.induct) (auto simp: word_uint_eq_iff)

lemma byte_cmp_eq_0_cstr:
  "0 \<notin> set xs \<Longrightarrow> 0 \<notin> set ys \<Longrightarrow> byte_cmp xs ys = 0 \<longleftrightarrow> xs = ys"
  by (induction xs ys rule: byte_cmp.induct) (auto simp: word_uint_eq_iff)

lemma byte_cmp_swap: "byte_cmp ys xs = - byte_cmp xs ys"
  by (induction xs ys rule: byte_cmp.induct) auto

lemma cstr_nonzero: "cstr m p s \<Longrightarrow> 0 \<notin> set s"
  by (induction s arbitrary: p) auto

lemma strcmp_byte_cmp:
  assumes "cstr m a s" and "cstr m b t"
  shows "strcmp m a b = Some (word_of_int (sgn (byte_cmp s t)))"
  using assms
proof (induction s t arbitrary: a b rule: byte_cmp.induct)
  case 1
  then show ?case by (simp add: strcmp.simps)
next
  case (2 y ys)
  then have "0 < uint y" by (simp add: uint_pos_iff)
  with 2 show ?case by (auto simp: strcmp.simps [of m a b] Let_def word_gt_0)
next
  case (3 x xs)
  then have "0 < uint x" by (simp add: uint_pos_iff)
  with 3 show ?case by (auto simp: strcmp.simps [of m a b] Let_def word_gt_0)
next
  case (4 x xs y ys)
  show ?case
  proof (cases "x = y")
    case True
    with 4 show ?thesis by (simp add: strcmp.simps [of m a b])
  next
    case False
    with 4 show ?thesis
      by (auto simp: strcmp.simps [of m a b] word_less_def word_uint_eq_iff)
  qed
qed

text \<open>A string fits the address space: a NUL is met within 2^32 steps or never.\<close>

lemma cstr_end: "cstr m p s \<Longrightarrow> m (p + of_nat (length s)) = 0"
proof (induction s arbitrary: p)
  case (Cons c cs)
  then have "m (p + 1 + of_nat (length cs)) = 0" by simp
  then show ?case by (simp add: algebra_simps)
qed simp

lemma cstr_nth: "cstr m p s \<Longrightarrow> i < length s \<Longrightarrow> m (p + of_nat i) \<noteq> 0"
proof (induction s arbitrary: p i)
  case (Cons c cs)
  show ?case
  proof (cases i)
    case 0
    with Cons.prems show ?thesis by simp
  next
    case (Suc j)
    with Cons.prems have "m (p + 1 + of_nat j) \<noteq> 0" by (intro Cons.IH) auto
    with Suc show ?thesis by (simp add: algebra_simps)
  qed
qed simp

lemma cstr_length: "cstr m p s \<Longrightarrow> length s < 2 ^ 32"
proof (rule ccontr)
  assume s: "cstr m p s" and "\<not> length s < 2 ^ 32"
  then have "length s mod 2 ^ 32 < length s" by (simp add: mod_less_divisor less_le_trans)
  then have "m (p + of_nat (length s mod 2 ^ 32)) \<noteq> 0" by (rule cstr_nth [OF s])
  moreover have "(of_nat (length s mod 2 ^ 32) :: ptr) = of_nat (length s)"
    by (simp add: word_unat_eq_iff unat_of_nat)
  ultimately show False using cstr_end [OF s] by simp
qed

lemma strlen_loop_cstr:
  "cstr m (p + ret) s \<Longrightarrow> strlen_loop m p ret = Some (ret + of_nat (length s))"
proof (induction s arbitrary: ret)
  case Nil
  then show ?case by (simp add: strlen_loop.simps)
next
  case (Cons c cs)
  then have "strlen_loop m p (ret + 1) = Some (ret + 1 + of_nat (length cs))"
    by (intro Cons.IH) (simp add: algebra_simps)
  with Cons.prems show ?case
    by (simp add: strlen_loop.simps [of m p ret] algebra_simps)
qed

lemma strlen_loop_ends:
  assumes "strlen_loop m p ret = Some r"
  shows "m (p + r) = 0"
proof (rule strlen_loop.raw_induct [where P = "\<lambda>m p ret r. m (p + r) = 0", OF _ assms])
  fix f :: "mem \<Rightarrow> ptr \<Rightarrow> u32 \<Rightarrow> u32 option" and m p ret r
  assume "\<And>m p ret r. f m p ret = Some r \<Longrightarrow> m (p + r) = 0"
    and "(if m (p + ret) \<noteq> 0 then f m p (ret + 1) else Some ret) = Some r"
  then show "m (p + r) = 0" by (auto split: if_splits)
qed

lemma cstr_exists:
  assumes "m a = 0"
  shows "\<exists>s. cstr m p s"
proof -
  have "cstr m p (takeWhile (\<lambda>c. c \<noteq> 0) (bytes_at m p (n + 1)))" if "m (p + of_nat n) = 0" for n p
    using that
  proof (induction n arbitrary: p)
    case (Suc n)
    from Suc.prems have "m (p + 1 + of_nat n) = 0" by (simp add: algebra_simps)
    from Suc.IH [OF this] show ?case by (simp add: bytes_at_Suc)
  qed (simp add: bytes_at_Suc)
  from this [where p = p and n = "unat (a - p)"] assms show ?thesis by auto
qed

section \<open>Properties\<close>

text \<open>C9: \<open>memmove\<close> copies \<open>n\<close> bytes between any two ranges of the address space, overlapping in
  either direction or not: the destination then holds the bytes the source held before, no other
  byte changes, and \<open>dst\<close> is returned.\<close>
theorem memmove_correct:
  assumes "valid_range src n" and "valid_range dst n"
  shows "case memmove m dst src n of (m', r) \<Rightarrow> r = dst
    \<and> bytes_at m' dst (unat n) = bytes_at m src (unat n)
    \<and> (\<forall>a. \<not> in_range a dst (unat n) \<longrightarrow> m' a = m a)"
  by (simp add: memmove_moved [OF assms] bytes_at_moved [OF unat_le_2_32] moved_outside)

theorem memmove_correct_witness:
  "case memmove (\<lambda>a. ucast a) 0x1002 0x1000 4 of (m', r) \<Rightarrow> r = 0x1002
    \<and> bytes_at m' 0x1002 (unat (4::u32)) = bytes_at (\<lambda>a. ucast a) 0x1000 (unat (4::u32))
    \<and> (\<forall>a. \<not> in_range a 0x1002 (unat (4::u32)) \<longrightarrow> m' a = ucast a)"
  by (rule memmove_correct) simp_all

text \<open>\<open>memcpy\<close> produces what \<open>memmove\<close> produces whenever the destination does not start
  inside the source behind its first byte; it may start before it, coincide with it or lie
  beyond it.\<close>
theorem memcpy_eq_memmove:
  assumes "valid_range src n" and "valid_range dst n"
    and "dst \<le> src \<or> unat src + unat n \<le> unat dst"
  shows "memcpy m dst src n = memmove m dst src n"
proof -
  have "unat (dst - src) = 0 \<or> unat n \<le> unat (dst - src)"
  proof -
    consider "dst = src" | "dst < src" | "unat src + unat n \<le> unat dst"
      using assms(3) by fastforce
    then show ?thesis
    proof cases
      case 2
      then show ?thesis using diff_beyond [OF 2 assms(1)] by simp
    next
      case 3
      then have "unat (dst - src) = unat dst - unat src"
        by (simp add: unat_sub word_le_nat_alt)
      with 3 show ?thesis by linarith
    qed simp
  qed
  then show ?thesis
    by (simp only: memcpy_def copy_up_moved [OF _ unat_le_2_32] memmove_moved [OF assms(1,2)])
qed

theorem memcpy_eq_memmove_witness:
  "memcpy (\<lambda>a. ucast a) 0x1000 0x1002 4 = memmove (\<lambda>a. ucast a) 0x1000 0x1002 4"
  by (rule memcpy_eq_memmove) simp_all

text \<open>\<open>memswap\<close> on two disjoint ranges exchanges their contents and changes no other byte.\<close>
theorem memswap_exchanges:
  assumes "\<And>a. \<not> (in_range a p (unat n) \<and> in_range a q (unat n))"
  shows "bytes_at (memswap m p q n) p (unat n) = bytes_at m q (unat n)
    \<and> bytes_at (memswap m p q n) q (unat n) = bytes_at m p (unat n)
    \<and> (\<forall>a. \<not> in_range a p (unat n) \<longrightarrow> \<not> in_range a q (unat n) \<longrightarrow> memswap m p q n a = m a)"
proof -
  have eq: "memswap m p q n = (\<lambda>a. if in_range a p (unat n) then m (q + (a - p))
      else if in_range a q (unat n) then m (p + (a - q)) else m a)"
    unfolding memswap_def by (rule memswap_loop_eq [OF unat_le_2_32 assms])
  have p: "in_range (p + of_nat i) p (unat n)" and q: "in_range (q + of_nat i) q (unat n)"
    if "i < unat n" for i
    using that less_le_trans [OF that unat_le_2_32 [of n]]
    by (simp_all add: in_range_def unat_of_nat)
  have "\<not> in_range (q + of_nat i) p (unat n)" if "i < unat n" for i
    using q [OF that] assms by blast
  then show ?thesis by (auto simp: eq bytes_at_def p q)
qed

theorem memswap_exchanges_witness:
  "bytes_at (memswap (\<lambda>a. ucast a) 0x10 0x20 4) 0x10 (unat (4::u32))
      = bytes_at (\<lambda>a. ucast a) 0x20 (unat (4::u32))
    \<and> bytes_at (memswap (\<lambda>a. ucast a) 0x10 0x20 4) 0x20 (unat (4::u32))
      = bytes_at (\<lambda>a. ucast a) 0x10 (unat (4::u32))
    \<and> memswap (\<lambda>a. ucast a) 0x10 0x20 4 0x24 = 0x24"
proof -
  have d: "\<not> (in_range a 0x10 (unat (4::u32)) \<and> in_range a 0x20 (unat (4::u32)))" for a
    by (rule disjoint_ranges) simp_all
  from memswap_exchanges [OF d, of "\<lambda>a. ucast a"] show ?thesis
    by (simp add: in_range_def)
qed

text \<open>\<open>strlen\<close> returns if and only if some byte of the address space is NUL, and it returns
  \<open>r\<close> exactly when the first \<open>r\<close> bytes at its argument are a NUL-terminated string.\<close>
theorem strlen_correct:
  "((\<exists>r. strlen m p = Some r) \<longleftrightarrow> (\<exists>a. m a = 0))
    \<and> (strlen m p = Some r \<longleftrightarrow> cstr m p (bytes_at m p (unat r)))"
proof -
  have len: "strlen m p = Some (of_nat (length s))" if "cstr m p s" for s
    using that strlen_loop_cstr [of m p 0 s] by (simp add: strlen_def)
  have "cstr m p (bytes_at m p (unat r))" if r: "strlen m p = Some r"
  proof -
    have "m (p + r) = 0" using r strlen_loop_ends by (simp add: strlen_def)
    then obtain s where s: "cstr m p s" using cstr_exists by blast
    then have "unat r = length s"
      using len [OF s] r cstr_length [OF s] by (auto simp: unat_of_nat)
    then show ?thesis using s by (simp add: cstr_bytes_at)
  qed
  then show ?thesis
    using len cstr_exists strlen_loop_ends [of m p 0] by (fastforce simp: strlen_def)
qed

text \<open>on two NUL-terminated strings \<open>strcmp\<close> returns, its result is -1, 0 or 1 with the sign
  of the first difference of the unsigned bytes, it is 0 exactly for equal strings, and swapping
  the arguments negates it.\<close>
theorem strcmp_correct:
  assumes "cstr m a s" and "cstr m b t"
  shows "\<exists>r. strcmp m a b = Some r \<and> sint r = sgn (byte_cmp s t)
    \<and> (r = 0 \<longleftrightarrow> s = t) \<and> strcmp m b a = Some (- r)"
proof -
  let ?r = "word_of_int (sgn (byte_cmp s t)) :: s32"
  have r: "sint ?r = sgn (byte_cmp s t)"
    by (rule sint_of_int_small) (simp_all add: sgn_if)
  have "?r = 0 \<longleftrightarrow> byte_cmp s t = 0"
    using r by (metis sgn_eq_0_iff sint_0 word_of_int_0)
  moreover have "strcmp m b a = Some (- ?r)"
    by (simp add: strcmp_byte_cmp [OF assms(2,1)] byte_cmp_swap [of t s] wi_hom_neg [symmetric])
  ultimately show ?thesis
    using r strcmp_byte_cmp [OF assms] byte_cmp_eq_0_cstr [OF assms [THEN cstr_nonzero]]
    by (intro exI [of _ ?r]) (simp only: simp_thms)
qed

theorem strcmp_correct_witness:
  "\<exists>r. strcmp (\<lambda>a. if a = 1 then 0x61 else if a = 5 then 0x62 else 0) 1 5 = Some r
    \<and> sint r = sgn (byte_cmp [0x61] [0x62]) \<and> (r = 0 \<longleftrightarrow> [0x61] = [0x62::u8])
    \<and> strcmp (\<lambda>a. if a = 1 then 0x61 else if a = 5 then 0x62 else 0) 5 1 = Some (- r)"
  by (rule strcmp_correct) simp_all

text \<open>\<open>memcmp\<close> returns the difference of the first pair of unequal bytes of the two ranges,
  and 0 exactly when the ranges hold equal bytes.\<close>
theorem memcmp_correct:
  "sint (memcmp m a b n) = byte_cmp (bytes_at m a (unat n)) (bytes_at m b (unat n))
    \<and> (memcmp m a b n = 0 \<longleftrightarrow> bytes_at m a (unat n) = bytes_at m b (unat n))"
proof -
  have "memcmp m a b n = 0 \<longleftrightarrow> sint (memcmp m a b n) = 0" by (simp only: signed_eq_0_iff)
  then show ?thesis by (simp add: memcmp_def sint_memcmp_loop byte_cmp_eq_0)
qed

end
