(* ===== verification/Varargs.thy ===== *)
theory Varargs
  imports Prelude
begin

text \<open>
  What the two \<^verbatim>\<open>printf\<close> implementations share: the terminator of a C string and variable
  argument lists. A \<open>va_arg\<close> of another size than the argument passed is undefined in C and gives
  \<open>None\<close>.
\<close>

abbreviation NUL :: char where
  "NUL \<equiv> CHR 0x00"

text \<open>The character \<open>\n\<close>, as a string.\<close>

definition nl :: string where
  "nl = [CHR 0x0A]"

text \<open>The arguments behind the format: a 32-bit value (\<open>int\<close>, \<open>long\<close>, \<open>size_t\<close>, a pointer), a
  64-bit value, or a \<open>char*\<close>, given by the string it points to.\<close>

datatype vararg = A32 u32 | A64 u64 | AStr string

fun va32 :: "vararg list \<Rightarrow> (u32 \<times> vararg list) option" where
  "va32 (A32 x # va) = Some (x, va)"
| "va32 _ = None"

fun va64 :: "vararg list \<Rightarrow> (u64 \<times> vararg list) option" where
  "va64 (A64 x # va) = Some (x, va)"
| "va64 _ = None"

fun va_str :: "vararg list \<Rightarrow> (string \<times> vararg list) option" where
  "va_str (AStr x # va) = Some (x, va)"
| "va_str _ = None"

end
