(* ===== verification/Tinyprintf.thy ===== *)
theory Tinyprintf
  imports Memory Varargs
begin

text \<open>
  \<^verbatim>\<open>sw/librtor/libc/tinyprintf.c\<close>: conversion of integers to digits (\<open>ui2a\<close>, \<open>uli2a\<close>,
  \<open>ulli2a\<close> and their signed forms), parsing of the field width (\<open>a2u\<close>), padding (\<open>putchw\<close>)
  and the format interpreter \<open>tfp_format\<close>, with all configuration switches of the file on
  (\<open>PRINTF_LONG_SUPPORT\<close>, \<open>PRINTF_LONG_LONG_SUPPORT\<close>, \<open>PRINTF_SIZE_T_SUPPORT\<close>), for ilp32:
  \<open>sizeof(size_t) = sizeof(unsigned long) = sizeof(int) = sizeof(void*) = 4\<close>.

  A C string is a list of characters that ends at its first NUL or at its end; reading the
  terminator gives \<open>NUL\<close>. The call-back \<open>putf(putp, c)\<close> is a function on an arbitrary state.
  The digits a conversion leaves in the buffer \<open>bf\<close> are the field \<open>p_bf\<close>.
\<close>

section \<open>The code: digits\<close>

record param =
  p_lz :: bool
  p_alt :: bool
  p_uc :: bool
  p_align_left :: bool
  p_width :: u32
  p_sign :: char
  p_base :: u32
  p_bf :: string

text \<open>The text of the three functions \<open>ui2a\<close>, \<open>uli2a\<close> and \<open>ulli2a\<close> is the same but for the
  width of \<open>num\<close> and \<open>d\<close>. First loop: \<open>while (num / d >= p->base) d *= p->base\<close>.\<close>

partial_function (option) scale_loop :: "'a::len word \<Rightarrow> 'a word \<Rightarrow> 'a word \<Rightarrow> 'a word option" where
  "scale_loop num base d =
     (if d = 0 then None
      else if num div d \<ge> base then scale_loop num base (d * base)
      else Some d)"

definition digit_char :: "bool \<Rightarrow> s32 \<Rightarrow> char" where
  "digit_char uc dgt =
     char_of (unat (dgt + (if dgt <s 10 then 48 else (if uc then 65 else 97) - 10)))"

text \<open>Second loop: \<open>n\<close> counts the digits written, \<open>out\<close> is what the buffer holds.\<close>

partial_function (option) emit_loop ::
  "bool \<Rightarrow> 'a::len word \<Rightarrow> 'a word \<Rightarrow> 'a word \<Rightarrow> nat \<Rightarrow> string \<Rightarrow> string option" where
  "emit_loop uc base num d n out =
     (if d = 0 then Some out
      else if base = 0 then None
      else let dgt = ucast (num div d) :: s32; num = num mod d; d = d div base
        in if n \<noteq> 0 \<or> 0 <s dgt \<or> d = 0
           then emit_loop uc base num d (Suc n) (out @ [digit_char uc dgt])
           else emit_loop uc base num d n out)"

definition uN2a :: "'a::len word \<Rightarrow> param \<Rightarrow> param option" where
  "uN2a num p =
     Option.bind (scale_loop num (ucast (p_base p)) 1)
       (\<lambda>d. map_option (\<lambda>out. p\<lparr>p_bf := out\<rparr>)
              (emit_loop (p_uc p) (ucast (p_base p)) num d 0 []))"

definition ui2a :: "u32 \<Rightarrow> param \<Rightarrow> param option" where
  "ui2a num p = uN2a num p"

definition uli2a :: "u32 \<Rightarrow> param \<Rightarrow> param option" where
  "uli2a num p = uN2a num p"

definition ulli2a :: "u64 \<Rightarrow> param \<Rightarrow> param option" where
  "ulli2a num p = uN2a num p"

definition i2a :: "s32 \<Rightarrow> param \<Rightarrow> param option" where
  "i2a num p = (if num <s 0 then ui2a (- num) (p\<lparr>p_sign := CHR ''-''\<rparr>) else ui2a num p)"

definition li2a :: "s32 \<Rightarrow> param \<Rightarrow> param option" where
  "li2a num p = (if num <s 0 then uli2a (- num) (p\<lparr>p_sign := CHR ''-''\<rparr>) else uli2a num p)"

definition lli2a :: "u64 \<Rightarrow> param \<Rightarrow> param option" where
  "lli2a num p = (if num <s 0 then ulli2a (- num) (p\<lparr>p_sign := CHR ''-''\<rparr>) else ulli2a num p)"

definition a2d :: "char \<Rightarrow> int" where
  "a2d ch =
     (if CHR ''0'' \<le> ch \<and> ch \<le> CHR ''9'' then of_char ch - of_char (CHR ''0'')
      else if CHR ''a'' \<le> ch \<and> ch \<le> CHR ''f'' then of_char ch - of_char (CHR ''a'') + 10
      else if CHR ''A'' \<le> ch \<and> ch \<le> CHR ''F'' then of_char ch - of_char (CHR ''A'') + 10
      else - 1)"

text \<open>\<open>a2u\<close>: the character in hand, the rest of the source, the base, the number so far; the
  result is the next character in hand, the rest behind it and the number.\<close>

fun a2u_loop :: "char \<Rightarrow> string \<Rightarrow> int \<Rightarrow> u32 \<Rightarrow> char \<times> string \<times> u32" where
  "a2u_loop ch [] base num =
     (if 0 \<le> a2d ch \<and> \<not> base < a2d ch
      then (NUL, [], num * word_of_int base + word_of_int (a2d ch)) else (ch, [], num))"
| "a2u_loop ch (c # cs) base num =
     (if 0 \<le> a2d ch \<and> \<not> base < a2d ch
      then a2u_loop c cs base (num * word_of_int base + word_of_int (a2d ch)) else (ch, c # cs, num))"

definition a2u :: "char \<Rightarrow> string \<Rightarrow> int \<Rightarrow> char \<times> string \<times> u32" where
  "a2u ch src base = a2u_loop ch src base 0"

section \<open>The code: padding\<close>

text \<open>\<open>while (*bf++ && n > 0) n--\<close>\<close>

fun fill_count :: "string \<Rightarrow> int \<Rightarrow> int" where
  "fill_count [] n = n"
| "fill_count (c # cs) n = (if c \<noteq> NUL \<and> 0 < n then fill_count cs (n - 1) else n)"

text \<open>\<open>while (n-- > 0) putf(putp, c)\<close>\<close>

definition put_n :: "('s \<Rightarrow> char \<Rightarrow> 's) \<Rightarrow> char \<Rightarrow> int \<Rightarrow> 's \<Rightarrow> 's" where
  "put_n putf c n s = ((\<lambda>s. putf s c) ^^ nat n) s"

text \<open>\<open>while ((ch = *bf++)) putf(putp, ch)\<close>\<close>

fun put_str :: "('s \<Rightarrow> char \<Rightarrow> 's) \<Rightarrow> string \<Rightarrow> 's \<Rightarrow> 's" where
  "put_str putf [] s = s"
| "put_str putf (c # cs) s = (if c = NUL then s else put_str putf cs (putf s c))"

definition putchw :: "('s \<Rightarrow> char \<Rightarrow> 's) \<Rightarrow> param \<Rightarrow> 's \<Rightarrow> 's" where
  "putchw putf p s =
     (let n = fill_count (p_bf p) (sint (p_width p));
          n = (if p_sign p \<noteq> NUL then n - 1 else n);
          n = (if p_alt p \<and> p_base p = 16 then n - 2
               else if p_alt p \<and> p_base p = 8 then n - 1 else n);
          s = (if \<not> p_lz p \<and> \<not> p_align_left p then put_n putf (CHR '' '') n s else s);
          s = (if p_sign p \<noteq> NUL then putf s (p_sign p) else s);
          s = (if p_alt p \<and> p_base p = 16
               then putf (putf s (CHR ''0'')) (if p_uc p then CHR ''X'' else CHR ''x'')
               else if p_alt p \<and> p_base p = 8 then putf s (CHR ''0'') else s);
          s = (if p_lz p then put_n putf (CHR ''0'') n s else s);
          s = put_str putf (p_bf p) s
      in if \<not> p_lz p \<and> p_align_left p then put_n putf (CHR '' '') n s else s)"

section \<open>The code: the format interpreter\<close>

text \<open>\<open>*(fmt++)\<close>\<close>

fun next_char :: "string \<Rightarrow> char \<times> string" where
  "next_char [] = (NUL, [])"
| "next_char (c # cs) = (c, cs)"

fun flags_loop :: "string \<Rightarrow> param \<Rightarrow> char \<times> string \<times> param" where
  "flags_loop [] p = (NUL, [], p)"
| "flags_loop (c # cs) p =
     (if c = CHR ''-'' then flags_loop cs (p\<lparr>p_align_left := True\<rparr>)
      else if c = CHR ''0'' then flags_loop cs (p\<lparr>p_lz := True\<rparr>)
      else if c = CHR ''#'' then flags_loop cs (p\<lparr>p_alt := True\<rparr>)
      else (c, cs, p))"

text \<open>\<open>do { ch = *(fmt++); } while ((ch >= '0') && (ch <= '9'))\<close>\<close>

fun skip_digits :: "string \<Rightarrow> char \<times> string" where
  "skip_digits [] = (NUL, [])"
| "skip_digits (c # cs) = (if CHR ''0'' \<le> c \<and> c \<le> CHR ''9'' then skip_digits cs else (c, cs))"

text \<open>Width, precision (which only sets zero padding) and length modifier, each with the
  character in hand and the format behind it.\<close>

definition parse_width :: "char \<times> string \<times> param \<Rightarrow> char \<times> string \<times> param" where
  "parse_width = (\<lambda>(ch, fmt, p).
     if CHR ''0'' \<le> ch \<and> ch \<le> CHR ''9''
     then (case a2u ch fmt 10 of (ch, fmt, w) \<Rightarrow> (ch, fmt, p\<lparr>p_width := w\<rparr>))
     else (ch, fmt, p))"

definition parse_precision :: "char \<times> string \<times> param \<Rightarrow> char \<times> string \<times> param" where
  "parse_precision = (\<lambda>(ch, fmt, p).
     if ch = CHR ''.'' then (case skip_digits fmt of (ch, fmt) \<Rightarrow> (ch, fmt, p\<lparr>p_lz := True\<rparr>))
     else (ch, fmt, p))"

definition parse_length :: "char \<times> string \<times> param \<Rightarrow> char \<times> string \<times> param \<times> nat" where
  "parse_length = (\<lambda>(ch, fmt, p).
     if ch = CHR ''z'' then (case next_char fmt of (ch, fmt) \<Rightarrow> (ch, fmt, p, 1))
     else if ch = CHR ''l''
     then (case next_char fmt of (ch, fmt) \<Rightarrow>
             if ch = CHR ''l'' then (case next_char fmt of (ch, fmt) \<Rightarrow> (ch, fmt, p, 2))
             else (ch, fmt, p, 1))
     else (ch, fmt, p, 0))"

text \<open>
  Everything between a \<open>%\<close> and its conversion letter, after the initialisation of the
  parameters: the conversion letter, the format behind it, the parameters and \<open>lng\<close>.
\<close>

definition parse_spec :: "string \<Rightarrow> param \<Rightarrow> char \<times> string \<times> param \<times> nat" where
  "parse_spec fmt p =
     parse_length (parse_precision (parse_width (flags_loop fmt
       (p\<lparr>p_lz := False, p_alt := False, p_width := 0, p_align_left := False, p_sign := NUL\<rparr>))))"

definition conv_unsigned :: "nat \<Rightarrow> param \<Rightarrow> vararg list \<Rightarrow> (param \<times> vararg list) option" where
  "conv_unsigned lng p va =
     (if lng = 2 then Option.bind (va64 va) (\<lambda>(x, va). map_option (\<lambda>p. (p, va)) (ulli2a x p))
      else Option.bind (va32 va)
             (\<lambda>(x, va). map_option (\<lambda>p. (p, va)) (if lng = 1 then uli2a x p else ui2a x p)))"

definition conv_signed :: "nat \<Rightarrow> param \<Rightarrow> vararg list \<Rightarrow> (param \<times> vararg list) option" where
  "conv_signed lng p va =
     (if lng = 2 then Option.bind (va64 va) (\<lambda>(x, va). map_option (\<lambda>p. (p, va)) (lli2a x p))
      else Option.bind (va32 va)
             (\<lambda>(x, va). map_option (\<lambda>p. (p, va)) (if lng = 1 then li2a x p else i2a x p)))"

text \<open>The \<open>switch\<close> on the conversion letter (\<open>case 0\<close>, which leaves the loop, is in
  \<open>tfp_format_loop\<close>).\<close>

definition convert :: "('s \<Rightarrow> char \<Rightarrow> 's) \<Rightarrow> char \<Rightarrow> nat \<Rightarrow> param \<Rightarrow> vararg list \<Rightarrow> 's
    \<Rightarrow> (param \<times> vararg list \<times> 's) option" where
  "convert putf ch lng p va s =
     (let number = map_option (\<lambda>(p, va). (p, va, putchw putf p s))
      in if ch = CHR ''u'' then number (conv_unsigned lng (p\<lparr>p_base := 10\<rparr>) va)
         else if ch = CHR ''d'' \<or> ch = CHR ''i''
         then number (conv_signed lng (p\<lparr>p_base := 10\<rparr>) va)
         else if ch = CHR ''p'' \<or> ch = CHR ''x'' \<or> ch = CHR ''X''
         then (let (p, lng) = (if ch = CHR ''p'' then (p\<lparr>p_alt := True\<rparr>, 0) else (p, lng))
               in number (conv_unsigned lng (p\<lparr>p_base := 16, p_uc := (ch = CHR ''X'')\<rparr>) va))
         else if ch = CHR ''o'' then number (conv_unsigned 0 (p\<lparr>p_base := 8\<rparr>) va)
         else if ch = CHR ''c''
         then Option.bind (va32 va) (\<lambda>(x, va). Some (p, va, putf s (char_of (unat x))))
         else if ch = CHR ''s''
         then Option.bind (va_str va) (\<lambda>(str, va). Some (p, va, putchw putf (p\<lparr>p_bf := str\<rparr>) s))
         else if ch = CHR ''%'' then Some (p, va, putf s ch)
         else Some (p, va, s))"

lemma next_char_length: "next_char fmt = (ch, fmt') \<Longrightarrow> length fmt' \<le> length fmt"
  by (cases fmt) auto

lemma flags_loop_length: "flags_loop fmt p = (ch, fmt', p') \<Longrightarrow> length fmt' \<le> length fmt"
  by (induction fmt p rule: flags_loop.induct) (auto split: if_splits)

lemma skip_digits_length: "skip_digits fmt = (ch, fmt') \<Longrightarrow> length fmt' \<le> length fmt"
  by (induction fmt rule: skip_digits.induct) (auto split: if_splits)

lemma a2u_loop_length: "a2u_loop ch fmt b n = (ch', fmt', w) \<Longrightarrow> length fmt' \<le> length fmt"
  by (induction ch fmt b n rule: a2u_loop.induct) (auto split: if_splits)

lemma parse_width_length:
  "parse_width (ch, fmt, p) = (ch', fmt', p') \<Longrightarrow> length fmt' \<le> length fmt"
  by (auto simp: parse_width_def a2u_def dest: a2u_loop_length split: if_splits prod.splits)

lemma parse_precision_length:
  "parse_precision (ch, fmt, p) = (ch', fmt', p') \<Longrightarrow> length fmt' \<le> length fmt"
  by (auto simp: parse_precision_def dest: skip_digits_length split: if_splits prod.splits)

lemma parse_length_length:
  "parse_length (ch, fmt, p) = (ch', fmt', p', lng) \<Longrightarrow> length fmt' \<le> length fmt"
  by (fastforce simp: parse_length_def dest: next_char_length split: if_splits prod.splits)

lemma parse_spec_length:
  assumes "parse_spec fmt p = (ch, fmt', p', lng)"
  shows "length fmt' \<le> length fmt"
proof -
  let ?p = "p\<lparr>p_lz := False, p_alt := False, p_width := 0, p_align_left := False, p_sign := NUL\<rparr>"
  obtain c1 f1 p1 where 1: "flags_loop fmt ?p = (c1, f1, p1)" by (metis prod_cases3)
  obtain c2 f2 p2 where 2: "parse_width (c1, f1, p1) = (c2, f2, p2)" by (metis prod_cases3)
  obtain c3 f3 p3 where 3: "parse_precision (c2, f2, p2) = (c3, f3, p3)" by (metis prod_cases3)
  have "parse_length (c3, f3, p3) = (ch, fmt', p', lng)"
    using assms by (simp only: parse_spec_def 1 2 3)
  then show ?thesis
    using flags_loop_length [OF 1] parse_width_length [OF 2] parse_precision_length [OF 3]
      parse_length_length by fastforce
qed

function tfp_format_loop :: "('s \<Rightarrow> char \<Rightarrow> 's) \<Rightarrow> param \<Rightarrow> string \<Rightarrow> vararg list \<Rightarrow> 's \<Rightarrow> 's option"
where
  "tfp_format_loop putf p [] va s = Some s"
| "tfp_format_loop putf p (ch # fmt) va s =
     (if ch = NUL then Some s
      else if ch \<noteq> CHR ''%'' then tfp_format_loop putf p fmt va (putf s ch)
      else case parse_spec fmt p of (ch, fmt, p, lng) \<Rightarrow>
             if ch = NUL then Some s
             else case convert putf ch lng p va s of
                    None \<Rightarrow> None
                  | Some (p, va, s) \<Rightarrow> tfp_format_loop putf p fmt va s)"
  by pat_completeness auto
termination
  by (relation "measure (\<lambda>(putf, p, fmt, va, s). length fmt)")
     (auto dest!: sym [where t = "parse_spec _ _"] parse_spec_length)

text \<open>The parameters start out uninitialised: \<open>p0\<close> is whatever the stack held. The buffer of
  the string conversion is replaced by \<open>bf\<close> again after its use, so only \<open>p_uc\<close> and \<open>p_base\<close>
  carry over from one directive to the next.\<close>

definition tfp_format ::
  "param \<Rightarrow> 's \<Rightarrow> ('s \<Rightarrow> char \<Rightarrow> 's) \<Rightarrow> string \<Rightarrow> vararg list \<Rightarrow> 's option" where
  "tfp_format p0 putp putf fmt va = tfp_format_loop putf p0 fmt va putp"

section \<open>The code: the front ends\<close>

text \<open>\<open>stdout_putf\<close> gets the registered pointer and the character; \<open>'s\<close> is the state it acts on.\<close>

record 's printf_state =
  stdout_putf :: "ptr \<Rightarrow> char \<Rightarrow> 's \<Rightarrow> 's"
  stdout_putp :: ptr

definition init_printf :: "ptr \<Rightarrow> (ptr \<Rightarrow> char \<Rightarrow> 's \<Rightarrow> 's) \<Rightarrow> 's printf_state" where
  "init_printf putp putf = \<lparr>stdout_putf = putf, stdout_putp = putp\<rparr>"

definition tfp_printf :: "param \<Rightarrow> 's printf_state \<Rightarrow> string \<Rightarrow> vararg list \<Rightarrow> 's \<Rightarrow> 's option" where
  "tfp_printf p0 st fmt va s =
     tfp_format p0 s (\<lambda>s c. stdout_putf st (stdout_putp st) c s) fmt va"

record vsnprintf_data =
  vn_capacity :: u32
  vn_dest :: ptr
  vn_num_chars :: u32
  vn_mem :: mem

definition vsnprintf_putcf :: "vsnprintf_data \<Rightarrow> char \<Rightarrow> vsnprintf_data" where
  "vsnprintf_putcf d c =
     (let d = (if vn_num_chars d < vn_capacity d
               then d\<lparr>vn_mem := (vn_mem d)(vn_dest d + vn_num_chars d := of_char c)\<rparr> else d)
      in d\<lparr>vn_num_chars := vn_num_chars d + 1\<rparr>)"

definition tfp_vsnprintf ::
  "param \<Rightarrow> mem \<Rightarrow> ptr \<Rightarrow> u32 \<Rightarrow> string \<Rightarrow> vararg list \<Rightarrow> (mem \<times> s32) option" where
  "tfp_vsnprintf p0 m str sz format ap =
     (if sz < 1 then Some (m, 0)
      else Option.bind
        (tfp_format p0
          \<lparr>vn_capacity = sz - 1, vn_dest = str, vn_num_chars = 0, vn_mem = m\<rparr>
          vsnprintf_putcf format ap)
        (\<lambda>d. Some
          (if vn_num_chars d < vn_capacity d
           then (vn_mem d)(vn_dest d + vn_num_chars d := 0)
           else (vn_mem d)(vn_dest d + vn_capacity d := 0),
           vn_num_chars d)))"

definition tfp_snprintf ::
  "param \<Rightarrow> mem \<Rightarrow> ptr \<Rightarrow> u32 \<Rightarrow> string \<Rightarrow> vararg list \<Rightarrow> (mem \<times> s32) option" where
  "tfp_snprintf p0 m str sz format args = tfp_vsnprintf p0 m str sz format args"

record vsprintf_data =
  vs_dest :: ptr
  vs_num_chars :: u32
  vs_mem :: mem

definition vsprintf_putcf :: "vsprintf_data \<Rightarrow> char \<Rightarrow> vsprintf_data" where
  "vsprintf_putcf d c =
     d\<lparr>vs_mem := (vs_mem d)(vs_dest d + vs_num_chars d := of_char c),
       vs_num_chars := vs_num_chars d + 1\<rparr>"

definition tfp_vsprintf ::
  "param \<Rightarrow> mem \<Rightarrow> ptr \<Rightarrow> string \<Rightarrow> vararg list \<Rightarrow> (mem \<times> s32) option" where
  "tfp_vsprintf p0 m str format ap =
     Option.bind
       (tfp_format p0 \<lparr>vs_dest = str, vs_num_chars = 0, vs_mem = m\<rparr> vsprintf_putcf format ap)
       (\<lambda>d. Some ((vs_mem d)(vs_dest d + vs_num_chars d := 0), vs_num_chars d))"

definition tfp_sprintf ::
  "param \<Rightarrow> mem \<Rightarrow> ptr \<Rightarrow> string \<Rightarrow> vararg list \<Rightarrow> (mem \<times> s32) option" where
  "tfp_sprintf p0 m str format args = tfp_vsprintf p0 m str format args"

end
