(* ===== verification/Digits.thy ===== *)
theory Digits
  imports Prelude
begin

text \<open>Positional notation, the reference for every conversion of numbers to text.\<close>

text \<open>The digits of \<open>n\<close> in base \<open>b\<close>, most significant first.\<close>

function nat_digits :: "nat \<Rightarrow> nat \<Rightarrow> nat list" where
  "nat_digits b n = (if b < 2 \<or> n < b then [n] else nat_digits b (n div b) @ [n mod b])"
  by pat_completeness auto
termination
  by (relation "measure snd") (auto intro: div_less_dividend)

declare nat_digits.simps [simp del]

definition digits_val :: "nat \<Rightarrow> nat list \<Rightarrow> nat" where
  "digits_val b ds = foldl (\<lambda>v d. v * b + d) 0 ds"

lemma digits_val_nat_digits: "2 \<le> b \<Longrightarrow> digits_val b (nat_digits b n) = n"
proof (induction b n rule: nat_digits.induct)
  case (1 b n)
  then show ?case
    by (subst nat_digits.simps) (auto simp: digits_val_def)
qed

lemma nat_digits_small: "2 \<le> b \<Longrightarrow> d \<in> set (nat_digits b n) \<Longrightarrow> d < b"
proof (induction b n rule: nat_digits.induct)
  case (1 b n)
  from "1.prems" show ?case
    by (subst (asm) nat_digits.simps) (auto split: if_splits intro: "1.IH")
qed

lemma nat_digits_not_Nil [simp]: "nat_digits b n \<noteq> []"
  by (subst nat_digits.simps) simp

lemma length_nat_digits: "2 \<le> b \<Longrightarrow> n < b ^ k \<Longrightarrow> 0 < k \<Longrightarrow> length (nat_digits b n) \<le> k"
proof (induction b n arbitrary: k rule: nat_digits.induct)
  case (1 b n)
  show ?case
  proof (cases "n < b")
    case True
    with 1 show ?thesis by (subst nat_digits.simps) simp
  next
    case False
    obtain j where k: "k = Suc j" using 1 by (cases k) auto
    have "n div b < b ^ j"
      using "1.prems" by (simp add: k less_mult_imp_div_less mult.commute)
    moreover have "0 < j" using False "1.prems" by (cases j) (auto simp: k)
    ultimately have "length (nat_digits b (n div b)) \<le> j"
      using False "1.prems" by (intro "1.IH") auto
    with False "1.prems" show ?thesis by (subst nat_digits.simps) (simp add: k)
  qed
qed

end
