(* ===== verification/TinyprintfProofs.thy ===== *)
theory TinyprintfProofs
  imports Tinyprintf Digits "HOL-Library.Sublist"
begin

text \<open>
  What \<^verbatim>\<open>tinyprintf.c\<close> prints. The digit loops are related to positional notation, the
  padding to a list expression, and the interpreter to the text it sends to its call-back,
  whatever that call-back is; the string front ends are instances of a sink contract.
\<close>

section \<open>Digits from the top\<close>

text \<open>The digits from position \<open>k\<close> down to 0, as the second loop of the code takes them.\<close>

primrec digits_from :: "nat \<Rightarrow> nat \<Rightarrow> nat \<Rightarrow> nat list" where
  "digits_from b 0 n = [n]"
| "digits_from b (Suc k) n = n div b ^ Suc k # digits_from b k (n mod b ^ Suc k)"

lemma digits_from_snoc:
  "2 \<le> b \<Longrightarrow> digits_from b (Suc k) n = digits_from b k (n div b) @ [n mod b]"
proof (induction k arbitrary: n)
  case 0
  then show ?case by simp
next
  case (Suc k)
  have "digits_from b (Suc (Suc k)) n = n div b ^ Suc (Suc k) # digits_from b (Suc k) (n mod b ^ Suc (Suc k))"
    by simp
  also have "\<dots> = n div b ^ Suc (Suc k)
      # digits_from b k (n mod b ^ Suc (Suc k) div b) @ [n mod b ^ Suc (Suc k) mod b]"
    by (simp only: Suc.IH [OF Suc.prems])
  also have "n mod b ^ Suc (Suc k) div b = (n div b) mod b ^ Suc k"
    using Suc.prems by (simp add: power_Suc [of b "Suc k"] mod_mult2_eq del: power_Suc)
  also have "n mod b ^ Suc (Suc k) mod b = n mod b"
    by (simp add: mod_mod_cancel)
  also have "n div b ^ Suc (Suc k) = n div b div b ^ Suc k"
    by (simp add: div_mult2_eq [symmetric])
  finally show ?case by simp
qed

lemma nat_digits_from:
  "2 \<le> b \<Longrightarrow> n < b ^ Suc k \<Longrightarrow> k = 0 \<or> b ^ k \<le> n \<Longrightarrow> nat_digits b n = digits_from b k n"
proof (induction k arbitrary: n)
  case 0
  then show ?case by (subst nat_digits.simps) simp
next
  case (Suc k)
  then have bk: "b ^ Suc k \<le> n" by simp
  have "b \<le> b ^ Suc k" using Suc.prems(1) by simp
  then have "b \<le> n" using bk by (rule order_trans)
  then have "nat_digits b n = nat_digits b (n div b) @ [n mod b]"
    using Suc.prems(1) by (subst nat_digits.simps) simp
  also have "nat_digits b (n div b) = digits_from b k (n div b)"
  proof (rule Suc.IH [OF Suc.prems(1)])
    show "n div b < b ^ Suc k"
      using Suc.prems(2) by (simp add: less_mult_imp_div_less mult.commute)
    show "k = 0 \<or> b ^ k \<le> n div b"
      using bk Suc.prems(1) by (simp add: less_eq_div_iff_mult_less_eq mult.commute)
  qed
  finally show ?case
    using digits_from_snoc [OF Suc.prems(1), of k n] by simp
qed

section \<open>The digit loops\<close>

lemma scale_loop_power:
  fixes num base d :: "'a::len word"
  assumes "2 \<le> unat base" and "unat d = unat base ^ k" and "k = 0 \<or> unat base ^ k \<le> unat num"
  shows "\<exists>d' j. scale_loop num base d = Some d' \<and> unat d' = unat base ^ j
    \<and> (j = 0 \<or> unat base ^ j \<le> unat num) \<and> unat num < unat base ^ Suc j"
  using assms(2,3)
proof (induction "unat num - unat d" arbitrary: d k rule: less_induct)
  case less
  have d0: "d \<noteq> 0" and dpos: "0 < unat d"
    using less.prems(1) assms(1) by (auto simp: unat_gt_0 [symmetric])
  show ?case
  proof (cases "num div d \<ge> base")
    case False
    then have "unat num div unat d < unat base"
      by (simp add: word_le_nat_alt unat_div_distrib)
    then have "unat num < unat base * unat d"
      using dpos by (simp only: div_less_iff_less_mult)
    then have "unat num < unat base ^ Suc k" by (simp add: less.prems(1))
    with False d0 less.prems show ?thesis
      by (subst scale_loop.simps) auto
  next
    case True
    then have le: "unat d * unat base \<le> unat num"
      using dpos by (simp add: word_le_nat_alt unat_div_distrib less_eq_div_iff_mult_less_eq mult.commute)
    then have "unat d * unat base < 2 ^ LENGTH('a)"
      using unsigned_less [of num, where ?'a = nat] by (rule le_less_trans)
    then have u: "unat (d * base) = unat d * unat base" by (rule unat_mult_small)
    have "unat d < unat d * unat base" using dpos assms(1) by simp
    then have "unat num - unat (d * base) < unat num - unat d" using le unfolding u by linarith
    moreover have "unat (d * base) = unat base ^ Suc k" by (simp add: u less.prems(1))
    moreover have "Suc k = 0 \<or> unat base ^ Suc k \<le> unat num"
      using le by (simp add: less.prems(1) mult.commute)
    ultimately have "\<exists>d' j. scale_loop num base (d * base) = Some d' \<and> unat d' = unat base ^ j
        \<and> (j = 0 \<or> unat base ^ j \<le> unat num) \<and> unat num < unat base ^ Suc j"
      by (rule less.hyps)
    with True d0 show ?thesis by (subst scale_loop.simps) simp
  qed
qed

definition digits_text :: "bool \<Rightarrow> nat \<Rightarrow> nat \<Rightarrow> string" where
  "digits_text uc b n = map (\<lambda>i. digit_char uc (of_nat i)) (nat_digits b n)"

lemma emit_loop_digits:
  fixes num base d :: "'a::len word"
  assumes b: "2 \<le> unat base" "unat base \<le> 16"
  assumes "unat d = unat base ^ k" and "unat num < unat base ^ Suc k"
    and "n \<noteq> 0 \<or> k = 0 \<or> unat base ^ k \<le> unat num"
  shows "emit_loop uc base num d n out =
    Some (out @ map (\<lambda>i. digit_char uc (of_nat i)) (digits_from (unat base) k (unat num)))"
  using assms(3-5)
proof (induction k arbitrary: num d n out)
  case 0
  have d: "d = 1" using "0.prems"(1) by (simp add: word_unat_eq_iff)
  have q: "d div base = 0" using b by (simp add: d word_unat_eq_iff unat_div_distrib)
  have "base \<noteq> 0" using b by auto
  then have "emit_loop uc base num d n out
      = emit_loop uc base (num mod d) 0 (Suc n) (out @ [digit_char uc (ucast num)])"
    by (subst emit_loop.simps) (simp add: q Let_def, simp add: d)
  then show ?case by (subst (asm) (2) emit_loop.simps) simp
next
  case (Suc k)
  let ?dgt = "ucast (num div d) :: s32" and ?num = "num mod d" and ?d = "d div base"
  have "d \<noteq> 0" and "base \<noteq> 0"
    using Suc.prems(1) b by (auto simp: unat_gt_0 [symmetric])
  have q: "unat (num div d) = unat num div unat base ^ Suc k"
    by (simp only: unat_div_distrib Suc.prems(1))
  have "?dgt = of_nat (unat (num div d))" by simp
  then have dgt: "?dgt = of_nat (unat num div unat base ^ Suc k)" by (simp only: q)
  have small: "unat num div unat base ^ Suc k < 16"
  proof -
    have "unat num div unat base ^ Suc k < unat base"
      using Suc.prems(2) by (simp add: less_mult_imp_div_less mult.commute)
    then show ?thesis using b(2) by simp
  qed
  have pos: "n \<noteq> 0 \<or> 0 <s ?dgt"
  proof (cases "n = 0")
    case True
    then have "unat base ^ Suc k \<le> unat num" using Suc.prems(3) by simp
    then have "0 < unat num div unat base ^ Suc k"
      using b(1) by (simp add: div_greater_zero_iff)
    then show ?thesis
      using small by (simp add: dgt word_sless_alt sint_of_nat_small)
  qed simp
  have "emit_loop uc base num d n out
      = emit_loop uc base ?num ?d (Suc n) (out @ [digit_char uc ?dgt])"
    using \<open>d \<noteq> 0\<close> \<open>base \<noteq> 0\<close> pos by (subst emit_loop.simps) (auto simp: Let_def)
  also have "\<dots> = Some ((out @ [digit_char uc ?dgt])
      @ map (\<lambda>i. digit_char uc (of_nat i)) (digits_from (unat base) k (unat ?num)))"
  proof (rule Suc.IH)
    show "unat ?d = unat base ^ k" using b by (simp add: unat_div_distrib Suc.prems(1))
    show "unat ?num < unat base ^ Suc k" using b by (simp add: unat_mod_distrib Suc.prems(1))
  qed simp
  also have "unat ?num = unat num mod unat base ^ Suc k"
    by (simp only: unat_mod_distrib Suc.prems(1))
  finally show ?case by (simp add: dgt)
qed

lemma uN2a_digits:
  fixes num :: "'a::len word"
  assumes b: "2 \<le> unat (p_base p)" "unat (p_base p) \<le> 16" and len: "5 \<le> LENGTH('a)"
  shows "uN2a num p = Some (p\<lparr>p_bf := digits_text (p_uc p) (unat (p_base p)) (unat num)\<rparr>)"
proof -
  let ?b = "ucast (p_base p) :: 'a word"
  have "(2::nat) ^ 5 \<le> 2 ^ LENGTH('a)" using len by (rule power_increasing) simp
  then have u: "unat ?b = unat (p_base p)"
    using b(2) by (simp add: unsigned_ucast_eq take_bit_nat_eq_self)
  obtain d j where d: "scale_loop num ?b 1 = Some d" "unat d = unat ?b ^ j"
      "j = 0 \<or> unat ?b ^ j \<le> unat num" "unat num < unat ?b ^ Suc j"
    using scale_loop_power [of ?b 1 0 num] b by (auto simp: u)
  have "emit_loop (p_uc p) ?b num d 0 [] =
      Some ([] @ map (\<lambda>i. digit_char (p_uc p) (of_nat i)) (digits_from (unat ?b) j (unat num)))"
    using b d by (intro emit_loop_digits) (auto simp: u)
  moreover have "nat_digits (unat (p_base p)) (unat num) = digits_from (unat ?b) j (unat num)"
    using b d unfolding u by (intro nat_digits_from) auto
  ultimately show ?thesis
    by (simp add: uN2a_def d(1) digits_text_def)
qed

lemmas ui2a_digits = uN2a_digits [where 'a = 32, folded ui2a_def uli2a_def, simplified]

section \<open>Padding\<close>

definition c_str :: "string \<Rightarrow> string" where
  "c_str = takeWhile (\<lambda>c. c \<noteq> NUL)"

lemma foldl_replicate_commute:
  "f (foldl f s (replicate k c)) c = foldl f (f s c) (replicate k c)"
  by (induction k arbitrary: s) simp_all

lemma put_n_foldl: "put_n putf c n s = foldl putf s (replicate (nat n) c)"
proof -
  have "((\<lambda>s. putf s c) ^^ k) s = foldl putf s (replicate k c)" for k
    by (induction k arbitrary: s) (simp_all add: foldl_replicate_commute)
  then show ?thesis by (simp add: put_n_def)
qed

lemma put_str_foldl: "put_str putf str s = foldl putf s (c_str str)"
  by (induction str arbitrary: s) (auto simp: c_str_def)

lemma fill_count_eq:
  "fill_count bf n = (if 0 \<le> n then max 0 (n - int (length (c_str bf))) else n)"
  by (induction bf n rule: fill_count.induct) (auto simp: c_str_def)

definition sign_text :: "param \<Rightarrow> string" where
  "sign_text p = (if p_sign p \<noteq> NUL then [p_sign p] else [])"

definition alt_text :: "param \<Rightarrow> string" where
  "alt_text p =
     (if p_alt p \<and> p_base p = 16 then [CHR ''0'', if p_uc p then CHR ''X'' else CHR ''x'']
      else if p_alt p \<and> p_base p = 8 then ''0'' else [])"

text \<open>A field: sign, prefix and body, filled up to the width before the sign with spaces,
  between prefix and body with zeros, or after the body with spaces; zeros win over left
  alignment.\<close>

definition field :: "param \<Rightarrow> string" where
  "field p =
     (let body = c_str (p_bf p);
          fill = nat (sint (p_width p)) - length (sign_text p @ alt_text p @ body)
      in if p_lz p then sign_text p @ alt_text p @ replicate fill (CHR ''0'') @ body
         else if p_align_left p then sign_text p @ alt_text p @ body @ replicate fill (CHR '' '')
         else replicate fill (CHR '' '') @ sign_text p @ alt_text p @ body)"

lemma putchw_field: "putchw putf p s = foldl putf s (field p)"
proof -
  let ?n = "fill_count (p_bf p) (sint (p_width p))"
  let ?s = "if p_sign p \<noteq> NUL then 1 else 0 :: int"
  let ?a = "if p_alt p \<and> p_base p = 16 then 2 else if p_alt p \<and> p_base p = 8 then 1 else 0 :: int"
  have fill: "nat (?n - ?s - ?a)
      = nat (sint (p_width p)) - length (sign_text p @ alt_text p @ c_str (p_bf p))"
    by (auto simp: fill_count_eq sign_text_def alt_text_def)
  have n: "(if p_alt p \<and> p_base p = 16 then (if p_sign p \<noteq> NUL then ?n - 1 else ?n) - 2
      else if p_alt p \<and> p_base p = 8 then (if p_sign p \<noteq> NUL then ?n - 1 else ?n) - 1
      else (if p_sign p \<noteq> NUL then ?n - 1 else ?n)) = ?n - ?s - ?a" by simp
  have "foldl putf s (sign_text p) = (if p_sign p \<noteq> NUL then putf s (p_sign p) else s)" for s
    by (simp add: sign_text_def)
  moreover have "foldl putf s (alt_text p) = (if p_alt p \<and> p_base p = 16
      then putf (putf s (CHR ''0'')) (if p_uc p then CHR ''X'' else CHR ''x'')
      else if p_alt p \<and> p_base p = 8 then putf s (CHR ''0'') else s)" for s
    by (simp add: alt_text_def)
  ultimately show ?thesis
    by (simp only: putchw_def Let_def n put_n_foldl put_str_foldl fill field_def foldl_append)
       simp
qed

lemma length_field:
  "length (field p) =
     max (nat (sint (p_width p))) (length (sign_text p) + length (alt_text p) + length (c_str (p_bf p)))"
  by (cases "p_lz p"; cases "p_align_left p") (auto simp: field_def Let_def max_def)

section \<open>The text a format stands for\<close>

text \<open>\<open>conv_text\<close> is the text of one directive; \<open>format_text\<close> that of a whole format.\<close>

definition conv_text :: "char \<Rightarrow> nat \<Rightarrow> param \<Rightarrow> vararg list \<Rightarrow> (param \<times> vararg list \<times> string) option" where
  "conv_text ch lng p va = convert (\<lambda>s c. s @ [c]) ch lng p va []"

function format_text :: "param \<Rightarrow> string \<Rightarrow> vararg list \<Rightarrow> string option" where
  "format_text p [] va = Some []"
| "format_text p (ch # fmt) va =
     (if ch = NUL then Some []
      else if ch \<noteq> CHR ''%'' then map_option ((#) ch) (format_text p fmt va)
      else case parse_spec fmt p of (ch, fmt, p, lng) \<Rightarrow>
             if ch = NUL then Some []
             else case conv_text ch lng p va of
                    None \<Rightarrow> None
                  | Some (p, va, t) \<Rightarrow> map_option ((@) t) (format_text p fmt va))"
  by pat_completeness auto
termination
  by (relation "measure (\<lambda>(p, fmt, va). length fmt)")
     (auto dest!: sym [where t = "parse_spec _ _"] parse_spec_length)

lemma foldl_snoc: "foldl (\<lambda>s c. s @ [c]) s t = s @ t"
  by (induction t arbitrary: s) simp_all

lemma convert_text:
  "convert putf ch lng p va s =
     map_option (\<lambda>(p, va, t). (p, va, foldl putf s t)) (conv_text ch lng p va)"
proof -
  let ?F = "\<lambda>(p, va, t). (p :: param, va :: vararg list, foldl putf s t)"
  have num: "map_option ?F (map_option (\<lambda>(p, va). (p, va, putchw (\<lambda>s c. s @ [c]) p [])) m)
      = map_option (\<lambda>(p, va). (p, va, putchw putf p s)) m" for m
    by (cases m) (auto simp: putchw_field foldl_snoc)
  have chr: "map_option ?F (Option.bind m (\<lambda>(x, va). Some (p, va, [] @ [g x])))
      = Option.bind m (\<lambda>(x, va). Some (p, va, putf s (g x)))"
    for m :: "(u32 \<times> vararg list) option" and g
    by (cases m) auto
  have str: "map_option ?F (Option.bind m
        (\<lambda>(x, va). Some (p, va, putchw (\<lambda>s c. s @ [c]) (p\<lparr>p_bf := x\<rparr>) [])))
      = Option.bind m (\<lambda>(x, va). Some (p, va, putchw putf (p\<lparr>p_bf := x\<rparr>) s))" for m
    by (cases m) (auto simp: putchw_field foldl_snoc)
  have lit: "map_option ?F (Some (p, va, [] @ [c])) = Some (p, va, putf s c)"
    "map_option ?F (Some (p, va, [])) = Some (p, va, s)" for c
    by simp_all
  show ?thesis
    unfolding conv_text_def convert_def Let_def
    by (simp only: if_distrib [of "map_option ?F"] prod.case_distrib [of "map_option ?F"] num chr str lit)
qed

lemma tfp_format_loop_text:
  "tfp_format_loop putf p fmt va s = map_option (foldl putf s) (format_text p fmt va)"
proof (induction putf p fmt va s rule: tfp_format_loop.induct)
  case (1 putf p va s)
  show ?case by simp
next
  case (2 putf p ch fmt va s)
  show ?case
  proof (cases "ch = NUL \<or> ch \<noteq> CHR ''%''")
    case True
    then show ?thesis
      using "2.IH"(1) by (auto simp: option.map_comp o_def)
  next
    case False
    obtain ch' fmt' p' lng where spec: "parse_spec fmt p = (ch', fmt', p', lng)"
      by (metis prod_cases4)
    show ?thesis
    proof (cases "ch' = NUL \<or> conv_text ch' lng p' va = None")
      case True
      with False show ?thesis by (auto simp: spec convert_text)
    next
      case nz: False
      then obtain p'' va' t where t: "conv_text ch' lng p' va = Some (p'', va', t)" by auto
      then have c: "convert putf ch' lng p' va s = Some (p'', va', foldl putf s t)"
        by (simp add: convert_text)
      have "tfp_format_loop putf p'' fmt' va' (foldl putf s t)
          = map_option (foldl putf (foldl putf s t)) (format_text p'' fmt' va')"
        using False nz by (intro "2.IH"(2)) (auto simp: spec c)
      with False nz show ?thesis
        by (simp add: spec t c option.map_comp o_def)
    qed
  qed
qed

lemma tfp_format_text: "tfp_format p0 s putf fmt va = map_option (foldl putf s) (format_text p0 fmt va)"
  by (simp add: tfp_format_def tfp_format_loop_text)

section \<open>Printed digits are read back\<close>

lemma a2d_code:
  "a2d ch = (let n = of_char ch :: nat in
     if 48 \<le> n \<and> n \<le> 57 then int n - 48
     else if 97 \<le> n \<and> n \<le> 102 then int n - 87
     else if 65 \<le> n \<and> n \<le> 70 then int n - 55 else - 1)"
proof -
  have "(of_char ch :: int) = int (of_char ch)" by (simp only: of_nat_of_char)
  then show ?thesis by (simp add: a2d_def less_eq_char_def Let_def)
qed

lemma digit_char_small:
  assumes d: "d < 16"
  shows "of_char (digit_char uc (of_nat d)) = (if d < 10 then 48 + d else if uc then 55 + d else 87 + d)"
    and "a2d (digit_char uc (of_nat d)) = int d"
proof -
  have s: "(of_nat d :: s32) <s 10 \<longleftrightarrow> d < 10"
    using d by (simp add: word_sless_alt sint_of_nat_small)
  have u: "unat (of_nat d + of_nat k :: s32) = d + k" if "k < 256" for k
    using d that by (simp add: unat_of_nat flip: of_nat_add)
  have "unat ((of_nat d :: s32) + (if (of_nat d :: s32) <s 10 then 48 else (if uc then 65 else 97) - 10))
      = (if d < 10 then 48 + d else if uc then 55 + d else 87 + d)"
    using u [of 48] u [of 55] u [of 87] by (simp add: s add.commute)
  then show c: "of_char (digit_char uc (of_nat d))
      = (if d < 10 then 48 + d else if uc then 55 + d else 87 + d)"
    using d by (simp add: digit_char_def)
  show "a2d (digit_char uc (of_nat d)) = int d"
    unfolding a2d_code c using d by auto
qed

lemma digit_char_not_NUL: "d < 16 \<Longrightarrow> digit_char uc (of_nat d) \<noteq> NUL"
  using digit_char_small(1) [of d uc] by (auto split: if_splits)

lemma c_str_id: "NUL \<notin> set s \<Longrightarrow> c_str s = s"
  unfolding c_str_def by (intro takeWhile_eq_all_conv [THEN iffD2]) auto

lemma digits_text_no_NUL:
  assumes "2 \<le> b" and "b \<le> 16"
  shows "NUL \<notin> set (digits_text uc b n)"
proof
  assume "NUL \<in> set (digits_text uc b n)"
  then obtain d where "d \<in> set (nat_digits b n)" and eq: "NUL = digit_char uc (of_nat d)"
    by (auto simp: digits_text_def)
  then have "d < 16" using nat_digits_small [OF assms(1)] assms(2) by fastforce
  from digit_char_not_NUL [OF this] eq show False by metis
qed

lemma a2u_loop_digits:
  assumes "\<forall>d \<in> set ds. d < 10" and "\<not> (0 \<le> a2d ch \<and> a2d ch \<le> 10)"
  shows "a2u_loop (hd (map (\<lambda>i. digit_char uc (of_nat i)) ds @ [ch]))
      (tl (map (\<lambda>i. digit_char uc (of_nat i)) ds @ [ch]) @ rest) 10 num
    = (ch, rest, foldl (\<lambda>v d. v * 10 + of_nat d) num ds)"
  using assms(1)
proof (induction ds arbitrary: num)
  case Nil
  show ?case using assms(2) by (cases rest) auto
next
  case (Cons d ds)
  have d: "a2d (digit_char uc (of_nat d)) = int d" "d < 10"
    using Cons.prems by (auto simp: digit_char_small(2))
  have "a2u_loop (digit_char uc (of_nat d)) (c # cs) 10 num = a2u_loop c cs 10 (num * 10 + of_nat d)"
    for c cs using d by simp
  then show ?case using Cons.IH [of "num * 10 + of_nat d"] Cons.prems
    by (cases ds) simp_all
qed

lemma foldl_of_nat:
  "foldl (\<lambda>v d. v * 10 + of_nat d) (of_nat v) ds = (of_nat (foldl (\<lambda>v d. v * 10 + d) v ds) :: 'a::len word)"
proof (induction ds arbitrary: v)
  case (Cons d ds)
  from Cons.IH [of "v * 10 + d"] show ?case by simp
qed simp

lemma a2u_digits:
  assumes "\<not> (0 \<le> a2d ch \<and> a2d ch \<le> 10)"
  shows "a2u (hd (digits_text uc 10 n)) (tl (digits_text uc 10 n) @ ch # rest) 10 = (ch, rest, of_nat n)"
proof -
  have "\<forall>d \<in> set (nat_digits 10 n). d < 10" using nat_digits_small [of 10] by auto
  from a2u_loop_digits [OF this assms, of uc rest 0]
  have "a2u_loop (hd (digits_text uc 10 n)) (tl (digits_text uc 10 n) @ ch # rest) 10 0
      = (ch, rest, foldl (\<lambda>v d. v * 10 + of_nat d) 0 (nat_digits 10 n))"
    by (cases "nat_digits 10 n") (simp_all add: digits_text_def)
  also have "foldl (\<lambda>v d. v * 10 + of_nat d) 0 (nat_digits 10 n) = (of_nat n :: u32)"
    using foldl_of_nat [of 0 "nat_digits 10 n", where ?'a = 32] digits_val_nat_digits [of 10 n]
    by (simp add: digits_val_def)
  finally show ?thesis by (simp add: a2u_def)
qed

section \<open>Which arguments a format takes\<close>

datatype argkind = K32 | K64 | KStr

fun arg_kind :: "vararg \<Rightarrow> argkind" where
  "arg_kind (A32 x) = K32"
| "arg_kind (A64 x) = K64"
| "arg_kind (AStr x) = KStr"

definition conv_kinds :: "char \<Rightarrow> nat \<Rightarrow> argkind list" where
  "conv_kinds ch lng =
     (if ch \<in> {CHR ''u'', CHR ''d'', CHR ''i'', CHR ''x'', CHR ''X''}
      then [if lng = 2 then K64 else K32]
      else if ch \<in> {CHR ''p'', CHR ''o'', CHR ''c''} then [K32]
      else if ch = CHR ''s'' then [KStr] else [])"

function format_kinds :: "param \<Rightarrow> string \<Rightarrow> argkind list" where
  "format_kinds p [] = []"
| "format_kinds p (ch # fmt) =
     (if ch = NUL then []
      else if ch \<noteq> CHR ''%'' then format_kinds p fmt
      else case parse_spec fmt p of (ch, fmt, q, lng) \<Rightarrow>
             if ch = NUL then [] else conv_kinds ch lng @ format_kinds p fmt)"
  by pat_completeness auto
termination
  by (relation "measure (\<lambda>(p, fmt). length fmt)")
     (auto dest!: sym [where t = "parse_spec _ _"] parse_spec_length)

text \<open>The parameters do not influence how a directive is parsed.\<close>

lemma flags_loop_shape:
  "flags_loop fmt p = (ch, f, p') \<Longrightarrow> \<exists>q'. flags_loop fmt q = (ch, f, q')"
  by (induction fmt p arbitrary: q rule: flags_loop.induct) (auto split: if_splits)

lemma parse_width_shape:
  "parse_width (c, fmt, p) = (ch, f, p') \<Longrightarrow> \<exists>q'. parse_width (c, fmt, q) = (ch, f, q')"
  by (auto simp: parse_width_def split: if_splits prod.splits)

lemma parse_precision_shape:
  "parse_precision (c, fmt, p) = (ch, f, p') \<Longrightarrow> \<exists>q'. parse_precision (c, fmt, q) = (ch, f, q')"
  by (auto simp: parse_precision_def split: if_splits prod.splits)

lemma parse_length_shape:
  "parse_length (c, fmt, p) = (ch, f, p', lng) \<Longrightarrow> \<exists>q'. parse_length (c, fmt, q) = (ch, f, q', lng)"
  by (auto simp: parse_length_def split: if_splits prod.splits)

lemma parse_spec_shape:
  assumes "parse_spec fmt p = (ch, f, p', lng)"
  shows "\<exists>q'. parse_spec fmt q = (ch, f, q', lng)"
proof -
  let ?p = "\<lambda>p. p\<lparr>p_lz := False, p_alt := False, p_width := 0, p_align_left := False, p_sign := NUL\<rparr>"
  obtain c1 f1 p1 where 1: "flags_loop fmt (?p p) = (c1, f1, p1)" by (metis prod_cases3)
  obtain c2 f2 p2 where 2: "parse_width (c1, f1, p1) = (c2, f2, p2)" by (metis prod_cases3)
  obtain c3 f3 p3 where 3: "parse_precision (c2, f2, p2) = (c3, f3, p3)" by (metis prod_cases3)
  have 4: "parse_length (c3, f3, p3) = (ch, f, p', lng)"
    using assms by (simp only: parse_spec_def 1 2 3)
  obtain q1 where q1: "flags_loop fmt (?p q) = (c1, f1, q1)" using flags_loop_shape [OF 1] by blast
  obtain q2 where q2: "parse_width (c1, f1, q1) = (c2, f2, q2)" using parse_width_shape [OF 2] by blast
  obtain q3 where q3: "parse_precision (c2, f2, q2) = (c3, f3, q3)"
    using parse_precision_shape [OF 3] by blast
  obtain q4 where q4: "parse_length (c3, f3, q3) = (ch, f, q4, lng)"
    using parse_length_shape [OF 4] by blast
  show ?thesis by (simp only: parse_spec_def q1 q2 q3 q4) blast
qed

end
