(* ===== verification/TinyprintfFrontends.thy ===== *)
theory TinyprintfFrontends
  imports TinyprintfProofs
begin

text \<open>
  The contract of a call-back (a character sink), the string front ends of
  \<^verbatim>\<open>tinyprintf.c\<close> as instances of it, and the properties of the whole file.
\<close>

section \<open>Conversions return\<close>

lemma conv_unsigned_eq:
  assumes "p_base p \<in> {8, 10, 16}"
  shows "conv_unsigned lng p va =
    (if lng = 2
     then map_option (\<lambda>(x, va). (p\<lparr>p_bf := digits_text (p_uc p) (unat (p_base p)) (unat x)\<rparr>, va)) (va64 va)
     else map_option (\<lambda>(x, va). (p\<lparr>p_bf := digits_text (p_uc p) (unat (p_base p)) (unat x)\<rparr>, va)) (va32 va))"
proof -
  have b: "2 \<le> unat (p_base p)" "unat (p_base p) \<le> 16" using assms by auto
  show ?thesis
    by (cases "va64 va"; cases "va32 va")
       (auto simp: conv_unsigned_def ui2a_def uli2a_def ulli2a_def uN2a_digits [OF b])
qed

text \<open>Signed conversions: the sign character and the digits of the absolute value, for every
  value of the type.\<close>

definition with_sign :: "'a::len word \<Rightarrow> param \<Rightarrow> param" where
  "with_sign x p = (if x <s 0 then p\<lparr>p_sign := CHR ''-''\<rparr> else p)"

lemma unat_abs_sint:
  fixes x :: "'a::len word"
  shows "unat (if x <s 0 then - x else x) = nat \<bar>sint x\<bar>"
proof (cases "x <s 0")
  case True
  then have neg: "sint x < 0" by (simp add: word_sless_alt)
  have "uint (- x) = (- uint x) mod 2 ^ LENGTH('a)" by (rule uint_word_ariths)
  also have "\<dots> = (- sint x) mod 2 ^ LENGTH('a)"
    by (simp add: uint_sint take_bit_eq_mod mod_minus_eq)
  also have "- sint x < 2 ^ LENGTH('a)"
  proof -
    have "- (2 ^ (LENGTH('a) - 1)) \<le> sint x" by (rule sint_ge)
    then have "- sint x \<le> 2 ^ (LENGTH('a) - 1)" by simp
    also have "(2::int) ^ (LENGTH('a) - 1) < 2 ^ LENGTH('a)" by simp
    finally show ?thesis .
  qed
  then have "(- sint x) mod 2 ^ LENGTH('a) = - sint x" using neg by simp
  finally have "uint (- x) = - sint x" .
  then show ?thesis using True neg by (simp flip: nat_uint_eq)
next
  case False
  then have "0 \<le> sint x" by (simp add: word_sless_alt)
  moreover have "sint x < 2 ^ LENGTH('a)"
    using sint_lt [of x] by (rule less_le_trans) simp
  ultimately have "uint x = sint x"
    by (simp add: uint_sint take_bit_int_eq_self)
  then show ?thesis using False \<open>0 \<le> sint x\<close> by (simp flip: nat_uint_eq)
qed

lemma conv_signed_eq:
  assumes "p_base p = 10"
  shows "conv_signed lng p va =
    (if lng = 2
     then map_option (\<lambda>(x, va). ((with_sign x p)\<lparr>p_bf := digits_text (p_uc p) 10 (nat \<bar>sint x\<bar>)\<rparr>, va)) (va64 va)
     else map_option (\<lambda>(x, va). ((with_sign x p)\<lparr>p_bf := digits_text (p_uc p) 10 (nat \<bar>sint x\<bar>)\<rparr>, va)) (va32 va))"
proof -
  have 32: "uN2a (if x <s 0 then - x else x) (with_sign x p)
      = Some ((with_sign x p)\<lparr>p_bf := digits_text (p_uc p) 10 (nat \<bar>sint x\<bar>)\<rparr>)" for x :: u32
    using assms by (subst uN2a_digits) (auto simp: with_sign_def unat_abs_sint [symmetric])
  have 64: "uN2a (if x <s 0 then - x else x) (with_sign x p)
      = Some ((with_sign x p)\<lparr>p_bf := digits_text (p_uc p) 10 (nat \<bar>sint x\<bar>)\<rparr>)" for x :: u64
    using assms by (subst uN2a_digits) (auto simp: with_sign_def unat_abs_sint [symmetric])
  have f: "i2a x p = uN2a (if x <s 0 then - x else x) (with_sign x p)"
    "li2a x p = uN2a (if x <s 0 then - x else x) (with_sign x p)"
    "lli2a y p = uN2a (if y <s 0 then - y else y) (with_sign y p)" for x y
    by (simp_all add: i2a_def li2a_def lli2a_def ui2a_def uli2a_def ulli2a_def with_sign_def)
  show ?thesis
    by (cases "va64 va"; cases "va32 va") (auto simp: conv_signed_def f 32 64)
qed

lemma va_eq:
  "va32 va = (case va of A32 x # va \<Rightarrow> Some (x, va) | _ \<Rightarrow> None)"
  "va64 va = (case va of A64 x # va \<Rightarrow> Some (x, va) | _ \<Rightarrow> None)"
  "va_str va = (case va of AStr x # va \<Rightarrow> Some (x, va) | _ \<Rightarrow> None)"
  by (auto split: list.splits vararg.splits)

definition takes :: "argkind list \<Rightarrow> vararg list \<Rightarrow> ('a \<times> vararg list \<times> 'b) option \<Rightarrow> bool" where
  "takes ks va r = (case r of None \<Rightarrow> \<not> prefix ks (map arg_kind va)
     | Some (_, va', _) \<Rightarrow> map arg_kind va = ks @ map arg_kind va')"

lemma takes_unsigned:
  assumes "p_base p \<in> {8, 10, 16}"
  shows "takes [if lng = 2 then K64 else K32] va
    (map_option (\<lambda>(p, va). (p, va, g p)) (conv_unsigned lng p va))"
  unfolding conv_unsigned_eq [OF assms] va_eq takes_def
  by (auto split: list.splits vararg.splits)

lemma takes_signed:
  assumes "p_base p = 10"
  shows "takes [if lng = 2 then K64 else K32] va
    (map_option (\<lambda>(p, va). (p, va, g p)) (conv_signed lng p va))"
  unfolding conv_signed_eq [OF assms] va_eq takes_def
  by (auto split: list.splits vararg.splits)

lemma takes_32: "takes [K32] va (Option.bind (va32 va) (\<lambda>(x, va). Some (p, va, g x)))"
  unfolding va_eq takes_def by (auto split: list.splits vararg.splits)

lemma takes_str: "takes [KStr] va (Option.bind (va_str va) (\<lambda>(x, va). Some (p, va, g x)))"
  unfolding va_eq takes_def by (auto split: list.splits vararg.splits)

lemma takes_none: "takes [] va (Some (p, va, t))"
  by (simp add: takes_def)

lemma conv_text_takes: "takes (conv_kinds ch lng) va (conv_text ch lng p va)"
proof -
  consider "ch = CHR ''u''" | "ch = CHR ''d''" | "ch = CHR ''i''" | "ch = CHR ''p''"
    | "ch = CHR ''x''" | "ch = CHR ''X''" | "ch = CHR ''o''" | "ch = CHR ''c''" | "ch = CHR ''s''"
    | "ch \<notin> {CHR ''u'', CHR ''d'', CHR ''i'', CHR ''p'', CHR ''x'', CHR ''X'', CHR ''o'', CHR ''c'', CHR ''s''}"
    by blast
  then show ?thesis
  proof cases
    case 1 then show ?thesis
      using takes_unsigned [of "p\<lparr>p_base := 10\<rparr>" lng va]
      by (cases "lng = 2") (simp_all add: conv_text_def convert_def conv_kinds_def)
  next
    case 2 then show ?thesis
      using takes_signed [of "p\<lparr>p_base := 10\<rparr>" lng va]
      by (cases "lng = 2") (simp_all add: conv_text_def convert_def conv_kinds_def)
  next
    case 3 then show ?thesis
      using takes_signed [of "p\<lparr>p_base := 10\<rparr>" lng va]
      by (cases "lng = 2") (simp_all add: conv_text_def convert_def conv_kinds_def)
  next
    case 4 then show ?thesis
      using takes_unsigned [of "p\<lparr>p_alt := True, p_base := 16, p_uc := False\<rparr>" 0 va]
      by (cases "lng = 2") (simp_all add: conv_text_def convert_def conv_kinds_def)
  next
    case 5 then show ?thesis
      using takes_unsigned [of "p\<lparr>p_base := 16, p_uc := False\<rparr>" lng va]
      by (cases "lng = 2") (simp_all add: conv_text_def convert_def conv_kinds_def)
  next
    case 6 then show ?thesis
      using takes_unsigned [of "p\<lparr>p_base := 16, p_uc := True\<rparr>" lng va]
      by (cases "lng = 2") (simp_all add: conv_text_def convert_def conv_kinds_def)
  next
    case 7 then show ?thesis
      using takes_unsigned [of "p\<lparr>p_base := 8\<rparr>" 0 va]
      by (cases "lng = 2") (simp_all add: conv_text_def convert_def conv_kinds_def)
  next
    case 8 then show ?thesis
      using takes_32 [of va p "\<lambda>x. [char_of (unat x)]"]
      by (cases "lng = 2") (simp_all add: conv_text_def convert_def conv_kinds_def)
  next
    case 9 then show ?thesis
      using takes_str [of va p "\<lambda>x. putchw (\<lambda>s c. s @ [c]) (p\<lparr>p_bf := x\<rparr>) []"]
      by (cases "lng = 2") (simp_all add: conv_text_def convert_def conv_kinds_def)
  next
    case 10 then show ?thesis
      by (simp add: conv_text_def convert_def conv_kinds_def takes_none)
  qed
qed

lemma conv_text_kinds:
  "conv_text ch lng p va = None \<Longrightarrow> \<not> prefix (conv_kinds ch lng) (map arg_kind va)"
  "conv_text ch lng p va = Some (p', va', t)
     \<Longrightarrow> map arg_kind va = conv_kinds ch lng @ map arg_kind va'"
  using conv_text_takes [of ch lng va p] by (auto simp: takes_def)

lemma format_kinds_shape: "format_kinds p fmt = format_kinds q fmt"
proof (induction p fmt arbitrary: q rule: format_kinds.induct)
  case (2 p ch fmt)
  show ?case
  proof (cases "ch = NUL \<or> ch \<noteq> CHR ''%''")
    case True
    then show ?thesis using "2.IH"(1) [of q] by (cases "ch = NUL") simp_all
  next
    case False
    obtain c f p' lng where 1: "parse_spec fmt p = (c, f, p', lng)" by (metis prod_cases4)
    obtain q' where 2: "parse_spec fmt q = (c, f, q', lng)" using parse_spec_shape [OF 1] by blast
    have "format_kinds p f = format_kinds q f" if "c \<noteq> NUL"
      using False that by (intro "2.IH"(2)) (auto simp: 1)
    with False show ?thesis by (simp add: 1 2)
  qed
qed simp

lemma format_text_returns:
  "(\<exists>t. format_text p fmt va = Some t) \<longleftrightarrow> prefix (format_kinds p fmt) (map arg_kind va)"
proof (induction p fmt va rule: format_text.induct)
  case (1 p va)
  show ?case by simp
next
  case (2 p ch fmt va)
  show ?case
  proof (cases "ch = NUL \<or> ch \<noteq> CHR ''%''")
    case True
    then show ?thesis using "2.IH"(1) by auto
  next
    case False
    obtain c f p' lng where spec: "parse_spec fmt p = (c, f, p', lng)" by (metis prod_cases4)
    show ?thesis
    proof (cases "c = NUL")
      case True
      with False show ?thesis by (simp add: spec)
    next
      case c: False
      show ?thesis
      proof (cases "conv_text c lng p' va")
        case None
        then have "\<not> prefix (conv_kinds c lng) (map arg_kind va)"
          by (rule conv_text_kinds)
        then show ?thesis using False c None
          by (auto simp: spec dest: append_prefixD)
      next
        case (Some r)
        then obtain p'' va' t where r: "conv_text c lng p' va = Some (p'', va', t)"
          by (cases r) auto
        have k: "map arg_kind va = conv_kinds c lng @ map arg_kind va'"
          using conv_text_kinds(2) [OF r] .
        have "(\<exists>t. format_text p'' f va' = Some t) \<longleftrightarrow> prefix (format_kinds p'' f) (map arg_kind va')"
          using False c by (intro "2.IH"(2)) (auto simp: spec r)
        then show ?thesis using False c
          by (auto simp: spec r k format_kinds_shape [of p'' f p])
      qed
    qed
  qed
qed

section \<open>Sinks\<close>

text \<open>
  What a front end relies on of its call-back: \<open>view s t\<close> says that the state \<open>s\<close> has
  taken in the text \<open>t\<close>, and one more call takes in one more character.
\<close>

locale char_sink =
  fixes putf :: "'s \<Rightarrow> char \<Rightarrow> 's"
    and view :: "'s \<Rightarrow> string \<Rightarrow> bool"
  assumes view_putf: "view s t \<Longrightarrow> view (putf s c) (t @ [c])"
begin

lemma view_foldl: "view s t \<Longrightarrow> view (foldl putf s u) (t @ u)"
proof (induction u arbitrary: s t)
  case (Cons c u)
  then have "view (foldl putf (putf s c) u) ((t @ [c]) @ u)" by (intro Cons.IH view_putf)
  then show ?case by simp
qed simp

lemma view_format:
  assumes "view s []" and "tfp_format p0 s putf fmt va = Some s'"
  shows "\<exists>t. format_text p0 fmt va = Some t \<and> view s' t"
  using assms view_foldl [OF assms(1)] by (auto simp: tfp_format_text)

end

text \<open>\<open>_vsnprintf_putcf\<close>: the first \<open>cap\<close> characters are stored, all are counted, and no byte
  outside the first \<open>cap\<close> of the buffer changes.\<close>

definition vsn_view :: "mem \<Rightarrow> ptr \<Rightarrow> u32 \<Rightarrow> vsnprintf_data \<Rightarrow> string \<Rightarrow> bool" where
  "vsn_view m0 str cap d t \<longleftrightarrow> length t < 2 ^ 32 \<longrightarrow>
     vn_capacity d = cap \<and> vn_dest d = str \<and> vn_num_chars d = of_nat (length t) \<and>
     (\<forall>a. vn_mem d a = (let i = unat (a - str) in
        if i < length t \<and> i < unat cap then of_char (t ! i) else m0 a))"

interpretation vsn: char_sink vsnprintf_putcf "vsn_view m0 str cap" for m0 str cap
proof unfold_locales
  fix d t c
  assume v: "vsn_view m0 str cap d t"
  show "vsn_view m0 str cap (vsnprintf_putcf d c) (t @ [c])"
    unfolding vsn_view_def
  proof (intro impI)
    assume len: "length (t @ [c]) < 2 ^ 32"
    then have f: "vn_capacity d = cap" "vn_dest d = str" "vn_num_chars d = of_nat (length t)"
      "\<And>a. vn_mem d a = (let i = unat (a - str) in
        if i < length t \<and> i < unat cap then of_char (t ! i) else m0 a)"
      using v by (auto simp: vsn_view_def)
    have lt: "(of_nat (length t) < cap) \<longleftrightarrow> length t < unat cap"
      using len by (simp add: word_less_nat_alt unat_of_nat)
    have at: "a = str + of_nat (length t) \<longleftrightarrow> unat (a - str) = length t" for a
      using len ptr_at_iff [of "length t" a str] by simp
    show "vn_capacity (vsnprintf_putcf d c) = cap \<and> vn_dest (vsnprintf_putcf d c) = str
      \<and> vn_num_chars (vsnprintf_putcf d c) = of_nat (length (t @ [c]))
      \<and> (\<forall>a. vn_mem (vsnprintf_putcf d c) a = (let i = unat (a - str) in
          if i < length (t @ [c]) \<and> i < unat cap then of_char ((t @ [c]) ! i) else m0 a))"
      by (auto simp: vsnprintf_putcf_def f lt at Let_def nth_append less_Suc_eq)
  qed
qed

text \<open>\<open>_vsprintf_putcf\<close>: every character is stored and nothing else changes.\<close>

definition vs_view :: "mem \<Rightarrow> ptr \<Rightarrow> vsprintf_data \<Rightarrow> string \<Rightarrow> bool" where
  "vs_view m0 str d t \<longleftrightarrow> length t < 2 ^ 32 \<longrightarrow>
     vs_dest d = str \<and> vs_num_chars d = of_nat (length t) \<and>
     (\<forall>a. vs_mem d a = (let i = unat (a - str) in if i < length t then of_char (t ! i) else m0 a))"

interpretation vs: char_sink vsprintf_putcf "vs_view m0 str" for m0 str
proof unfold_locales
  fix d t c
  assume v: "vs_view m0 str d t"
  show "vs_view m0 str (vsprintf_putcf d c) (t @ [c])"
    unfolding vs_view_def
  proof (intro impI)
    assume len: "length (t @ [c]) < 2 ^ 32"
    then have f: "vs_dest d = str" "vs_num_chars d = of_nat (length t)"
      "\<And>a. vs_mem d a = (let i = unat (a - str) in if i < length t then of_char (t ! i) else m0 a)"
      using v by (auto simp: vs_view_def)
    have at: "a = str + of_nat (length t) \<longleftrightarrow> unat (a - str) = length t" for a
      using len ptr_at_iff [of "length t" a str] by simp
    show "vs_dest (vsprintf_putcf d c) = str
      \<and> vs_num_chars (vsprintf_putcf d c) = of_nat (length (t @ [c]))
      \<and> (\<forall>a. vs_mem (vsprintf_putcf d c) a = (let i = unat (a - str) in
          if i < length (t @ [c]) then of_char ((t @ [c]) ! i) else m0 a))"
      by (auto simp: vsprintf_putcf_def f at Let_def nth_append less_Suc_eq)
  qed
qed

text \<open>The store a front end leaves: \<open>k\<close> characters of the text, a NUL, the rest unchanged.\<close>

definition stored :: "mem \<Rightarrow> ptr \<Rightarrow> string \<Rightarrow> nat \<Rightarrow> mem" where
  "stored m str t k = (\<lambda>a. let i = unat (a - str) in
     if i < k then of_char (t ! i) else if i = k then 0 else m a)"

lemma stored_outside: "\<not> in_range a str (Suc k) \<Longrightarrow> stored m str t k a = m a"
  by (simp add: stored_def in_range_def Let_def)

lemma stored_at: "k < 2 ^ 32 \<Longrightarrow> i < k \<Longrightarrow> stored m str t k (str + of_nat i) = of_char (t ! i)"
  by (simp add: stored_def Let_def unat_of_nat)

lemma of_char_eq_0_iff: "(of_char c :: u8) = 0 \<longleftrightarrow> c = NUL"
proof
  assume z: "(of_char c :: u8) = 0"
  let ?n = "of_char c :: nat"
  have "?n < 256" by (rule nat_of_char_less_256)
  have "(of_nat ?n :: u8) = 0" using z by (simp only: of_nat_of_char)
  then have "unat (of_nat ?n :: u8) = 0" by simp
  then have "?n = 0" using \<open>?n < 256\<close> by (simp add: unat_of_nat)
  then have "char_of ?n = NUL" by (simp only: char_of_def) simp
  then show "c = NUL" by simp
qed simp

lemma cstr_by_nth:
  assumes "\<And>i. i < length s \<Longrightarrow> m (p + of_nat i) = s ! i \<and> s ! i \<noteq> 0"
    and "m (p + of_nat (length s)) = 0"
  shows "cstr m p s"
  using assms
proof (induction s arbitrary: p)
  case (Cons c cs)
  have "m p = c \<and> c \<noteq> 0" using Cons.prems(1) [of 0] by simp
  moreover have "cstr m (p + 1) cs"
  proof (rule Cons.IH)
    fix i assume "i < length cs"
    then show "m (p + 1 + of_nat i) = cs ! i \<and> cs ! i \<noteq> 0"
      using Cons.prems(1) [of "Suc i"] by (simp add: add.assoc)
  next
    show "m (p + 1 + of_nat (length cs)) = 0" using Cons.prems(2) by (simp add: add.assoc)
  qed
  ultimately show ?case by simp
qed simp

lemma cstr_stored:
  assumes "k \<le> length t" and "k < 2 ^ 32" and "NUL \<notin> set t"
  shows "cstr (stored m str t k) str (map of_char (take k t))"
proof (rule cstr_by_nth)
  fix i assume "i < length (map of_char (take k t) :: u8 list)"
  then have i: "i < k" "i < length t" using assms(1) by auto
  then have "t ! i \<noteq> NUL" using assms(3) by (metis nth_mem)
  then show "stored m str t k (str + of_nat i) = map of_char (take k t) ! i
      \<and> map of_char (take k t) ! i \<noteq> (0 :: u8)"
    using i assms(2) by (simp add: stored_at of_char_eq_0_iff)
qed (use assms in \<open>simp add: stored_def unat_of_nat Let_def min_absorb2\<close>)

lemma tfp_vsnprintf_stored:
  assumes t: "format_text p0 fmt va = Some t" and len: "length t < 2 ^ 32" and sz: "sz \<noteq> 0"
  shows "tfp_vsnprintf p0 m str sz fmt va =
    Some (stored m str t (min (length t) (unat sz - 1)), of_nat (length t))"
proof -
  let ?d0 = "\<lparr>vn_capacity = sz - 1, vn_dest = str, vn_num_chars = 0, vn_mem = m\<rparr>"
  have sz1: "\<not> sz < 1" using sz by (simp add: word_less_nat_alt unat_eq_zero)
  have "vsn_view m str (sz - 1) ?d0 []" by (simp add: vsn_view_def)
  moreover have f: "tfp_format p0 ?d0 vsnprintf_putcf fmt va = Some (foldl vsnprintf_putcf ?d0 t)"
    by (simp add: tfp_format_text t)
  ultimately have "vsn_view m str (sz - 1) (foldl vsnprintf_putcf ?d0 t) t"
    using vsn.view_foldl [of m str "sz - 1" ?d0 "[]" t] by simp
  then obtain d where d: "d = foldl vsnprintf_putcf ?d0 t" "vn_capacity d = sz - 1" "vn_dest d = str"
    "vn_num_chars d = of_nat (length t)"
    "\<And>a. vn_mem d a = (let i = unat (a - str) in
        if i < length t \<and> i < unat (sz - 1) then of_char (t ! i) else m a)"
    using len by (auto simp: vsn_view_def)
  have cap: "unat (sz - 1) = unat sz - 1" using unat_minus_one [OF sz] .
  have lt: "(of_nat (length t) < sz - 1) \<longleftrightarrow> length t < unat sz - 1"
    using len by (simp add: word_less_nat_alt unat_of_nat cap)
  have at: "a = str + of_nat (length t) \<longleftrightarrow> unat (a - str) = length t" for a
    using len ptr_at_iff [of "length t" a str] by simp
  have atc: "a = str + (sz - 1) \<longleftrightarrow> unat (a - str) = unat sz - 1" for a
  proof -
    have "unat (sz - 1) < 2 ^ 32" using unsigned_less [of "sz - 1", where ?'a = nat] by simp
    from ptr_at_iff [OF this, of a str] show ?thesis
      unfolding cap [symmetric] by (simp only: of_nat_unat)
  qed
  have "(if vn_num_chars d < vn_capacity d then (vn_mem d)(vn_dest d + vn_num_chars d := 0)
      else (vn_mem d)(vn_dest d + vn_capacity d := 0))
    = stored m str t (min (length t) (unat sz - 1))" (is "?l = ?r")
  proof
    fix a
    show "?l a = ?r a"
      using lt at [of a] atc [of a]
      by (cases "length t < unat sz - 1") (auto simp: d(2-5) stored_def Let_def cap)
  qed
  then show ?thesis
    using f sz1 by (simp add: tfp_vsnprintf_def d(1) [symmetric] d(4))
qed

lemma tfp_vsprintf_stored:
  assumes t: "format_text p0 fmt va = Some t" and len: "length t < 2 ^ 32"
  shows "tfp_vsprintf p0 m str fmt va = Some (stored m str t (length t), of_nat (length t))"
proof -
  let ?d0 = "\<lparr>vs_dest = str, vs_num_chars = 0, vs_mem = m\<rparr>"
  have "vs_view m str ?d0 []" by (simp add: vs_view_def)
  moreover have f: "tfp_format p0 ?d0 vsprintf_putcf fmt va = Some (foldl vsprintf_putcf ?d0 t)"
    by (simp add: tfp_format_text t)
  ultimately have "vs_view m str (foldl vsprintf_putcf ?d0 t) t"
    using vs.view_foldl [of m str ?d0 "[]" t] by simp
  then obtain d where d: "d = foldl vsprintf_putcf ?d0 t" "vs_dest d = str"
    "vs_num_chars d = of_nat (length t)"
    "\<And>a. vs_mem d a = (let i = unat (a - str) in if i < length t then of_char (t ! i) else m a)"
    using len by (auto simp: vs_view_def)
  have at: "a = str + of_nat (length t) \<longleftrightarrow> unat (a - str) = length t" for a
    using len ptr_at_iff [of "length t" a str] by simp
  have "(vs_mem d)(vs_dest d + vs_num_chars d := 0) = stored m str t (length t)"
    by (rule ext) (auto simp: d(2-4) stored_def Let_def at)
  then show ?thesis using f by (simp add: tfp_vsprintf_def d(1) [symmetric] d(3))
qed

end
