(* ===== verification/TinyprintfSpec.thy ===== *)
theory TinyprintfSpec
  imports TinyprintfFrontends
begin

text \<open>
  The text a format stands for, said without the code: how a directive is read, what its argument looks like,
  how it is padded. Nothing here is taken from the model of \<^verbatim>\<open>tinyprintf.c\<close>. Below it, that the text of
  \<open>format_text\<close>, which the interpreter sends, is this one.
\<close>

section \<open>The specification\<close>

text \<open>A directive: flags, width, size of the argument (2 is \<open>ll\<close>, 1 is \<open>l\<close> or \<open>z\<close>) and letter, NUL if the format
  ends before it.\<close>

record directive =
  di_left :: bool
  di_zero :: bool
  di_alt :: bool
  di_width :: int
  di_size :: nat
  di_letter :: char

definition decimal_char :: "char \<Rightarrow> bool" where
  "decimal_char c \<longleftrightarrow> c \<in> set ''0123456789''"

text \<open>In a width that has begun with a digit, a letter A counts as ten. A width is an \<open>int\<close>.\<close>

definition width_digit :: "char \<Rightarrow> nat" where
  "width_digit c = (if c \<in> set ''aA'' then 10 else of_char c - of_char (CHR ''0''))"

definition width_value :: "string \<Rightarrow> int" where
  "width_value cs = sint (of_nat (foldl (\<lambda>n c. 10 * n + width_digit c) 0 cs) :: s32)"

text \<open>A precision only asks for zeros.\<close>

definition read_directive :: "string \<Rightarrow> directive \<times> string" where
  "read_directive s =
     (let flags = takeWhile (\<lambda>c. c \<in> set ''-0#'') s;
          s = drop (length flags) s;
          width = (if s \<noteq> [] \<and> decimal_char (hd s) then takeWhile (\<lambda>c. decimal_char c \<or> c \<in> set ''aA'') s else []);
          s = drop (length width) s;
          precise = prefix ''.'' s;
          s = (if precise then dropWhile decimal_char (tl s) else s);
          size = (if prefix ''ll'' s then 2 else if prefix ''l'' s \<or> prefix ''z'' s then 1 else 0);
          s = drop size s
      in (\<lparr>di_left = CHR ''-'' \<in> set flags, di_zero = (CHR ''0'' \<in> set flags \<or> precise), di_alt = CHR ''#'' \<in> set flags,
           di_width = width_value width, di_size = size, di_letter = (if s = [] then NUL else hd s)\<rparr>, tl s))"

text \<open>Digits, base prefix, and a field of a head (sign and prefix) and a body.\<close>

definition numeral_text :: "bool \<Rightarrow> nat \<Rightarrow> nat \<Rightarrow> string" where
  "numeral_text upper base n =
     map (\<lambda>d. (if upper then ''0123456789ABCDEF'' else ''0123456789abcdef'') ! d) (nat_digits base n)"

definition prefix_text :: "bool \<Rightarrow> nat \<Rightarrow> bool \<Rightarrow> string" where
  "prefix_text alt base upper =
     (if \<not> alt then [] else if base = 16 then if upper then ''0X'' else ''0x'' else if base = 8 then ''0'' else [])"

definition padded :: "directive \<Rightarrow> string \<Rightarrow> string \<Rightarrow> string" where
  "padded d front body =
     (let fill = nat (di_width d) - length (front @ body)
      in if di_zero d then front @ replicate fill (CHR ''0'') @ body
         else if di_left d then front @ body @ replicate fill (CHR '' '')
         else replicate fill (CHR '' '') @ front @ body)"

text \<open>The number an argument is, if its size is right.\<close>

fun number_arg :: "bool \<Rightarrow> bool \<Rightarrow> vararg list \<Rightarrow> (int \<times> vararg list) option" where
  "number_arg neg long (A32 x # va) = (if long then None else Some (if neg then sint x else uint x, va))"
| "number_arg neg long (A64 x # va) = (if long then Some (if neg then sint x else uint x, va) else None)"
| "number_arg neg long va = None"

text \<open>The text of a directive. \<open>prev\<close>, the base and the case of the numeral before, is what decides of the prefix a
  string gets under the flag \<open>#\<close>. A pointer and an octal number have no size.\<close>

definition numeral_directive ::
  "nat \<times> bool \<Rightarrow> directive \<Rightarrow> vararg list \<Rightarrow> (string \<times> vararg list \<times> nat \<times> bool) option" where
  "numeral_directive prev d va =
     (let c = di_letter d;
          base = (if c \<in> set ''pxX'' then 16 else if c = CHR ''o'' then 8 else 10);
          upper = (if base = 16 then c = CHR ''X'' else snd prev)
      in map_option
           (\<lambda>(v, va). (padded d ((if v < 0 then ''-'' else []) @ prefix_text (di_alt d \<or> c = CHR ''p'') base upper)
                               (numeral_text upper base (nat \<bar>v\<bar>)), va, base, upper))
           (number_arg (c \<in> set ''di'') (di_size d = 2 \<and> c \<notin> set ''po'') va))"

definition directive_text ::
  "nat \<times> bool \<Rightarrow> directive \<Rightarrow> vararg list \<Rightarrow> (string \<times> vararg list \<times> nat \<times> bool) option" where
  "directive_text prev d va =
     (if di_letter d \<in> set ''udipxXo'' then numeral_directive prev d va
      else if di_letter d = CHR ''c'' then (case va of A32 x # va \<Rightarrow> Some ([char_of (unat x mod 256)], va, prev) | _ \<Rightarrow> None)
      else if di_letter d = CHR ''s''
      then (case va of AStr t # va \<Rightarrow>
              Some (padded d (prefix_text (di_alt d) (fst prev) (snd prev)) (takeWhile (\<lambda>c. c \<noteq> NUL) t), va, prev)
            | _ \<Rightarrow> None)
      else Some (if di_letter d = CHR ''%'' then ''%'' else [], va, prev))"

lemma read_directive_length: "length (snd (read_directive s)) \<le> length s"
proof -
  have l: "length (dropWhile decimal_char (tl (drop k s))) \<le> length s" for k
    by (rule le_trans [OF length_dropWhile_le]) simp
  then have "length (dropWhile decimal_char (tl (drop k s))) - n \<le> length s" for k n
    using diff_le_self le_trans by metis
  then show ?thesis using l by (simp add: read_directive_def Let_def)
qed

text \<open>The text of a format, up to its first NUL; none where an argument is missing or has another size.\<close>

function printf_text :: "nat \<times> bool \<Rightarrow> string \<Rightarrow> vararg list \<Rightarrow> string option" where
  "printf_text prev [] va = Some []"
| "printf_text prev (c # s) va =
     (if c = NUL then Some []
      else if c \<noteq> CHR ''%'' then map_option ((#) c) (printf_text prev s va)
      else case read_directive s of (d, s) \<Rightarrow>
             if di_letter d = NUL then Some []
             else case directive_text prev d va of
                    None \<Rightarrow> None
                  | Some (t, va, prev) \<Rightarrow> map_option ((@) t) (printf_text prev s va))"
  by pat_completeness auto
termination
  by (relation "measure (\<lambda>(prev, s, va). length s)")
     (use read_directive_length in \<open>auto simp: less_Suc_eq_le, metis snd_conv\<close>)

section \<open>The directives the code reads\<close>

lemma decimal_char_code: "decimal_char c \<longleftrightarrow> CHR ''0'' \<le> c \<and> c \<le> CHR ''9''"
proof
  let ?ns = "[48, 49, 50, 51, 52, 53, 54, 55, 56, 57 :: nat]"
  have u: "set ?ns = {48..57}" by (simp add: atLeastAtMost_def set_eq_iff; presburger)
  assume "CHR ''0'' \<le> c \<and> c \<le> CHR ''9''"
  then have "of_char c \<in> set ?ns" unfolding u by (simp add: less_eq_char_def)
  then have "char_of (of_char c :: nat) \<in> set (map char_of ?ns)" unfolding set_map by (rule imageI)
  moreover have "map char_of ?ns = ''0123456789''" by code_simp
  ultimately show "decimal_char c" by (simp only: decimal_char_def char_of_char)
qed (auto simp: decimal_char_def less_eq_char_def)

lemma width_char_code:
  "0 \<le> a2d c \<and> \<not> 10 < a2d c \<longleftrightarrow> decimal_char c \<or> c \<in> set ''aA''"
  "decimal_char c \<or> c \<in> set ''aA'' \<Longrightarrow> a2d c = int (width_digit c)"
proof -
  define n where "n = (of_char c :: nat)"
  have c: "c = char_of n" by (simp add: n_def)
  have "char_of (97 :: nat) = CHR ''a''" "char_of (65 :: nat) = CHR ''A''" by code_simp+
  then have "n = 97 \<Longrightarrow> c = CHR ''a''" "n = 65 \<Longrightarrow> c = CHR ''A''" by (simp_all add: c)
  then have A: "c = CHR ''a'' \<longleftrightarrow> n = 97" "c = CHR ''A'' \<longleftrightarrow> n = 65" by (auto simp: n_def)
  have d: "decimal_char c \<longleftrightarrow> 48 \<le> n \<and> n \<le> 57" by (simp add: decimal_char_code less_eq_char_def n_def)
  have a: "a2d c = (if 48 \<le> n \<and> n \<le> 57 then int n - 48
     else if 97 \<le> n \<and> n \<le> 102 then int n - 87 else if 65 \<le> n \<and> n \<le> 70 then int n - 55 else - 1)"
    by (simp only: a2d_code Let_def n_def)
  have s: "c \<in> set ''aA'' \<longleftrightarrow> n = 97 \<or> n = 65" using A by simp
  show "0 \<le> a2d c \<and> \<not> 10 < a2d c \<longleftrightarrow> decimal_char c \<or> c \<in> set ''aA''"
    unfolding a d s by presburger
  have w: "width_digit c = (if n = 97 \<or> n = 65 then 10 else n - 48)"
    using s by (simp add: width_digit_def n_def)
  show "decimal_char c \<or> c \<in> set ''aA'' \<Longrightarrow> a2d c = int (width_digit c)"
    unfolding a d s w by (auto simp: of_nat_diff)
qed

lemma next_char_eq: "next_char s = (if s = [] then NUL else hd s, tl s)"
  by (cases s) simp_all

lemma flags_loop_read:
  fixes s
  defines "fl \<equiv> takeWhile (\<lambda>c. c \<in> set ''-0#'') s"
  shows "flags_loop s p = (case next_char (drop (length fl) s) of (c, r) \<Rightarrow> (c, r,
    p\<lparr>p_align_left := p_align_left p \<or> CHR ''-'' \<in> set fl, p_lz := p_lz p \<or> CHR ''0'' \<in> set fl,
      p_alt := p_alt p \<or> CHR ''#'' \<in> set fl\<rparr>))"
  unfolding fl_def by (induction s p rule: flags_loop.induct) auto

lemma a2u_loop_read:
  fixes c cs
  defines "w \<equiv> takeWhile (\<lambda>c. decimal_char c \<or> c \<in> set ''aA'') (c # cs)"
  shows "a2u_loop c cs 10 num = (case next_char (drop (length w) (c # cs)) of (c, r) \<Rightarrow>
    (c, r, foldl (\<lambda>n c. n * 10 + of_nat (width_digit c)) num w))"
  unfolding w_def
proof (induction c cs "10 :: int" num rule: a2u_loop.induct)
  case (1 c num)
  then show ?case using width_char_code [of c] by (auto simp: next_char_eq)
next
  case (2 c d cs num)
  then show ?case using width_char_code [of c] by (auto simp: next_char_eq)
qed

lemma width_value_foldl:
  "sint (foldl (\<lambda>n c. n * 10 + of_nat (width_digit c)) 0 w :: u32) = width_value w"
proof -
  have "foldl (\<lambda>n c. n * 10 + of_nat (width_digit c)) (of_nat v) w = (of_nat (foldl (\<lambda>n c. 10 * n + width_digit c) v w) :: u32)" for v
  proof (induction w arbitrary: v)
    case (Cons c w)
    from Cons [of "10 * v + width_digit c"] show ?case by (simp add: mult.commute)
  qed simp
  from this [of 0] show ?thesis by (simp add: width_value_def)
qed

lemma skip_digits_read: "skip_digits s = next_char (dropWhile decimal_char s)"
  by (induction s) (auto simp: decimal_char_code)

lemma parse_width_read:
  fixes s
  defines "w \<equiv> (if s \<noteq> [] \<and> decimal_char (hd s) then takeWhile (\<lambda>c. decimal_char c \<or> c \<in> set ''aA'') s else [])"
  assumes "p_width p = 0"
  shows "parse_width (case next_char s of (c, r) \<Rightarrow> (c, r, p)) = (case next_char (drop (length w) s) of (c, r) \<Rightarrow>
    (c, r, p\<lparr>p_width := foldl (\<lambda>n c. n * 10 + of_nat (width_digit c)) 0 w\<rparr>))"
proof (cases s)
  case Nil
  then show ?thesis using assms(2) by (simp add: w_def parse_width_def less_eq_char_def)
next
  case (Cons c cs)
  show ?thesis
  proof (cases "decimal_char c")
    case True
    then show ?thesis using a2u_loop_read [of c cs 0]
      by (simp add: w_def Cons parse_width_def a2u_def decimal_char_code [symmetric] split_beta del: takeWhile.simps a2u_loop.simps)
  next
    case False
    then show ?thesis using assms(2) by (simp add: w_def Cons parse_width_def decimal_char_code [symmetric])
  qed
qed

lemma parse_precision_read:
  "parse_precision (case next_char s of (c, r) \<Rightarrow> (c, r, p)) =
    (case next_char (if prefix ''.'' s then dropWhile decimal_char (tl s) else s) of (c, r) \<Rightarrow>
      (c, r, p\<lparr>p_lz := p_lz p \<or> prefix ''.'' s\<rparr>))"
  by (cases s) (auto simp: parse_precision_def skip_digits_read split: prod.splits)

lemma parse_length_read:
  fixes s
  defines "n \<equiv> (if prefix ''ll'' s then 2 else if prefix ''l'' s \<or> prefix ''z'' s then 1 else 0)"
  shows "parse_length (case next_char s of (c, r) \<Rightarrow> (c, r, p)) = (case next_char (drop n s) of (c, r) \<Rightarrow> (c, r, p, n))"
proof (cases s)
  case (Cons c cs)
  then show ?thesis by (cases cs) (auto simp: n_def parse_length_def)
qed (simp add: n_def parse_length_def)

lemma parse_spec_read:
  obtains w where "parse_spec s p = (case read_directive s of (d, r) \<Rightarrow>
      (di_letter d, r, p\<lparr>p_lz := di_zero d, p_alt := di_alt d, p_width := w, p_align_left := di_left d, p_sign := NUL\<rparr>, di_size d))"
    "sint w = di_width (fst (read_directive s))"
proof -
  let ?p = "p\<lparr>p_lz := False, p_alt := False, p_width := 0, p_align_left := False, p_sign := NUL\<rparr>"
  define fl where "fl = takeWhile (\<lambda>c. c \<in> set ''-0#'') s"
  define s1 where "s1 = drop (length fl) s"
  define wd where "wd = (if s1 \<noteq> [] \<and> decimal_char (hd s1) then takeWhile (\<lambda>c. decimal_char c \<or> c \<in> set ''aA'') s1 else [])"
  define s2 where "s2 = drop (length wd) s1"
  define s3 where "s3 = (if prefix ''.'' s2 then dropWhile decimal_char (tl s2) else s2)"
  define n where "n = (if prefix ''ll'' s3 then 2 else if prefix ''l'' s3 \<or> prefix ''z'' s3 then 1 else 0 :: nat)"
  define w :: u32 where "w = foldl (\<lambda>n c. n * 10 + of_nat (width_digit c)) 0 wd"
  let ?p1 = "?p\<lparr>p_align_left := CHR ''-'' \<in> set fl, p_lz := CHR ''0'' \<in> set fl, p_alt := CHR ''#'' \<in> set fl\<rparr>"
  have 1: "flags_loop s ?p = (case next_char s1 of (c, r) \<Rightarrow> (c, r, ?p1))"
    by (simp add: flags_loop_read s1_def fl_def)
  have "p_width ?p1 = 0" by simp
  note 2 = parse_width_read [OF this, where s = s1, folded wd_def, folded s2_def w_def]
    and 3 = parse_precision_read [where s = s2 and p = "?p1\<lparr>p_width := w\<rparr>", folded s3_def]
    and 4 = parse_length_read [where s = s3, folded n_def]
  have r: "read_directive s = (\<lparr>di_left = CHR ''-'' \<in> set fl, di_zero = CHR ''0'' \<in> set fl \<or> prefix ''.'' s2,
      di_alt = CHR ''#'' \<in> set fl, di_width = width_value wd, di_size = n,
      di_letter = (if drop n s3 = [] then NUL else hd (drop n s3))\<rparr>, tl (drop n s3))"
    by (simp only: read_directive_def Let_def fl_def [symmetric] s1_def [symmetric] wd_def [symmetric] s2_def [symmetric]
        s3_def [symmetric] n_def [symmetric])
  show thesis
  proof (rule that [of w])
    show "sint w = di_width (fst (read_directive s))" by (simp add: r w_def width_value_foldl)
    show "parse_spec s p = (case read_directive s of (d, r) \<Rightarrow>
      (di_letter d, r, p\<lparr>p_lz := di_zero d, p_alt := di_alt d, p_width := w, p_align_left := di_left d, p_sign := NUL\<rparr>, di_size d))"
      unfolding parse_spec_def 1 2 3 4 r by (simp add: next_char_eq)
  qed
qed

section \<open>The texts the code sends\<close>

lemma digits_text_numeral:
  assumes "2 \<le> b" "b \<le> 16"
  shows "digits_text uc b n = numeral_text uc b n"
proof -
  have u: "[0..<16] = [0, 1, 2, 3, 4, 5, 6, 7, 8, 9, 10, 11, 12, 13, 14, 15 :: nat]" by (simp add: upt_rec)
  have "map (\<lambda>d. digit_char True (of_nat d)) [0, 1, 2, 3, 4, 5, 6, 7, 8, 9, 10, 11, 12, 13, 14, 15 :: nat] = ''0123456789ABCDEF''"
    "map (\<lambda>d. digit_char False (of_nat d)) [0, 1, 2, 3, 4, 5, 6, 7, 8, 9, 10, 11, 12, 13, 14, 15 :: nat] = ''0123456789abcdef''"
    by code_simp+
  then have "map (\<lambda>d. digit_char uc (of_nat d)) [0..<16] = (if uc then ''0123456789ABCDEF'' else ''0123456789abcdef'')"
    unfolding u by (cases uc) (simp_all only: if_True if_False)
  then have "digit_char uc (of_nat d) = (if uc then ''0123456789ABCDEF'' else ''0123456789abcdef'') ! d" if "d < 16" for d
    using that nth_map [of d "[0..<16]" "\<lambda>d. digit_char uc (of_nat d)"] by simp
  moreover have "d < 16" if "d \<in> set (nat_digits b n)" for d
    using nat_digits_small [OF assms(1) that] assms(2) by simp
  ultimately show ?thesis by (simp add: digits_text_def numeral_text_def)
qed

lemma field_padded:
  assumes "p_lz p = di_zero d" "p_align_left p = di_left d" "sint (p_width p) = di_width d"
  shows "field p = padded d (sign_text p @ alt_text p) (c_str (p_bf p))"
  using assms by (simp add: field_def padded_def Let_def)

lemma alt_prefix: "alt_text p = prefix_text (p_alt p) (unat (p_base p)) (p_uc p)"
  by (auto simp: alt_text_def prefix_text_def word_unat_eq_iff)

text \<open>The parameters hold the directive.\<close>

definition holds_directive :: "param \<Rightarrow> directive \<Rightarrow> bool" where
  "holds_directive p d \<longleftrightarrow> p_lz p = di_zero d \<and> p_align_left p = di_left d \<and> sint (p_width p) = di_width d \<and> p_sign p = NUL"

abbreviation (input) result_of :: "param \<times> vararg list \<times> string \<Rightarrow> string \<times> vararg list \<times> nat \<times> bool" where
  "result_of \<equiv> \<lambda>(p, va, t). (t, va, unat (p_base p), p_uc p)"

lemma putchw_numeral:
  assumes "holds_directive p d" "2 \<le> unat (p_base p)" "unat (p_base p) \<le> 16" "p_sign q \<in> {NUL, CHR ''-''}"
    and "q = p\<lparr>p_sign := p_sign q, p_bf := digits_text (p_uc p) (unat (p_base p)) n\<rparr>"
  shows "putchw (\<lambda>s c. s @ [c]) q [] =
    padded d ((if p_sign q = NUL then [] else ''-'') @ prefix_text (p_alt p) (unat (p_base p)) (p_uc p))
      (numeral_text (p_uc p) (unat (p_base p)) n)"
proof -
  have n: "c_str (digits_text (p_uc p) (unat (p_base p)) n) = numeral_text (p_uc p) (unat (p_base p)) n"
    using c_str_id digits_text_no_NUL assms(2,3) digits_text_numeral by metis
  have q: "p_lz q = di_zero d" "p_align_left q = di_left d" "sint (p_width q) = di_width d"
      "p_alt q = p_alt p" "p_base q = p_base p" "p_uc q = p_uc p"
      "p_bf q = digits_text (p_uc p) (unat (p_base p)) n"
    using assms(1) by (subst assms(5), simp add: holds_directive_def)+
  have "field q = padded d (sign_text q @ prefix_text (p_alt p) (unat (p_base p)) (p_uc p))
      (numeral_text (p_uc p) (unat (p_base p)) n)"
    using field_padded [OF q(1-3)] by (simp add: alt_prefix q n)
  then show ?thesis using assms(4) by (auto simp: putchw_field foldl_snoc sign_text_def)
qed

lemma unsigned_read:
  assumes "holds_directive p d" "p_base p \<in> {8, 10, 16}"
  shows "map_option result_of (map_option (\<lambda>(p, va). (p, va, putchw (\<lambda>s c. s @ [c]) p [])) (conv_unsigned lng p va)) =
    map_option (\<lambda>(v, va). (padded d ((if v < 0 then ''-'' else []) @ prefix_text (p_alt p) (unat (p_base p)) (p_uc p))
       (numeral_text (p_uc p) (unat (p_base p)) (nat \<bar>v\<bar>)), va, unat (p_base p), p_uc p)) (number_arg False (lng = 2) va)"
proof -
  have b: "2 \<le> unat (p_base p)" "unat (p_base p) \<le> 16" and s: "p_sign p = NUL"
    using assms by (auto simp: holds_directive_def)
  have "putchw (\<lambda>s c. s @ [c]) (p\<lparr>p_bf := digits_text (p_uc p) (unat (p_base p)) n\<rparr>) [] =
      padded d (prefix_text (p_alt p) (unat (p_base p)) (p_uc p)) (numeral_text (p_uc p) (unat (p_base p)) n)" for n
    using putchw_numeral [OF assms(1) b, of "p\<lparr>p_bf := digits_text (p_uc p) (unat (p_base p)) n\<rparr>" n] s by simp
  then show ?thesis
    unfolding conv_unsigned_eq [OF assms(2)] va_eq
    by (cases va; cases "hd va"; cases "lng = 2") simp_all
qed

lemma signed_read:
  assumes "holds_directive p d" "p_base p = 10"
  shows "map_option result_of (map_option (\<lambda>(p, va). (p, va, putchw (\<lambda>s c. s @ [c]) p [])) (conv_signed lng p va)) =
    map_option (\<lambda>(v, va). (padded d ((if v < 0 then ''-'' else []) @ prefix_text (p_alt p) 10 (p_uc p))
       (numeral_text (p_uc p) 10 (nat \<bar>v\<bar>)), va, 10, p_uc p)) (number_arg True (lng = 2) va)"
proof -
  have b: "2 \<le> unat (p_base p)" "unat (p_base p) \<le> 16" "unat (p_base p) = 10" and s: "p_sign p = NUL"
    using assms by (auto simp: holds_directive_def)
  have h: "putchw (\<lambda>s c. s @ [c]) ((with_sign x p)\<lparr>p_bf := digits_text (p_uc p) 10 n\<rparr>) [] =
      padded d ((if sint x < 0 then ''-'' else []) @ prefix_text (p_alt p) 10 (p_uc p)) (numeral_text (p_uc p) 10 n)"
    for n and x :: "'a::len word"
    using putchw_numeral [OF assms(1) b(1,2), of "(with_sign x p)\<lparr>p_bf := digits_text (p_uc p) 10 n\<rparr>" n] s b(3)
    by (cases "x <s 0") (simp_all add: with_sign_def word_sless_alt)
  have w: "p_base (with_sign x p) = p_base p" "p_uc (with_sign x p) = p_uc p" for x :: "'a::len word"
    by (simp_all add: with_sign_def)
  show ?thesis
    unfolding conv_signed_eq [OF assms(2)] va_eq
    by (cases va; cases "hd va"; cases "lng = 2") (simp_all add: assms(2) h w)
qed

lemma string_field:
  assumes "holds_directive p d"
  shows "putchw (\<lambda>s c. s @ [c]) (p\<lparr>p_bf := t\<rparr>) [] =
    padded d (prefix_text (p_alt p) (unat (p_base p)) (p_uc p)) (takeWhile (\<lambda>c. c \<noteq> NUL) t)"
  using assms field_padded [of "p\<lparr>p_bf := t\<rparr>" d]
  by (simp add: holds_directive_def putchw_field foldl_snoc alt_prefix sign_text_def c_str_def)

lemma conv_text_read:
  assumes "holds_directive p d" "p_alt p = di_alt d"
  shows "directive_text (unat (p_base p), p_uc p) d va = map_option result_of (conv_text (di_letter d) (di_size d) p va)"
proof -
  have h: "holds_directive (p\<lparr>p_alt := al, p_base := b, p_uc := u\<rparr>) d" for al b u
    using assms(1) by (simp add: holds_directive_def)
  have al: "p\<lparr>p_base := b\<rparr> = p\<lparr>p_alt := di_alt d, p_base := b, p_uc := p_uc p\<rparr>"
      "p\<lparr>p_base := b, p_uc := u\<rparr> = p\<lparr>p_alt := di_alt d, p_base := b, p_uc := u\<rparr>" for b u
    using assms(2) by simp_all
  consider "di_letter d \<in> {CHR ''d'', CHR ''i''}" | "di_letter d = CHR ''u''" | "di_letter d = CHR ''o''" | "di_letter d = CHR ''p''"
    | "di_letter d \<in> {CHR ''x'', CHR ''X''}" | "di_letter d = CHR ''c''" | "di_letter d = CHR ''s''"
    | "di_letter d \<notin> set ''udipxXocs''"
    by auto
  then show ?thesis
  proof cases
    case 1
    then show ?thesis using signed_read [OF h [where b = "10" and al = "di_alt d" and u = "p_uc p"], where lng = "di_size d" and va = va]
      by (auto simp: conv_text_def convert_def directive_text_def numeral_directive_def Let_def al)
  next
    case 2
    then show ?thesis using unsigned_read [OF h [where b = "10" and al = "di_alt d" and u = "p_uc p"], where lng = "di_size d" and va = va]
      by (simp add: conv_text_def convert_def directive_text_def numeral_directive_def Let_def al)
  next
    case 3
    then show ?thesis using unsigned_read [OF h [where b = "8" and al = "di_alt d" and u = "p_uc p"], where lng = "0" and va = va]
      by (simp add: conv_text_def convert_def directive_text_def numeral_directive_def Let_def al)
  next
    case 4
    then show ?thesis using unsigned_read [OF h [where b = "16" and al = "True" and u = "False"], where lng = "0" and va = va]
      by (simp add: conv_text_def convert_def directive_text_def numeral_directive_def Let_def)
  next
    case 5
    then show ?thesis using unsigned_read [OF h [where b = "16" and al = "di_alt d" and u = "di_letter d = CHR ''X''"], where lng = "di_size d" and va = va]
      by (auto simp: conv_text_def convert_def directive_text_def numeral_directive_def Let_def al)
  next
    case 6
    then show ?thesis
      by (cases va; cases "hd va") (simp_all add: conv_text_def convert_def directive_text_def Let_def)
  next
    case 7
    then show ?thesis
      by (cases va; cases "hd va")
         (simp_all add: conv_text_def convert_def directive_text_def Let_def string_field [OF assms(1)] assms(2))
  next
    case 8
    then show ?thesis by (auto simp: conv_text_def convert_def directive_text_def Let_def)
  qed
qed

lemma format_text_printf: "format_text p fmt va = printf_text (unat (p_base p), p_uc p) fmt va"
proof (induction p fmt va rule: format_text.induct)
  case (2 p ch fmt va)
  show ?case
  proof (cases "ch = NUL \<or> ch \<noteq> CHR ''%''")
    case True
    then show ?thesis using "2.IH"(1) by auto
  next
    case False
    obtain d r where rd: "read_directive fmt = (d, r)" by (cases "read_directive fmt")
    obtain w where spec: "parse_spec fmt p = (di_letter d, r,
        p\<lparr>p_lz := di_zero d, p_alt := di_alt d, p_width := w, p_align_left := di_left d, p_sign := NUL\<rparr>, di_size d)"
      and w: "sint w = di_width d"
      using parse_spec_read [of fmt p] by (auto simp: rd)
    let ?p = "p\<lparr>p_lz := di_zero d, p_alt := di_alt d, p_width := w, p_align_left := di_left d, p_sign := NUL\<rparr>"
    have "holds_directive ?p d" using w by (simp add: holds_directive_def)
    from conv_text_read [OF this] have c: "directive_text (unat (p_base p), p_uc p) d va =
        map_option result_of (conv_text (di_letter d) (di_size d) ?p va)" by simp
    show ?thesis
    proof (cases "di_letter d = NUL \<or> conv_text (di_letter d) (di_size d) ?p va = None")
      case True
      with False show ?thesis by (auto simp: spec rd c)
    next
      case nz: False
      then obtain p' va' t where t: "conv_text (di_letter d) (di_size d) ?p va = Some (p', va', t)" by auto
      have "format_text p' r va' = printf_text (unat (p_base p'), p_uc p') r va'"
        using False nz by (intro "2.IH"(2)) (auto simp: spec t)
      with False nz show ?thesis by (simp add: spec rd c t)
    qed
  qed
qed simp

lemma printf_text_example:
  "printf_text (0, False) ''%05d|%-4x|%#X|%3s|%.o%%'' [A32 (- 42), A32 255, A32 255, AStr ''a'', A32 8] =
    Some ''-0042|ff  |0XFF|  a|10%''"
  by code_simp

end
