(* ===== verification/TinyprintfCorrect.thy ===== *)
theory TinyprintfCorrect
  imports TinyprintfSpec
begin

text \<open>
  The properties of \<^verbatim>\<open>tinyprintf.c\<close>: the digits of every conversion, the text of the decimal
  and width directives, the fields \<open>putchw\<close> sends, when a format returns, and what the string
  front ends leave in memory. Two lemmas at the end record deviations of the code.
\<close>

section \<open>Digits\<close>

lemma nat_digits_hd: "2 \<le> b \<Longrightarrow> 0 < n \<Longrightarrow> hd (nat_digits b n) \<noteq> 0"
proof (induction b n rule: nat_digits.induct)
  case (1 b n)
  show ?case
  proof (cases "n < b")
    case True
    with 1 show ?thesis by (subst nat_digits.simps) simp
  next
    case False
    then have "0 < n div b" using "1.prems"(1) by (simp add: div_greater_zero_iff)
    with False "1.prems" have "hd (nat_digits b (n div b)) \<noteq> 0" by (intro "1.IH") auto
    with False "1.prems" show ?thesis by (subst nat_digits.simps) (simp add: hd_append)
  qed
qed

text \<open>In every base the format interpreter uses (8, 10, 16), \<open>ui2a\<close>, \<open>uli2a\<close> and
  \<open>ulli2a\<close> return, and leave in the buffer the digits of the number: they are digits of the
  base, denote the number, have no leading zero, and fit with the terminator in the 23 bytes of
  \<open>bf\<close>.\<close>

theorem digits_correct:
  assumes "p_base p \<in> {8, 10, 16}"
  shows "\<exists>ds es. ui2a x p = Some (p\<lparr>p_bf := map (\<lambda>i. digit_char (p_uc p) (of_nat i)) ds\<rparr>)
    \<and> uli2a x p = ui2a x p
    \<and> ulli2a y p = Some (p\<lparr>p_bf := map (\<lambda>i. digit_char (p_uc p) (of_nat i)) es\<rparr>)
    \<and> digits_val (unat (p_base p)) ds = unat x \<and> digits_val (unat (p_base p)) es = unat y
    \<and> list_all (\<lambda>d. d < unat (p_base p)) (ds @ es)
    \<and> (hd ds = 0 \<longrightarrow> x = 0) \<and> (hd es = 0 \<longrightarrow> y = 0)
    \<and> length ds + 1 \<le> 12 \<and> length es + 1 \<le> 23"
proof (intro exI conjI)
  let ?b = "unat (p_base p)"
  have b: "2 \<le> ?b" "?b \<le> 16" "8 \<le> ?b" using assms by auto
  show "ui2a x p = Some (p\<lparr>p_bf := map (\<lambda>i. digit_char (p_uc p) (of_nat i)) (nat_digits ?b (unat x))\<rparr>)"
    by (simp add: ui2a_def uN2a_digits b digits_text_def)
  show "ulli2a y p = Some (p\<lparr>p_bf := map (\<lambda>i. digit_char (p_uc p) (of_nat i)) (nat_digits ?b (unat y))\<rparr>)"
    by (simp add: ulli2a_def uN2a_digits b digits_text_def)
  show "list_all (\<lambda>d. d < ?b) (nat_digits ?b (unat x) @ nat_digits ?b (unat y))"
    using nat_digits_small [OF b(1)] by (auto simp: list_all_iff)
  show "hd (nat_digits ?b (unat x)) = 0 \<longrightarrow> x = 0" "hd (nat_digits ?b (unat y)) = 0 \<longrightarrow> y = 0"
    using nat_digits_hd [OF b(1)] unat_gt_0 by metis+
  have "(8::nat) ^ 11 \<le> ?b ^ 11" "(8::nat) ^ 22 \<le> ?b ^ 22"
    by (rule power_mono [OF b(3)], simp)+
  then have "unat x < ?b ^ 11" "unat y < ?b ^ 22"
    using unsigned_less [of x, where ?'a = nat] unsigned_less [of y, where ?'a = nat] by simp_all
  then show "length (nat_digits ?b (unat x)) + 1 \<le> 12" "length (nat_digits ?b (unat y)) + 1 \<le> 23"
    using length_nat_digits [OF b(1), of "unat x" 11] length_nat_digits [OF b(1), of "unat y" 22]
    by simp_all
  show "digits_val ?b (nat_digits ?b (unat x)) = unat x" "digits_val ?b (nat_digits ?b (unat y)) = unat y"
    using b(1) by (simp_all add: digits_val_nat_digits)
qed (simp add: ui2a_def uli2a_def)

definition param0 :: param where
  "param0 = \<lparr>p_lz = False, p_alt = False, p_uc = False, p_align_left = False, p_width = 0,
     p_sign = NUL, p_base = 0, p_bf = []\<rparr>"

theorem digits_correct_witness:
  "\<exists>ds es. ui2a 255 (param0\<lparr>p_base := 16\<rparr>)
      = Some (param0\<lparr>p_base := 16, p_bf := map (\<lambda>i. digit_char False (of_nat i)) ds\<rparr>)
    \<and> digits_val 16 ds = 255 \<and> digits_val 16 es = 2 ^ 40 \<and> length es + 1 \<le> 23"
  using digits_correct [of "param0\<lparr>p_base := 16\<rparr>" 255 "2 ^ 40"] by (auto simp: param0_def)

section \<open>Decimal and width directives\<close>

definition show_nat :: "nat \<Rightarrow> string" where
  "show_nat n = digits_text False 10 n"

definition show_int :: "int \<Rightarrow> string" where
  "show_int i = (if i < 0 then CHR ''-'' # show_nat (nat \<bar>i\<bar>) else show_nat (nat \<bar>i\<bar>))"

lemma digits_text_10: "digits_text uc 10 n = show_nat n"
proof -
  have "d < 10" if "d \<in> set (nat_digits 10 n)" for d using nat_digits_small [OF _ that] by simp
  then have "digit_char uc (of_nat d) = digit_char False (of_nat d)" if "d \<in> set (nat_digits 10 n)" for d
    using that by (force simp: digit_char_def word_sless_alt sint_of_nat_small)
  then show ?thesis by (auto simp: show_nat_def digits_text_def)
qed

lemma c_str_digits: "2 \<le> b \<Longrightarrow> b \<le> 16 \<Longrightarrow> c_str (digits_text uc b n) = digits_text uc b n"
  by (intro c_str_id digits_text_no_NUL)

lemma c_str_show_nat: "c_str (show_nat n) = show_nat n"
  unfolding show_nat_def by (rule c_str_digits) simp_all

text \<open>The field of a converted signed number, on the parameters of a directive with no flag.\<close>

lemma field_signed:
  assumes "\<not> p_lz p" "\<not> p_alt p" "\<not> p_align_left p" "p_sign p = NUL"
  shows "field ((with_sign x p)\<lparr>p_bf := digits_text uc 10 (nat \<bar>sint x\<bar>)\<rparr>) =
    replicate (nat (sint (p_width p)) - length (show_int (sint x))) (CHR '' '') @ show_int (sint x)"
  using assms
  by (cases "x <s 0")
     (auto simp: field_def with_sign_def sign_text_def alt_text_def Let_def digits_text_10
       c_str_show_nat show_int_def word_sless_alt)

abbreviation (input) init_param :: "param \<Rightarrow> param" where
  "init_param p \<equiv> p\<lparr>p_lz := False, p_alt := False, p_width := 0, p_align_left := False, p_sign := NUL\<rparr>"

lemma format_text_percent:
  assumes "parse_spec fmt p = (ch, rest, q, lng)" and "ch \<noteq> NUL"
  shows "format_text p (CHR ''%'' # fmt) va =
    Option.bind (conv_text ch lng q va) (\<lambda>(p, va, t). map_option ((@) t) (format_text p rest va))"
  using assms by (auto split: option.split)

lemma conv_text_signed:
  assumes "ch = CHR ''d''" and "\<not> p_lz p" "\<not> p_alt p" "\<not> p_align_left p" "p_sign p = NUL"
  shows "\<exists>p'. conv_text ch 0 p [A32 x] = Some (p', [],
      replicate (nat (sint (p_width p)) - length (show_int (sint x))) (CHR '' '') @ show_int (sint x))"
    and "\<exists>p'. conv_text ch 2 p [A64 y] = Some (p', [],
      replicate (nat (sint (p_width p)) - length (show_int (sint y))) (CHR '' '') @ show_int (sint y))"
  using assms field_signed [of "p\<lparr>p_base := 10\<rparr>" "p_uc p" x]
    field_signed [of "p\<lparr>p_base := 10\<rparr>" "p_uc p" y]
  by (auto simp: conv_text_def convert_def conv_signed_eq va_eq putchw_field foldl_snoc)

text \<open>\<open>%d\<close> and \<open>%lld\<close> print the decimal representation of their argument, for every
  value of the type, the most negative one included, whatever call-back takes the characters
  and whatever the parameters held before.\<close>

theorem printf_decimal:
  "tfp_format p0 s putf ''%d'' [A32 x] = Some (foldl putf s (show_int (sint x)))
   \<and> tfp_format p0 s putf ''%lld'' [A64 y] = Some (foldl putf s (show_int (sint y)))"
proof -
  let ?p = "init_param p0"
  have 1: "parse_spec ''d'' p0 = (CHR ''d'', [], ?p, 0)" "parse_spec ''lld'' p0 = (CHR ''d'', [], ?p, 2)"
    by (simp_all add: parse_spec_def parse_width_def parse_precision_def parse_length_def
        less_eq_char_def)
  obtain p1 p2 where "conv_text CHR ''d'' 0 ?p [A32 x] = Some (p1, [], show_int (sint x))"
    "conv_text CHR ''d'' 2 ?p [A64 y] = Some (p2, [], show_int (sint y))"
    using conv_text_signed(1) [of "CHR ''d''" ?p x] conv_text_signed(2) [of "CHR ''d''" ?p y] by auto
  then show ?thesis
    by (simp add: tfp_format_text format_text_percent [OF 1(1)] format_text_percent [OF 1(2)]
        del: format_text.simps(2))
qed

lemma parse_spec_width:
  assumes "0 < w"
  shows "parse_spec (show_nat w @ ''d'') p = (CHR ''d'', [], (init_param p)\<lparr>p_width := of_nat w\<rparr>, 0)"
proof -
  let ?ds = "nat_digits 10 w"
  obtain e es where ds: "?ds = e # es" by (cases ?ds) auto
  have e: "e < 10" "0 < e"
    using nat_digits_hd [of 10 w] nat_digits_small [of 10 e w] assms by (auto simp: ds)
  let ?c = "digit_char False (of_nat e)"
  have c: "of_char ?c = 48 + e" using digit_char_small(1) [of e False] e by simp
  then have ne: "?c \<noteq> CHR ''-''" "?c \<noteq> CHR ''0''" "?c \<noteq> CHR ''#''" "CHR ''0'' \<le> ?c \<and> ?c \<le> CHR ''9''"
    using e by (auto simp: less_eq_char_def)
  obtain cs where cs: "show_nat w = ?c # cs"
    by (auto simp: show_nat_def digits_text_def ds)
  have "a2u ?c (cs @ CHR ''d'' # []) 10 = (CHR ''d'', [], of_nat w)"
    using a2u_digits [of "CHR ''d''" False w "[]"] by (simp add: show_nat_def [symmetric] cs a2d_code)
  then show ?thesis
    using ne by (simp add: cs parse_spec_def parse_width_def parse_precision_def parse_length_def)
qed

text \<open>A width written with \<open>%d\<close> is read back exactly and honoured: for every width
  that an \<open>int\<close> holds, the directive prints the number right-aligned in that many columns, and
  never cuts it.\<close>

theorem printf_width:
  assumes "0 < w" and "w < 2 ^ 31"
  shows "tfp_format p0 s putf (CHR ''%'' # show_nat w @ ''d'') [A32 x] =
    Some (foldl putf s (replicate (w - length (show_int (sint x))) (CHR '' '') @ show_int (sint x)))"
proof -
  let ?p = "(init_param p0)\<lparr>p_width := of_nat w\<rparr>"
  have w: "sint (of_nat w :: u32) = int w" using assms(2) by (intro sint_of_nat_small) simp
  obtain p1 where "conv_text CHR ''d'' 0 ?p [A32 x] = Some (p1, [],
      replicate (w - length (show_int (sint x))) (CHR '' '') @ show_int (sint x))"
    using conv_text_signed(1) [of "CHR ''d''" ?p x] w by auto
  then show ?thesis
    using format_text_percent [OF parse_spec_width [OF assms(1), of p0]] by (simp add: tfp_format_text del: format_text.simps(2))
qed

theorem printf_width_witness:
  "tfp_format param0 [] (\<lambda>s c. s @ [c]) (CHR ''%'' # show_nat 12 @ ''d'') [A32 (- 2147483648)] =
    Some (foldl (\<lambda>s c. s @ [c]) [] (replicate (12 - length (show_int (- 2147483648))) (CHR '' '')
      @ show_int (- 2147483648)))"
  using printf_width [of 12 param0 "[]" "\<lambda>s c. s @ [c]" "- 2147483648"] by simp

section \<open>Fields\<close>

text \<open>\<open>putchw\<close> sends its call-back, in order, exactly the characters of the field: sign,
  base prefix and body, filled with zeros between prefix and body, or with spaces on the side
  the flags ask for, to the width (a field that is longer is sent whole).\<close>

theorem putchw_sends_field:
  "putchw putf p s = foldl putf s (field p)
   \<and> length (field p) = max (nat (sint (p_width p)))
       (length (sign_text p) + length (alt_text p) + length (c_str (p_bf p)))"
  by (simp add: putchw_field length_field)

text \<open>C6: The format interpreter sends exactly the text its format and arguments stand for: whatever the call-back and
  its state, it calls it on the characters of \<open>printf_text\<close>, once each, in order, and does not return only where there
  is no such text. That text is specified without the code: flags, width, size and letter of each directive, digits of
  the base in either case, sign, prefix, and padding. (It depends on what the parameters held before through the base
  and the case a string directive with \<open>#\<close> finds.)\<close>

theorem tfp_format_refines:
  "tfp_format p0 s putf fmt va = map_option (foldl putf s) (printf_text (unat (p_base p0), p_uc p0) fmt va)"
  by (simp add: tfp_format_text format_text_printf)

text \<open>C15: The interpreter returns if and only if the arguments have the sizes the directives
  take, in the directives' order; with that, every loop in it terminates on every format, also
  on one that ends inside a directive, and the order of the kinds is all it depends on.\<close>

theorem tfp_format_returns_iff:
  "(\<exists>s'. tfp_format p0 s putf fmt va = Some s') \<longleftrightarrow> prefix (format_kinds p0 fmt) (map arg_kind va)"
  by (simp add: tfp_format_text flip: format_text_returns)

section \<open>String front ends\<close>

text \<open>C31: \<open>tfp_vsnprintf\<close> with room for the terminator returns the length of the whole text,
  stores a prefix of it and a NUL (all of it when it fits), and changes no byte outside the
  \<open>size\<close> bytes of the buffer.\<close>

theorem vsnprintf_correct:
  assumes "format_text p0 fmt va = Some t" and "length t < 2 ^ 31" and "sz \<noteq> 0"
  shows "\<exists>m'. tfp_vsnprintf p0 m str sz fmt va = Some (m', of_nat (length t))
    \<and> (NUL \<notin> set t \<longrightarrow> cstr m' str (map of_char (take (unat sz - 1) t)))
    \<and> (\<forall>a. \<not> in_range a str (unat sz) \<longrightarrow> m' a = m a)"
proof -
  let ?k = "min (length t) (unat sz - 1)"
  have len: "length t < 2 ^ 32" using assms(2) by simp
  have sz: "unat sz \<noteq> 0" using assms(3) by (simp add: unat_eq_zero)
  have "cstr (stored m str t ?k) str (map of_char (take (unat sz - 1) t))" if "NUL \<notin> set t"
  proof -
    have "take (unat sz - 1) t = take ?k t" by (simp add: min_def)
    then show ?thesis using cstr_stored [of ?k t m str] len that by simp
  qed
  moreover have "stored m str t ?k a = m a" if "\<not> in_range a str (unat sz)" for a
    using that sz by (intro stored_outside) (auto simp: in_range_def)
  ultimately show ?thesis
    using tfp_vsnprintf_stored [OF assms(1) len assms(3), of m str] by blast
qed

lemma format_text_plain:
  "list_all (\<lambda>c. c \<noteq> NUL \<and> c \<noteq> CHR ''%'') fmt \<Longrightarrow> format_text p fmt va = Some fmt"
  by (induction fmt) auto

theorem vsnprintf_correct_witness:
  "\<exists>m'. tfp_vsnprintf param0 (\<lambda>_. 7) 100 4 ''hello'' [] = Some (m', 5)
    \<and> cstr m' 100 (map of_char ''hel'') \<and> m' 104 = 7"
proof -
  have "format_text param0 ''hello'' [] = Some ''hello''" by (rule format_text_plain) simp
  from vsnprintf_correct [OF this, of 4 "\<lambda>_. 7" 100] show ?thesis
    by (auto simp: in_range_def)
qed

text \<open>\<open>tfp_vsprintf\<close> stores the whole text followed by a NUL, returns its length, and
  changes nothing else; it agrees with \<open>tfp_vsnprintf\<close> on every buffer that is large enough.\<close>

theorem vsprintf_correct:
  assumes "format_text p0 fmt va = Some t" and "length t < 2 ^ 31"
  shows "\<exists>m'. tfp_vsprintf p0 m str fmt va = Some (m', of_nat (length t))
    \<and> bytes_at m' str (length t) = map of_char t \<and> m' (str + of_nat (length t)) = 0
    \<and> (\<forall>a. \<not> in_range a str (length t + 1) \<longrightarrow> m' a = m a)
    \<and> (length t < unat sz \<longrightarrow> tfp_vsnprintf p0 m str sz fmt va = tfp_vsprintf p0 m str fmt va)"
proof (intro exI conjI impI allI)
  let ?m = "stored m str t (length t)"
  have len: "length t < 2 ^ 32" using assms(2) by simp
  show "tfp_vsprintf p0 m str fmt va = Some (?m, of_nat (length t))"
    using tfp_vsprintf_stored [OF assms(1) len] .
  show "bytes_at ?m str (length t) = map of_char t"
    using len by (intro nth_equalityI) (auto simp: stored_at)
  show "?m (str + of_nat (length t)) = 0"
    using len by (simp add: stored_def unat_of_nat Let_def)
  show "?m a = m a" if "\<not> in_range a str (length t + 1)" for a
    using that by (intro stored_outside) simp
  show "tfp_vsnprintf p0 m str sz fmt va = tfp_vsprintf p0 m str fmt va" if "length t < unat sz"
  proof -
    have "min (length t) (unat sz - 1) = length t" "sz \<noteq> 0" using that by auto
    then show ?thesis
      using tfp_vsnprintf_stored [OF assms(1) len, of sz m str] tfp_vsprintf_stored [OF assms(1) len, of m str]
      by simp
  qed
qed

theorem vsprintf_correct_witness:
  "\<exists>m'. tfp_vsprintf param0 (\<lambda>_. 7) 100 ''hi'' [] = Some (m', 2)
    \<and> bytes_at m' 100 2 = map of_char ''hi'' \<and> m' 102 = 0 \<and> m' 103 = 7
    \<and> tfp_vsnprintf param0 (\<lambda>_. 7) 100 3 ''hi'' [] = tfp_vsprintf param0 (\<lambda>_. 7) 100 ''hi'' []"
proof -
  have "format_text param0 ''hi'' [] = Some ''hi''" by (rule format_text_plain) simp
  from vsprintf_correct [OF this, of "\<lambda>_. 7" 100 3] show ?thesis
    by (auto simp: in_range_def numeral_2_eq_2 [symmetric])
qed

section \<open>Deviations\<close>

text \<open>\<open>a2u\<close> leaves its loop on \<open>digit > base\<close>, so in base 10 it takes the letter \<open>a\<close> for a
  digit of value 10.\<close>

lemma a2u_takes_digit_10: "a2u (CHR ''1'') ''as'' 10 = (CHR ''s'', [], 20)"
  by (simp add: a2u_def a2d_code)

text \<open>A string directive with \<open>#\<close> and no conversion before it reads the uninitialised
  \<open>p.base\<close>: the text depends on what the stack held.\<close>

lemma alt_string_reads_uninitialised:
  "format_text (param0\<lparr>p_base := 16\<rparr>) ''%#s'' [AStr ''x''] = Some ''0xx''"
  "format_text (param0\<lparr>p_base := 0\<rparr>) ''%#s'' [AStr ''x''] = Some ''x''"
  by (simp_all add: parse_spec_def parse_width_def parse_precision_def parse_length_def
    less_eq_char_def conv_text_def convert_def putchw_field foldl_snoc field_def param0_def
    sign_text_def alt_text_def c_str_def)

end
