(* ===== verification/CoreState.thy ===== *)
theory CoreState
  imports Memory Crc
begin

text \<open>
  \<^verbatim>\<open>sw/coremark/core_state.c\<close>: the state machine that classifies comma-separated numbers
  (\<open>core_state_transition\<close>), the input it runs over (\<open>core_init_state\<close>) and the benchmark that
  scans the input, corrupts it, scans it again and undoes the corruption
  (\<open>core_bench_state\<close>). The two arrays of counters are functions of the state.
\<close>

abbreviation (input) asc :: "char \<Rightarrow> u8" where
  "asc c \<equiv> of_char c"

section \<open>The code: the state machine\<close>

datatype core_state = CORE_START | CORE_INVALID | CORE_S1 | CORE_S2 | CORE_INT | CORE_FLOAT
  | CORE_EXPONENT | CORE_SCIENTIFIC

text \<open>The loops over \<open>NUM_CORE_STATES\<close> visit the states in this order.\<close>

definition core_states :: "core_state list" where
  "core_states = [CORE_START, CORE_INVALID, CORE_S1, CORE_S2, CORE_INT, CORE_FLOAT,
     CORE_EXPONENT, CORE_SCIENTIFIC]"

type_synonym counts = "core_state \<Rightarrow> u32"

definition bump :: "core_state \<Rightarrow> counts \<Rightarrow> counts" where
  "bump s tc = tc(s := tc s + 1)"

definition ee_isdigit :: "u8 \<Rightarrow> u8" where
  "ee_isdigit c = (if asc CHR ''0'' \<le> c \<and> c \<le> asc CHR ''9'' then 1 else 0)"

text \<open>The \<open>switch\<close> on the state.\<close>

fun state_switch :: "core_state \<Rightarrow> u8 \<Rightarrow> counts \<Rightarrow> core_state \<times> counts" where
  "state_switch CORE_START c tc =
     (let (state, tc) =
        (if ee_isdigit c \<noteq> 0 then (CORE_INT, tc)
         else if c = asc CHR ''+'' \<or> c = asc CHR ''-'' then (CORE_S1, tc)
         else if c = asc CHR ''.'' then (CORE_FLOAT, tc)
         else (CORE_INVALID, bump CORE_INVALID tc))
      in (state, bump CORE_START tc))"
| "state_switch CORE_S1 c tc =
     (if ee_isdigit c \<noteq> 0 then (CORE_INT, bump CORE_S1 tc)
      else if c = asc CHR ''.'' then (CORE_FLOAT, bump CORE_S1 tc)
      else (CORE_INVALID, bump CORE_S1 tc))"
| "state_switch CORE_INT c tc =
     (if c = asc CHR ''.'' then (CORE_FLOAT, bump CORE_INT tc)
      else if \<not> ee_isdigit c \<noteq> 0 then (CORE_INVALID, bump CORE_INT tc)
      else (CORE_INT, tc))"
| "state_switch CORE_FLOAT c tc =
     (if c = asc CHR ''E'' \<or> c = asc CHR ''e'' then (CORE_S2, bump CORE_FLOAT tc)
      else if \<not> ee_isdigit c \<noteq> 0 then (CORE_INVALID, bump CORE_FLOAT tc)
      else (CORE_FLOAT, tc))"
| "state_switch CORE_S2 c tc =
     (if c = asc CHR ''+'' \<or> c = asc CHR ''-'' then (CORE_EXPONENT, bump CORE_S2 tc)
      else (CORE_INVALID, bump CORE_S2 tc))"
| "state_switch CORE_EXPONENT c tc =
     (if ee_isdigit c \<noteq> 0 then (CORE_SCIENTIFIC, bump CORE_EXPONENT tc)
      else (CORE_INVALID, bump CORE_EXPONENT tc))"
| "state_switch CORE_SCIENTIFIC c tc =
     (if \<not> ee_isdigit c \<noteq> 0 then (CORE_INVALID, bump CORE_INVALID tc)
      else (CORE_SCIENTIFIC, tc))"
| "state_switch CORE_INVALID c tc = (CORE_INVALID, tc)"

text \<open>\<open>for (; *str && state != CORE_INVALID; str++)\<close>; the result is the state, the pointer
  behind the token and the counters.\<close>

partial_function (option) transition_loop ::
  "mem \<Rightarrow> ptr \<Rightarrow> core_state \<Rightarrow> counts \<Rightarrow> (core_state \<times> ptr \<times> counts) option" where
  "transition_loop m str state tc =
     (if m str \<noteq> 0 \<and> state \<noteq> CORE_INVALID
      then if m str = asc CHR '','' then Some (state, str + 1, tc)
           else case state_switch state (m str) tc of
                  (state, tc) \<Rightarrow> transition_loop m (str + 1) state tc
      else Some (state, str, tc))"

definition core_state_transition ::
  "mem \<Rightarrow> ptr \<Rightarrow> counts \<Rightarrow> (core_state \<times> ptr \<times> counts) option" where
  "core_state_transition m instr tc = transition_loop m instr CORE_START tc"

section \<open>The code: the benchmark\<close>

text \<open>\<open>while (*p != 0)\<close>: one token after the other; \<open>fc\<close> counts the end states.\<close>

partial_function (option) scan_loop ::
  "mem \<Rightarrow> ptr \<Rightarrow> counts \<Rightarrow> counts \<Rightarrow> (ptr \<times> counts \<times> counts) option" where
  "scan_loop m p fc tc =
     (if m p \<noteq> 0
      then Option.bind (core_state_transition m p tc)
             (\<lambda>(fstate, p, tc). scan_loop m p (bump fstate fc) tc)
      else Some (p, fc, tc))"

text \<open>\<open>while (p < (memblock + blksize))\<close>: a byte that is not a comma is changed, then \<open>p\<close>
  moves on by \<open>step\<close>.\<close>

partial_function (option) corrupt_loop :: "mem \<Rightarrow> ptr \<Rightarrow> ptr \<Rightarrow> s16 \<Rightarrow> s16 \<Rightarrow> mem option" where
  "corrupt_loop m p stop seed step =
     (if p < stop
      then let m = (if m p \<noteq> asc CHR '','' then m(p := m p XOR ucast seed) else m)
           in corrupt_loop m (p + scast step) stop seed step
      else Some m)"

definition crc_counts :: "counts \<Rightarrow> counts \<Rightarrow> u16 \<Rightarrow> u16" where
  "crc_counts fc tc crc =
     fold (\<lambda>i crc. let crc = crcu32 (fc i) crc in crcu32 (tc i) crc) core_states crc"

definition core_bench_state ::
  "mem \<Rightarrow> u32 \<Rightarrow> ptr \<Rightarrow> s16 \<Rightarrow> s16 \<Rightarrow> s16 \<Rightarrow> u16 \<Rightarrow> (mem \<times> u16) option" where
  "core_bench_state m blksize memblock seed1 seed2 step crc =
     Option.bind (scan_loop m memblock (\<lambda>_. 0) (\<lambda>_. 0)) (\<lambda>(p, fc, tc).
     Option.bind (corrupt_loop m memblock (memblock + blksize) seed1 step) (\<lambda>m.
     Option.bind (scan_loop m memblock fc tc) (\<lambda>(p, fc, tc).
     Option.bind (corrupt_loop m memblock (memblock + blksize) seed2 step) (\<lambda>m.
     Some (m, crc_counts fc tc crc)))))"

section \<open>The code: the input\<close>

definition intpat :: "string list" where
  "intpat = [''5012'', ''1234'', ''-874'', ''+122'']"

definition floatpat :: "string list" where
  "floatpat = [''35.54400'', ''.1234500'', ''-110.700'', ''+0.64400'']"

definition scipat :: "string list" where
  "scipat = [''5.500e+3'', ''-.123e-2'', ''-87e+832'', ''+0.6e-12'']"

definition errpat :: "string list" where
  "errpat = [''T0.3e-1F'', ''-T.T++Tq'', ''1T3.4e4z'', ''34.0e-T^'']"

text \<open>The \<open>switch\<close> on \<open>seed & 7\<close>: the pattern and the number of its characters copied.\<close>

definition pick_pattern :: "s16 \<Rightarrow> u8 list \<times> u32" where
  "pick_pattern seed =
     (let k = unat (drop_bit 3 seed AND 3); t = unat (seed AND 7)
      in if t \<le> 2 then (map of_char (intpat ! k), 4)
         else if t \<le> 4 then (map of_char (floatpat ! k), 8)
         else if t \<le> 6 then (map of_char (scipat ! k), 8)
         else (map of_char (errpat ! k), 8))"

primrec copy_pattern :: "nat \<Rightarrow> mem \<Rightarrow> ptr \<Rightarrow> u8 list \<Rightarrow> mem" where
  "copy_pattern 0 m q buf = m"
| "copy_pattern (Suc n) m q buf = copy_pattern n (m(q := hd buf)) (q + 1) (tl buf)"

text \<open>The state of the first loop: \<open>total\<close>, \<open>next\<close>, \<open>buf\<close> and the seed.\<close>

partial_function (option) init_loop ::
  "mem \<Rightarrow> u32 \<Rightarrow> ptr \<Rightarrow> u32 \<Rightarrow> u32 \<Rightarrow> u8 list \<Rightarrow> s16 \<Rightarrow> (mem \<times> u32) option" where
  "init_loop m size_1 p tot next buf seed =
     (if tot + next + 1 < size_1
      then let (m, tot) =
             (if next > 0
              then let m = copy_pattern (unat next) m (p + tot) buf;
                       m = m(p + tot + next := asc CHR '','')
                   in (m, tot + (next + 1))
              else (m, tot));
             seed = seed + 1;
             (buf, next) = pick_pattern seed
           in init_loop m size_1 p tot next buf seed
      else Some (m, tot))"

partial_function (option) zero_fill :: "mem \<Rightarrow> u32 \<Rightarrow> ptr \<Rightarrow> u32 \<Rightarrow> mem option" where
  "zero_fill m sz p tot =
     (if tot < sz then zero_fill (m(p + tot := 0)) sz p (tot + 1) else Some m)"

definition core_init_state :: "mem \<Rightarrow> u32 \<Rightarrow> s16 \<Rightarrow> ptr \<Rightarrow> mem option" where
  "core_init_state m sz seed p =
     Option.bind (init_loop m (sz - 1) p 0 0 [] seed) (\<lambda>(m, tot). zero_fill m sz p tot)"

end
