(* ===== verification/CoreStateProofs.thy ===== *)
theory CoreStateProofs
  imports CoreState Libc
begin

text \<open>
  What \<^verbatim>\<open>core_state.c\<close> computes: the language each end state stands for, the split of an input
  into tokens and their classes, the contents of the generated input, and the store a run of the
  benchmark leaves.
\<close>

section \<open>The languages of the end states\<close>

definition is_digit :: "u8 \<Rightarrow> bool" where
  "is_digit c \<longleftrightarrow> 48 \<le> c \<and> c \<le> 57"

definition is_sign :: "u8 \<Rightarrow> bool" where
  "is_sign c \<longleftrightarrow> c = of_char CHR ''+'' \<or> c = of_char CHR ''-''"

definition opt_sign :: "u8 list \<Rightarrow> bool" where
  "opt_sign s \<longleftrightarrow> s = [] \<or> (\<exists>c. s = [c] \<and> is_sign c)"

definition is_int :: "u8 list \<Rightarrow> bool" where
  "is_int cs \<longleftrightarrow> (\<exists>s ds. cs = s @ ds \<and> opt_sign s \<and> ds \<noteq> [] \<and> list_all is_digit ds)"

text \<open>An optional sign, digits, a point, digits; this followed by an \<open>e\<close>; this followed by a
  sign; and this followed by at least one digit.\<close>

definition is_float :: "u8 list \<Rightarrow> bool" where
  "is_float cs \<longleftrightarrow> (\<exists>s ds fs. cs = s @ ds @ of_char CHR ''.'' # fs
     \<and> opt_sign s \<and> list_all is_digit ds \<and> list_all is_digit fs)"

definition is_float_e :: "u8 list \<Rightarrow> bool" where
  "is_float_e cs \<longleftrightarrow> (\<exists>f e. cs = f @ [e] \<and> is_float f
     \<and> (e = of_char CHR ''e'' \<or> e = of_char CHR ''E''))"

definition is_float_e_sign :: "u8 list \<Rightarrow> bool" where
  "is_float_e_sign cs \<longleftrightarrow> (\<exists>f s. cs = f @ [s] \<and> is_float_e f \<and> is_sign s)"

definition is_scientific :: "u8 list \<Rightarrow> bool" where
  "is_scientific cs \<longleftrightarrow> (\<exists>f ds. cs = f @ ds \<and> is_float_e_sign f \<and> ds \<noteq> [] \<and> list_all is_digit ds)"

text \<open>\<open>lang s cs\<close>: \<open>cs\<close> is a token of the class \<open>s\<close>.\<close>

fun lang :: "core_state \<Rightarrow> u8 list \<Rightarrow> bool" where
  "lang CORE_START cs \<longleftrightarrow> cs = []"
| "lang CORE_S1 cs \<longleftrightarrow> (\<exists>s. cs = [s] \<and> is_sign s)"
| "lang CORE_INT cs \<longleftrightarrow> is_int cs"
| "lang CORE_FLOAT cs \<longleftrightarrow> is_float cs"
| "lang CORE_S2 cs \<longleftrightarrow> is_float_e cs"
| "lang CORE_EXPONENT cs \<longleftrightarrow> is_float_e_sign cs"
| "lang CORE_SCIENTIFIC cs \<longleftrightarrow> is_scientific cs"
| "lang CORE_INVALID cs \<longleftrightarrow> False"

definition next_state :: "core_state \<Rightarrow> u8 \<Rightarrow> core_state" where
  "next_state s c = fst (state_switch s c (\<lambda>_. 0))"

lemma fst_state_switch: "fst (state_switch s c tc) = next_state s c"
  by (cases s) (simp_all add: next_state_def Let_def)

lemma digit_not_special:
  assumes "is_digit c"
  shows "c \<noteq> of_char CHR ''.''" "c \<noteq> of_char CHR ''+''" "c \<noteq> of_char CHR ''-''"
    "c \<noteq> of_char CHR ''e''" "c \<noteq> of_char CHR ''E''"
  using assms by (auto simp: is_digit_def)

lemma special_not_digit:
  "\<not> is_digit (of_char CHR ''.'')" "\<not> is_digit (of_char CHR ''+'')" "\<not> is_digit (of_char CHR ''-'')"
  "\<not> is_digit (of_char CHR ''e'')" "\<not> is_digit (of_char CHR ''E'')"
  by (simp_all add: is_digit_def)

lemma ee_isdigit_iff [simp]: "ee_isdigit c = 0 \<longleftrightarrow> \<not> is_digit c"
  by (simp add: ee_isdigit_def is_digit_def)

lemma next_state_simps:
  "next_state CORE_START c = (if is_digit c then CORE_INT else if is_sign c then CORE_S1
     else if c = of_char CHR ''.'' then CORE_FLOAT else CORE_INVALID)"
  "next_state CORE_S1 c = (if is_digit c then CORE_INT
     else if c = of_char CHR ''.'' then CORE_FLOAT else CORE_INVALID)"
  "next_state CORE_INT c = (if is_digit c then CORE_INT
     else if c = of_char CHR ''.'' then CORE_FLOAT else CORE_INVALID)"
  "next_state CORE_FLOAT c = (if is_digit c then CORE_FLOAT
     else if c = of_char CHR ''e'' \<or> c = of_char CHR ''E'' then CORE_S2 else CORE_INVALID)"
  "next_state CORE_S2 c = (if is_sign c then CORE_EXPONENT else CORE_INVALID)"
  "next_state CORE_EXPONENT c = (if is_digit c then CORE_SCIENTIFIC else CORE_INVALID)"
  "next_state CORE_SCIENTIFIC c = (if is_digit c then CORE_SCIENTIFIC else CORE_INVALID)"
  "next_state CORE_INVALID c = CORE_INVALID"
  by (auto simp: next_state_def is_sign_def Let_def dest: digit_not_special)

abbreviation run_states :: "core_state \<Rightarrow> u8 list \<Rightarrow> core_state" where
  "run_states \<equiv> foldl next_state"

lemma run_invalid [simp]: "run_states CORE_INVALID cs = CORE_INVALID"
  by (induction cs) (simp_all add: next_state_simps)

lemma run_digits:
  "list_all is_digit ds \<Longrightarrow> run_states CORE_INT ds = CORE_INT"
  "list_all is_digit ds \<Longrightarrow> run_states CORE_FLOAT ds = CORE_FLOAT"
  "list_all is_digit ds \<Longrightarrow> run_states CORE_SCIENTIFIC ds = CORE_SCIENTIFIC"
  by (induction ds) (simp_all add: next_state_simps)

lemma run_opt_sign:
  assumes "opt_sign s"
  shows "run_states CORE_START (s @ [c]) = next_state (if s = [] then CORE_START else CORE_S1) c"
  using assms by (auto simp: opt_sign_def next_state_simps is_sign_def is_digit_def)

lemma run_float: "is_float cs \<Longrightarrow> run_states CORE_START cs = CORE_FLOAT"
proof -
  assume "is_float cs"
  then obtain s ds fs where cs: "cs = s @ ds @ of_char CHR ''.'' # fs" "opt_sign s"
    "list_all is_digit ds" "list_all is_digit fs" by (auto simp: is_float_def)
  have "run_states CORE_START (s @ ds @ [of_char CHR ''.'']) = CORE_FLOAT"
  proof (cases ds)
    case Nil
    with run_opt_sign [OF cs(2), of "of_char CHR ''.''"] show ?thesis
      by (simp add: next_state_simps is_sign_def is_digit_def split: if_splits)
  next
    case (Cons d es)
    with cs(3) have d: "is_digit d" "list_all is_digit es" by simp_all
    have "run_states CORE_START (s @ [d]) = CORE_INT"
      using run_opt_sign [OF cs(2), of d] d by (simp add: next_state_simps)
    then have "run_states CORE_START ((s @ [d]) @ es) = CORE_INT"
      by (simp only: foldl_append run_digits(1) [OF d(2)])
    then show ?thesis by (simp add: Cons next_state_simps is_digit_def)
  qed
  then have "run_states CORE_START ((s @ ds @ [of_char CHR ''.'']) @ fs) = CORE_FLOAT"
    by (simp only: foldl_append [of _ _ _ fs] run_digits(2) [OF cs(4)])
  then show ?thesis by (simp add: cs(1))
qed

lemma run_float_e: "is_float_e cs \<Longrightarrow> run_states CORE_START cs = CORE_S2"
  by (auto simp: is_float_e_def run_float next_state_simps is_digit_def)

lemma run_float_e_sign: "is_float_e_sign cs \<Longrightarrow> run_states CORE_START cs = CORE_EXPONENT"
  by (auto simp: is_float_e_sign_def run_float_e next_state_simps)

lemma run_lang: "lang s cs \<Longrightarrow> run_states CORE_START cs = s"
proof (induction s cs rule: lang.induct)
  case (3 cs)
  then obtain s d ds where cs: "cs = s @ d # ds" "opt_sign s" "is_digit d" "list_all is_digit ds"
    by (auto simp: neq_Nil_conv is_int_def is_scientific_def)
  have "run_states CORE_START (s @ [d]) = CORE_INT"
    using run_opt_sign [OF cs(2), of d] cs(3) by (simp add: next_state_simps)
  then have "run_states CORE_START ((s @ [d]) @ ds) = CORE_INT"
    by (simp only: foldl_append run_digits(1) [OF cs(4)])
  then show ?case by (simp add: cs(1))
next
  case (7 cs)
  then obtain f d ds where cs: "cs = f @ d # ds" "is_float_e_sign f" "is_digit d" "list_all is_digit ds"
    by (auto simp: neq_Nil_conv is_int_def is_scientific_def)
  then show ?case by (simp add: run_float_e_sign next_state_simps run_digits)
qed (auto simp: next_state_simps is_sign_def is_digit_def run_float run_float_e run_float_e_sign)

text \<open>Each token class is closed under the moves of the machine.\<close>

lemma is_int_first: "opt_sign s \<Longrightarrow> is_digit c \<Longrightarrow> is_int (s @ [c])"
  unfolding is_int_def by (intro exI [of _ s] exI [of _ "[c]"]) simp

lemma is_int_digit: "is_int cs \<Longrightarrow> is_digit c \<Longrightarrow> is_int (cs @ [c])"
proof -
  assume "is_int cs" and c: "is_digit c"
  then obtain s ds where "cs = s @ ds" "opt_sign s" "ds \<noteq> []" "list_all is_digit ds"
    by (auto simp: is_int_def)
  with c show ?thesis
    unfolding is_int_def by (intro exI [of _ s] exI [of _ "ds @ [c]"]) simp
qed

lemma is_float_first: "opt_sign s \<Longrightarrow> is_float (s @ [of_char CHR ''.''])"
  unfolding is_float_def by (intro exI [of _ s] exI [of _ "[]"]) simp

lemma is_float_point: "is_int cs \<Longrightarrow> is_float (cs @ [of_char CHR ''.''])"
proof -
  assume "is_int cs"
  then obtain s ds where "cs = s @ ds" "opt_sign s" "list_all is_digit ds" by (auto simp: is_int_def)
  then show ?thesis
    unfolding is_float_def by (intro exI [of _ s] exI [of _ ds] exI [of _ "[]"]) simp
qed

lemma is_float_digit: "is_float cs \<Longrightarrow> is_digit c \<Longrightarrow> is_float (cs @ [c])"
proof -
  assume "is_float cs" and c: "is_digit c"
  then obtain s ds fs where "cs = s @ ds @ of_char CHR ''.'' # fs" "opt_sign s"
    "list_all is_digit ds" "list_all is_digit fs" by (auto simp: is_float_def)
  with c show ?thesis
    unfolding is_float_def by (intro exI [of _ s] exI [of _ ds] exI [of _ "fs @ [c]"]) simp
qed

lemma is_scientific_first: "is_float_e_sign f \<Longrightarrow> is_digit c \<Longrightarrow> is_scientific (f @ [c])"
  unfolding is_scientific_def by (intro exI [of _ f] exI [of _ "[c]"]) simp

lemma is_scientific_digit: "is_scientific cs \<Longrightarrow> is_digit c \<Longrightarrow> is_scientific (cs @ [c])"
proof -
  assume "is_scientific cs" and c: "is_digit c"
  then obtain f ds where "cs = f @ ds" "is_float_e_sign f" "list_all is_digit ds"
    by (auto simp: is_scientific_def)
  with c show ?thesis
    unfolding is_scientific_def by (intro exI [of _ f] exI [of _ "ds @ [c]"]) simp
qed

lemma lang_next:
  assumes "lang s cs" and "next_state s c \<noteq> CORE_INVALID"
  shows "lang (next_state s c) (cs @ [c])"
  using assms is_int_first [of cs c] is_float_first [of cs] is_float_point [of cs]
  by (cases s)
     (auto simp: next_state_simps opt_sign_def is_int_digit is_float_digit
       is_float_e_def is_float_e_sign_def is_scientific_first is_scientific_digit split: if_splits)

lemma lang_run:
  "run_states CORE_START cs \<noteq> CORE_INVALID \<Longrightarrow> lang (run_states CORE_START cs) cs"
proof (induction cs rule: rev_induct)
  case (snoc c cs)
  have n: "next_state (run_states CORE_START cs) c \<noteq> CORE_INVALID" using snoc.prems by simp
  then have "run_states CORE_START cs \<noteq> CORE_INVALID" by (auto simp: next_state_simps)
  from lang_next [OF snoc.IH [OF this] n] show ?case by simp
qed simp

lemma lang_unique: "lang s cs \<Longrightarrow> lang s' cs \<Longrightarrow> s = s'"
  using run_lang by metis

lemma not_lang_iff: "(\<forall>s. \<not> lang s cs) \<longleftrightarrow> run_states CORE_START cs = CORE_INVALID"
  using lang_run [of cs] run_lang by (metis lang.simps(8))

section \<open>Tokens\<close>

abbreviation (input) comma :: u8 where
  "comma \<equiv> of_char CHR '',''"

text \<open>
  \<open>piece\<close>, before \<open>rest\<close>, is a token of class \<open>s\<close>: a word of the class that ends the input or is
  followed by a comma, or, for \<open>CORE_INVALID\<close>, the shortest piece that no word starts with.
\<close>

definition is_token :: "core_state \<Rightarrow> u8 list \<Rightarrow> u8 list \<Rightarrow> bool" where
  "is_token s piece rest \<longleftrightarrow> piece \<noteq> [] \<and>
     (lang s piece \<and> rest = []
      \<or> (\<exists>t. piece = t @ [comma] \<and> lang s t)
      \<or> s = CORE_INVALID \<and> last piece \<noteq> comma \<and> (\<forall>s'. \<not> lang s' piece) \<and> (\<exists>s'. lang s' (butlast piece)))"

fun tokenised :: "core_state list \<Rightarrow> u8 list \<Rightarrow> bool" where
  "tokenised [] cs \<longleftrightarrow> cs = []"
| "tokenised (s # ss) cs \<longleftrightarrow> (\<exists>piece rest. cs = piece @ rest \<and> is_token s piece rest \<and> tokenised ss rest)"

text \<open>The scanner on lists: end state, number of bytes taken, counters.\<close>

fun tok :: "core_state \<Rightarrow> u8 list \<Rightarrow> counts \<Rightarrow> core_state \<times> nat \<times> counts" where
  "tok s [] tc = (s, 0, tc)"
| "tok s (c # cs) tc =
     (if s = CORE_INVALID then (s, 0, tc)
      else if c = comma then (s, 1, tc)
      else case state_switch s c tc of (s, tc) \<Rightarrow>
             (case tok s cs tc of (s, k, tc) \<Rightarrow> (s, Suc k, tc)))"

lemma tok_invalid [simp]: "tok CORE_INVALID cs tc = (CORE_INVALID, 0, tc)"
  by (cases cs) simp_all

lemma tok_token:
  assumes "tok (run_states CORE_START pre) cs tc = (s, k, tc')"
    and "run_states CORE_START pre \<noteq> CORE_INVALID" and "pre @ cs \<noteq> []"
  shows "k \<le> length cs \<and> is_token s (pre @ take k cs) (drop k cs)"
  using assms
proof (induction cs arbitrary: pre tc k)
  case Nil
  then show ?case using lang_run [of pre] by (simp add: is_token_def)
next
  case (Cons c cs)
  let ?s = "run_states CORE_START pre"
  show ?case
  proof (cases "c = comma")
    case True
    then show ?thesis using Cons.prems lang_run [of pre] by (auto simp: is_token_def)
  next
    case c: False
    obtain s1 tc1 where s1: "state_switch ?s c tc = (s1, tc1)" by force
    then have s1r: "s1 = run_states CORE_START (pre @ [c])"
      using fst_state_switch [of ?s c tc] by simp
    obtain k1 where k1: "tok s1 cs tc1 = (s, k1, tc')" "k = Suc k1"
      using Cons.prems c by (auto simp: s1 split: prod.splits)
    show ?thesis
    proof (cases "s1 = CORE_INVALID")
      case True
      then have "s = CORE_INVALID" "k = 1" using k1 by simp_all
      moreover have "\<forall>s'. \<not> lang s' (pre @ [c])" using True s1r by (simp add: not_lang_iff)
      moreover have "lang ?s pre" using lang_run Cons.prems(2) .
      ultimately show ?thesis using c by (auto simp: is_token_def)
    next
      case False
      then have "k1 \<le> length cs \<and> is_token s ((pre @ [c]) @ take k1 cs) (drop k1 cs)"
        using k1 s1r by (intro Cons.IH [of "pre @ [c]" tc1]) simp_all
      then show ?thesis using k1(2) by simp
    qed
  qed
qed

lemma transition_loop_tok:
  "cstr m p cs \<Longrightarrow> transition_loop m p s tc =
     (case tok s cs tc of (s, k, tc) \<Rightarrow> Some (s, p + of_nat k, tc))"
proof (induction cs arbitrary: p s tc)
  case Nil
  then show ?case by (subst transition_loop.simps) simp
next
  case (Cons c cs)
  show ?case
  proof (cases "s = CORE_INVALID \<or> c = comma")
    case True
    with Cons.prems show ?thesis by (subst transition_loop.simps) auto
  next
    case False
    with Cons.prems show ?thesis
      by (subst transition_loop.simps) (simp add: Cons.IH add.assoc split: prod.split)
  qed
qed

lemma core_state_transition_token:
  assumes "cstr m p cs" and "cs \<noteq> []"
  shows "\<exists>s k tc'. tok CORE_START cs tc = (s, k, tc')
    \<and> core_state_transition m p tc = Some (s, p + of_nat k, tc')
    \<and> 0 < k \<and> k \<le> length cs \<and> is_token s (take k cs) (drop k cs)"
proof -
  obtain s k tc' where t: "tok CORE_START cs tc = (s, k, tc')" by (metis prod_cases3)
  then have "k \<le> length cs \<and> is_token s (take k cs) (drop k cs)"
    using tok_token [of "[]" cs tc s k tc'] assms(2) by simp
  then show ?thesis
    using t transition_loop_tok [OF assms(1)]
    by (cases k) (auto simp: core_state_transition_def is_token_def)
qed

lemma cstr_drop: "cstr m p cs \<Longrightarrow> k \<le> length cs \<Longrightarrow> cstr m (p + of_nat k) (drop k cs)"
proof (induction k arbitrary: p cs)
  case (Suc k)
  then obtain c ds where cs: "cs = c # ds" by (cases cs) auto
  with Suc.prems have "cstr m (p + 1 + of_nat k) (drop k ds)" by (intro Suc.IH) auto
  then show ?case by (simp add: cs add.assoc)
qed simp

text \<open>The loop over all tokens, on lists.\<close>

function scan_list :: "u8 list \<Rightarrow> counts \<Rightarrow> counts \<Rightarrow> core_state list \<times> counts \<times> counts" where
  "scan_list cs fc tc =
     (if cs = [] then ([], fc, tc)
      else case tok CORE_START cs tc of (s, k, tc) \<Rightarrow>
        (case scan_list (drop (max 1 k) cs) (bump s fc) tc of (ss, fc, tc) \<Rightarrow> (s # ss, fc, tc)))"
  by pat_completeness auto
termination
  by (relation "measure (\<lambda>(cs, fc, tc). length cs)") auto

declare scan_list.simps [simp del]

lemma scan_loop_list:
  assumes "cstr m p cs"
  shows "case scan_list cs fc tc of (ss, fc', tc') \<Rightarrow>
    scan_loop m p fc tc = Some (p + of_nat (length cs), fc', tc')
    \<and> fc' = fold bump ss fc \<and> tokenised ss cs"
  using assms
proof (induction "length cs" arbitrary: p cs fc tc rule: less_induct)
  case less
  show ?case
  proof (cases "cs = []")
    case True
    with less.prems show ?thesis by (simp add: scan_list.simps scan_loop.simps)
  next
    case False
    then have nz: "m p \<noteq> 0" using less.prems by (cases cs) auto
    obtain s k tc1 where t: "tok CORE_START cs tc = (s, k, tc1)"
      "core_state_transition m p tc = Some (s, p + of_nat k, tc1)"
      "0 < k" "k \<le> length cs" "is_token s (take k cs) (drop k cs)"
      using core_state_transition_token [OF less.prems False] by blast
    obtain ss fc2 tc2 where r: "scan_list (drop k cs) (bump s fc) tc1 = (ss, fc2, tc2)"
      by (metis prod_cases3)
    have "case scan_list (drop k cs) (bump s fc) tc1 of (ss, fc', tc') \<Rightarrow>
      scan_loop m (p + of_nat k) (bump s fc) tc1 = Some (p + of_nat k + of_nat (length (drop k cs)), fc', tc')
      \<and> fc' = fold bump ss (bump s fc) \<and> tokenised ss (drop k cs)"
      using t(3,4) False by (intro less.hyps cstr_drop less.prems) simp_all
    moreover have "p + of_nat k + of_nat (length (drop k cs)) = p + of_nat (length cs)"
      using t(4) by (simp add: of_nat_diff)
    moreover have "max 1 k = k" using t(3) by simp
    ultimately have l: "scan_loop m (p + of_nat k) (bump s fc) tc1 = Some (p + of_nat (length cs), fc2, tc2)"
      "fc2 = fold bump ss (bump s fc)" "tokenised ss (drop k cs)" "max 1 k = k"
      by (simp_all only: r prod.case)
    then have "tokenised (s # ss) cs"
      unfolding tokenised.simps using t(5) append_take_drop_id [of k cs] by metis
    then show ?thesis
      using False t(1,2) r nz l
      by (subst scan_list.simps, subst scan_loop.simps) simp
  qed
qed

section \<open>Corruption\<close>

text \<open>What one pass over the block is to leave: every \<open>st\<close>-th byte of the \<open>n\<close> bytes at \<open>b\<close>,
  unless it is a comma, with \<open>x\<close> added.\<close>

definition corrupted :: "mem \<Rightarrow> ptr \<Rightarrow> nat \<Rightarrow> nat \<Rightarrow> u8 \<Rightarrow> mem" where
  "corrupted m b n st x = (\<lambda>a. let k = unat (a - b) in
     if k < n \<and> st dvd k \<and> m a \<noteq> comma then m a XOR x else m a)"

lemma corrupt_loop_from:
  assumes bn: "unat b + n + st \<le> 2 ^ 32" and st: "0 < st" "scast step = (of_nat st :: u32)"
    and stop: "stop = b + of_nat n" "unat b + n < 2 ^ 32"
    and i: "st dvd i" "i < n + st"
  shows "corrupt_loop m (b + of_nat i) stop seed step = Some (\<lambda>a. let k = unat (a - b) in
    if i \<le> k \<and> k < n \<and> st dvd k \<and> m a \<noteq> comma then m a XOR ucast seed else m a)"
  using i
proof (induction "n + st - i" arbitrary: i m rule: less_induct)
  case less
  have ui: "unat (b + of_nat i) = unat b + i"
    using less.prems(2) bn by (intro unat_add_of_nat) simp
  have "unat stop = unat b + n" unfolding stop(1) by (rule unat_add_of_nat [OF stop(2)])
  then have lt: "b + of_nat i < stop \<longleftrightarrow> i < n" by (simp add: word_less_nat_alt ui)
  show ?case
  proof (cases "i < n")
    case False
    then show ?thesis
      by (subst corrupt_loop.simps) (auto simp: lt fun_eq_iff Let_def)
  next
    case True
    let ?p = "b + of_nat i"
    let ?m = "if m ?p \<noteq> comma then m(?p := m ?p XOR ucast seed) else m"
    have i32: "i < 2 ^ 32" using True stop(2) by simp
    have at: "a = ?p \<longleftrightarrow> unat (a - b) = i" for a by (rule ptr_at_iff [OF i32])
    have "corrupt_loop m ?p stop seed step = corrupt_loop ?m (b + of_nat (i + st)) stop seed step"
      using True by (subst corrupt_loop.simps) (simp add: lt st(2) Let_def add.assoc)
    also have "\<dots> = Some (\<lambda>a. let k = unat (a - b) in
      if i + st \<le> k \<and> k < n \<and> st dvd k \<and> ?m a \<noteq> comma then ?m a XOR ucast seed else ?m a)"
      using less.prems True st(1) by (intro less.hyps) (simp_all add: dvd_add)
    also have "\<dots> = Some (\<lambda>a. let k = unat (a - b) in
      if i \<le> k \<and> k < n \<and> st dvd k \<and> m a \<noteq> comma then m a XOR ucast seed else m a)"
    proof -
      have gap: "i + st \<le> k \<or> k = i" if "i \<le> k" "st dvd k" for k
        using that less.prems(1) st(1) by (metis dvd_diff_nat dvd_imp_le le_add_diff_inverse
            nat_add_left_cancel_le not_gr_zero diff_is_0_eq le_antisym zero_less_diff)
      show ?thesis
      proof (intro arg_cong [where f = Some] ext)
        fix a
        show "(let k = unat (a - b) in
            if i + st \<le> k \<and> k < n \<and> st dvd k \<and> ?m a \<noteq> comma then ?m a XOR ucast seed else ?m a)
          = (let k = unat (a - b) in
            if i \<le> k \<and> k < n \<and> st dvd k \<and> m a \<noteq> comma then m a XOR ucast seed else m a)"
          using at [of a] gap [of "unat (a - b)"] True less.prems(1) st(1)
          by (cases "a = ?p") (auto simp: Let_def)
      qed
    qed
    finally show ?thesis .
  qed
qed

section \<open>The generated input\<close>

lemma nat_less_4: "n < 4 \<Longrightarrow> n = 0 \<or> n = 1 \<or> n = 2 \<or> n = (3 :: nat)"
  by auto

lemma unat_and_3_less: "unat (w AND 3 :: s16) < 4"
  using word_and_le1 [of w 3] by (simp add: word_le_nat_alt)

lemma pick_pattern_ok:
  assumes "pick_pattern seed = (buf, k)"
  shows "length buf = unat k" "unat k = 4 \<or> unat k = 8" "0 \<notin> set buf" "comma \<notin> set buf"
proof -
  let ?i = "unat (drop_bit 3 seed AND 3)"
  have i: "?i = 0 \<or> ?i = 1 \<or> ?i = 2 \<or> ?i = 3"
    using nat_less_4 [OF unat_and_3_less] .
  have "length buf = unat k \<and> (unat k = 4 \<or> unat k = 8) \<and> 0 \<notin> set buf \<and> comma \<notin> set buf"
    using assms i
    by (elim disjE)
       (simp_all add: pick_pattern_def Let_def intpat_def floatpat_def scipat_def errpat_def split: if_splits, auto)
  then show "length buf = unat k" "unat k = 4 \<or> unat k = 8" "0 \<notin> set buf" "comma \<notin> set buf"
    by auto
qed

text \<open>\<open>k\<close> patterns, each with its comma, the first one chosen by \<open>seed\<close>.\<close>

definition patterns :: "s16 \<Rightarrow> nat \<Rightarrow> u8 list" where
  "patterns seed k = concat (map (\<lambda>i. fst (pick_pattern (seed + of_nat i)) @ [comma]) [0..<k])"

lemma patterns_0: "patterns seed 0 = []"
  by (simp add: patterns_def)

lemma patterns_Suc: "patterns seed (Suc k) = fst (pick_pattern seed) @ comma # patterns (seed + 1) k"
proof -
  have "[0..<Suc k] = 0 # map Suc [0..<k]" by (simp add: map_Suc_upt upt_conv_Cons)
  then show ?thesis
    by (simp add: patterns_def o_def add.assoc del: upt_Suc)
qed

lemma pattern_length: "length (fst (pick_pattern seed)) = unat (snd (pick_pattern seed))"
  "length (fst (pick_pattern seed)) \<le> 8" "0 < length (fst (pick_pattern seed))"
  using pick_pattern_ok [of seed "fst (pick_pattern seed)" "snd (pick_pattern seed)"] by auto

lemma patterns_nonzero: "0 \<notin> set (patterns seed k)"
proof -
  have "0 \<notin> set (fst (pick_pattern s))" for s
    using pick_pattern_ok(3) [of s "fst (pick_pattern s)" "snd (pick_pattern s)"] by simp
  then show ?thesis by (auto simp: patterns_def)
qed

lemma copy_pattern_store: "copy_pattern (length buf) m q buf = store_bytes m q buf"
  by (induction buf arbitrary: m q) simp_all

lemma init_loop_patterns:
  assumes "unat tot \<le> unat size_1" and "unat size_1 + 16 \<le> 2 ^ 32"
    and "pick_pattern seed = (buf, nxt)"
  shows "\<exists>k. (\<forall>m. init_loop m size_1 p tot nxt buf seed
      = Some (store_bytes m (p + tot) (patterns seed k), tot + of_nat (length (patterns seed k))))
    \<and> (k = 0 \<or> unat tot + length (patterns seed k) < unat size_1)
    \<and> unat size_1 \<le> unat tot + length (patterns seed k) + length (fst (pick_pattern (seed + of_nat k))) + 1"
  using assms(1,3)
proof (induction "unat size_1 - unat tot" arbitrary: tot buf nxt seed rule: less_induct)
  case less
  note pat = pick_pattern_ok [OF less.prems(2)]
  have "unat (tot + nxt + 1) = unat tot + unat nxt + 1"
    using less.prems(1) assms(2) pat(2) by (auto simp: unat_word_ariths)
  then have t: "unat (tot + (nxt + 1)) = unat tot + length buf + 1"
    by (simp add: pat(1) add.assoc)
  have lt: "tot + nxt + 1 < size_1 \<longleftrightarrow> unat tot + length buf + 1 < unat size_1"
    using t by (simp add: word_less_nat_alt add.assoc)
  have pos: "nxt \<noteq> 0" using pat(2) by auto
  show ?case
  proof (cases "unat tot + length buf + 1 < unat size_1")
    case False
    with less.prems lt show ?thesis
      by (subst init_loop.simps) (auto intro!: exI [of _ 0] simp: patterns_def)
  next
    case True
    let ?m = "\<lambda>m. store_bytes m (p + tot) (buf @ [comma])"
    let ?tot = "tot + (nxt + 1)"
    obtain buf' nxt' where b: "pick_pattern (seed + 1) = (buf', nxt')" by force
    have "of_nat (length buf) = nxt" by (simp add: pat(1))
    then have m: "(copy_pattern (unat nxt) m (p + tot) buf)(p + tot + nxt := comma) = ?m m" for m
      using copy_pattern_store [of buf m "p + tot"] by (simp add: store_bytes_append pat(1) [symmetric])
    have step: "init_loop m size_1 p tot nxt buf seed = init_loop (?m m) size_1 p ?tot nxt' buf' (seed + 1)" for m
      using True lt pos m by (subst init_loop.simps) (simp add: b Let_def word_gt_0)
    have d: "unat size_1 - unat ?tot < unat size_1 - unat tot" "unat ?tot \<le> unat size_1"
      using True by (simp_all add: t)
    obtain k where k: "\<And>m. init_loop m size_1 p ?tot nxt' buf' (seed + 1)
        = Some (store_bytes m (p + ?tot) (patterns (seed + 1) k), ?tot + of_nat (length (patterns (seed + 1) k)))"
      "k = 0 \<or> unat ?tot + length (patterns (seed + 1) k) < unat size_1"
      "unat size_1 \<le> unat ?tot + length (patterns (seed + 1) k)
         + length (fst (pick_pattern (seed + 1 + of_nat k))) + 1"
      using less.hyps [OF d b] by blast
    have pk: "patterns seed (Suc k) = (buf @ [comma]) @ patterns (seed + 1) k"
      by (simp add: patterns_Suc less.prems(2))
    have len: "length (patterns seed (Suc k)) = length buf + 1 + length (patterns (seed + 1) k)"
      by (simp add: pk)
    have off: "of_nat (length buf) = nxt" by (simp add: pat(1))
    show ?thesis
    proof (intro exI [of _ "Suc k"] conjI)
      show "\<forall>m. init_loop m size_1 p tot nxt buf seed = Some (store_bytes m (p + tot) (patterns seed (Suc k)),
          tot + of_nat (length (patterns seed (Suc k))))"
        unfolding step k(1) pk using off by (simp add: store_bytes_append add.assoc)
      show "Suc k = 0 \<or> unat tot + length (patterns seed (Suc k)) < unat size_1"
        using k(2) t True patterns_0 [of "seed + 1"] by (auto simp: len)
      show "unat size_1 \<le> unat tot + length (patterns seed (Suc k))
          + length (fst (pick_pattern (seed + of_nat (Suc k)))) + 1"
        using k(3) t by (simp add: len add.assoc [symmetric])
    qed
  qed
qed

lemma zero_fill_store:
  "unat tot \<le> unat sz \<Longrightarrow>
    zero_fill m sz p tot = Some (store_bytes m (p + tot) (replicate (unat sz - unat tot) 0))"
proof (induction "unat sz - unat tot" arbitrary: m tot)
  case 0
  then show ?case by (subst zero_fill.simps) (simp add: word_less_nat_alt)
next
  case (Suc n)
  then have lt: "unat tot < unat sz" by simp
  have "unat tot + 1 < 2 ^ 32" using lt unsigned_less [of sz, where ?'a = nat] by simp
  then have u: "unat (tot + 1) = unat tot + 1" by (simp add: unat_word_ariths)
  have "zero_fill m sz p tot = zero_fill (m(p + tot := 0)) sz p (tot + 1)"
    using lt by (subst zero_fill.simps) (simp add: word_less_nat_alt)
  also have "\<dots> = Some (store_bytes (m(p + tot := 0)) (p + (tot + 1)) (replicate (unat sz - unat (tot + 1)) 0))"
    using Suc lt u by (intro Suc.hyps(1)) simp_all
  also have "\<dots> = Some (store_bytes m (p + tot) (replicate (unat sz - unat tot) 0))"
  proof -
    have "unat sz - unat tot = Suc (unat sz - unat (tot + 1))" using lt u by simp
    then show ?thesis by (simp add: add.assoc)
  qed
  finally show ?case .
qed

text \<open>The first turn of the loop only picks a pattern.\<close>

lemma core_init_state_store:
  assumes "0 < unat sz" and "unat sz + 15 \<le> 2 ^ 32"
  shows "\<exists>k. (\<forall>m. core_init_state m sz seed p = Some (store_bytes m p
      (patterns (seed + 1) k @ replicate (unat sz - length (patterns (seed + 1) k)) 0)))
    \<and> (k = 0 \<or> length (patterns (seed + 1) k) + 2 \<le> unat sz)
    \<and> unat sz \<le> length (patterns (seed + 1) k) + length (fst (pick_pattern (seed + 1 + of_nat k))) + 2"
proof -
  have s0: "sz \<noteq> 0" using assms(1) by auto
  have s1: "unat (sz - 1) = unat sz - 1" by (rule unat_minus_one [OF s0])
  show ?thesis
  proof (cases "unat sz \<le> 2")
    case True
    then have "\<not> 1 < sz - 1" by (simp add: word_less_nat_alt s1)
    then have "init_loop m (sz - 1) p 0 0 [] seed = Some (m, 0)" for m
      by (subst init_loop.simps) simp
    then show ?thesis using True zero_fill_store [of 0 sz _ p]
      by (intro exI [of _ 0]) (simp add: core_init_state_def patterns_def)
  next
    case False
    obtain buf nxt where b: "pick_pattern (seed + 1) = (buf, nxt)" by force
    have "1 < sz - 1" using False by (simp add: word_less_nat_alt s1)
    then have first: "init_loop m (sz - 1) p 0 0 [] seed = init_loop m (sz - 1) p 0 nxt buf (seed + 1)" for m
      by (subst init_loop.simps) (simp add: b)
    have h: "unat (0::u32) \<le> unat (sz - 1)" "unat (sz - 1) + 16 \<le> 2 ^ 32"
      using assms s1 by simp_all
    obtain k where k: "\<And>m. init_loop m (sz - 1) p 0 nxt buf (seed + 1)
        = Some (store_bytes m p (patterns (seed + 1) k), of_nat (length (patterns (seed + 1) k)))"
      "k = 0 \<or> length (patterns (seed + 1) k) < unat sz - 1"
      "unat sz - 1 \<le> length (patterns (seed + 1) k) + length (fst (pick_pattern (seed + 1 + of_nat k))) + 1"
      using init_loop_patterns [OF h b, of p] s1 by auto
    let ?n = "length (patterns (seed + 1) k)"
    have n: "?n \<le> unat sz" using k(2) by (auto simp: patterns_def)
    have un: "unat (of_nat ?n :: u32) = ?n"
      using n unsigned_less [of sz, where ?'a = nat] by (simp add: unat_of_nat)
    have "zero_fill (store_bytes m p (patterns (seed + 1) k)) sz p (of_nat ?n)
        = Some (store_bytes m p (patterns (seed + 1) k @ replicate (unat sz - ?n) 0))" for m
      using zero_fill_store [of "of_nat ?n" sz] n by (simp only: un store_bytes_append)
    then show ?thesis using k first
      by (intro exI [of _ k]) (auto simp: core_init_state_def)
  qed
qed

section \<open>A run of the benchmark\<close>

lemma cstr_agree:
  "cstr m p s \<Longrightarrow> (\<And>i. i \<le> length s \<Longrightarrow> m' (p + of_nat i) = m (p + of_nat i)) \<Longrightarrow> cstr m' p s"
proof (induction s arbitrary: p)
  case Nil
  from Nil.prems(2) [of 0] Nil.prems(1) show ?case by simp
next
  case (Cons c cs)
  have "m' (p + 1 + of_nat i) = m (p + 1 + of_nat i)" if "i \<le> length cs" for i
    using Cons.prems(2) [of "Suc i"] that by (simp add: add.assoc)
  then have "cstr m' (p + 1) cs" using Cons.prems(1) by (intro Cons.IH) auto
  then show ?case using Cons.prems(2) [of 0] Cons.prems(1) by simp
qed

lemma cstr_within:
  assumes "m (p + of_nat i) = 0"
  shows "\<exists>s. cstr m p s \<and> length s \<le> i"
  using assms
proof (induction i arbitrary: p)
  case 0
  then show ?case by (intro exI [of _ "[]"]) simp
next
  case (Suc i)
  show ?case
  proof (cases "m p = 0")
    case True
    then show ?thesis by (intro exI [of _ "[]"]) simp
  next
    case False
    have "m (p + 1 + of_nat i) = 0" using Suc.prems by (simp add: add.assoc)
    from Suc.IH [OF this] obtain s where "cstr m (p + 1) s \<and> length s \<le> i" by blast
    with False show ?thesis by (intro exI [of _ "m p # s"]) simp
  qed
qed

text \<open>A scan of a block with a NUL in it depends on the block only.\<close>

lemma scan_loop_block:
  assumes "m (b + of_nat i) = 0" and "i < n"
  shows "\<exists>p fc' tc'. scan_loop m b fc tc = Some (p, fc', tc')
    \<and> (\<forall>m'. bytes_at m' b n = bytes_at m b n \<longrightarrow> scan_loop m' b fc tc = Some (p, fc', tc'))"
proof -
  obtain s where s: "cstr m b s" "length s \<le> i" using cstr_within [of m b i, OF assms(1)] by blast
  obtain ss fc' tc' where l: "scan_list s fc tc = (ss, fc', tc')" by (metis prod_cases3)
  have r: "scan_loop m' b fc tc = Some (b + of_nat (length s), fc', tc')" if "cstr m' b s" for m'
    using scan_loop_list [OF that, of fc tc] by (simp add: l)
  have "cstr m' b s" if "bytes_at m' b n = bytes_at m b n" for m'
  proof (rule cstr_agree [OF s(1)])
    fix k assume "k \<le> length s"
    then have "k < n" using s(2) assms(2) by simp
    then show "m' (b + of_nat k) = m (b + of_nat k)" using that by (metis nth_bytes_at)
  qed
  then show ?thesis using r s(1) by blast
qed

text \<open>The blocks the benchmark runs on: inside the address space, with two NULs in a row.\<close>

definition good_block :: "mem \<Rightarrow> ptr \<Rightarrow> nat \<Rightarrow> bool" where
  "good_block m b n \<longleftrightarrow> unat b + n + 2 ^ 15 \<le> 2 ^ 32
     \<and> (\<exists>i. i + 1 < n \<and> m (b + of_nat i) = 0 \<and> m (b + of_nat (i + 1)) = 0)"

lemma good_block_agree:
  assumes "bytes_at m' b n = bytes_at m b n" and "good_block m b n"
  shows "good_block m' b n"
proof -
  have "m' (b + of_nat k) = m (b + of_nat k)" if "k < n" for k
    using assms(1) that by (metis nth_bytes_at)
  then show ?thesis using assms(2) by (fastforce simp: good_block_def)
qed

lemma corrupted_NUL:
  assumes "good_block m b n" and "2 \<le> st"
  shows "\<exists>i < n. corrupted m b n st x (b + of_nat i) = 0"
proof -
  obtain i where i: "unat b + n + 2 ^ 15 \<le> 2 ^ 32" "i + 1 < n" "m (b + of_nat i) = 0"
    "m (b + of_nat (i + 1)) = 0" using assms(1) by (auto simp: good_block_def)
  have same: "corrupted m b n st x (b + of_nat k) = m (b + of_nat k)" if "\<not> st dvd k" "k < n" for k
    using that i(1) by (simp add: corrupted_def unat_of_nat Let_def)
  show ?thesis
  proof (cases "st dvd i")
    case True
    then have "\<not> st dvd i + 1" using assms(2) by (metis dvd_add_right_iff nat_dvd_1_iff_1 Suc_1 not_less_eq_eq le_refl)
    then show ?thesis using same [of "i + 1"] i by (intro exI [of _ "i + 1"]) simp
  next
    case False
    then show ?thesis using same [of i] i by (intro exI [of _ i]) simp
  qed
qed

lemma corrupt_loop_corrupted:
  assumes "unat b + unat n + 2 ^ 15 \<le> 2 ^ 32" and "0 < sint step"
  shows "corrupt_loop m b (b + n) seed step
    = Some (corrupted m b (unat n) (nat (sint step)) (ucast seed))"
proof -
  let ?st = "nat (sint step)"
  have st: "?st < 2 ^ 15" using assms(2) sint_lt [of step] by simp
  have "sint step = int ?st" using assms(2) by simp
  then have sc: "scast step = (of_nat ?st :: u32)"
    by (metis of_int_sint of_int_of_nat_eq)
  have "corrupt_loop m (b + of_nat 0) (b + n) seed step = Some (\<lambda>a. let k = unat (a - b) in
      if 0 \<le> k \<and> k < unat n \<and> ?st dvd k \<and> m a \<noteq> comma then m a XOR ucast seed else m a)"
    using assms st by (intro corrupt_loop_from [OF _ _ sc]) simp_all
  then show ?thesis by (simp add: corrupted_def Let_def)
qed

lemma bytes_at_corrupted:
  assumes "bytes_at m' b n = bytes_at m b n" and "n \<le> 2 ^ 32"
  shows "bytes_at (corrupted m' b n st x) b n = bytes_at (corrupted m b n st x) b n"
proof (intro nth_equalityI)
  fix i assume i: "i < length (bytes_at (corrupted m' b n st x) b n)"
  then have "m' (b + of_nat i) = m (b + of_nat i)" using assms(1) by (metis length_bytes_at nth_bytes_at)
  then show "bytes_at (corrupted m' b n st x) b n ! i = bytes_at (corrupted m b n st x) b n ! i"
    using i by (simp add: corrupted_def Let_def)
qed simp

lemma core_bench_state_run:
  assumes g: "good_block m b (unat n)" and st: "2 \<le> sint step"
  shows "\<exists>crc'. core_bench_state m n b seed1 seed2 step crc
      = Some (corrupted (corrupted m b (unat n) (nat (sint step)) (ucast seed1))
               b (unat n) (nat (sint step)) (ucast seed2), crc')
    \<and> (\<forall>m'. bytes_at m' b (unat n) = bytes_at m b (unat n) \<longrightarrow>
         map_option snd (core_bench_state m' n b seed1 seed2 step crc) = Some crc')"
proof -
  let ?n = "unat n" and ?st = "nat (sint step)"
  have st2: "2 \<le> ?st" using st by simp
  have rng: "unat b + ?n + 2 ^ 15 \<le> 2 ^ 32" using g by (simp add: good_block_def)
  have n32: "?n \<le> 2 ^ 32" using rng by simp
  obtain i where i: "i < ?n" "m (b + of_nat i) = 0" using g by (auto simp: good_block_def)
  obtain p1 fc1 tc1 where s1: "\<And>m'. bytes_at m' b ?n = bytes_at m b ?n
      \<Longrightarrow> scan_loop m' b (\<lambda>_. 0) (\<lambda>_. 0) = Some (p1, fc1, tc1)"
    using scan_loop_block [of m b i, OF i(2,1)] by metis
  let ?c = "\<lambda>m. corrupted m b ?n ?st (ucast seed1)"
  obtain j where j: "j < ?n" "?c m (b + of_nat j) = 0" using corrupted_NUL [OF g st2] by blast
  obtain p2 fc2 tc2 where s2: "\<And>m'. bytes_at m' b ?n = bytes_at (?c m) b ?n
      \<Longrightarrow> scan_loop m' b fc1 tc1 = Some (p2, fc2, tc2)"
    using scan_loop_block [of "?c m" b j, OF j(2,1)] by metis
  have c: "corrupt_loop m' b (b + n) seed step = Some (corrupted m' b ?n ?st (ucast seed))" for m' seed
    using rng st by (intro corrupt_loop_corrupted) simp_all
  have "core_bench_state m' n b seed1 seed2 step crc
      = Some (corrupted (?c m') b ?n ?st (ucast seed2), crc_counts fc2 tc2 crc)"
    if "bytes_at m' b ?n = bytes_at m b ?n" for m'
    using s1 [OF that] s2 [OF bytes_at_corrupted [OF that n32]]
    by (simp add: core_bench_state_def c)
  then show ?thesis by (intro exI [of _ "crc_counts fc2 tc2 crc"]) simp
qed

end
