(* ===== verification/CoreStateCorrect.thy ===== *)
theory CoreStateCorrect
  imports CoreStateProofs
begin

text \<open>The properties of \<^verbatim>\<open>core_state.c\<close>.\<close>

section \<open>Classification\<close>

text \<open>C14: Called on a non-empty string, \<open>core_state_transition\<close> returns, moves the caller's
  pointer over exactly one token and returns its class: an integer, decimal or scientific number
  (or an unfinished one) up to the comma or the end of the input, or the shortest piece that
  starts no number.\<close>

theorem state_transition_classifies:
  assumes "cstr m p cs" and "cs \<noteq> []"
  shows "\<exists>s k tc'. core_state_transition m p tc = Some (s, p + of_nat k, tc')
    \<and> 0 < k \<and> k \<le> length cs \<and> is_token s (take k cs) (drop k cs)"
  using core_state_transition_token [OF assms, of tc] by blast

theorem state_transition_classifies_witness:
  "\<exists>s k tc'. core_state_transition (store_bytes (\<lambda>_. 0) 0 (map of_char ''-1.5,T'')) 0 (\<lambda>_. 0)
      = Some (s, 0 + of_nat k, tc')
    \<and> 0 < k \<and> k \<le> length (map of_char ''-1.5,T'' :: u8 list)
    \<and> is_token s (take k (map of_char ''-1.5,T'')) (drop k (map of_char ''-1.5,T''))"
  by (rule state_transition_classifies) simp_all

text \<open>C28: The loop over the input returns on every NUL-terminated string, stops at its NUL,
  splits it without gaps into tokens, and adds one to the counter of the class of each token.\<close>

theorem scan_loop_tokenises:
  assumes "cstr m p cs"
  shows "\<exists>ss tc'. scan_loop m p fc tc = Some (p + of_nat (length cs), fold bump ss fc, tc')
    \<and> tokenised ss cs"
proof -
  obtain ss fc' tc' where "scan_list cs fc tc = (ss, fc', tc')" by (metis prod_cases3)
  then show ?thesis using scan_loop_list [OF assms, of fc tc] by auto
qed

theorem scan_loop_tokenises_witness:
  "\<exists>ss tc'. scan_loop (store_bytes (\<lambda>_. 0) 0 (map of_char ''5,T2'')) 0 (\<lambda>_. 0) (\<lambda>_. 0)
      = Some (0 + of_nat (length (map of_char ''5,T2'' :: u8 list)), fold bump ss (\<lambda>_. 0), tc')
    \<and> tokenised ss (map of_char ''5,T2'')"
  by (rule scan_loop_tokenises) simp

section \<open>The input\<close>

text \<open>C30: \<open>core_init_state\<close> fills its block with as many patterns as fit, each followed by a
  comma and chosen by the running seed, and then with zeros, of which there are at least two
  behind a pattern; it writes no byte outside the block.\<close>

theorem core_init_state_fills:
  assumes "0 < unat sz" and "unat sz + 15 \<le> 2 ^ 32"
  shows "\<exists>m' k. core_init_state m sz seed p = Some m'
    \<and> bytes_at m' p (unat sz)
        = patterns (seed + 1) k @ replicate (unat sz - length (patterns (seed + 1) k)) 0
    \<and> (k = 0 \<or> length (patterns (seed + 1) k) + 2 \<le> unat sz)
    \<and> unat sz \<le> length (patterns (seed + 1) k) + length (fst (pick_pattern (seed + 1 + of_nat k))) + 2
    \<and> (\<forall>a. \<not> in_range a p (unat sz) \<longrightarrow> m' a = m a)"
proof -
  obtain k where k: "\<And>m. core_init_state m sz seed p = Some (store_bytes m p
      (patterns (seed + 1) k @ replicate (unat sz - length (patterns (seed + 1) k)) 0))"
    "k = 0 \<or> length (patterns (seed + 1) k) + 2 \<le> unat sz"
    "unat sz \<le> length (patterns (seed + 1) k) + length (fst (pick_pattern (seed + 1 + of_nat k))) + 2"
    using core_init_state_store [OF assms] by blast
  let ?bs = "patterns (seed + 1) k @ replicate (unat sz - length (patterns (seed + 1) k)) 0"
  have len: "length ?bs = unat sz" using k(2) by (auto simp: patterns_0)
  have le: "length ?bs \<le> 2 ^ 32" using assms(2) unfolding len by simp
  show ?thesis
    using k bytes_at_store_bytes [OF le, of m p] store_bytes_outside [OF le, of _ p m]
    unfolding len by blast
qed

theorem core_init_state_fills_witness:
  "\<exists>m' k. core_init_state (\<lambda>_. 7) 666 0 0x4000 = Some m'
    \<and> bytes_at m' 0x4000 666 = patterns 1 k @ replicate (666 - length (patterns 1 k)) 0
    \<and> m' 0x3fff = 7"
proof -
  have h: "0 < unat (666 :: u32)" "unat (666 :: u32) + 15 \<le> 2 ^ 32" by simp_all
  have o: "\<not> in_range 0x3fff 0x4000 (unat (666 :: u32))" by (simp add: in_range_def unsigned_minus_1_eq_mask mask_eq_exp_minus_1)
  from core_init_state_fills [OF h, of "\<lambda>_. 7" 0 "0x4000"] o show ?thesis by fastforce
qed

section \<open>The benchmark\<close>

lemma init_good_block:
  assumes "2 \<le> unat sz" and "unat b + unat sz + 2 ^ 15 \<le> 2 ^ 32"
    and "bytes_at m b (unat sz) = patterns s k @ replicate (unat sz - length (patterns s k)) 0"
    and "k = 0 \<or> length (patterns s k) + 2 \<le> unat sz"
  shows "good_block m b (unat sz)"
proof -
  let ?n = "unat sz"
  have l: "length (patterns s k) + 2 \<le> ?n" using assms(1,4) by (auto simp: patterns_0)
  have "m (b + of_nat i) = 0" if "length (patterns s k) \<le> i" "i < ?n" for i
  proof -
    have "bytes_at m b ?n ! i = 0" unfolding assms(3) using that by (simp add: nth_append)
    then show ?thesis using that(2) by simp
  qed
  from this [of "?n - 2"] this [of "?n - 2 + 1"]
  have "m (b + of_nat (?n - 2)) = 0 \<and> m (b + of_nat (?n - 2 + 1)) = 0" using l by linarith
  then show ?thesis
    unfolding good_block_def using assms(1,2) by (intro conjI exI [of _ "?n - 2"]) (simp, linarith, blast+)
qed

lemma corrupted_outside: "\<not> in_range a b n \<Longrightarrow> corrupted m b n st x a = m a"
  by (simp add: corrupted_def in_range_def Let_def)

text \<open>C27: On a block filled by \<open>core_init_state\<close>, with a step of at least 2, the benchmark
  returns for every pair of seeds: both scans and both passes end, no byte outside the block is
  written, and the checksum depends on the arguments only, not on what memory held before.\<close>

theorem core_bench_state_returns:
  assumes "2 \<le> unat sz" and "unat b + unat sz + 2 ^ 15 \<le> 2 ^ 32" and "2 \<le> sint step"
  shows "\<exists>crc'. \<forall>m. \<exists>m1 m2. core_init_state m sz seed b = Some m1
    \<and> core_bench_state m1 sz b seed1 seed2 step crc = Some (m2, crc')
    \<and> (\<forall>a. \<not> in_range a b (unat sz) \<longrightarrow> m2 a = m a)"
proof -
  let ?n = "unat sz"
  have h: "0 < ?n" "?n + 15 \<le> 2 ^ 32" using assms by simp_all
  obtain k where k: "\<And>m. core_init_state m sz seed b = Some (store_bytes m b
      (patterns (seed + 1) k @ replicate (?n - length (patterns (seed + 1) k)) 0))"
    "k = 0 \<or> length (patterns (seed + 1) k) + 2 \<le> ?n"
    using core_init_state_store [OF h] by blast
  let ?bs = "patterns (seed + 1) k @ replicate (?n - length (patterns (seed + 1) k)) 0"
  let ?m1 = "\<lambda>m. store_bytes m b ?bs"
  have len: "length ?bs = ?n" using k(2) assms(1) by (auto simp: patterns_0)
  have le: "length ?bs \<le> 2 ^ 32" using assms(2) unfolding len by simp
  have bs: "bytes_at (?m1 m) b ?n = ?bs" for m
    using bytes_at_store_bytes [OF le, of m b] unfolding len .
  have g: "good_block (?m1 m) b ?n" for m
    using init_good_block [OF assms(1,2) bs k(2)] .
  obtain crc' where "\<And>m'. bytes_at m' b ?n = bytes_at (?m1 (\<lambda>_. 0)) b ?n \<Longrightarrow>
      map_option snd (core_bench_state m' sz b seed1 seed2 step crc) = Some crc'"
    using core_bench_state_run [OF g assms(3), of "\<lambda>_. 0" seed1 seed2 crc] by blast
  then have crc: "map_option snd (core_bench_state (?m1 m) sz b seed1 seed2 step crc) = Some crc'" for m
    by (simp only: bs)
  show ?thesis
  proof (intro exI [of _ crc'] allI)
    fix m
    let ?m2 = "corrupted (corrupted (?m1 m) b ?n (nat (sint step)) (ucast seed1)) b ?n
      (nat (sint step)) (ucast seed2)"
    have "core_bench_state (?m1 m) sz b seed1 seed2 step crc = Some (?m2, crc')"
      using core_bench_state_run [OF g assms(3), of m seed1 seed2 crc] crc [of m] by auto
    moreover have "?m2 a = m a" if "\<not> in_range a b ?n" for a
      using that store_bytes_outside [OF le, of a b m] unfolding len by (simp add: corrupted_outside)
    ultimately show "\<exists>m1 m2. core_init_state m sz seed b = Some m1
        \<and> core_bench_state m1 sz b seed1 seed2 step crc = Some (m2, crc')
        \<and> (\<forall>a. \<not> in_range a b ?n \<longrightarrow> m2 a = m a)"
      using k(1) by blast
  qed
qed

theorem core_bench_state_returns_witness:
  "\<exists>crc'. \<forall>m. \<exists>m1 m2. core_init_state m 666 0x3415 0x4000 = Some m1
    \<and> core_bench_state m1 666 0x4000 0x3415 0x3415 0x66 0 = Some (m2, crc') \<and> m2 0x3000 = m 0x3000"
proof -
  have h: "2 \<le> unat (666 :: u32)" "unat (0x4000 :: u32) + unat (666 :: u32) + 2 ^ 15 \<le> 2 ^ 32"
    "2 \<le> sint (0x66 :: s16)" by simp_all
  have o: "\<not> in_range 0x3000 0x4000 (unat (666 :: u32))" by (simp add: in_range_def)
  from core_bench_state_returns [OF h, where seed = "0x3415" and ?seed1.0 = "0x3415" and ?seed2.0 = "0x3415" and crc = 0] o show ?thesis by fast
qed

lemma xor_twice:
  fixes v x c :: u8
  shows "(let w = if v \<noteq> c then v XOR x else v in if w \<noteq> c then w XOR x else w) = v
    \<longleftrightarrow> \<not> (v = c XOR x \<and> x \<noteq> 0)"
proof -
  have B: "(v XOR x) XOR x = v" for v by (simp add: xor.assoc)
  have A: "v XOR x = c \<longleftrightarrow> v = c XOR x"
  proof
    assume "v XOR x = c"
    then have "(v XOR x) XOR x = c XOR x" by (simp only:)
    then show "v = c XOR x" by (simp only: B)
  qed (simp only: B)
  have C: "c = c XOR x \<longleftrightarrow> x = 0"
  proof
    assume "c = c XOR x"
    then have "c XOR c = c XOR (c XOR x)" by (rule arg_cong)
    also have "c XOR (c XOR x) = (c XOR c) XOR x" by (rule xor.assoc [symmetric])
    finally show "x = 0" by simp
  qed simp
  show ?thesis
  proof (cases "v = c")
    case True
    with C show ?thesis by (simp only: Let_def if_False simp_thms)
  next
    case False
    then have x: "v = c XOR x \<Longrightarrow> x \<noteq> 0" by auto
    show ?thesis
    proof (cases "v XOR x = c")
      case True
      with A x False show ?thesis by (simp only: Let_def if_True if_False simp_thms)
    next
      case no: False
      with A B False show ?thesis by (simp only: Let_def if_True if_False simp_thms)
    qed
  qed
qed

lemma corrupted_twice:
  "corrupted (corrupted m b n st x) b n st x a = m a \<longleftrightarrow>
    \<not> (unat (a - b) < n \<and> st dvd unat (a - b) \<and> m a = comma XOR x \<and> x \<noteq> 0)"
proof (cases "unat (a - b) < n \<and> st dvd unat (a - b)")
  case True
  then have "corrupted m b n st x a = (if m a \<noteq> comma then m a XOR x else m a)" for m
    by (simp only: corrupted_def Let_def) simp
  then show ?thesis
    using True xor_twice [of "m a" comma x] by (simp only: Let_def simp_thms)
next
  case False
  then have "corrupted m b n st x a = m a" for m by (auto simp: corrupted_def Let_def)
  then have "corrupted (corrupted m b n st x) b n st x a = m a" by (simp only:)
  then show ?thesis using False by blast
qed

text \<open>C33: With equal seeds the second pass undoes the first one, as its comment says, exactly
  if no visited byte equals a comma with the seed added (or the low byte of the seed is 0): such a
  byte turns into a comma, which the second pass skips.\<close>

theorem core_bench_state_restores_iff:
  assumes "good_block m b (unat n)" and "2 \<le> sint step"
  shows "\<exists>m' crc'. core_bench_state m n b seed seed step crc = Some (m', crc')
    \<and> (m' = m \<longleftrightarrow> (\<forall>i < unat n. nat (sint step) dvd i \<longrightarrow> m (b + of_nat i) = comma XOR ucast seed
         \<longrightarrow> (ucast seed :: u8) = 0))"
proof -
  let ?n = "unat n" and ?st = "nat (sint step)" and ?x = "ucast seed :: u8"
  let ?m = "corrupted (corrupted m b ?n ?st ?x) b ?n ?st ?x"
  have n32: "?n \<le> 2 ^ 32" using assms(1) by (simp add: good_block_def)
  have "?m = m \<longleftrightarrow> (\<forall>a. \<not> (unat (a - b) < ?n \<and> ?st dvd unat (a - b) \<and> m a = comma XOR ?x \<and> ?x \<noteq> 0))"
    by (simp only: fun_eq_iff corrupted_twice)
  also have "\<dots> \<longleftrightarrow> (\<forall>i < ?n. ?st dvd i \<longrightarrow> m (b + of_nat i) = comma XOR ?x \<longrightarrow> ?x = 0)"
    (is "?l \<longleftrightarrow> ?r")
  proof
    assume ?l
    then show ?r using n32 by (auto dest: spec [of _ "b + of_nat _"] simp: unat_of_nat)
  next
    assume r: ?r
    show ?l
    proof
      fix a
      have "a = b + of_nat (unat (a - b))" by simp
      with r show "\<not> (unat (a - b) < ?n \<and> ?st dvd unat (a - b) \<and> m a = comma XOR ?x \<and> ?x \<noteq> 0)"
        by metis
    qed
  qed
  finally show ?thesis using core_bench_state_run [OF assms, of seed seed crc] by blast
qed

text \<open>A block with the digit \<open>0\<close> in front and the seed \<open>0x1c\<close>: the digit becomes a comma and stays
  one.\<close>

theorem core_bench_state_restores_iff_witness:
  "\<exists>m' crc'. core_bench_state ((\<lambda>_. 0)(0x4000 := of_char CHR ''0'')) 8 0x4000 0x1c 0x1c 2 0 = Some (m', crc')
    \<and> m' \<noteq> (\<lambda>_. 0)(0x4000 := of_char CHR ''0'')"
proof -
  let ?m = "(\<lambda>_. 0)(0x4000 := of_char CHR ''0'') :: mem"
  have g: "good_block ?m 0x4000 (unat (8 :: u32))"
    unfolding good_block_def by (intro conjI exI [of _ 1]) simp_all
  have st: "2 \<le> sint (2 :: s16)" by simp
  have "?m (0x4000 + of_nat 0) = comma XOR ucast (0x1c :: s16)" "(ucast (0x1c :: s16) :: u8) \<noteq> 0"
    by simp_all
  then have "\<not> (\<forall>i < unat (8 :: u32). nat (sint (2 :: s16)) dvd i \<longrightarrow>
      ?m (0x4000 + of_nat i) = comma XOR ucast (0x1c :: s16) \<longrightarrow> (ucast (0x1c :: s16) :: u8) = 0)"
    by (intro notI) (drule spec [of _ 0], simp)
  then show ?thesis
    using core_bench_state_restores_iff [OF g st, of "0x1c" 0] by auto
qed

end
