(* ===== verification/EePrintf.thy ===== *)
theory EePrintf
  imports Varargs
begin

text \<open>
  \<^verbatim>\<open>sw/coremark/riscinator/ee_printf.c\<close>, with \<open>HAS_FLOAT\<close> 0 as in \<^verbatim>\<open>core_portme.h\<close>: CoreMark's own
  \<open>printf\<close> on the UART. A buffer pointer \<open>str\<close> that only moves forward is the text written so far; the
  other variables of type \<open>int\<close> are integers, and a result outside the 32-bit range, undefined in C,
  gives \<open>None\<close>. The flags are the bits of a word. C strings are as for \<^verbatim>\<open>tinyprintf.c\<close>.
\<close>

section \<open>The code: numbers\<close>

definition ZEROPAD :: u32 where "ZEROPAD = 1"
definition SIGN :: u32 where "SIGN = 2"
definition PLUS :: u32 where "PLUS = 4"
definition SPACE :: u32 where "SPACE = 8"
definition LEFT :: u32 where "LEFT = 16"
definition HEX_PREP :: u32 where "HEX_PREP = 32"
definition UPPERCASE :: u32 where "UPPERCASE = 64"

definition is_digit_char :: "char \<Rightarrow> bool" where
  "is_digit_char c \<longleftrightarrow> CHR ''0'' \<le> c \<and> c \<le> CHR ''9''"

definition digits :: string where
  "digits = ''0123456789abcdefghijklmnopqrstuvwxyz''"

definition upper_digits :: string where
  "upper_digits = ''0123456789ABCDEFGHIJKLMNOPQRSTUVWXYZ''"

fun strnlen :: "string \<Rightarrow> u32 \<Rightarrow> nat" where
  "strnlen [] count = 0"
| "strnlen (c # cs) count = (if c \<noteq> NUL \<and> count \<noteq> 0 then Suc (strnlen cs (count - 1)) else 0)"

text \<open>\<open>i * 10 + *((*s)++) - '0'\<close>, evaluated from the left.\<close>

fun skip_atoi_loop :: "string \<Rightarrow> int \<Rightarrow> (int \<times> string) option" where
  "skip_atoi_loop [] i = Some (i, [])"
| "skip_atoi_loop (c # cs) i =
     (if is_digit_char c
      then Option.bind (in_int (i * 10)) (\<lambda>i. Option.bind (in_int (i + of_char c)) (\<lambda>i.
             skip_atoi_loop cs (i - of_char (CHR ''0''))))
      else Some (i, c # cs))"

definition skip_atoi :: "string \<Rightarrow> (int \<times> string) option" where
  "skip_atoi s = skip_atoi_loop s 0"

text \<open>\<open>while (size-- > 0) *str++ = c\<close>\<close>

function pad_loop :: "char \<Rightarrow> int \<Rightarrow> string \<Rightarrow> int \<times> string" where
  "pad_loop c sz str = (if 0 < sz then pad_loop c (sz - 1) (str @ [c]) else (sz - 1, str))"
  by pat_completeness auto
termination by (relation "measure (\<lambda>(c, sz, str). nat sz)") auto

text \<open>\<open>while (i < precision--) *str++ = '0'\<close>\<close>

function zero_loop :: "int \<Rightarrow> int \<Rightarrow> string \<Rightarrow> string" where
  "zero_loop i precision str =
     (if i < precision then zero_loop i (precision - 1) (str @ [CHR ''0'']) else str)"
  by pat_completeness auto
termination by (relation "measure (\<lambda>(i, precision, str). nat (precision - i))") auto

text \<open>\<open>while (i-- > 0) *str++ = tmp[i]\<close>\<close>

primrec copy_down_loop :: "nat \<Rightarrow> string \<Rightarrow> string \<Rightarrow> string" where
  "copy_down_loop 0 tmp str = str"
| "copy_down_loop (Suc i) tmp str = copy_down_loop i tmp (str @ [tmp ! i])"

declare pad_loop.simps [simp del] zero_loop.simps [simp del]

text \<open>\<open>while (num != 0)\<close>; \<open>tmp\<close> is what the array holds up to index \<open>i\<close>.\<close>

partial_function (option) digit_loop :: "string \<Rightarrow> u32 \<Rightarrow> u32 \<Rightarrow> string \<Rightarrow> string option" where
  "digit_loop dig num base tmp =
     (if num \<noteq> 0 then digit_loop dig (num div base) base (tmp @ [dig ! unat (num mod base)]) else Some tmp)"

text \<open>The writing half of \<open>number\<close>, once the digits, least significant first, are in \<open>tmp\<close>. The sign
  is \<open>NUL\<close> when there is none. The width only falls, so its last value being an \<open>int\<close> shows that
  none of them overflowed.\<close>

definition number_write ::
  "string \<Rightarrow> char \<Rightarrow> char \<Rightarrow> string \<Rightarrow> int \<Rightarrow> int \<Rightarrow> int \<Rightarrow> u32 \<Rightarrow> string option" where
  "number_write str c sign tmp base sz precision type =
     (let (sz, str) = (if type AND (ZEROPAD OR LEFT) = 0 then pad_loop (CHR '' '') sz str else (sz, str));
          str = (if sign \<noteq> NUL then str @ [sign] else str);
          str = (if type AND HEX_PREP \<noteq> 0
                 then if base = 8 then str @ [CHR ''0'']
                      else if base = 16 then str @ [CHR ''0''] @ [digits ! 33] else str
                 else str);
          (sz, str) = (if type AND LEFT = 0 then pad_loop c sz str else (sz, str));
          str = zero_loop (int (length tmp)) precision str;
          str = copy_down_loop (length tmp) tmp str;
          (sz, str) = pad_loop (CHR '' '') sz str
      in map_option (\<lambda>_. str) (in_int sz))"

text \<open>The sign, the magnitude and the width that is left.\<close>

definition number_sign :: "u32 \<Rightarrow> s32 \<Rightarrow> int \<Rightarrow> char \<times> s32 \<times> int" where
  "number_sign type num sz =
     (if type AND SIGN \<noteq> 0
      then if num <s 0 then (CHR ''-'', - num, sz - 1)
           else if type AND PLUS \<noteq> 0 then (CHR ''+'', num, sz - 1)
           else if type AND SPACE \<noteq> 0 then (CHR '' '', num, sz - 1)
           else (NUL, num, sz)
      else (NUL, num, sz))"

text \<open>The result is \<open>None\<close> for the null pointer \<open>number\<close> returns when the base is out of range
  too.\<close>

definition number :: "string \<Rightarrow> s32 \<Rightarrow> int \<Rightarrow> int \<Rightarrow> int \<Rightarrow> u32 \<Rightarrow> string option" where
  "number str num base sz precision type =
     (let dig = (if type AND UPPERCASE \<noteq> 0 then upper_digits else digits);
          type = (if type AND LEFT \<noteq> 0 then type AND NOT ZEROPAD else type)
      in if base < 2 \<or> 36 < base then None
         else let c = (if type AND ZEROPAD \<noteq> 0 then CHR ''0'' else CHR '' '');
                  (sign, num, sz) = number_sign type num sz;
                  sz = (if type AND HEX_PREP \<noteq> 0
                        then if base = 16 then sz - 2 else if base = 8 then sz - 1 else sz
                        else sz)
              in Option.bind
                   (if num = 0 then Some [CHR ''0''] else digit_loop dig num (word_of_int base) []) (\<lambda>tmp.
                 let i = int (length tmp);
                     precision = (if precision < i then i else precision)
                 in Option.bind (in_int (sz - precision)) (\<lambda>sz.
                      number_write str c sign tmp base sz precision type)))"

section \<open>The code: addresses and strings\<close>

text \<open>\<open>while (len < size--) *str++ = ' '\<close>\<close>

function fill_loop :: "int \<Rightarrow> int \<Rightarrow> string \<Rightarrow> int \<times> string" where
  "fill_loop len sz str = (if len < sz then fill_loop len (sz - 1) (str @ [CHR '' '']) else (sz - 1, str))"
  by pat_completeness auto
termination by (relation "measure (\<lambda>(len, sz, str). nat (sz - len))") auto

declare fill_loop.simps [simp del]

text \<open>The address is a string of bytes; one that is too short is read out of range.\<close>

definition eaddr :: "string \<Rightarrow> string \<Rightarrow> int \<Rightarrow> int \<Rightarrow> u32 \<Rightarrow> string option" where
  "eaddr str addr sz precision type =
     (if length addr < 6 then None
      else let dig = (if type AND UPPERCASE \<noteq> 0 then upper_digits else digits);
               tmp = fold (\<lambda>i tmp.
                 let tmp = (if i \<noteq> 0 then tmp @ [CHR '':''] else tmp);
                     tmp = tmp @ [dig ! unat (drop_bit 4 (of_char (addr ! i) :: u8))]
                 in tmp @ [dig ! unat ((of_char (addr ! i) :: u8) AND 0x0F)]) [0..<6] [];
               len = int (length tmp);
               (sz, str) = (if type AND LEFT = 0 then fill_loop len sz str else (sz, str));
               str = str @ tmp;
               (sz, str) = fill_loop len sz str
           in Some str)"

definition iaddr_byte :: "nat \<Rightarrow> string \<Rightarrow> string" where
  "iaddr_byte n tmp =
     (if n = 0 then tmp @ [digits ! 0]
      else let (tmp, n) =
             (if 100 \<le> n
              then let tmp = tmp @ [digits ! (n div 100)]; n = n mod 100;
                       tmp = tmp @ [digits ! (n div 10)]; n = n mod 10
                   in (tmp, n)
              else if 10 \<le> n then (tmp @ [digits ! (n div 10)], n mod 10)
              else (tmp, n))
           in tmp @ [digits ! n])"

definition iaddr :: "string \<Rightarrow> string \<Rightarrow> int \<Rightarrow> int \<Rightarrow> u32 \<Rightarrow> string option" where
  "iaddr str addr sz precision type =
     (if length addr < 4 then None
      else let tmp = fold (\<lambda>i tmp.
                 let tmp = (if i \<noteq> 0 then tmp @ [CHR ''.''] else tmp)
                 in iaddr_byte (of_char (addr ! i)) tmp) [0..<4] [];
               len = int (length tmp);
               (sz, str) = (if type AND LEFT = 0 then fill_loop len sz str else (sz, str));
               str = str @ tmp;
               (sz, str) = fill_loop len sz str
           in Some str)"

section \<open>The code: the interpreter\<close>

text \<open>A pointer argument: a string, or the null pointer.\<close>

fun va_ptr :: "vararg list \<Rightarrow> (string option \<times> vararg list) option" where
  "va_ptr (AStr s # va) = Some (Some s, va)"
| "va_ptr (A32 p # va) = (if p = 0 then Some (None, va) else None)"
| "va_ptr _ = None"

text \<open>\<open>*fmt\<close>\<close>

definition cur :: "string \<Rightarrow> char" where
  "cur fmt = (case fmt of [] \<Rightarrow> NUL | c # _ \<Rightarrow> c)"

text \<open>\<open>repeat: fmt++; switch (*fmt)\<close>; the format starts behind the \<open>%\<close> or the flag before.\<close>

fun ee_flags_loop :: "string \<Rightarrow> u32 \<Rightarrow> string \<times> u32" where
  "ee_flags_loop [] flags = ([], flags)"
| "ee_flags_loop (c # cs) flags =
     (if c = CHR ''-'' then ee_flags_loop cs (flags OR LEFT)
      else if c = CHR ''+'' then ee_flags_loop cs (flags OR PLUS)
      else if c = CHR '' '' then ee_flags_loop cs (flags OR SPACE)
      else if c = CHR ''#'' then ee_flags_loop cs (flags OR HEX_PREP)
      else if c = CHR ''0'' then ee_flags_loop cs (flags OR ZEROPAD)
      else (c # cs, flags))"

definition ee_width :: "string \<Rightarrow> u32 \<Rightarrow> vararg list \<Rightarrow> (int \<times> string \<times> u32 \<times> vararg list) option" where
  "ee_width fmt flags va =
     (if is_digit_char (cur fmt) then map_option (\<lambda>(w, fmt). (w, fmt, flags, va)) (skip_atoi fmt)
      else if cur fmt = CHR ''*''
      then Option.bind (va32 va) (\<lambda>(x, va).
             let w = sint x
             in if w < 0 then map_option (\<lambda>w. (w, tl fmt, flags OR LEFT, va)) (in_int (- w))
                else Some (w, tl fmt, flags, va))
      else Some (- 1, fmt, flags, va))"

definition ee_precision :: "string \<Rightarrow> vararg list \<Rightarrow> (int \<times> string \<times> vararg list) option" where
  "ee_precision fmt va =
     (if cur fmt = CHR ''.''
      then let fmt = tl fmt
           in map_option (\<lambda>(p, fmt, va). (if p < 0 then 0 else p, fmt, va))
                (if is_digit_char (cur fmt) then map_option (\<lambda>(p, fmt). (p, fmt, va)) (skip_atoi fmt)
                 else if cur fmt = CHR ''*''
                 then map_option (\<lambda>(x, va). (sint x, tl fmt, va)) (va32 va)
                 else Some (- 1, fmt, va))
      else Some (- 1, fmt, va))"

text \<open>The qualifier is \<open>NUL\<close> for the \<open>-1\<close> of the code.\<close>

definition ee_qualifier :: "string \<Rightarrow> char \<times> string" where
  "ee_qualifier fmt =
     (if cur fmt = CHR ''l'' \<or> cur fmt = CHR ''L'' then (cur fmt, tl fmt) else (NUL, fmt))"

text \<open>\<open>while (--field_width > 0) *str++ = ' '\<close>\<close>

function pre_loop :: "int \<Rightarrow> string \<Rightarrow> int \<times> string" where
  "pre_loop w str = (if 0 < w - 1 then pre_loop (w - 1) (str @ [CHR '' '']) else (w - 1, str))"
  by pat_completeness auto
termination by (relation "measure (\<lambda>(w, str). nat w)") auto

declare pre_loop.simps [simp del]

text \<open>The integer conversions, behind the \<open>switch\<close>.\<close>

definition ee_integer ::
  "string \<Rightarrow> char \<Rightarrow> int \<Rightarrow> int \<Rightarrow> int \<Rightarrow> u32 \<Rightarrow> vararg list \<Rightarrow> (string \<times> vararg list) option" where
  "ee_integer str qualifier base w precision flags va =
     Option.bind (va32 va) (\<lambda>(num, va). map_option (\<lambda>str. (str, va)) (number str num base w precision flags))"

text \<open>The \<open>switch\<close> on the conversion letter \<open>*fmt\<close>, but for its default.\<close>

definition ee_convert ::
  "string \<Rightarrow> char \<Rightarrow> char \<Rightarrow> int \<Rightarrow> int \<Rightarrow> u32 \<Rightarrow> vararg list \<Rightarrow> (string \<times> vararg list) option option" where
  "ee_convert str ch qualifier w precision flags va =
     (if ch = CHR ''c''
      then Some (let (w, str) = (if flags AND LEFT = 0 then pre_loop w str else (w, str))
                 in map_option (\<lambda>(x, va). (snd (pre_loop w (str @ [char_of (unat x)])), va)) (va32 va))
      else if ch = CHR ''s''
      then Some (Option.bind (va_ptr va) (\<lambda>(s, va).
             let s = (case s of None \<Rightarrow> ''<NULL>'' | Some s \<Rightarrow> s);
                 len = strnlen s (word_of_int precision);
                 (w, str) = (if flags AND LEFT = 0 then fill_loop (int len) w str else (w, str));
                 str = str @ take len s
             in Some (snd (fill_loop (int len) w str), va)))
      else if ch = CHR ''p''
      then Some (let (w, flags) = (if w = - 1 then (8, flags OR ZEROPAD) else (w, flags))
                 in ee_integer str qualifier 16 w precision flags va)
      else if ch = CHR ''A'' \<or> ch = CHR ''a''
      then Some (let flags = (if ch = CHR ''A'' then flags OR UPPERCASE else flags)
                 in Option.bind (va_str va) (\<lambda>(addr, va). map_option (\<lambda>str. (str, va))
                      (if qualifier = CHR ''l'' then eaddr str addr w precision flags
                       else iaddr str addr w precision flags)))
      else if ch = CHR ''o'' then Some (ee_integer str qualifier 8 w precision flags va)
      else if ch = CHR ''X'' \<or> ch = CHR ''x''
      then Some (let flags = (if ch = CHR ''X'' then flags OR UPPERCASE else flags)
                 in ee_integer str qualifier 16 w precision flags va)
      else if ch = CHR ''d'' \<or> ch = CHR ''i''
      then Some (ee_integer str qualifier 10 w precision (flags OR SIGN) va)
      else if ch = CHR ''u'' then Some (ee_integer str qualifier 10 w precision flags va)
      else None)"

section \<open>The code: the loop over the format\<close>

lemma skip_atoi_loop_length: "skip_atoi_loop s i = Some (j, t) \<Longrightarrow> length t \<le> length s"
proof (induction s i rule: skip_atoi_loop.induct)
  case (2 c cs i)
  then show ?case by (fastforce split: if_splits bind_splits)
qed simp

lemma ee_flags_loop_length: "ee_flags_loop fmt flags = (fmt', flags') \<Longrightarrow> length fmt' \<le> length fmt"
  by (induction fmt flags rule: ee_flags_loop.induct) (auto split: if_splits)

lemma ee_width_length:
  "ee_width fmt flags va = Some (w, fmt', flags', va') \<Longrightarrow> length fmt' \<le> length fmt"
  by (auto simp: ee_width_def skip_atoi_def Let_def split: if_splits bind_splits dest!: skip_atoi_loop_length)

lemma ee_precision_length: "ee_precision fmt va = Some (p, fmt', va') \<Longrightarrow> length fmt' \<le> length fmt"
  by (cases fmt)
     (auto simp: ee_precision_def skip_atoi_def cur_def split: if_splits bind_splits
        dest!: skip_atoi_loop_length)

lemma ee_qualifier_length: "ee_qualifier fmt = (q, fmt') \<Longrightarrow> length fmt' \<le> length fmt"
  by (auto simp: ee_qualifier_def split: if_splits)

text \<open>All that stands between a \<open>%\<close> and the conversion letter: flags, width, precision, qualifier,
  the format from the letter on, and the arguments that are left.\<close>

definition ee_spec ::
  "string \<Rightarrow> vararg list \<Rightarrow> (u32 \<times> int \<times> int \<times> char \<times> string \<times> vararg list) option" where
  "ee_spec fmt va =
     (let (fmt, flags) = ee_flags_loop fmt 0
      in Option.bind (ee_width fmt flags va) (\<lambda>(w, fmt, flags, va).
         Option.bind (ee_precision fmt va) (\<lambda>(precision, fmt, va).
         let (qualifier, fmt) = ee_qualifier fmt
         in Some (flags, w, precision, qualifier, fmt, va))))"

lemma ee_spec_length:
  assumes "ee_spec fmt va = Some (flags, w, p, q, fmt', va')"
  shows "length fmt' \<le> length fmt"
proof -
  obtain f1 fl where 1: "ee_flags_loop fmt 0 = (f1, fl)" by (cases "ee_flags_loop fmt 0")
  with assms obtain w2 f2 fl2 va2 where 2: "ee_width f1 fl va = Some (w2, f2, fl2, va2)"
    by (auto simp: ee_spec_def bind_eq_Some_conv)
  with assms 1 obtain p3 f3 va3 where 3: "ee_precision f2 va2 = Some (p3, f3, va3)"
    by (auto simp: ee_spec_def bind_eq_Some_conv)
  obtain q4 f4 where 4: "ee_qualifier f3 = (q4, f4)" by (cases "ee_qualifier f3")
  have "f4 = fmt'" using assms by (simp add: ee_spec_def 1 2 3 4)
  then show ?thesis
    using ee_flags_loop_length [OF 1] ee_width_length [OF 2] ee_precision_length [OF 3]
      ee_qualifier_length [OF 4] by auto
qed

text \<open>The \<open>for\<close> loop; a format that ends behind a \<open>%\<close> gives the \<open>%\<close>.\<close>

function ee_vsprintf_loop :: "string \<Rightarrow> string \<Rightarrow> vararg list \<Rightarrow> string option" where
  "ee_vsprintf_loop str [] va = Some str"
| "ee_vsprintf_loop str (c # fmt) va =
     (if c = NUL then Some str
      else if c \<noteq> CHR ''%'' then ee_vsprintf_loop (str @ [c]) fmt va
      else case ee_spec fmt va of
             None \<Rightarrow> None
           | Some (flags, w, precision, qualifier, fmt, va) \<Rightarrow>
               (case ee_convert str (cur fmt) qualifier w precision flags va of
                  None \<Rightarrow>
                    (let str = (if cur fmt \<noteq> CHR ''%'' then str @ [CHR ''%''] else str)
                     in if cur fmt \<noteq> NUL then ee_vsprintf_loop (str @ [cur fmt]) (tl fmt) va
                        else ee_vsprintf_loop str [] va)
                | Some None \<Rightarrow> None
                | Some (Some (str, va)) \<Rightarrow> ee_vsprintf_loop str (tl fmt) va))"
  by pat_completeness auto
termination
  by (relation "measure (\<lambda>(str, fmt, va). length fmt)")
     (auto dest!: ee_spec_length)

text \<open>\<open>ee_vsprintf\<close> gives the bytes it stores from \<open>buf\<close> on, the terminator included, and its
  result.\<close>

definition ee_vsprintf :: "string \<Rightarrow> vararg list \<Rightarrow> (string \<times> int) option" where
  "ee_vsprintf fmt args =
     map_option (\<lambda>str. (str @ [NUL], int (length str))) (ee_vsprintf_loop [] fmt args)"

text \<open>\<open>while (*p)\<close>, with \<open>uart_send_char\<close> a call-back that changes the state of the device.\<close>

fun ee_send_loop :: "('s \<Rightarrow> char \<Rightarrow> 's) \<Rightarrow> string \<Rightarrow> s32 \<Rightarrow> 's \<Rightarrow> s32 \<times> 's" where
  "ee_send_loop send [] n s = (n, s)"
| "ee_send_loop send (c # p) n s = (if c \<noteq> NUL then ee_send_loop send p (n + 1) (send s c) else (n, s))"

text \<open>The buffer has 1024 bytes; a longer text is written behind it, which gives \<open>None\<close>.\<close>

definition ee_printf :: "('s \<Rightarrow> char \<Rightarrow> 's) \<Rightarrow> string \<Rightarrow> vararg list \<Rightarrow> 's \<Rightarrow> (s32 \<times> 's) option" where
  "ee_printf send fmt args s =
     Option.bind (ee_vsprintf fmt args) (\<lambda>(buf, _).
       if length buf \<le> 1024 then Some (ee_send_loop send buf 0 s) else None)"

end
