(* ===== verification/ParseVal.thy ===== *)
theory ParseVal
  imports EePrintf TinyprintfCorrect
begin

text \<open>
  The parameters of a run on the command line: \<open>parseval\<close> and \<open>get_seed_args\<close> of
  \<^verbatim>\<open>sw/coremark/core_util.c\<close>, which a build with \<open>SEED_METHOD\<close> equal to \<open>SEED_ARG\<close> has instead of the volatile
  seeds. An overflow of \<open>ee_s32\<close> is undefined.
\<close>

section \<open>The code\<close>

definition hex_char :: "char \<Rightarrow> bool" where
  "hex_char c \<longleftrightarrow> is_digit_char c \<or> CHR ''a'' \<le> c \<and> c \<le> CHR ''f''"

primrec hex_loop :: "string \<Rightarrow> int \<Rightarrow> (int \<times> string) option" where
  "hex_loop [] retval = Some (retval, [])"
| "hex_loop (c # valstring) retval =
     (if hex_char c
      then let digit = of_char c - 48;
               digit = (if 9 < digit then 10 + of_char c - 97 else digit)
           in Option.bind (in_int (retval * 16)) (\<lambda>retval.
              Option.bind (in_int (retval + digit)) (\<lambda>retval. hex_loop valstring retval))
      else Some (retval, c # valstring))"

primrec dec_loop :: "string \<Rightarrow> int \<Rightarrow> (int \<times> string) option" where
  "dec_loop [] retval = Some (retval, [])"
| "dec_loop (c # valstring) retval =
     (if is_digit_char c
      then Option.bind (in_int (retval * 10)) (\<lambda>retval.
           Option.bind (in_int (retval + (of_char c - 48))) (\<lambda>retval. dec_loop valstring retval))
      else Some (retval, c # valstring))"

definition parseval :: "string \<Rightarrow> int option" where
  "parseval valstring =
     (let (neg, valstring) = (if cur valstring = CHR ''-'' then (- 1, tl valstring) else (1, valstring));
          (hexmode, valstring) =
            (if cur valstring = CHR ''0'' \<and> cur (tl valstring) = CHR ''x'' then (True, drop 2 valstring)
             else (False, valstring))
      in Option.bind (if hexmode then hex_loop valstring 0 else dec_loop valstring 0) (\<lambda>(retval, valstring).
         Option.bind (if cur valstring = CHR ''K'' then in_int (retval * 1024) else Some retval) (\<lambda>retval.
         Option.bind (if cur valstring = CHR ''M'' then in_int (retval * (1024 * 1024)) else Some retval) (\<lambda>retval.
         in_int (retval * neg)))))"

text \<open>\<open>argv\<close> has \<open>argc\<close> elements.\<close>

definition get_seed_args :: "nat \<Rightarrow> string list \<Rightarrow> int option" where
  "get_seed_args i argv = (if i < length argv then parseval (argv ! i) else Some 0)"

section \<open>Digits are read back\<close>

lemma digit_classes:
  assumes "d < 16"
  defines "c \<equiv> digit_char False (of_nat d)"
  shows "hex_char c" and "is_digit_char c \<longleftrightarrow> d < 10"
    and "(of_char c :: int) = (if d < 10 then 48 + int d else 87 + int d)"
proof -
  have n: "(of_char c :: nat) = (if d < 10 then 48 + d else 87 + d)"
    unfolding c_def using digit_char_small(1) [OF assms(1), of False] by simp
  then show "hex_char c" "is_digit_char c \<longleftrightarrow> d < 10"
    using assms(1) by (auto simp: hex_char_def is_digit_char_def less_eq_char_def split: if_splits)
  have "(of_char c :: int) = int (of_char c)" by (simp only: of_nat_of_char)
  then show "(of_char c :: int) = (if d < 10 then 48 + int d else 87 + int d)" using n by simp
qed

lemma digits_val_le: "v * b ^ length ds \<le> foldl (\<lambda>v d. v * b + d) v (ds :: nat list)"
proof (induction ds arbitrary: v)
  case (Cons d ds)
  have "v * b ^ length (d # ds) \<le> (v * b + d) * b ^ length ds" by (simp add: algebra_simps)
  also have "\<dots> \<le> foldl (\<lambda>v d. v * b + d) v (d # ds)" using Cons.IH [of "v * b + d"] by simp
  finally show ?case .
qed simp

lemma value_grows:
  assumes "2 \<le> b"
  shows "v \<le> foldl (\<lambda>v d. v * b + d) v (ds :: nat list)"
proof -
  have "v \<le> v * b ^ length ds" using assms by simp
  then show ?thesis using digits_val_le [of v b ds] by (rule le_trans)
qed

text \<open>Both loops read the digits up to the first other character, as long as their value fits.\<close>

lemma loops_read:
  assumes "rest = [] \<or> \<not> hex_char (hd rest)"
  shows "\<forall>d \<in> set ds. d < 16 \<Longrightarrow> foldl (\<lambda>v d. v * 16 + d) v ds < 2 ^ 31
      \<Longrightarrow> hex_loop (map (\<lambda>d. digit_char False (of_nat d)) ds @ rest) (int v) = Some (int (foldl (\<lambda>v d. v * 16 + d) v ds), rest)"
    and "\<forall>d \<in> set ds. d < 10 \<Longrightarrow> foldl (\<lambda>v d. v * 10 + d) v ds < 2 ^ 31
      \<Longrightarrow> dec_loop (map (\<lambda>d. digit_char False (of_nat d)) ds @ rest) (int v) = Some (int (foldl (\<lambda>v d. v * 10 + d) v ds), rest)"
proof -
  show "\<forall>d \<in> set ds. d < 16 \<Longrightarrow> foldl (\<lambda>v d. v * 16 + d) v ds < 2 ^ 31
      \<Longrightarrow> hex_loop (map (\<lambda>d. digit_char False (of_nat d)) ds @ rest) (int v) = Some (int (foldl (\<lambda>v d. v * 16 + d) v ds), rest)"
  proof (induction ds arbitrary: v)
    case Nil
    then show ?case using assms by (cases rest) simp_all
  next
    case (Cons d ds)
    have d: "d < 16" using Cons.prems(1) by simp
    have "v * 16 + d < 2 ^ 31" using value_grows [of 16 "v * 16 + d" ds] Cons.prems(2) by simp
    then have "in_int (int v * 16) = Some (int v * 16)" "in_int (int v * 16 + int d) = Some (int (v * 16 + d))"
      by (auto simp: in_int_def)
    then show ?case using Cons.IH [of "v * 16 + d"] Cons.prems digit_classes [OF d] by (cases "d < 10") simp_all
  qed
  show "\<forall>d \<in> set ds. d < 10 \<Longrightarrow> foldl (\<lambda>v d. v * 10 + d) v ds < 2 ^ 31
      \<Longrightarrow> dec_loop (map (\<lambda>d. digit_char False (of_nat d)) ds @ rest) (int v) = Some (int (foldl (\<lambda>v d. v * 10 + d) v ds), rest)"
  proof (induction ds arbitrary: v)
    case Nil
    then show ?case using assms by (cases rest) (simp_all add: hex_char_def)
  next
    case (Cons d ds)
    have d: "d < 10" "d < 16" using Cons.prems(1) by auto
    have "v * 10 + d < 2 ^ 31" using value_grows [of 10 "v * 10 + d" ds] Cons.prems(2) by simp
    then have "in_int (int v * 10) = Some (int v * 10)" "in_int (int v * 10 + int d) = Some (int (v * 10 + d))"
      by (auto simp: in_int_def)
    then show ?case using Cons.IH [of "v * 10 + d"] Cons.prems digit_classes [OF d(2)] d by simp
  qed
qed

lemma hex_loop_text:
  assumes "n < 2 ^ 31" and "rest = [] \<or> \<not> hex_char (hd rest)"
  shows "hex_loop (digits_text False 16 n @ rest) 0 = Some (int n, rest)"
  using loops_read(1) [OF assms(2), of "nat_digits 16 n" 0] assms(1) digits_val_nat_digits [of 16 n] nat_digits_small [of 16 _ n]
  by (simp add: digits_text_def digits_val_def)

lemma dec_loop_text:
  assumes "n < 2 ^ 31" and "rest = [] \<or> \<not> hex_char (hd rest)"
  shows "dec_loop (show_nat n @ rest) 0 = Some (int n, rest)"
  using loops_read(2) [OF assms(2), of "nat_digits 10 n" 0] assms(1) digits_val_nat_digits [of 10 n] nat_digits_small [of 10 _ n]
  by (simp add: show_nat_def digits_text_def digits_val_def)

text \<open>A printed decimal number does not begin like a sign or a hexadecimal prefix.\<close>

lemma show_nat_start:
  assumes "rest = [] \<or> hd rest \<noteq> CHR ''x''"
  shows "cur (show_nat n @ rest) \<noteq> CHR ''-''"
    and "\<not> (cur (show_nat n @ rest) = CHR ''0'' \<and> cur (tl (show_nat n @ rest)) = CHR ''x'')"
proof -
  have all: "is_digit_char c" if "c \<in> set (show_nat n)" for c
    using that nat_digits_small [of 10 _ n] by (fastforce simp: show_nat_def digits_text_def digit_classes(2))
  obtain c cs where s: "show_nat n = c # cs" by (cases "show_nat n") (auto simp: show_nat_def digits_text_def)
  have "is_digit_char c" using all by (simp add: s)
  then show "cur (show_nat n @ rest) \<noteq> CHR ''-''" by (auto simp: s cur_def is_digit_char_def less_eq_char_def)
  have "cur (cs @ rest) \<noteq> CHR ''x''"
  proof (cases cs)
    case Nil
    then show ?thesis using assms by (auto simp: cur_def split: list.split)
  next
    case (Cons e es)
    then have "is_digit_char e" using all by (simp add: s)
    then show ?thesis by (auto simp: Cons cur_def is_digit_char_def less_eq_char_def)
  qed
  then show "\<not> (cur (show_nat n @ rest) = CHR ''0'' \<and> cur (tl (show_nat n @ rest)) = CHR ''x'')" by (simp add: s)
qed

text \<open>The factor of a suffix.\<close>

definition suffix_scale :: "string \<Rightarrow> int" where
  "suffix_scale suf = (if cur suf = CHR ''K'' then 1024 else if cur suf = CHR ''M'' then 1024 * 1024 else 1)"

definition number_text :: "bool \<Rightarrow> nat \<Rightarrow> string" where
  "number_text hex n = (if hex then ''0x'' @ digits_text False 16 n else show_nat n)"

lemma scaled:
  "Option.bind (if cur suf = CHR ''K'' then in_int (v * 1024) else Some v) (\<lambda>retval.
     Option.bind (if cur suf = CHR ''M'' then in_int (retval * (1024 * 1024)) else Some retval) f)
   = (if cur suf = CHR ''K'' \<or> cur suf = CHR ''M'' then Option.bind (in_int (v * suffix_scale suf)) f else f v)"
  by (simp add: suffix_scale_def)

text \<open>C40: \<open>parseval\<close> reads back what is printed: a decimal number, or a hexadecimal one behind \<open>0x\<close>, below
  2^31, with or without a sign and with any rest that does not go on with a digit; the suffix \<open>K\<close> or
  \<open>M\<close> scales it by 2^10 or 2^20. It is undefined exactly when the scaled value does not fit 31 bits.\<close>

theorem parseval_reads:
  assumes "n < 2 ^ 31" and "suf = [] \<or> \<not> hex_char (hd suf) \<and> hd suf \<noteq> CHR ''x''"
  shows "parseval ((if neg then ''-'' else []) @ number_text hex n @ suf)
    = map_option (\<lambda>v. if neg then - v else v) (in_int (int n * suffix_scale suf))"
proof -
  have rest: "suf = [] \<or> \<not> hex_char (hd suf)" "suf = [] \<or> hd suf \<noteq> CHR ''x''" using assms(2) by auto
  let ?t = "number_text hex n @ suf" and ?s = "if neg then - 1 else 1 :: int"
  have minus: "cur ?t \<noteq> CHR ''-''" using show_nat_start(1) [OF rest(2)] by (simp add: number_text_def cur_def)
  have mode: "(cur ?t = CHR ''0'' \<and> cur (tl ?t) = CHR ''x'') = hex"
    using show_nat_start(2) [OF rest(2), of n] by (auto simp: number_text_def cur_def)
  have loop: "(if hex then hex_loop (drop 2 ?t) 0 else dec_loop ?t 0) = Some (int n, suf)"
    using hex_loop_text [OF assms(1) rest(1)] dec_loop_text [OF assms(1) rest(1)] by (simp add: number_text_def)
  have sign: "(if cur ((if neg then ''-'' else []) @ ?t) = CHR ''-''
      then (- 1, tl ((if neg then ''-'' else []) @ ?t)) else (1, (if neg then ''-'' else []) @ ?t)) = (?s, ?t)"
    using minus by (simp add: cur_def)
  have "parseval ((if neg then ''-'' else []) @ ?t) =
      (if cur suf = CHR ''K'' \<or> cur suf = CHR ''M''
       then Option.bind (in_int (int n * suffix_scale suf)) (\<lambda>v. in_int (v * ?s)) else in_int (int n * ?s))"
    using loop unfolding parseval_def sign Let_def split_conv mode
    by (cases hex) (simp_all only: if_True if_False split_conv Option.bind.simps scaled)
  also have "\<dots> = map_option (\<lambda>v. if neg then - v else v) (in_int (int n * suffix_scale suf))"
    using assms(1) by (auto simp: in_int_def suffix_scale_def)
  finally show ?thesis .
qed

theorem parseval_reads_witness:
  "parseval (''-'' @ number_text True 255 @ ''K'') = Some (- 261120)
   \<and> number_text True 255 = ''0xff'' \<and> parseval (number_text False 2048 @ ''M;'') = None"
proof -
  have "number_text True 255 = ''0xff''" by code_simp
  moreover have "\<not> hex_char CHR ''K''" "\<not> hex_char CHR ''M''"
    by (simp_all add: hex_char_def is_digit_char_def less_eq_char_def)
  ultimately show ?thesis
    using parseval_reads [of 255 "''K''" True True] parseval_reads [of 2048 "''M;''" False False]
    by (simp add: suffix_scale_def cur_def in_int_def)
qed

end
