(* ===== verification/CoreMatrix.thy ===== *)
theory CoreMatrix
  imports Crc "HOL-Library.Signed_Division"
begin

text \<open>
  \<^verbatim>\<open>sw/coremark/core_matrix.c\<close>: the arithmetic on square matrices of 16-bit values with a 32-bit
  result, their initialisation and the benchmark. A matrix is the flat array of the code, a
  function of the \<open>ee_u32\<close> index \<open>i * N + j\<close>; a loop \<open>for (i = 0; i < N; i++)\<close> visits the
  indices of \<open>[0..<N]\<close> in order. Signed arithmetic that overflows \<open>int\<close> is read as rv32i
  computes it, modulo 2^32.
\<close>

section \<open>The code: loops and macros\<close>

definition for_to :: "u32 \<Rightarrow> (u32 \<Rightarrow> 's \<Rightarrow> 's) \<Rightarrow> 's \<Rightarrow> 's" where
  "for_to N f s = fold (\<lambda>i. f (of_nat i)) [0..<unat N] s"

definition matrix_clip :: "s16 \<Rightarrow> bool \<Rightarrow> s16" where
  "matrix_clip x y = (if y then x AND 0x0ff else x AND 0xffff)"

definition matrix_big :: "s16 \<Rightarrow> s16" where
  "matrix_big x = 0xf000 OR x"

definition bit_extract :: "s32 \<Rightarrow> nat \<Rightarrow> nat \<Rightarrow> u32" where
  "bit_extract x lo hi = signed_drop_bit lo x AND NOT (push_bit hi 0xffffffff)"

section \<open>The code: arithmetic\<close>

definition matrix_sum :: "u32 \<Rightarrow> (u32 \<Rightarrow> s32) \<Rightarrow> s16 \<Rightarrow> s16" where
  "matrix_sum N C clipval =
     (let (tmp, prev, ret) =
        for_to N (\<lambda>i. for_to N (\<lambda>j (tmp, prev, ret).
          let cur = C (i * N + j);
              tmp = tmp + cur;
              (tmp, ret) =
                (if scast clipval <s tmp then (0, ret + 10)
                 else (tmp, ret + (if prev <s cur then 1 else 0)))
          in (tmp, cur, ret))) (0 :: s32, 0 :: s32, 0)
      in ret)"

definition matrix_mul_const :: "u32 \<Rightarrow> (u32 \<Rightarrow> s32) \<Rightarrow> (u32 \<Rightarrow> s16) \<Rightarrow> s16 \<Rightarrow> u32 \<Rightarrow> s32" where
  "matrix_mul_const N C A val =
     for_to N (\<lambda>i. for_to N (\<lambda>j C. C(i * N + j := scast (A (i * N + j)) * scast val))) C"

definition matrix_add_const :: "u32 \<Rightarrow> (u32 \<Rightarrow> s16) \<Rightarrow> s16 \<Rightarrow> u32 \<Rightarrow> s16" where
  "matrix_add_const N A val =
     for_to N (\<lambda>i. for_to N (\<lambda>j A. A(i * N + j := A (i * N + j) + val))) A"

definition matrix_mul_vect ::
  "u32 \<Rightarrow> (u32 \<Rightarrow> s32) \<Rightarrow> (u32 \<Rightarrow> s16) \<Rightarrow> (u32 \<Rightarrow> s16) \<Rightarrow> u32 \<Rightarrow> s32" where
  "matrix_mul_vect N C A B =
     for_to N (\<lambda>i C. for_to N (\<lambda>j C. C(i := C i + scast (A (i * N + j)) * scast (B j))) (C(i := 0))) C"

definition matrix_mul_matrix ::
  "u32 \<Rightarrow> (u32 \<Rightarrow> s32) \<Rightarrow> (u32 \<Rightarrow> s16) \<Rightarrow> (u32 \<Rightarrow> s16) \<Rightarrow> u32 \<Rightarrow> s32" where
  "matrix_mul_matrix N C A B =
     for_to N (\<lambda>i. for_to N (\<lambda>j C.
       for_to N (\<lambda>k C. C(i * N + j := C (i * N + j)
           + scast (A (i * N + k)) * scast (B (k * N + j)))) (C(i * N + j := 0)))) C"

definition matrix_mul_matrix_bitextract ::
  "u32 \<Rightarrow> (u32 \<Rightarrow> s32) \<Rightarrow> (u32 \<Rightarrow> s16) \<Rightarrow> (u32 \<Rightarrow> s16) \<Rightarrow> u32 \<Rightarrow> s32" where
  "matrix_mul_matrix_bitextract N C A B =
     for_to N (\<lambda>i. for_to N (\<lambda>j C.
       for_to N (\<lambda>k C.
         let tmp = scast (A (i * N + k)) * scast (B (k * N + j))
         in C(i * N + j := C (i * N + j) + bit_extract tmp 2 4 * bit_extract tmp 5 7))
         (C(i * N + j := 0)))) C"

section \<open>The code: the benchmark\<close>

text \<open>The state is the result matrix and the matrix \<open>A\<close>; \<open>B\<close> is only read.\<close>

definition matrix_test :: "u32 \<Rightarrow> (u32 \<Rightarrow> s32) \<Rightarrow> (u32 \<Rightarrow> s16) \<Rightarrow> (u32 \<Rightarrow> s16) \<Rightarrow> s16
    \<Rightarrow> (u32 \<Rightarrow> s32) \<times> (u32 \<Rightarrow> s16) \<times> s16" where
  "matrix_test N C A B val =
     (let crc = 0; clipval = matrix_big val;
          A = matrix_add_const N A val;
          C = matrix_mul_const N C A val;
          crc = crc16 (matrix_sum N C clipval) crc;
          C = matrix_mul_vect N C A B;
          crc = crc16 (matrix_sum N C clipval) crc;
          C = matrix_mul_matrix N C A B;
          crc = crc16 (matrix_sum N C clipval) crc;
          C = matrix_mul_matrix_bitextract N C A B;
          crc = crc16 (matrix_sum N C clipval) crc;
          A = matrix_add_const N A (- val)
      in (C, A, crc))"

text \<open>\<open>mat_params\<close>, with the arrays its pointers lead to.\<close>

record mat_params =
  mp_N :: s32
  mp_A :: ptr
  mp_B :: ptr
  mp_C :: ptr
  arr_A :: "u32 \<Rightarrow> s16"
  arr_B :: "u32 \<Rightarrow> s16"
  arr_C :: "u32 \<Rightarrow> s32"

definition core_bench_matrix :: "mat_params \<Rightarrow> s16 \<Rightarrow> u16 \<Rightarrow> mat_params \<times> u16" where
  "core_bench_matrix p seed crc =
     (let (C, A, r) = matrix_test (mp_N p) (arr_C p) (arr_A p) (arr_B p) seed
      in (p\<lparr>arr_A := A, arr_C := C\<rparr>, crc16 r crc))"

section \<open>The code: initialisation\<close>

definition align_mem :: "ptr \<Rightarrow> ptr" where
  "align_mem x = 4 + ((x - 1) AND NOT 3)"

text \<open>\<open>while (j < blksize) { i++; j = i * i * 2 * 4; }\<close>\<close>

partial_function (option) size_loop :: "u32 \<Rightarrow> u32 \<Rightarrow> u32 \<Rightarrow> u32 option" where
  "size_loop blksize i j =
     (if j < blksize then (let i = i + 1 in size_loop blksize i (i * i * 2 * 4)) else Some i)"

text \<open>C's remainder takes the sign of the dividend.\<close>

definition rem_65536 :: "s32 \<Rightarrow> s32" where
  "rem_65536 x = word_of_int (sint x smod 65536)"

text \<open>The body of the inner loop: the state is \<open>seed\<close>, \<open>order\<close> and the arrays.\<close>

definition init_step :: "u32 \<Rightarrow> u32 \<Rightarrow> u32 \<Rightarrow> s32 \<times> s32 \<times> (u32 \<Rightarrow> s16) \<times> (u32 \<Rightarrow> s16)
    \<Rightarrow> s32 \<times> s32 \<times> (u32 \<Rightarrow> s16) \<times> (u32 \<Rightarrow> s16)" where
  "init_step N i j = (\<lambda>(seed, order, A, B).
     let seed = rem_65536 (order * seed);
         val = ucast (seed + order);
         val = matrix_clip val False;
         B = B(i * N + j := val);
         val = ucast (scast val + order);
         val = matrix_clip val True;
         A = A(i * N + j := val)
     in (seed, order + 1, A, B))"

definition core_init_matrix ::
  "u32 \<Rightarrow> ptr \<Rightarrow> s32 \<Rightarrow> mat_params \<Rightarrow> (u32 \<times> mat_params) option" where
  "core_init_matrix blksize memblk seed p =
     (let seed = (if seed = 0 then 1 else seed)
      in Option.bind (size_loop blksize 0 0) (\<lambda>i.
           let N = i - 1;
               A = align_mem memblk;
               B = A + 2 * (N * N);
               (_, _, arrA, arrB) =
                 for_to N (\<lambda>i. for_to N (init_step N i)) (seed, 1, arr_A p, arr_B p)
           in Some (N, p\<lparr>mp_A := A, mp_B := B, mp_C := align_mem (B + 2 * (N * N)), mp_N := N,
                         arr_A := arrA, arr_B := arrB\<rparr>)))"

end
