(* ===== verification/CoreList.thy ===== *)
theory CoreList
  imports CoreState CoreMatrix
begin

text \<open>
  \<^verbatim>\<open>sw/coremark/core_list_join.c\<close>: the linked list of CoreMark, its comparison functions, the
  bottom-up merge sort, the initialisation and the benchmark. The heap has one map per structure
  field, as each field is only accessed through its own type: \<open>l_next\<close> and \<open>l_info\<close> of a
  \<open>list_head\<close> (8 bytes), \<open>l_data16\<close> and \<open>l_idx\<close> of a \<open>list_data\<close> (4 bytes), and the bytes the state
  machine works on. rv32i has no protected page at address 0: an access through \<open>NULL\<close> is an access to the
  cell at 0. A \<open>list_data\<close> on the stack is the pair of its fields, \<open>data16\<close> first.
\<close>

section \<open>The code: state\<close>

record list_heap =
  l_next :: "ptr \<Rightarrow> ptr"
  l_info :: "ptr \<Rightarrow> ptr"
  l_data16 :: "ptr \<Rightarrow> s16"
  l_idx :: "ptr \<Rightarrow> s16"
  l_mem :: mem

record core_results =
  res_seed1 :: s16
  res_seed2 :: s16
  res_seed3 :: s16
  res_memblock :: "ptr list"
  res_size :: u32
  res_iterations :: u32
  res_execs :: u32
  res_list :: ptr
  res_mat :: mat_params
  res_crc :: u16
  res_crclist :: u16
  res_crcmatrix :: u16
  res_crcstate :: u16
  res_err :: s16

type_synonym list_data = "s16 \<times> s16"

definition set_next :: "ptr \<Rightarrow> ptr \<Rightarrow> list_heap \<Rightarrow> list_heap" where
  "set_next p q h = h\<lparr>l_next := (l_next h)(p := q)\<rparr>"

definition set_info :: "ptr \<Rightarrow> ptr \<Rightarrow> list_heap \<Rightarrow> list_heap" where
  "set_info p d h = h\<lparr>l_info := (l_info h)(p := d)\<rparr>"

definition set_data16 :: "ptr \<Rightarrow> s16 \<Rightarrow> list_heap \<Rightarrow> list_heap" where
  "set_data16 d v h = h\<lparr>l_data16 := (l_data16 h)(d := v)\<rparr>"

definition set_idx :: "ptr \<Rightarrow> s16 \<Rightarrow> list_heap \<Rightarrow> list_heap" where
  "set_idx d v h = h\<lparr>l_idx := (l_idx h)(d := v)\<rparr>"

section \<open>The code: comparison\<close>

text \<open>The uncached part of \<open>calc_func\<close>: the operation the low bits select.\<close>

definition calc_op :: "list_heap \<Rightarrow> core_results \<Rightarrow> s16 \<Rightarrow> (list_heap \<times> core_results \<times> s16) option" where
  "calc_op h res data =
     (let flag = data AND 0x7;
          dtype = drop_bit 3 data AND 0xf;
          dtype = dtype OR push_bit 4 dtype
      in if flag = 0
         then (let dtype = (if dtype <s 0x22 then 0x22 else dtype) in
               map_option (\<lambda>(m, retval).
                   (h\<lparr>l_mem := m\<rparr>, if res_crcstate res = 0 then res\<lparr>res_crcstate := retval\<rparr> else res, retval))
                 (core_bench_state (l_mem h) (res_size res) (res_memblock res ! 3) (res_seed1 res) (res_seed2 res)
                    dtype (res_crc res)))
         else if flag = 1
         then (let (p, retval) = core_bench_matrix (res_mat res) dtype (res_crc res); res = res\<lparr>res_mat := p\<rparr>
               in Some (h, if res_crcmatrix res = 0 then res\<lparr>res_crcmatrix := retval\<rparr> else res, retval))
         else Some (h, res, data))"

definition calc_func :: "list_heap \<Rightarrow> core_results \<Rightarrow> ptr \<Rightarrow> (list_heap \<times> core_results \<times> s16) option" where
  "calc_func h res pdata =
     (let data = l_data16 h pdata; optype = drop_bit 7 data AND 1
      in if optype \<noteq> 0 then Some (h, res, data AND 0x007f)
         else map_option (\<lambda>(h, res, retval).
                let res = res\<lparr>res_crc := crcu16 retval (res_crc res)\<rparr>;
                    retval = retval AND 0x007f
                in (set_data16 pdata ((data AND 0xff00) OR 0x0080 OR retval) h, res, retval))
              (calc_op h res data))"

text \<open>A \<open>list_cmp\<close> gets the results structure, or \<open>NULL\<close> for it (\<open>None\<close>).\<close>

type_synonym list_cmp =
  "list_heap \<Rightarrow> core_results option \<Rightarrow> ptr \<Rightarrow> ptr \<Rightarrow> (list_heap \<times> core_results option \<times> s32) option"

definition cmp_complex :: list_cmp where
  "cmp_complex h res a b =
     Option.bind res (\<lambda>res.
     Option.bind (calc_func h res a) (\<lambda>(h, res, val1).
     Option.bind (calc_func h res b) (\<lambda>(h, res, val2).
     Some (h, Some res, scast val1 - scast val2))))"

definition regen_data :: "ptr \<Rightarrow> list_heap \<Rightarrow> list_heap" where
  "regen_data a h =
     set_data16 a ((l_data16 h a AND 0xff00) OR (0x00ff AND signed_drop_bit 8 (l_data16 h a))) h"

definition cmp_idx :: list_cmp where
  "cmp_idx h res a b =
     (let h = (if res = None then regen_data b (regen_data a h) else h)
      in Some (h, res, scast (l_idx h a) - scast (l_idx h b)))"

definition copy_info :: "ptr \<Rightarrow> list_data \<Rightarrow> list_heap \<Rightarrow> list_heap" where
  "copy_info to from h = set_idx to (snd from) (set_data16 to (fst from) h)"

section \<open>The code: list operations\<close>

text \<open>The result is the new item, the heap and the two pointers into the free blocks.\<close>

definition core_list_insert_new ::
  "list_heap \<Rightarrow> ptr \<Rightarrow> list_data \<Rightarrow> ptr \<Rightarrow> ptr \<Rightarrow> ptr \<Rightarrow> ptr \<Rightarrow> ptr \<times> list_heap \<times> ptr \<times> ptr" where
  "core_list_insert_new h insert_point info memblock datablock memblock_end datablock_end =
     (if memblock + 8 \<ge> memblock_end then (NULL, h, memblock, datablock)
      else if datablock + 4 \<ge> datablock_end then (NULL, h, memblock, datablock)
      else let newitem = memblock;
               memblock = memblock + 8;
               h = set_next newitem (l_next h insert_point) h;
               h = set_next insert_point newitem h;
               h = set_info newitem datablock h;
               datablock = datablock + 4;
               h = copy_info (l_info h newitem) info h
           in (newitem, h, memblock, datablock))"

definition core_list_remove :: "list_heap \<Rightarrow> ptr \<Rightarrow> ptr \<times> list_heap" where
  "core_list_remove h item =
     (let ret = l_next h item;
          tmp = l_info h item;
          h = set_info item (l_info h ret) h;
          h = set_info ret tmp h;
          h = set_next item (l_next h (l_next h item)) h;
          h = set_next ret NULL h
      in (ret, h))"

definition core_list_undo_remove :: "list_heap \<Rightarrow> ptr \<Rightarrow> ptr \<Rightarrow> ptr \<times> list_heap" where
  "core_list_undo_remove h item_removed item_modified =
     (let tmp = l_info h item_removed;
          h = set_info item_removed (l_info h item_modified) h;
          h = set_info item_modified tmp h;
          h = set_next item_removed (l_next h item_modified) h;
          h = set_next item_modified item_removed h
      in (item_removed, h))"

partial_function (option) find_idx_loop :: "list_heap \<Rightarrow> ptr \<Rightarrow> s16 \<Rightarrow> ptr option" where
  "find_idx_loop h list i =
     (if list \<noteq> NULL \<and> l_idx h (l_info h list) \<noteq> i then find_idx_loop h (l_next h list) i
      else Some list)"

partial_function (option) find_data_loop :: "list_heap \<Rightarrow> ptr \<Rightarrow> s16 \<Rightarrow> ptr option" where
  "find_data_loop h list d =
     (if list \<noteq> NULL \<and> (scast (l_data16 h (l_info h list)) AND 0xff :: s32) \<noteq> scast d
      then find_data_loop h (l_next h list) d
      else Some list)"

definition core_list_find :: "list_heap \<Rightarrow> ptr \<Rightarrow> list_data \<Rightarrow> ptr option" where
  "core_list_find h list info =
     (if 0 \<le>s snd info then find_idx_loop h list (snd info) else find_data_loop h list (fst info))"

partial_function (option) reverse_loop :: "list_heap \<Rightarrow> ptr \<Rightarrow> ptr \<Rightarrow> (ptr \<times> list_heap) option" where
  "reverse_loop h list nxt =
     (if list \<noteq> NULL
      then let tmp = l_next h list; h = set_next list nxt h in reverse_loop h tmp list
      else Some (nxt, h))"

definition core_list_reverse :: "list_heap \<Rightarrow> ptr \<Rightarrow> (ptr \<times> list_heap) option" where
  "core_list_reverse h list = reverse_loop h list NULL"

section \<open>The code: merge sort\<close>

text \<open>\<open>for (i = 0; i < insize; i++)\<close>: \<open>q\<close> moves at most \<open>insize\<close> places, \<open>psize\<close> counts.\<close>

partial_function (option) walk_loop ::
  "list_heap \<Rightarrow> ptr \<Rightarrow> s32 \<Rightarrow> s32 \<Rightarrow> s32 \<Rightarrow> (ptr \<times> s32) option" where
  "walk_loop h q psize i insize =
     (if i <s insize
      then let psize = psize + 1; q = l_next h q
           in if q = NULL then Some (q, psize) else walk_loop h q psize (i + 1) insize
      else Some (q, psize))"

text \<open>\<open>while (psize > 0 || (qsize > 0 && q))\<close>: one turn decides whether the next element comes
  from \<open>p\<close>, takes it off there and appends it behind \<open>tail\<close>.\<close>

partial_function (option) merge_loop ::
  "list_cmp \<Rightarrow> list_heap \<Rightarrow> core_results option \<Rightarrow> ptr \<Rightarrow> s32 \<Rightarrow> ptr \<Rightarrow> s32 \<Rightarrow> ptr \<Rightarrow> ptr
     \<Rightarrow> (list_heap \<times> core_results option \<times> ptr \<times> ptr \<times> ptr) option" where
  "merge_loop cmp h res p psize q qsize list tail =
     (if 0 <s psize \<or> (0 <s qsize \<and> q \<noteq> NULL)
      then Option.bind
        (if psize = 0 then Some (h, res, False)
         else if qsize = 0 \<or> q = NULL then Some (h, res, True)
         else map_option (\<lambda>(h, res, c). (h, res, c \<le>s 0)) (cmp h res (l_info h p) (l_info h q)))
        (\<lambda>(h, res, from_p).
          let (e, p, psize, q, qsize) =
                (if from_p then (p, l_next h p, psize - 1, q, qsize)
                 else (q, p, psize, l_next h q, qsize - 1));
              (h, list) = (if tail \<noteq> NULL then (set_next tail e h, list) else (h, e))
          in merge_loop cmp h res p psize q qsize list e)
      else Some (h, res, q, list, tail))"

text \<open>\<open>while (p)\<close>: one pass over the list; the result is the heap, the comparison state, the
  list and its last element, and the number of merges.\<close>

partial_function (option) pass_loop ::
  "list_cmp \<Rightarrow> list_heap \<Rightarrow> core_results option \<Rightarrow> ptr \<Rightarrow> s32 \<Rightarrow> ptr \<Rightarrow> ptr \<Rightarrow> s32
     \<Rightarrow> (list_heap \<times> core_results option \<times> ptr \<times> ptr \<times> s32) option" where
  "pass_loop cmp h res p insize list tail nmerges =
     (if p \<noteq> NULL
      then let nmerges = nmerges + 1 in
        Option.bind (walk_loop h p 0 0 insize) (\<lambda>(q, psize).
        Option.bind (merge_loop cmp h res p psize q insize list tail) (\<lambda>(h, res, q, list, tail).
        pass_loop cmp h res q insize list tail nmerges))
      else Some (h, res, list, tail, nmerges))"

partial_function (option) sort_loop ::
  "list_cmp \<Rightarrow> list_heap \<Rightarrow> core_results option \<Rightarrow> ptr \<Rightarrow> s32
     \<Rightarrow> (ptr \<times> list_heap \<times> core_results option) option" where
  "sort_loop cmp h res list insize =
     Option.bind (pass_loop cmp h res list insize NULL NULL 0) (\<lambda>(h, res, list, tail, nmerges).
       let h = set_next tail NULL h
       in if nmerges \<le>s 1 then Some (list, h, res)
          else sort_loop cmp h res list (insize * 2))"

definition core_list_mergesort ::
  "list_heap \<Rightarrow> ptr \<Rightarrow> list_cmp \<Rightarrow> core_results option \<Rightarrow> (ptr \<times> list_heap \<times> core_results option) option"
where
  "core_list_mergesort h list cmp res = sort_loop cmp h res list 1"

section \<open>The code: initialisation\<close>

text \<open>The loop that inserts the items; \<open>mb\<close> and \<open>db\<close> point to the free cells.\<close>

definition init_item :: "s16 \<Rightarrow> u32 \<Rightarrow> list_data" where
  "init_item seed i =
     (let datpat = (ucast (scast seed XOR i) :: u16) AND 0xf;
          dat = push_bit 3 datpat OR ucast (i AND 0x7)
      in (push_bit 8 dat OR dat, 0x7fff))"

primrec insert_loop ::
  "nat \<Rightarrow> u32 \<Rightarrow> list_heap \<Rightarrow> ptr \<Rightarrow> s16 \<Rightarrow> ptr \<Rightarrow> ptr \<Rightarrow> ptr \<Rightarrow> ptr \<Rightarrow> list_heap" where
  "insert_loop 0 i h list seed mb db mb_end db_end = h"
| "insert_loop (Suc n) i h list seed mb db mb_end db_end =
     (case core_list_insert_new h list (init_item seed i) mb db mb_end db_end of
        (_, h, mb, db) \<Rightarrow> insert_loop n (i + 1) h list seed mb db mb_end db_end)"

text \<open>\<open>while (finder->next != NULL)\<close>: the indices, in order in the first fifth of the list.\<close>

partial_function (option) index_loop :: "list_heap \<Rightarrow> ptr \<Rightarrow> u32 \<Rightarrow> u32 \<Rightarrow> s16 \<Rightarrow> list_heap option" where
  "index_loop h finder i sz seed =
     (if l_next h finder \<noteq> NULL
      then let (v, i) =
             (if i < sz div 5 then (ucast i, i + 1)
              else let pat = ucast (i XOR scast seed) :: u16; i = i + 1
                   in (0x3fff AND (push_bit 8 (ucast (i AND 0x07)) OR pat), i));
             h = set_idx (l_info h finder) v h
           in index_loop h (l_next h finder) i sz seed
      else Some h)"

definition core_list_init :: "list_heap \<Rightarrow> u32 \<Rightarrow> ptr \<Rightarrow> s16 \<Rightarrow> (ptr \<times> list_heap) option" where
  "core_list_init h blksize memblock seed =
     (let per_item = 16 + 4;
          sz = blksize div per_item - 2;
          memblock_end = memblock + 8 * sz;
          datablock = memblock_end;
          datablock_end = datablock + 4 * sz;
          list = memblock;
          h = set_next list NULL h;
          h = set_info list datablock h;
          h = set_idx (l_info h list) 0x0000 h;
          h = set_data16 (l_info h list) 0x8080 h;
          memblock = memblock + 8;
          datablock = datablock + 4;
          (_, h, memblock, datablock) =
            core_list_insert_new h list (0xffff, 0x7fff) memblock datablock memblock_end datablock_end;
          h = insert_loop (unat sz) 0 h list seed memblock datablock memblock_end datablock_end
      in Option.bind (index_loop h (l_next h list) 1 sz seed) (\<lambda>h.
         map_option (\<lambda>(list, h, _). (list, h)) (core_list_mergesort h list cmp_idx None)))"

section \<open>The code: the benchmark\<close>

text \<open>The loop over \<open>find_num\<close> searches: \<open>n\<close> turns remain and \<open>i\<close> counts.\<close>

primrec search_loop :: "nat \<Rightarrow> s16 \<Rightarrow> list_data \<Rightarrow> list_heap \<Rightarrow> ptr \<Rightarrow> u16 \<Rightarrow> u16 \<Rightarrow> u16
    \<Rightarrow> (list_data \<times> list_heap \<times> ptr \<times> u16 \<times> u16 \<times> u16) option" where
  "search_loop 0 i info h list retval found missed = Some (info, h, list, retval, found, missed)"
| "search_loop (Suc n) i info h list retval found missed =
     (let info = (i AND 0xff, snd info) in
     Option.bind (core_list_find h list info) (\<lambda>this_find.
     Option.bind (core_list_reverse h list) (\<lambda>(list, h).
       let (h, retval, found, missed) =
         (if this_find = NULL
          then (h, retval + (ucast (drop_bit 8 (l_data16 h (l_info h (l_next h list)))) AND 1),
                found, missed + 1)
          else let retval = (if l_data16 h (l_info h this_find) AND 0x1 \<noteq> 0
                 then retval + (ucast (drop_bit 9 (l_data16 h (l_info h this_find))) AND 1) else retval);
                 h = (if l_next h this_find \<noteq> NULL
                   then let finder = l_next h this_find;
                            h = set_next this_find (l_next h finder) h;
                            h = set_next finder (l_next h list) h
                        in set_next list finder h
                   else h)
               in (h, retval, found + 1, missed));
           info = (fst info, if 0 \<le>s snd info then snd info + 1 else snd info)
       in search_loop n (i + 1) info h list retval found missed)))"

text \<open>\<open>while (finder)\<close>: the data of the list head is taken up once per item.\<close>

partial_function (option) crc_loop :: "list_heap \<Rightarrow> ptr \<Rightarrow> ptr \<Rightarrow> u16 \<Rightarrow> u16 option" where
  "crc_loop h list finder retval =
     (if finder \<noteq> NULL
      then crc_loop h list (l_next h finder) (crc16 (l_data16 h (l_info h list)) retval)
      else Some retval)"

definition core_bench_list ::
  "list_heap \<Rightarrow> core_results \<Rightarrow> s16 \<Rightarrow> (list_heap \<times> core_results \<times> u16) option" where
  "core_bench_list h res finder_idx =
     Option.bind (search_loop (nat (sint (res_seed3 res))) 0 (0, finder_idx) h (res_list res) 0 0 0)
       (\<lambda>(info, h, list, retval, found, missed).
     let retval = retval + (found * 4 - missed) in
     Option.bind
       (if 0 <s finder_idx then core_list_mergesort h list cmp_complex (Some res)
        else Some (list, h, Some res)) (\<lambda>(list, h, res).
     let (remover, h) = core_list_remove h (l_next h list) in
     Option.bind (core_list_find h list info) (\<lambda>finder.
     let finder = (if finder = NULL then l_next h list else finder) in
     Option.bind (crc_loop h list finder retval) (\<lambda>retval.
     let (remover, h) = core_list_undo_remove h remover (l_next h list) in
     Option.bind (core_list_mergesort h list cmp_idx None) (\<lambda>(list, h, _).
     Option.bind (crc_loop h list (l_next h list) retval) (\<lambda>retval.
     map_option (\<lambda>res. (h, res, retval)) res))))))"

end
