(* ===== verification/CoreListProofs.thy ===== *)
theory CoreListProofs
  imports CoreList "HOL-Library.Multiset"
begin

text \<open>
  Linked lists in the heap: segments and NULL-terminated lists as sequences of their cells, and
  what the single operations of \<^verbatim>\<open>core_list_join.c\<close> do to them.
\<close>

section \<open>Lists in the heap\<close>

text \<open>The cells met on the way from \<open>p\<close> to \<open>q\<close>.\<close>

fun lseg :: "(ptr \<Rightarrow> ptr) \<Rightarrow> ptr \<Rightarrow> ptr list \<Rightarrow> ptr \<Rightarrow> bool" where
  "lseg nx p [] q \<longleftrightarrow> p = q"
| "lseg nx p (x # xs) q \<longleftrightarrow> p = x \<and> x \<noteq> NULL \<and> lseg nx (nx x) xs q"

abbreviation is_list :: "(ptr \<Rightarrow> ptr) \<Rightarrow> ptr \<Rightarrow> ptr list \<Rightarrow> bool" where
  "is_list nx p xs \<equiv> lseg nx p xs NULL"

lemma lseg_upd [simp]: "x \<notin> set xs \<Longrightarrow> lseg (nx(x := v)) p xs q = lseg nx p xs q"
  by (induction xs arbitrary: p) auto

lemma lseg_append: "lseg nx p (xs @ ys) q \<longleftrightarrow> (\<exists>r. lseg nx p xs r \<and> lseg nx r ys q)"
  by (induction xs arbitrary: p) auto

lemma lseg_cong: "(\<And>x. x \<in> set xs \<Longrightarrow> nx x = nx' x) \<Longrightarrow> lseg nx p xs q = lseg nx' p xs q"
  by (induction xs arbitrary: p) auto

lemma lseg_no_NULL: "lseg nx p xs q \<Longrightarrow> NULL \<notin> set xs"
  by (induction xs arbitrary: p) auto

lemma is_list_NULL: "is_list nx NULL xs \<longleftrightarrow> xs = []"
  by (cases xs) auto

lemma is_list_hd: "is_list nx p xs \<Longrightarrow> xs \<noteq> [] \<Longrightarrow> p = hd xs \<and> p \<noteq> NULL"
  by (cases xs) auto

lemma is_list_unique: "is_list nx p xs \<Longrightarrow> is_list nx p ys \<Longrightarrow> xs = ys"
proof (induction xs arbitrary: p ys)
  case Nil
  then show ?case by (cases ys) auto
next
  case (Cons x xs)
  then show ?case by (cases ys) auto
qed

text \<open>No cell of a list that ends occurs twice.\<close>

lemma is_list_distinct: "is_list nx p xs \<Longrightarrow> distinct xs"
proof (induction xs arbitrary: p)
  case (Cons x xs)
  have "x \<notin> set xs"
  proof
    assume "x \<in> set xs"
    then obtain us vs where xs: "xs = us @ x # vs" by (auto simp: in_set_conv_decomp)
    with Cons.prems have "is_list nx x (x # vs)" by (auto simp: lseg_append)
    moreover have "is_list nx x (x # us @ x # vs)" using Cons.prems xs by simp
    ultimately have "x # vs = x # us @ x # vs" by (rule is_list_unique)
    then show False by simp
  qed
  with Cons show ?case by auto
qed simp

lemma heap_upd_simps [simp]:
  "l_next (set_next p q h) = (l_next h)(p := q)" "l_info (set_next p q h) = l_info h"
  "l_data16 (set_next p q h) = l_data16 h" "l_idx (set_next p q h) = l_idx h"
  "l_mem (set_next p q h) = l_mem h"
  "l_next (set_info p d h) = l_next h" "l_info (set_info p d h) = (l_info h)(p := d)"
  "l_data16 (set_info p d h) = l_data16 h" "l_idx (set_info p d h) = l_idx h" "l_mem (set_info p d h) = l_mem h"
  "l_next (set_data16 d v h) = l_next h" "l_info (set_data16 d v h) = l_info h"
  "l_data16 (set_data16 d v h) = (l_data16 h)(d := v)" "l_idx (set_data16 d v h) = l_idx h"
  "l_mem (set_data16 d v h) = l_mem h"
  "l_next (set_idx d v h) = l_next h" "l_info (set_idx d v h) = l_info h"
  "l_data16 (set_idx d v h) = l_data16 h" "l_idx (set_idx d v h) = (l_idx h)(d := v)"
  "l_mem (set_idx d v h) = l_mem h"
  by (simp_all add: set_next_def set_info_def set_data16_def set_idx_def)

section \<open>Reversal and search\<close>

lemma reverse_loop_rev:
  assumes "is_list (l_next h) list xs" and "is_list (l_next h) nxt ys" and "set xs \<inter> set ys = {}"
  shows "\<exists>h' p. reverse_loop h list nxt = Some (p, h') \<and> is_list (l_next h') p (rev xs @ ys)
    \<and> h' = h\<lparr>l_next := l_next h'\<rparr> \<and> (\<forall>x. x \<notin> set xs \<longrightarrow> l_next h' x = l_next h x)"
  using assms
proof (induction xs arbitrary: h list nxt ys)
  case Nil
  then show ?case by (subst reverse_loop.simps) simp
next
  case (Cons x xs)
  have x: "list = x" "x \<noteq> NULL" "x \<notin> set xs" "x \<notin> set ys"
    using Cons.prems is_list_distinct [OF Cons.prems(1)] by auto
  let ?h = "set_next x nxt h"
  have "\<exists>h' p. reverse_loop ?h (l_next h x) x = Some (p, h') \<and> is_list (l_next h') p (rev xs @ x # ys)
    \<and> h' = ?h\<lparr>l_next := l_next h'\<rparr> \<and> (\<forall>y. y \<notin> set xs \<longrightarrow> l_next h' y = l_next ?h y)"
  proof (rule Cons.IH)
    show "is_list (l_next ?h) (l_next h x) xs" using Cons.prems x by simp
    show "is_list (l_next ?h) x (x # ys)" using Cons.prems x by simp
  qed (use Cons.prems x in auto)
  then show ?case using x
    by (subst reverse_loop.simps) (auto simp: Let_def set_next_def)
qed

text \<open>The first cell of a list that satisfies a test, or \<open>NULL\<close>.\<close>

definition first_or_NULL :: "(ptr \<Rightarrow> bool) \<Rightarrow> ptr list \<Rightarrow> ptr" where
  "first_or_NULL P xs = (case find P xs of None \<Rightarrow> NULL | Some x \<Rightarrow> x)"

lemma first_or_NULL_simps [simp]:
  "first_or_NULL P [] = NULL" "first_or_NULL P (x # xs) = (if P x then x else first_or_NULL P xs)"
  by (simp_all add: first_or_NULL_def)

lemma find_loops:
  assumes "is_list (l_next h) list xs"
  shows "find_idx_loop h list i = Some (first_or_NULL (\<lambda>x. l_idx h (l_info h x) = i) xs)"
    and "find_data_loop h list d
      = Some (first_or_NULL (\<lambda>x. (scast (l_data16 h (l_info h x)) AND 0xff :: s32) = scast d) xs)"
proof -
  show "find_idx_loop h list i = Some (first_or_NULL (\<lambda>x. l_idx h (l_info h x) = i) xs)"
    using assms by (induction xs arbitrary: list) (subst find_idx_loop.simps; auto)+
  show "find_data_loop h list d
      = Some (first_or_NULL (\<lambda>x. (scast (l_data16 h (l_info h x)) AND 0xff :: s32) = scast d) xs)"
    using assms by (induction xs arbitrary: list) (subst find_data_loop.simps; auto)+
qed

lemma core_list_find_loop:
  assumes "is_list (l_next h) list xs"
  shows "\<exists>P. core_list_find h list info = Some (first_or_NULL P xs)"
  unfolding core_list_find_def find_loops [OF assms] by (cases "0 \<le>s snd info") auto

lemma first_or_NULL_in: "first_or_NULL P xs = NULL \<or> first_or_NULL P xs \<in> set xs"
  by (induction xs) auto

lemma core_list_reverse_rev:
  assumes "is_list (l_next h) list xs"
  shows "\<exists>p h'. core_list_reverse h list = Some (p, h') \<and> is_list (l_next h') p (rev xs)
    \<and> h' = h\<lparr>l_next := l_next h'\<rparr> \<and> (\<forall>x. x \<notin> set xs \<longrightarrow> l_next h' x = l_next h x)"
  using reverse_loop_rev [OF assms, of NULL "[]"] by (auto simp: core_list_reverse_def)

section \<open>Properties of the operations\<close>

text \<open>\<open>core_list_reverse\<close> returns on every list that ends, and reverses it in place: the same
  cells in opposite order, each with the data it had; no field but \<open>next\<close> and no cell outside the
  list changes.\<close>

theorem reverse_correct:
  assumes "is_list (l_next h) list xs"
  shows "\<exists>p h'. core_list_reverse h list = Some (p, h') \<and> is_list (l_next h') p (rev xs)
    \<and> h' = h\<lparr>l_next := l_next h'\<rparr> \<and> (\<forall>x. x \<notin> set xs \<longrightarrow> l_next h' x = l_next h x)"
  by (rule core_list_reverse_rev [OF assms])

definition heap3 :: list_heap where
  "heap3 = \<lparr>l_next = (\<lambda>_. 0)(8 := 16, 16 := 24), l_info = (\<lambda>_. 0)(8 := 100, 16 := 104, 24 := 108),
     l_data16 = (\<lambda>_. 0)(100 := 5, 104 := 0x8083, 108 := 0x8081), l_idx = (\<lambda>_. 0)(100 := 3, 104 := 1, 108 := 2),
     l_mem = \<lambda>_. 0\<rparr>"

lemma heap3_list: "is_list (l_next heap3) 8 [8, 16, 24]"
  by (simp add: heap3_def)

theorem reverse_correct_witness:
  "\<exists>p h'. core_list_reverse heap3 8 = Some (p, h') \<and> is_list (l_next h') p [24, 16, 8]"
  using reverse_correct [OF heap3_list] by auto

text \<open>\<open>core_list_find\<close> returns on every list that ends: the first cell whose index is the one
  asked for or, when that is negative, the first whose low data byte is the data asked for, and
  \<open>NULL\<close> when there is none.\<close>

theorem find_correct:
  assumes "is_list (l_next h) list xs"
  shows "core_list_find h list info = Some (first_or_NULL (\<lambda>x.
      if 0 \<le> sint (snd info) then l_idx h (l_info h x) = snd info
      else int (unat (l_data16 h (l_info h x)) mod 256) = sint (fst info)) xs)"
proof -
  have lo: "sint (scast d AND 0xff :: s32) = int (unat d mod 256)" for d :: s16
  proof -
    have "(0xff :: s32) = mask 8" by (simp add: mask_eq_exp_minus_1)
    then have m: "scast d AND 0xff = take_bit 8 (scast d :: s32)" by (simp only: take_bit_eq_mask)
    have e: "take_bit 8 (scast d :: s32) = ucast (take_bit 8 d)"
      by (rule word_eqI_bits) (auto simp: bit_take_bit_iff bit_signed_iff bit_unsigned_iff)
    have t: "scast d AND 0xff = (of_nat (unat (take_bit 8 d)) :: s32)" by (simp add: m e)
    have u: "unat (take_bit 8 d) = unat d mod 256"
      by (simp add: unsigned_take_bit_eq take_bit_eq_mod unat_mod_distrib)
    have "unat d mod 256 < 256" by simp
    then have "unat d mod 256 < 2 ^ (LENGTH(32) - 1)" by simp
    from sint_of_nat_small [OF this] show ?thesis unfolding t u .
  qed
  have eq: "(scast d AND 0xff :: s32) = scast e \<longleftrightarrow> int (unat d mod 256) = sint e" for d e :: s16
  proof -
    have "(scast d AND 0xff :: s32) = scast e \<longleftrightarrow> sint (scast d AND 0xff :: s32) = sint (scast e :: s32)"
      by (metis signed_word_eqI)
    then show ?thesis unfolding lo by (simp add: sint_up_scast is_up)
  qed
  show ?thesis
    using find_loops [OF assms, of "snd info"] find_loops(2) [OF assms, of "fst info"]
    by (simp add: core_list_find_def word_sle_eq eq)
qed

theorem find_correct_witness:
  "core_list_find heap3 8 (0, 2) = Some 24 \<and> core_list_find heap3 8 (0x83, - 1) = Some 16
   \<and> core_list_find heap3 8 (0, 9) = Some NULL"
  using find_correct [OF heap3_list, of "(0, 2)"] find_correct [OF heap3_list, of "(0x83, - 1)"]
    find_correct [OF heap3_list, of "(0, 9)"]
  by (simp add: heap3_def)

lemma remove_undo_cells:
  assumes "is_list (l_next h) list (us @ x # y # ys)"
  shows "\<exists>h'. core_list_remove h x = (y, h') \<and> is_list (l_next h') list (us @ x # ys)
    \<and> map (l_info h') (us @ x # ys) = map (l_info h) (us @ y # ys) \<and> l_info h' y = l_info h x
    \<and> core_list_undo_remove h' y x = (y, h)"
proof -
  have d: "distinct (us @ x # y # ys)" using is_list_distinct [OF assms] .
  have nx: "lseg (l_next h) list us x" "l_next h x = y" "x \<noteq> NULL" "is_list (l_next h) (l_next h y) ys"
    using assms by (auto simp: lseg_append)
  let ?h = "snd (core_list_remove h x)"
  have r: "core_list_remove h x = (y, ?h)" by (simp add: core_list_remove_def Let_def nx)
  have n: "l_next ?h = (l_next h)(x := l_next h y, y := NULL)"
    and i: "l_info ?h = (l_info h)(x := l_info h y, y := l_info h x)"
    and o: "l_data16 ?h = l_data16 h" "l_idx ?h = l_idx h" "l_mem ?h = l_mem h"
    using d nx by (auto simp: core_list_remove_def Let_def set_next_def set_info_def)
  have "is_list (l_next ?h) list (us @ x # ys)"
    using d nx unfolding n by (auto simp: lseg_append)
  moreover have "map (l_info ?h) (us @ x # ys) = map (l_info h) (us @ y # ys)" "l_info ?h y = l_info h x"
    using d unfolding i by auto
  moreover have "core_list_undo_remove ?h y x = (y, h)"
    using d nx o
    by (auto simp: core_list_undo_remove_def Let_def set_next_def set_info_def n i fun_eq_iff
        intro!: list_heap.equality)
  ultimately show ?thesis using r by blast
qed

text \<open>C36: \<open>core_list_remove\<close> takes a cell's data out of a list and unlinks the cell behind it,
  which it returns with that data attached; \<open>core_list_undo_remove\<close>, applied to the two cells,
  restores the heap exactly.\<close>

theorem remove_undo_correct:
  assumes "is_list (l_next h) list (us @ x # y # ys)"
  shows "\<exists>h'. core_list_remove h x = (y, h') \<and> is_list (l_next h') list (us @ x # ys)
    \<and> map (l_info h') (us @ x # ys) = map (l_info h) (us @ y # ys) \<and> l_info h' y = l_info h x
    \<and> core_list_undo_remove h' y x = (y, h)"
  by (rule remove_undo_cells [OF assms])

theorem remove_undo_correct_witness:
  "\<exists>h'. core_list_remove heap3 8 = (16, h') \<and> is_list (l_next h') 8 ([] @ 8 # [24])
    \<and> l_info h' 8 = l_info heap3 16 \<and> core_list_undo_remove h' 16 8 = (16, heap3)"
proof -
  have l: "is_list (l_next heap3) 8 ([] @ 8 # 16 # [24])" using heap3_list by simp
  from remove_undo_correct [OF l] show ?thesis by auto
qed

text \<open>\<open>core_list_insert_new\<close> links the next free cell behind the insertion point with a copy of
  the data when both blocks have a cell to spare before their last one, and otherwise returns \<open>NULL\<close>
  and changes nothing; the data of no other cell changes.\<close>

theorem insert_new_correct:
  assumes "is_list (l_next h) list (us @ x # ys)"
    and "mb \<notin> set (us @ x # ys)" and "mb \<noteq> NULL" and "db \<notin> l_info h ` set (us @ x # ys)"
  shows "case core_list_insert_new h x info mb db mb_end db_end of (p, h', mb', db') \<Rightarrow>
    if mb + 8 < mb_end \<and> db + 4 < db_end
    then p = mb \<and> mb' = mb + 8 \<and> db' = db + 4 \<and> is_list (l_next h') list (us @ x # mb # ys)
      \<and> l_info h' mb = db \<and> l_data16 h' db = fst info \<and> l_idx h' db = snd info
      \<and> (\<forall>z \<in> set (us @ x # ys). l_info h' z = l_info h z
          \<and> l_data16 h' (l_info h z) = l_data16 h (l_info h z) \<and> l_idx h' (l_info h z) = l_idx h (l_info h z))
    else p = NULL \<and> h' = h \<and> mb' = mb \<and> db' = db"
proof -
  have d: "distinct (us @ x # ys)" using is_list_distinct [OF assms(1)] .
  have ni: "\<forall>z \<in> set us. l_info h z \<noteq> db" "\<forall>z \<in> set ys. l_info h z \<noteq> db" "l_info h x \<noteq> db"
    using assms(4) by auto
  show ?thesis
    using assms(1-3) d ni
    by (auto simp: core_list_insert_new_def copy_info_def Let_def lseg_append not_less)
qed

theorem insert_new_correct_witness:
  "\<exists>h'. core_list_insert_new heap3 8 (7, 9) 32 112 64 120 = (32, h', 40, 116)
    \<and> is_list (l_next h') 8 ([] @ 8 # 32 # [16, 24]) \<and> l_idx h' (l_info h' 32) = 9"
proof -
  have l: "is_list (l_next heap3) 8 ([] @ 8 # [16, 24])" using heap3_list by simp
  have "(32 :: ptr) \<notin> set ([] @ 8 # [16, 24])" "(32 :: ptr) \<noteq> NULL"
    "(112 :: ptr) \<notin> l_info heap3 ` set ([] @ 8 # [16, 24])" by (simp_all add: heap3_def)
  from insert_new_correct [OF l this, where info = "(7, 9)" and mb_end = 64 and db_end = 120] show ?thesis by (auto split: prod.splits)
qed

end
