(* ===== verification/CoreSort.thy ===== *)
theory CoreSort
  imports CoreListProofs
begin

text \<open>
  The merge sort of \<^verbatim>\<open>core_list_join.c\<close>. What it relies on of its comparison function, which may
  change data, cached results and the results structure while it compares, is the interface
  \<open>comparator\<close>; the sort is proved once against it, and \<open>cmp_idx\<close> and \<open>cmp_complex\<close> are instances.
\<close>

section \<open>Runs\<close>

function chunks :: "nat \<Rightarrow> 'a list \<Rightarrow> 'a list list" where
  "chunks n xs = (if n = 0 \<or> xs = [] then [] else take n xs # chunks n (drop n xs))"
  by pat_completeness auto
termination by (relation "measure (length \<circ> snd)") auto

declare chunks.simps [simp del]

lemma chunks_Nil [simp]: "chunks n [] = []"
  by (simp add: chunks.simps)

lemma chunks_step: "0 < n \<Longrightarrow> xs \<noteq> [] \<Longrightarrow> chunks n xs = take n xs # chunks n (drop n xs)"
  by (subst chunks.simps) simp

lemma chunks_append: "0 < n \<Longrightarrow> length xs = n \<Longrightarrow> chunks n (xs @ ys) = xs # chunks n ys"
  by (subst chunks.simps) auto

lemma chunks_short: "0 < n \<Longrightarrow> xs \<noteq> [] \<Longrightarrow> length xs \<le> n \<Longrightarrow> chunks n xs = [xs]"
  by (subst chunks.simps) simp

lemma chunks_one: "set (chunks 1 xs) = (\<lambda>x. [x]) ` set xs"
  by (induction xs) (simp_all add: chunks_step)

lemma length_chunks: "length (chunks n xs) \<le> length xs"
proof (induction n xs rule: chunks.induct)
  case (1 n xs)
  show ?case
  proof (cases "n = 0 \<or> xs = []")
    case False
    then have "length (chunks n (drop n xs)) \<le> length xs - n" using "1.IH" by simp
    moreover have "0 < length xs" using False by simp
    moreover have "chunks n xs = take n xs # chunks n (drop n xs)" using False by (simp add: chunks_step)
    ultimately show ?thesis using False by (simp only: list.size) linarith
  next
    case True
    then have "chunks n xs = []" by (subst chunks.simps) auto
    then show ?thesis by simp
  qed
qed

lemma chunks_1_or_less: "0 < n \<Longrightarrow> length (chunks n xs) \<le> 1 \<longleftrightarrow> length xs \<le> n"
  by (cases "xs = []"; cases "drop n xs = []") (auto simp: chunks_step)

section \<open>The interface\<close>

locale comparator =
  fixes cmp :: list_cmp
    and inv :: "list_heap \<Rightarrow> core_results option \<Rightarrow> bool"
    and known :: "list_heap \<Rightarrow> ptr \<Rightarrow> bool"
    and val :: "list_heap \<Rightarrow> ptr \<Rightarrow> int"
    and frame :: "list_heap \<Rightarrow> 'f"
  assumes cmp_returns: "inv h res \<Longrightarrow> \<exists>h' res' c. cmp h res a b = Some (h', res', c)"
    and cmp_keeps: "inv h res \<Longrightarrow> cmp h res a b = Some (h', res', c) \<Longrightarrow>
      inv h' res' \<and> l_next h' = l_next h \<and> l_info h' = l_info h \<and> frame h' = frame h"
    and cmp_stable: "inv h res \<Longrightarrow> cmp h res a b = Some (h', res', c) \<Longrightarrow> known h d \<Longrightarrow>
      known h' d \<and> val h' d = val h d"
    and cmp_decides: "inv h res \<Longrightarrow> cmp h res a b = Some (h', res', c) \<Longrightarrow>
      known h' a \<and> known h' b \<and> (c \<le>s 0 \<longleftrightarrow> val h' a \<le> val h' b)"
    and next_irrelevant: "inv (set_next p q h) res = inv h res"
      "known (set_next p q h) d = known h d" "val (set_next p q h) d = val h d"
      "frame (set_next p q h) = frame h"
begin

definition ext :: "list_heap \<Rightarrow> list_heap \<Rightarrow> bool" where
  "ext h h' \<longleftrightarrow> l_info h' = l_info h \<and> frame h' = frame h
     \<and> (\<forall>d. known h d \<longrightarrow> known h' d \<and> val h' d = val h d)"

lemma ext_refl: "ext h h"
  by (simp add: ext_def)

lemma ext_trans: "ext h h' \<Longrightarrow> ext h' h'' \<Longrightarrow> ext h h''"
  by (simp add: ext_def)

lemma ext_set_next: "ext h (set_next p q h)"
  by (simp add: ext_def next_irrelevant)

lemma ext_cmp: "inv h res \<Longrightarrow> cmp h res a b = Some (h', res', c) \<Longrightarrow> ext h h'"
  using cmp_keeps cmp_stable by (simp add: ext_def)

definition knows :: "list_heap \<Rightarrow> ptr \<Rightarrow> bool" where
  "knows h x \<longleftrightarrow> known h (l_info h x)"

definition key :: "list_heap \<Rightarrow> ptr \<Rightarrow> int" where
  "key h x = val h (l_info h x)"

lemma ext_knows: "ext h h' \<Longrightarrow> knows h x \<Longrightarrow> knows h' x \<and> key h' x = key h x"
  by (simp add: ext_def knows_def key_def)

text \<open>A run: sorted, and with all values known as soon as it has two cells.\<close>

definition run_ok :: "list_heap \<Rightarrow> ptr list \<Rightarrow> bool" where
  "run_ok h xs \<longleftrightarrow> sorted (map (key h) xs) \<and> (length xs \<le> 1 \<or> (\<forall>x \<in> set xs. knows h x))"

lemma run_ok_short: "length xs \<le> 1 \<Longrightarrow> run_ok h xs"
  by (cases xs) (auto simp: run_ok_def)

lemma run_ok_ext: "run_ok h xs \<Longrightarrow> ext h h' \<Longrightarrow> run_ok h' xs"
proof (cases "length xs \<le> 1")
  case False
  assume r: "run_ok h xs" and e: "ext h h'"
  then have "\<forall>x \<in> set xs. knows h' x \<and> key h' x = key h x"
    using False ext_knows by (auto simp: run_ok_def)
  moreover from this have m: "map (key h') xs = map (key h) xs" by simp
  ultimately show ?thesis using r unfolding run_ok_def m by blast
qed (simp add: run_ok_short)

lemma run_ok_tl: "run_ok h (x # xs) \<Longrightarrow> run_ok h xs"
  by (auto simp: run_ok_def)

lemma run_ok_Cons:
  assumes "ext h h'" and "run_ok h' zs"
    and "zs \<noteq> [] \<Longrightarrow> knows h e \<and> (\<forall>z \<in> set zs. knows h z \<and> key h e \<le> key h z)"
  shows "run_ok h' (e # zs)"
proof (cases "zs = []")
  case False
  with assms(3) have k: "knows h e" "\<forall>z \<in> set zs. knows h z \<and> key h e \<le> key h z" by auto
  then have "\<forall>z \<in> set zs. knows h' z \<and> key h' e \<le> key h' z"
    using ext_knows [OF assms(1)] by metis
  moreover have "knows h' e" using k(1) ext_knows [OF assms(1)] by blast
  ultimately show ?thesis using assms(2) by (simp add: run_ok_def)
qed (simp add: run_ok_short)

lemma run_ok_head:
  assumes "run_ok h (x # xs)" and "xs \<noteq> []"
  shows "knows h x \<and> (\<forall>z \<in> set xs. knows h z \<and> key h x \<le> key h z)"
  using assms by (cases xs) (auto simp: run_ok_def)

section \<open>One merge\<close>

text \<open>The cells merged so far, from \<open>list\<close> to \<open>tail\<close>; what the last one points to is open.\<close>

definition out_chain :: "(ptr \<Rightarrow> ptr) \<Rightarrow> ptr list \<Rightarrow> ptr \<Rightarrow> ptr \<Rightarrow> bool" where
  "out_chain nx out list tail \<longleftrightarrow>
     (if out = [] then list = NULL \<and> tail = NULL
      else lseg nx list (butlast out) tail \<and> tail = last out \<and> tail \<noteq> NULL)"

lemma out_chain_snoc:
  assumes "out_chain nx out list tail" and "e \<noteq> NULL" and "distinct out"
  shows "out_chain (if tail \<noteq> NULL then nx(tail := e) else nx) (out @ [e])
    (if tail \<noteq> NULL then list else e) e"
proof (cases "out = []")
  case True
  with assms show ?thesis by (simp add: out_chain_def)
next
  case False
  then have t: "tail \<noteq> NULL" "tail = last out" "lseg nx list (butlast out) tail"
    using assms(1) by (auto simp: out_chain_def)
  have o: "out = butlast out @ [tail]" using False t(2) by simp
  then have "tail \<notin> set (butlast out)" using assms(3) by (metis distinct_append disjoint_insert(1) list.simps(15))
  then have "lseg (nx(tail := e)) list (butlast out @ [tail]) e"
    using t by (auto simp: lseg_append)
  then show ?thesis using t(1) assms(2) o by (simp add: out_chain_def del: append_butlast_last_id)
qed

lemma of_nat_s32:
  assumes "n < 2 ^ 31"
  shows "(of_nat n :: s32) = 0 \<longleftrightarrow> n = 0" and "0 <s (of_nat n :: s32) \<longleftrightarrow> n \<noteq> 0"
proof -
  have "sint (of_nat n :: s32) = int n" using assms by (intro sint_of_nat_small) simp
  then show "(of_nat n :: s32) = 0 \<longleftrightarrow> n = 0" "0 <s (of_nat n :: s32) \<longleftrightarrow> n \<noteq> 0"
    by (auto simp: word_sless_alt signed_eq_0_iff [symmetric] simp del: signed_eq_0_iff)
qed

text \<open>The choice of a turn: \<open>e\<close> is the head of the chosen run and not above any other cell.\<close>

lemma choose_step:
  assumes "inv h res" and "run_ok h P" and "run_ok h Q" and "P @ Q \<noteq> []"
    and "P \<noteq> [] \<Longrightarrow> p = hd P" and "is_list (l_next h) q (Q @ rest)"
    and "length P < 2 ^ 31" and "k < 2 ^ 31" and "length Q \<le> k" and "length Q = k \<or> rest = []"
  shows "\<exists>h1 res1 from_p.
    (if (of_nat (length P) :: s32) = 0 then Some (h, res, False)
     else if (of_nat k :: s32) = 0 \<or> q = NULL then Some (h, res, True)
     else map_option (\<lambda>(h, res, c). (h, res, c \<le>s 0)) (cmp h res (l_info h p) (l_info h q)))
      = Some (h1, res1, from_p)
    \<and> inv h1 res1 \<and> l_next h1 = l_next h \<and> ext h h1
    \<and> (if from_p then P \<noteq> [] \<and> (tl P @ Q \<noteq> [] \<longrightarrow> knows h1 (hd P)
            \<and> (\<forall>z \<in> set (tl P @ Q). knows h1 z \<and> key h1 (hd P) \<le> key h1 z))
       else Q \<noteq> [] \<and> (P @ tl Q \<noteq> [] \<longrightarrow> knows h1 (hd Q)
            \<and> (\<forall>z \<in> set (P @ tl Q). knows h1 z \<and> key h1 (hd Q) \<le> key h1 z)))"
proof -
  have ps: "(of_nat (length P) :: s32) = 0 \<longleftrightarrow> P = []" using of_nat_s32(1) [OF assms(7)] by simp
  have ks: "(of_nat k :: s32) = 0 \<longleftrightarrow> k = 0" using of_nat_s32(1) [OF assms(8)] .
  consider (noP) "P = []" | (noQ) "P \<noteq> []" "Q = []" | (both) x P' y Q' where "P = x # P'" "Q = y # Q'"
    by (cases P; cases Q) auto
  then show ?thesis
  proof cases
    case noP
    then obtain y Q' where Q: "Q = y # Q'" using assms(4) by (cases Q) auto
    show ?thesis
      using noP Q assms(1,3) run_ok_head [of h y Q'] ext_refl by auto
  next
    case noQ
    then obtain x P' where P: "P = x # P'" by (cases P) auto
    have "k = 0 \<or> q = NULL" using noQ assms(6,10) by auto
    then show ?thesis
      using noQ P ps ks assms(1,2) run_ok_head [of h x P'] ext_refl by auto
  next
    case both
    have "p = x" "q = y" "q \<noteq> NULL" "k \<noteq> 0" using both assms(5,6,9) by auto
    obtain h1 res1 c where c: "cmp h res (l_info h p) (l_info h q) = Some (h1, res1, c)"
      using cmp_returns [OF assms(1)] by blast
    note keeps = cmp_keeps [OF assms(1) c]
    have e: "ext h h1" using ext_cmp [OF assms(1) c] .
    have k: "knows h1 x" "knows h1 y" "c \<le>s 0 \<longleftrightarrow> key h1 x \<le> key h1 y"
      using cmp_decides [OF assms(1) c] keeps \<open>p = x\<close> \<open>q = y\<close> by (auto simp: knows_def key_def)
    have P: "\<forall>z \<in> set P'. knows h1 z \<and> key h1 x \<le> key h1 z"
      using run_ok_head [of h1 x P'] run_ok_ext [OF assms(2) e] both by (cases P') auto
    have Q: "\<forall>z \<in> set Q'. knows h1 z \<and> key h1 y \<le> key h1 z"
      using run_ok_head [of h1 y Q'] run_ok_ext [OF assms(3) e] both by (cases Q') auto
    have "key h1 x \<le> key h1 y \<or> key h1 y \<le> key h1 x" by linarith
    then show ?thesis
      using keeps e k P Q both c ps ks \<open>q \<noteq> NULL\<close> \<open>k \<noteq> 0\<close>
      by (intro exI [of _ h1] exI [of _ res1] exI [of _ "c \<le>s 0"]) fastforce
  qed
qed

lemma merge_loop_ok:
  assumes "inv h res" and "out_chain (l_next h) out list tail"
    and "lseg (l_next h) p P pe" and "is_list (l_next h) q (Q @ rest)"
    and "distinct (out @ P @ Q @ rest)"
    and "length P < 2 ^ 31" and "k < 2 ^ 31" and "length Q \<le> k" and "length Q = k \<or> rest = []"
    and "run_ok h P" and "run_ok h Q"
  shows "\<exists>h' res' q' list' tail' zs.
    merge_loop cmp h res p (of_nat (length P)) q (of_nat k) list tail = Some (h', res', q', list', tail')
    \<and> inv h' res' \<and> out_chain (l_next h') (out @ zs) list' tail'
    \<and> mset zs = mset (P @ Q) \<and> run_ok h' zs \<and> ext h h' \<and> is_list (l_next h') q' rest
    \<and> (\<forall>x. x \<notin> set (out @ P @ Q) \<longrightarrow> l_next h' x = l_next h x)"
  using assms
proof (induction "length P + length Q" arbitrary: h res out list tail p P q Q k rule: less_induct)
  case less
  note [simp del] = of_nat_Suc
  have ps: "0 <s (of_nat (length P) :: s32) \<longleftrightarrow> P \<noteq> []" using of_nat_s32(2) [OF less.prems(6)] by simp
  have ks: "0 <s (of_nat k :: s32) \<longleftrightarrow> k \<noteq> 0" using of_nat_s32(2) [OF less.prems(7)] .
  show ?case
  proof (cases "P @ Q = []")
    case True
    then have "k = 0 \<or> q = NULL" using less.prems(4,9) by auto
    then show ?thesis
      using True less.prems ps ks
      by (subst merge_loop.simps) (auto intro!: exI [of _ "[]"] simp: run_ok_short ext_refl)
  next
    case False
    have hp: "P \<noteq> [] \<Longrightarrow> p = hd P" using less.prems(3) by (cases P) auto
    have guard: "0 <s (of_nat (length P) :: s32) \<or> (0 <s (of_nat k :: s32) \<and> q \<noteq> NULL)"
      using False less.prems(4,8) ps ks by (cases Q) auto
    obtain h1 res1 from_p where ch:
      "(if (of_nat (length P) :: s32) = 0 then Some (h, res, False)
        else if (of_nat k :: s32) = 0 \<or> q = NULL then Some (h, res, True)
        else map_option (\<lambda>(h, res, c). (h, res, c \<le>s 0)) (cmp h res (l_info h p) (l_info h q)))
        = Some (h1, res1, from_p)"
      "inv h1 res1" "l_next h1 = l_next h" "ext h h1"
      "if from_p then P \<noteq> [] \<and> (tl P @ Q \<noteq> [] \<longrightarrow> knows h1 (hd P)
            \<and> (\<forall>z \<in> set (tl P @ Q). knows h1 z \<and> key h1 (hd P) \<le> key h1 z))
       else Q \<noteq> [] \<and> (P @ tl Q \<noteq> [] \<longrightarrow> knows h1 (hd Q)
            \<and> (\<forall>z \<in> set (P @ tl Q). knows h1 z \<and> key h1 (hd Q) \<le> key h1 z))"
      using choose_step [OF less.prems(1,10,11) False hp less.prems(4,6,7,8,9)] by blast
    define e where "e = (if from_p then hd P else hd Q)"
    define P' where "P' = (if from_p then tl P else P)"
    define Q' where "Q' = (if from_p then Q else tl Q)"
    define k' where "k' = (if from_p then k else k - 1)"
    define p' where "p' = (if from_p then l_next h p else p)"
    define q' where "q' = (if from_p then q else l_next h q)"
    define h2 where "h2 = (if tail \<noteq> NULL then set_next tail e h1 else h1)"
    define list2 where "list2 = (if tail \<noteq> NULL then list else e)"
    have split: "(from_p \<and> P = e # P' \<and> Q' = Q \<and> k' = k \<and> e = p)
        \<or> (\<not> from_p \<and> Q = e # Q' \<and> P' = P \<and> k = Suc k' \<and> e = q)"
      using ch(5) less.prems(3,4,8) hp
      by (cases from_p; cases P; cases Q) (auto simp: e_def P'_def Q'_def k'_def)
    have perm: "mset (e # P' @ Q') = mset (P @ Q)" using split by auto
    have set_eq: "set (P @ Q) = insert e (set (P' @ Q'))" using split by auto
    have e0: "e \<noteq> NULL" using split lseg_no_NULL [OF less.prems(3)] lseg_no_NULL [OF less.prems(4)] by auto
    have d: "distinct (out @ e # P' @ Q' @ rest)" using split less.prems(5) by auto
    have nx2: "l_next h2 = (if tail \<noteq> NULL then (l_next h)(tail := e) else l_next h)"
      by (simp add: h2_def ch(3))
    have ext2: "ext h h2" using ch(4) ext_set_next ext_trans by (auto simp: h2_def)
    have ext12: "ext h1 h2" using ext_refl ext_set_next by (auto simp: h2_def)
    have tl_out: "tail \<noteq> NULL \<Longrightarrow> tail \<in> set out"
      using less.prems(2) by (auto simp: out_chain_def split: if_splits)
    have "\<exists>h' res' q'' list' tail' zs.
      merge_loop cmp h2 res1 p' (of_nat (length P')) q' (of_nat k') list2 e = Some (h', res', q'', list', tail')
      \<and> inv h' res' \<and> out_chain (l_next h') ((out @ [e]) @ zs) list' tail'
      \<and> mset zs = mset (P' @ Q') \<and> run_ok h' zs \<and> ext h2 h' \<and> is_list (l_next h') q'' rest
      \<and> (\<forall>x. x \<notin> set ((out @ [e]) @ P' @ Q') \<longrightarrow> l_next h' x = l_next h2 x)"
    proof (rule less.hyps)
      show "length P' + length Q' < length P + length Q" using split by auto
      show "inv h2 res1" using ch(2) next_irrelevant(1) by (simp add: h2_def)
      have "distinct out" using d by simp
      then show "out_chain (l_next h2) (out @ [e]) list2 e"
        unfolding nx2 list2_def by (rule out_chain_snoc [OF less.prems(2) e0])
      have "tail \<noteq> NULL \<Longrightarrow> tail \<notin> set (P' @ Q' @ rest)" using tl_out d by auto
      moreover have "lseg (l_next h) p' P' pe" using split less.prems(3) by (auto simp: p'_def)
      moreover have "is_list (l_next h) q' (Q' @ rest)" using split less.prems(4) by (auto simp: q'_def)
      ultimately show "lseg (l_next h2) p' P' pe" "is_list (l_next h2) q' (Q' @ rest)"
        unfolding nx2 by auto
      show "distinct ((out @ [e]) @ P' @ Q' @ rest)" using d by auto
      show "length P' < 2 ^ 31" "k' < 2 ^ 31" "length Q' \<le> k'" "length Q' = k' \<or> rest = []"
        using split less.prems(6-9) by auto
      have "run_ok h P'" "run_ok h Q'" using split less.prems(10,11) run_ok_tl by auto
      then show "run_ok h2 P'" "run_ok h2 Q'" using run_ok_ext [OF _ ext2] by auto
    qed
    then obtain h' res' q'' list' tail' zs where IH:
      "merge_loop cmp h2 res1 p' (of_nat (length P')) q' (of_nat k') list2 e = Some (h', res', q'', list', tail')"
      "inv h' res'" "out_chain (l_next h') ((out @ [e]) @ zs) list' tail'"
      "mset zs = mset (P' @ Q')" "run_ok h' zs" "ext h2 h'" "is_list (l_next h') q'' rest"
      "\<forall>x. x \<notin> set ((out @ [e]) @ P' @ Q') \<longrightarrow> l_next h' x = l_next h2 x" by blast
    have step: "merge_loop cmp h res p (of_nat (length P)) q (of_nat k) list tail
        = merge_loop cmp h2 res1 p' (of_nat (length P')) q' (of_nat k') list2 e"
    proof -
      have "of_nat (length P') = (if from_p then of_nat (length P) - 1 else of_nat (length P) :: s32)"
        "of_nat k' = (if from_p then of_nat k else of_nat k - 1 :: s32)"
        using split by (auto simp: of_nat_Suc)
      moreover have "e = (if from_p then p else q)" using split by auto
      ultimately show ?thesis
        using guard ch(1,3)
        by (subst merge_loop.simps) (auto simp: Let_def p'_def q'_def h2_def list2_def)
    qed
    have "run_ok h' (e # zs)"
    proof (rule run_ok_Cons [OF ext_trans [OF ext12 IH(6)] IH(5)])
      assume "zs \<noteq> []"
      have z: "set zs = set (P' @ Q')" using mset_eq_setD [OF IH(4)] .
      then have "P' @ Q' \<noteq> []" using \<open>zs \<noteq> []\<close> by auto
      then show "knows h1 e \<and> (\<forall>z \<in> set zs. knows h1 z \<and> key h1 e \<le> key h1 z)"
        unfolding z using ch(5) by (cases from_p) (auto simp: e_def P'_def Q'_def)
    qed
    moreover have "mset (e # zs) = mset (P @ Q)" using IH(4) perm by simp
    moreover have "out_chain (l_next h') (out @ e # zs) list' tail'" using IH(3) by simp
    moreover have "l_next h' x = l_next h x" if "x \<notin> set (out @ P @ Q)" for x
    proof -
      have "x \<notin> set ((out @ [e]) @ P' @ Q')" using that set_eq by auto
      then have "l_next h' x = l_next h2 x" using IH(8) by blast
      also have "\<dots> = l_next h x" using that tl_out unfolding nx2 by auto
      finally show ?thesis .
    qed
    ultimately show ?thesis
      using step IH(1,2,7) ext_trans [OF ext2 IH(6)] by metis
  qed
qed

section \<open>One pass\<close>

lemma walk_loop_ok:
  assumes "is_list (l_next h) q qs" and "i \<le> n" and "n < 2 ^ 31" and "i = n \<or> qs \<noteq> []"
  shows "\<exists>q'. walk_loop h q (of_nat i) (of_nat i) (of_nat n)
      = Some (q', of_nat (i + length (take (n - i) qs)))
    \<and> lseg (l_next h) q (take (n - i) qs) q' \<and> is_list (l_next h) q' (drop (n - i) qs)"
  using assms(1,2,4)
proof (induction "n - i" arbitrary: i q qs)
  case 0
  then have "i = n" by simp
  then show ?case using "0.prems"(1) by (subst walk_loop.simps) simp
next
  case (Suc k)
  then obtain x xs where qs: "qs = x # xs" by (cases qs) auto
  have i: "i < n" using Suc.hyps(2) by simp
  have "sint (of_nat i :: s32) = int i" "sint (of_nat n :: s32) = int n"
    using i assms(3) by (simp_all add: sint_of_nat_small)
  then have g: "(of_nat i :: s32) <s of_nat n" using i by (simp add: word_sless_alt)
  have x: "q = x" "is_list (l_next h) (l_next h x) xs" using Suc.prems(1) qs by auto
  have t: "take (n - i) qs = x # take (n - Suc i) xs" "drop (n - i) qs = drop (n - Suc i) xs"
    using i by (simp_all add: qs take_Cons' drop_Cons')
  show ?case
  proof (cases "xs = []")
    case True
    then have "l_next h q = NULL" using x by simp
    then show ?thesis using g x True Suc.prems(1) qs i
      by (subst walk_loop.simps) (auto simp: Let_def t)
  next
    case False
    then have "l_next h q \<noteq> NULL" using x is_list_NULL by metis
    then have "walk_loop h q (of_nat i) (of_nat i) (of_nat n)
        = walk_loop h (l_next h x) (of_nat (Suc i)) (of_nat (Suc i)) (of_nat n)"
      using g x(1) by (subst walk_loop.simps) (simp add: Let_def add.commute)
    moreover have k: "k = n - Suc i" and le: "Suc i \<le> n" using Suc.hyps(2) i by simp_all
    moreover obtain q' where "walk_loop h (l_next h x) (of_nat (Suc i)) (of_nat (Suc i)) (of_nat n)
        = Some (q', of_nat (Suc i + length (take (n - Suc i) xs)))"
      "lseg (l_next h) (l_next h x) (take (n - Suc i) xs) q'" "is_list (l_next h) q' (drop (n - Suc i) xs)"
      using Suc.hyps(1) [OF k x(2) le] False by blast
    moreover have "x \<noteq> NULL" using Suc.prems(1) qs by simp
    ultimately show ?thesis using x(1)
      unfolding t by (intro exI [of _ q']) (simp add: add.assoc add.commute add.left_commute)
  qed
qed

lemma pass_loop_ok:
  assumes "inv h res" and "out_chain (l_next h) out list tail" and "is_list (l_next h) p ps"
    and "distinct (out @ ps)" and "0 < n" and "n < 2 ^ 30" and "length ps < 2 ^ 30"
    and "\<forall>c \<in> set (chunks n ps). run_ok h c"
  shows "\<exists>h' res' list' tail' zs.
    pass_loop cmp h res p (of_nat n) list tail nm
      = Some (h', res', list', tail', nm + of_nat (length (chunks (2 * n) ps)))
    \<and> inv h' res' \<and> out_chain (l_next h') (out @ zs) list' tail' \<and> mset zs = mset ps
    \<and> (\<forall>c \<in> set (chunks (2 * n) zs). run_ok h' c) \<and> ext h h'
    \<and> (\<forall>x. x \<notin> set (out @ ps) \<longrightarrow> l_next h' x = l_next h x)"
  using assms(1-4,7,8)
proof (induction "length ps" arbitrary: h res out list tail p ps nm rule: less_induct)
  case less
  show ?case
  proof (cases "ps = []")
    case True
    then show ?thesis using less.prems
      by (subst pass_loop.simps) (auto intro!: exI [of _ "[]"] simp: ext_refl)
  next
    case False
    define P where "P = take n ps"
    define Q where "Q = take n (drop n ps)"
    define rest where "rest = drop (2 * n) ps"
    have rest2: "rest = drop n (drop n ps)" by (simp add: rest_def mult_2)
    have ps: "ps = P @ Q @ rest"
      unfolding rest2 P_def Q_def by (simp only: append_take_drop_id)
    have p0: "p \<noteq> NULL" using False less.prems(3) is_list_NULL by metis
    have n31: "n < 2 ^ 31" using assms(6) by simp
    obtain q where q: "walk_loop h p 0 0 (of_nat n) = Some (q, of_nat (length P))"
      "lseg (l_next h) p P q" "is_list (l_next h) q (Q @ rest)"
    proof -
      have "Q @ rest = drop n ps" unfolding rest2 Q_def by (rule append_take_drop_id)
      then show ?thesis
        using that walk_loop_ok [OF less.prems(3) _ n31, of 0] False by (simp add: P_def) blast
    qed
    have ck: "chunks n ps = P # chunks n (drop n ps)"
      using chunks_step [OF assms(5) False] by (simp add: P_def)
    have rP: "run_ok h P" using less.prems(6) ck by simp
    have rQ: "run_ok h Q"
    proof (cases "drop n ps = []")
      case True
      then show ?thesis by (simp add: Q_def run_ok_short)
    next
      case ne: False
      then have "Q \<in> set (chunks n ps)" unfolding ck using chunks_step [OF assms(5) ne] by (simp add: Q_def)
      then show ?thesis using less.prems(6) by blast
    qed
    have lens: "length P < 2 ^ 31" "length Q \<le> n" "length Q = n \<or> rest = []"
      using n31 by (auto simp: P_def Q_def rest_def)
    have dis: "distinct (out @ P @ Q @ rest)" using less.prems(4) ps by simp
    obtain h1 res1 q1 list1 tail1 zs1 where M:
      "merge_loop cmp h res p (of_nat (length P)) q (of_nat n) list tail = Some (h1, res1, q1, list1, tail1)"
      "inv h1 res1" "out_chain (l_next h1) (out @ zs1) list1 tail1" "mset zs1 = mset (P @ Q)"
      "run_ok h1 zs1" "ext h h1" "is_list (l_next h1) q1 rest"
      "\<forall>x. x \<notin> set (out @ P @ Q) \<longrightarrow> l_next h1 x = l_next h x"
      using merge_loop_ok [OF less.prems(1,2) q(2,3) dis lens(1) n31 lens(2,3) rP rQ] by blast
    have zset: "set zs1 = set (P @ Q)" using mset_eq_setD [OF M(4)] .
    have zlen: "length zs1 = length (P @ Q)" using mset_eq_length [OF M(4)] .
    have zdis: "distinct zs1" using mset_eq_imp_distinct_iff [OF M(4)] dis by auto
    have "\<exists>h' res' list' tail' zs.
      pass_loop cmp h1 res1 q1 (of_nat n) list1 tail1 (nm + 1)
        = Some (h', res', list', tail', nm + 1 + of_nat (length (chunks (2 * n) rest)))
      \<and> inv h' res' \<and> out_chain (l_next h') ((out @ zs1) @ zs) list' tail' \<and> mset zs = mset rest
      \<and> (\<forall>c \<in> set (chunks (2 * n) zs). run_ok h' c) \<and> ext h1 h'
      \<and> (\<forall>x. x \<notin> set ((out @ zs1) @ rest) \<longrightarrow> l_next h' x = l_next h1 x)"
    proof (rule less.hyps)
      show "length rest < length ps" using False assms(5) by (simp add: rest_def)
      show "distinct ((out @ zs1) @ rest)" using dis zset zdis by auto
      show "length rest < 2 ^ 30" using less.prems(5) by (simp add: rest_def)
      have "set (chunks n rest) \<subseteq> set (chunks n ps)"
      proof (cases "drop n ps = []")
        case True
        then show ?thesis by (simp add: rest_def)
      next
        case ne: False
        show ?thesis unfolding ck rest2 using chunks_step [OF assms(5) ne] by auto
      qed
      then show "\<forall>c \<in> set (chunks n rest). run_ok h1 c"
        using less.prems(6) run_ok_ext [OF _ M(6)] by blast
    qed (rule M)+
    then obtain h' res' list' tail' zs where IH:
      "pass_loop cmp h1 res1 q1 (of_nat n) list1 tail1 (nm + 1)
        = Some (h', res', list', tail', nm + 1 + of_nat (length (chunks (2 * n) rest)))"
      "inv h' res'" "out_chain (l_next h') ((out @ zs1) @ zs) list' tail'" "mset zs = mset rest"
      "\<forall>c \<in> set (chunks (2 * n) zs). run_ok h' c" "ext h1 h'"
      "\<forall>x. x \<notin> set ((out @ zs1) @ rest) \<longrightarrow> l_next h' x = l_next h1 x" by blast
    have run: "pass_loop cmp h res p (of_nat n) list tail nm
        = pass_loop cmp h1 res1 q1 (of_nat n) list1 tail1 (nm + 1)"
      using p0 q(1) M(1) by (subst pass_loop.simps) (simp add: Let_def)
    have c2: "length (chunks (2 * n) ps) = Suc (length (chunks (2 * n) rest))"
      using chunks_step [of "2 * n" ps] False assms(5) by (simp add: rest_def)
    have "P \<noteq> []" using False assms(5) by (simp add: P_def)
    then have "zs1 \<noteq> []" using zlen by (cases zs1) auto
    have zlen2: "length zs1 = 2 * n \<or> zs = []"
    proof (cases "rest = []")
      case True
      then show ?thesis using IH(4) by simp
    next
      case ne: False
      then have "length P = n" "length Q = n" by (auto simp: P_def Q_def rest_def)
      then show ?thesis using zlen by simp
    qed
    have "chunks (2 * n) (zs1 @ zs) = zs1 # chunks (2 * n) zs"
      using zlen2
    proof
      assume "length zs1 = 2 * n"
      then show ?thesis using assms(5) by (intro chunks_append) simp_all
    next
      assume "zs = []"
      moreover have "length zs1 \<le> 2 * n" using zlen by (simp add: P_def Q_def)
      ultimately show ?thesis using chunks_short [of "2 * n" zs1] assms(5) \<open>zs1 \<noteq> []\<close> by simp
    qed
    then have "\<forall>c \<in> set (chunks (2 * n) (zs1 @ zs)). run_ok h' c"
      using IH(5) run_ok_ext [OF M(5) IH(6)] by simp
    moreover have "mset (zs1 @ zs) = mset ps" using M(4) IH(4) by (simp add: ps)
    moreover have "l_next h' x = l_next h x" if "x \<notin> set (out @ ps)" for x
      using that IH(7) M(8) zset by (auto simp: ps)
    moreover have "nm + 1 + of_nat (length (chunks (2 * n) rest)) = nm + of_nat (length (chunks (2 * n) ps))"
      by (simp add: c2)
    ultimately show ?thesis
      using run IH(1,2,3) ext_trans [OF M(6) IH(6)] by (metis append.assoc)
  qed
qed

section \<open>The sort\<close>

lemma out_chain_list:
  assumes "out_chain nx out list tail" and "out \<noteq> []" and "distinct out"
  shows "is_list (nx(tail := NULL)) list out"
proof -
  have t: "tail \<noteq> NULL" "tail = last out" "lseg nx list (butlast out) tail"
    using assms(1,2) by (auto simp: out_chain_def)
  have o: "out = butlast out @ [tail]" using assms(2) t(2) by simp
  then have "tail \<notin> set (butlast out)" using assms(3) by (metis distinct_append disjoint_insert(1) list.simps(15))
  then have "is_list (nx(tail := NULL)) list (butlast out @ [tail])" using t by (auto simp: lseg_append)
  then show ?thesis using o by simp
qed

lemma sort_loop_ok:
  assumes "inv h res" and "is_list (l_next h) list xs" and "xs \<noteq> []" and "length xs < 2 ^ 30"
    and "0 < n" and "n < 2 ^ 30" and "\<forall>c \<in> set (chunks n xs). run_ok h c"
  shows "\<exists>h' res' list' ys. sort_loop cmp h res list (of_nat n) = Some (list', h', res')
    \<and> inv h' res' \<and> is_list (l_next h') list' ys \<and> mset ys = mset xs \<and> run_ok h' ys \<and> ext h h'
    \<and> (\<forall>x. x \<notin> set xs \<longrightarrow> l_next h' x = l_next h x)"
  using assms
proof (induction "length xs - n" arbitrary: h res list xs n rule: less_induct)
  case less
  have dis: "distinct ([] @ xs)" using is_list_distinct [OF less.prems(2)] by simp
  have oc: "out_chain (l_next h) [] NULL NULL" by (simp add: out_chain_def)
  obtain h1 res1 list1 tail1 zs where P:
    "pass_loop cmp h res list (of_nat n) NULL NULL 0
      = Some (h1, res1, list1, tail1, 0 + of_nat (length (chunks (2 * n) xs)))"
    "inv h1 res1" "out_chain (l_next h1) ([] @ zs) list1 tail1" "mset zs = mset xs"
    "\<forall>c \<in> set (chunks (2 * n) zs). run_ok h1 c" "ext h h1"
    "\<forall>x. x \<notin> set ([] @ xs) \<longrightarrow> l_next h1 x = l_next h x"
    using pass_loop_ok [OF less.prems(1) oc less.prems(2) dis less.prems(5,6,4,7)] by blast
  let ?h = "set_next tail1 NULL h1" and ?m = "length (chunks (2 * n) xs)"
  have zs: "zs \<noteq> []" "length zs = length xs" "set zs = set xs" "distinct zs"
    using P(4) less.prems(3) mset_eq_length [OF P(4)] mset_eq_setD [OF P(4)]
      mset_eq_imp_distinct_iff [OF P(4)] dis by auto
  have l: "is_list (l_next ?h) list1 zs" using out_chain_list [of "l_next h1" zs] P(3) zs by simp
  have tl: "tail1 \<in> set xs" using P(3) zs by (auto simp: out_chain_def split: if_splits)
  have frame: "l_next ?h x = l_next h x" if "x \<notin> set xs" for x using that P(7) tl by auto
  have e: "ext h ?h" using ext_trans [OF P(6) ext_set_next] .
  have i: "inv ?h res1" using P(2) next_irrelevant(1) by simp
  have c: "\<forall>c \<in> set (chunks (2 * n) zs). run_ok ?h c" using P(5) run_ok_ext ext_set_next by blast
  have "?m < 2 ^ 31" using length_chunks [of "2 * n" xs] less.prems(4) by simp
  then have "sint (of_nat ?m :: s32) = int ?m" by (intro sint_of_nat_small) simp
  then have stop: "(of_nat ?m :: s32) \<le>s 1 \<longleftrightarrow> length xs \<le> 2 * n"
    using chunks_1_or_less [of "2 * n" xs] less.prems(5) by (simp add: word_sle_eq)
  have step: "sort_loop cmp h res list (of_nat n)
      = (if length xs \<le> 2 * n then Some (list1, ?h, res1) else sort_loop cmp ?h res1 list1 (of_nat (2 * n)))"
    using P(1) stop by (subst sort_loop.simps) (simp add: Let_def mult.commute)
  show ?case
  proof (cases "length xs \<le> 2 * n")
    case True
    then have "chunks (2 * n) zs = [zs]" using zs less.prems(5) by (intro chunks_short) simp_all
    then have "run_ok ?h zs" using c by simp
    then show ?thesis using step True i l P(4) e frame by (metis (full_types))
  next
    case False
    have "\<exists>h' res' list' ys. sort_loop cmp ?h res1 list1 (of_nat (2 * n)) = Some (list', h', res')
      \<and> inv h' res' \<and> is_list (l_next h') list' ys \<and> mset ys = mset zs \<and> run_ok h' ys \<and> ext ?h h'
      \<and> (\<forall>x. x \<notin> set zs \<longrightarrow> l_next h' x = l_next ?h x)"
      using i l zs c False less.prems(4,5) by (intro less.hyps) simp_all
    then show ?thesis using step False P(4) zs(3) frame ext_trans [OF e] by (metis (full_types))
  qed
qed

text \<open>What the sort promises, for every instance of the interface.\<close>

lemma mergesort_ok:
  assumes "inv h res" and "is_list (l_next h) list xs" and "xs \<noteq> []" and "length xs < 2 ^ 30"
  shows "\<exists>h' res' list' ys. core_list_mergesort h list cmp res = Some (list', h', res')
    \<and> inv h' res' \<and> is_list (l_next h') list' ys \<and> mset ys = mset xs
    \<and> sorted (map (\<lambda>x. val h' (l_info h' x)) ys) \<and> l_info h' = l_info h \<and> frame h' = frame h
    \<and> (\<forall>x. x \<notin> set xs \<longrightarrow> l_next h' x = l_next h x)
    \<and> (\<forall>d. known h d \<longrightarrow> known h' d \<and> val h' d = val h d)
    \<and> (length xs \<le> 1 \<or> (\<forall>x \<in> set xs. known h' (l_info h' x)))"
proof -
  have c: "\<forall>c \<in> set (chunks 1 xs). run_ok h c" unfolding chunks_one by (auto simp: run_ok_short)
  have one: "(0::nat) < 1" "(1::nat) < 2 ^ 30" by simp_all
  obtain h' res' list' ys where "sort_loop cmp h res list (of_nat 1) = Some (list', h', res')"
    "inv h' res'" "is_list (l_next h') list' ys" "mset ys = mset xs" "run_ok h' ys" "ext h h'"
    "\<forall>x. x \<notin> set xs \<longrightarrow> l_next h' x = l_next h x"
    using sort_loop_ok [OF assms one c] by blast
  moreover from this have "length ys = length xs" "set ys = set xs"
    using mset_eq_length mset_eq_setD by blast+
  moreover have "key h' = (\<lambda>x. val h' (l_info h' x))" by (simp add: key_def fun_eq_iff)
  ultimately show ?thesis
    by (intro exI [of _ h'] exI [of _ res'] exI [of _ list'] exI [of _ ys])
       (simp add: core_list_mergesort_def run_ok_def ext_def knows_def)
qed

end

end
