(* ===== verification/CoreSortCorrect.thy ===== *)
theory CoreSortCorrect
  imports CoreSort CoreStateCorrect
begin

text \<open>
  The comparison functions of \<^verbatim>\<open>core_list_join.c\<close> meet the interface of the merge sort: \<open>cmp_idx\<close>
  on every heap, \<open>cmp_complex\<close> on every heap and results structure whose state machine block is
  sound. The properties of the merge sort and of the benchmark follow.
\<close>

section \<open>Comparing indices\<close>

lemma sub_sle_0:
  fixes a b :: s16
  shows "(scast a - scast b :: s32) \<le>s 0 \<longleftrightarrow> sint a \<le> sint b"
proof -
  have r: "- 32768 \<le> sint a \<and> sint a < 32768" "- 32768 \<le> sint b \<and> sint b < 32768"
    using sint_ge [of a] sint_lt [of a] sint_ge [of b] sint_lt [of b] by simp_all
  have w: "(scast a - scast b :: s32) = word_of_int (sint a - sint b)" by simp
  have "sint (scast a - scast b :: s32) = sint a - sint b"
    unfolding w signed_of_int using r by (simp add: signed_take_bit_int_eq_self)
  then show ?thesis by (simp add: word_sle_eq)
qed

text \<open>\<open>cmp_idx\<close> without a results structure sets the low byte of the data to the high byte.\<close>

definition regen :: "s16 \<Rightarrow> s16" where
  "regen d = (d AND 0xff00) OR (0x00ff AND signed_drop_bit 8 d)"

lemma regen_data_set: "regen_data a h = set_data16 a (regen (l_data16 h a)) h"
  by (simp add: regen_data_def regen_def)

lemma low_byte: "0x00ff AND w = take_bit 8 (w :: s16)"
  by (simp add: take_bit_eq_mask mask_eq_exp_minus_1 and.commute)

lemma high_byte: "w AND 0xff00 = push_bit 8 (drop_bit 8 (w :: s16))"
proof (rule bit_word_eqI)
  fix n assume "n < LENGTH(16)"
  have m: "(0xff00 :: s16) = push_bit 8 (mask 8)" by (simp add: mask_eq_exp_minus_1)
  show "bit (w AND 0xff00) n = bit (push_bit 8 (drop_bit 8 w)) n"
    using \<open>n < LENGTH(16)\<close> unfolding m
    by (auto simp: bit_and_iff bit_push_bit_iff bit_drop_bit_eq bit_mask_iff)
qed

lemma regen_bit:
  "bit (regen d) n \<longleftrightarrow> n < 16 \<and> bit d (if n < 8 then n + 8 else n)"
  unfolding regen_def low_byte high_byte
  by (cases "n < 16") (auto simp: bit_or_iff bit_push_bit_iff bit_drop_bit_eq bit_take_bit_iff
      bit_signed_drop_bit_iff add.commute dest: bit_imp_le_length)

lemma regen_idem: "regen (regen d) = regen d"
  by (rule bit_word_eqI) (auto simp: regen_bit)

lemma regen_high: "regen d AND 0xff00 = d AND 0xff00"
  unfolding high_byte by (rule bit_word_eqI) (auto simp: bit_push_bit_iff bit_drop_bit_eq regen_bit)

lemma regen_cong: "d AND 0xff00 = e AND 0xff00 \<Longrightarrow> regen d = regen e"
proof -
  assume "d AND 0xff00 = e AND 0xff00"
  then have "bit (d AND 0xff00) n = bit (e AND 0xff00) n" for n by simp
  then have b: "8 \<le> n \<Longrightarrow> n < 16 \<Longrightarrow> bit d n = bit e n" for n
    unfolding high_byte by (simp add: bit_push_bit_iff bit_drop_bit_eq) (metis le_add_diff_inverse)
  show ?thesis by (rule bit_word_eqI) (auto simp: regen_bit b)
qed

definition high_bytes :: "list_heap \<Rightarrow> ptr \<Rightarrow> s16" where
  "high_bytes h d = l_data16 h d AND 0xff00"

interpretation by_idx: comparator cmp_idx "\<lambda>_ res. res = None"
  "\<lambda>h d. regen (l_data16 h d) = l_data16 h d" "\<lambda>h d. sint (l_idx h d)"
  "\<lambda>h. (l_idx h, l_mem h, high_bytes h)"
  by unfold_locales
     (auto simp: cmp_idx_def Let_def sub_sle_0 regen_data_set high_bytes_def regen_idem regen_high fun_eq_iff)

section \<open>Comparing by work\<close>

text \<open>The fields of the results structure that the benchmark only reads.\<close>

definition fixed_part ::
  "core_results \<Rightarrow> ptr \<times> ptr list \<times> u32 \<times> s16 \<times> s16 \<times> s16 \<times> u32 \<times> u32 \<times> s16" where
  "fixed_part res = (res_list res, res_memblock res, res_size res, res_seed1 res, res_seed2 res,
     res_seed3 res, res_iterations res, res_execs res, res_err res)"

text \<open>What \<open>calc_func\<close> needs: the state machine block is sound, and stays so because the second
  pass over it undoes the first at the NULs.\<close>

definition work_inv :: "core_results \<Rightarrow> list_heap \<Rightarrow> core_results option \<Rightarrow> bool" where
  "work_inv res0 h r \<longleftrightarrow> (\<exists>res. r = Some res \<and> fixed_part res = fixed_part res0)
     \<and> good_block (l_mem h) (res_memblock res0 ! 3) (unat (res_size res0))
     \<and> res_seed2 res0 = res_seed1 res0 \<and> ucast (res_seed1 res0) \<noteq> comma"

text \<open>Bit 7 of the data marks a cached value, the low 7 bits.\<close>

definition cached :: "list_heap \<Rightarrow> ptr \<Rightarrow> bool" where
  "cached h d \<longleftrightarrow> drop_bit 7 (l_data16 h d) AND 1 \<noteq> 0"

definition cached_value :: "list_heap \<Rightarrow> ptr \<Rightarrow> int" where
  "cached_value h d = int (unat (take_bit 7 (l_data16 h d)))"

lemma and_7f: "w AND 0x7f = take_bit 7 (w :: s16)"
  by (simp add: take_bit_eq_mask mask_eq_exp_minus_1)

lemma cache_store:
  fixes v r :: s16
  defines "w \<equiv> (v AND 0xff00) OR 0x0080 OR take_bit 7 r"
  shows "drop_bit 7 w AND 1 \<noteq> 0" and "take_bit 7 w = take_bit 7 r"
    and "w AND 0xff00 = v AND 0xff00"
proof -
  have d: "drop_bit 7 w = (drop_bit 7 v AND 0x1fe) OR 1"
    unfolding w_def by (simp add: drop_bit_or drop_bit_and drop_bit_take_bit)
  have "(drop_bit 7 v AND 0x1fe) AND 1 = (0 :: s16)" by (simp add: and.assoc)
  then show "drop_bit 7 w AND 1 \<noteq> 0" unfolding d by (simp add: bit.conj_disj_distrib2)
  show "take_bit 7 w = take_bit 7 r"
    unfolding w_def by (simp add: take_bit_or take_bit_and)
  have "take_bit 7 r AND 0xff00 = r AND (0x7f AND 0xff00)"
    by (simp only: and_7f [symmetric] and.assoc)
  also have "0x7f AND 0xff00 = (0 :: s16)" by simp
  finally have "take_bit 7 r AND 0xff00 = 0" by simp
  then show "w AND 0xff00 = v AND 0xff00"
    unfolding w_def by (simp add: bit.conj_disj_distrib2 and.assoc)
qed

lemma sint_take_bit_7: "sint (take_bit 7 (w :: s16)) = int (unat (take_bit 7 w))"
proof -
  have "unat (take_bit 7 w) < 2 ^ 7" unfolding unsigned_take_bit_eq by (rule take_bit_nat_less_exp)
  then have l: "unat (take_bit 7 w) < 2 ^ (LENGTH(16) - 1)" by simp
  from sint_of_nat_small [OF l] show ?thesis unfolding of_nat_unat .
qed

lemma corrupted_twice_good_block:
  assumes "good_block m b n" and "x \<noteq> comma"
  shows "good_block (corrupted (corrupted m b n st x) b n st x) b n"
proof -
  have z: "corrupted (corrupted m b n st x) b n st x a = 0" if "m a = 0" for a
  proof -
    have "comma XOR x \<noteq> 0"
    proof
      assume e: "comma XOR x = 0"
      have "x = comma XOR (comma XOR x)" by (simp only: xor.assoc [symmetric] xor_self_eq xor.left_neutral)
      then show False using e assms(2) by (simp only: xor.right_neutral)
    qed
    then have "m a \<noteq> comma XOR x" using that by (metis)
    then show ?thesis using corrupted_twice [of m b n st x a] that by simp
  qed
  then show ?thesis using assms(1) unfolding good_block_def by blast
qed

lemma dtype_step:
  fixes d :: s16
  defines "t \<equiv> drop_bit 3 d AND 0xf"
  shows "2 \<le> sint (if t OR push_bit 4 t <s 0x22 then 0x22 else t OR push_bit 4 t)"
  by (auto simp: word_sless_alt)

lemma bench_state_keeps_good:
  assumes "good_block m b (unat n)" and "2 \<le> sint step" and "ucast seed \<noteq> comma"
  shows "\<exists>m' crc'. core_bench_state m n b seed seed step crc = Some (m', crc') \<and> good_block m' b (unat n)"
  using core_bench_state_run [OF assms(1,2), of seed seed crc] corrupted_twice_good_block [OF assms(1,3)]
  by blast

lemma work_inv_Some:
  "work_inv r0 h (Some res) \<longleftrightarrow> fixed_part res = fixed_part r0
     \<and> good_block (l_mem h) (res_memblock res ! 3) (unat (res_size res))
     \<and> res_seed2 res = res_seed1 res \<and> ucast (res_seed1 res) \<noteq> comma"
  by (auto simp: work_inv_def fixed_part_def)

lemma fixed_part_upd [simp]:
  "fixed_part (res\<lparr>res_crc := v\<rparr>) = fixed_part res" "fixed_part (res\<lparr>res_crcstate := v\<rparr>) = fixed_part res"
  "fixed_part (res\<lparr>res_crcmatrix := v\<rparr>) = fixed_part res" "fixed_part (res\<lparr>res_mat := p\<rparr>) = fixed_part res"
  by (simp_all add: fixed_part_def)

lemma work_inv_upd:
  assumes "work_inv r0 h (Some res)" and "fixed_part res' = fixed_part res"
    and "good_block m (res_memblock res ! 3) (unat (res_size res))"
  shows "work_inv r0 (h\<lparr>l_mem := m\<rparr>) (Some res')"
  using assms unfolding work_inv_Some by (simp add: fixed_part_def) metis

lemma calc_op_ok:
  assumes "work_inv r0 h (Some res)"
  shows "\<exists>m res' v. calc_op h res data = Some (h\<lparr>l_mem := m\<rparr>, res', v)
    \<and> work_inv r0 (h\<lparr>l_mem := m\<rparr>) (Some res')"
proof -
  let ?t = "drop_bit 3 data AND 0xf :: s16"
  let ?s = "if ?t OR push_bit 4 ?t <s 0x22 then 0x22 else ?t OR push_bit 4 ?t"
  have i: "good_block (l_mem h) (res_memblock res ! 3) (unat (res_size res))"
    "res_seed2 res = res_seed1 res" "ucast (res_seed1 res) \<noteq> comma"
    using assms by (simp_all add: work_inv_Some)
  have st: "2 \<le> sint ?s" by (rule dtype_step)
  obtain m crc' where r: "core_bench_state (l_mem h) (res_size res) (res_memblock res ! 3)
      (res_seed1 res) (res_seed2 res) ?s (res_crc res) = Some (m, crc')"
    "good_block m (res_memblock res ! 3) (unat (res_size res))"
    using bench_state_keeps_good [OF i(1) st i(3)] unfolding i(2) by blast
  note inv = work_inv_upd [OF assms _ i(1)] work_inv_upd [OF assms _ r(2)]
  consider "data AND 7 = 0" | "data AND 7 = 1" | "data AND 7 \<noteq> 0" "data AND 7 \<noteq> 1" by blast
  then show ?thesis
  proof cases
    case 1
    then have "calc_op h res data = map_option (\<lambda>(m, retval).
        (h\<lparr>l_mem := m\<rparr>, if res_crcstate res = 0 then res\<lparr>res_crcstate := retval\<rparr> else res, retval))
      (core_bench_state (l_mem h) (res_size res) (res_memblock res ! 3) (res_seed1 res) (res_seed2 res) ?s (res_crc res))"
      by (simp only: calc_op_def Let_def simp_thms if_True)
    then show ?thesis
      unfolding r(1) using inv(2) by (intro exI [of _ m]) simp
  next
    case 2
    then show ?thesis
      using inv(1) by (intro exI [of _ "l_mem h"]) (simp add: calc_op_def Let_def split: prod.splits)
  next
    case 3
    then show ?thesis
      using inv(1) [OF refl] by (intro exI [of _ "l_mem h"]) (simp add: calc_op_def Let_def)
  qed
qed

lemma calc_func_ok:
  assumes "work_inv r0 h (Some res)"
  shows "\<exists>h' res' v. calc_func h res d = Some (h', res', v) \<and> work_inv r0 h' (Some res')
    \<and> l_next h' = l_next h \<and> l_info h' = l_info h \<and> l_idx h' = l_idx h \<and> high_bytes h' = high_bytes h
    \<and> (\<forall>e. cached h e \<longrightarrow> cached h' e \<and> cached_value h' e = cached_value h e)
    \<and> cached h' d \<and> sint v = cached_value h' d"
proof (cases "cached h d")
  case True
  then show ?thesis
    using assms by (simp add: calc_func_def Let_def cached_def cached_value_def and_7f sint_take_bit_7)
next
  case False
  obtain m res' v where o: "calc_op h res (l_data16 h d) = Some (h\<lparr>l_mem := m\<rparr>, res', v)"
    "work_inv r0 (h\<lparr>l_mem := m\<rparr>) (Some res')" using calc_op_ok [OF assms] by blast
  let ?w = "(l_data16 h d AND 0xff00) OR 0x0080 OR take_bit 7 v"
  let ?h = "set_data16 d ?w (h\<lparr>l_mem := m\<rparr>)"
  have c: "calc_func h res d = Some (?h, res'\<lparr>res_crc := crcu16 v (res_crc res')\<rparr>, take_bit 7 v)"
    using False by (simp add: calc_func_def Let_def cached_def and_7f o(1) or.assoc)
  have hb: "high_bytes ?h = high_bytes h"
    using cache_store(3) [of "l_data16 h d" v] by (simp add: high_bytes_def fun_eq_iff)
  have "work_inv r0 ?h (Some (res'\<lparr>res_crc := crcu16 v (res_crc res')\<rparr>))"
    using o(2) by (simp add: work_inv_Some)
  moreover have "cached ?h d" "cached_value ?h d = int (unat (take_bit 7 v))"
    "\<forall>e. e \<noteq> d \<longrightarrow> cached ?h e = cached h e \<and> cached_value ?h e = cached_value h e"
    using cache_store(1,2) [of "l_data16 h d" v] by (simp_all add: cached_def cached_value_def)
  ultimately show ?thesis
    unfolding c using False hb
    by (intro exI [of _ ?h] exI) (auto simp: sint_take_bit_7)
qed

lemma cmp_complex_ok:
  assumes "work_inv r0 h r"
  shows "\<exists>h' r' c. cmp_complex h r a b = Some (h', r', c) \<and> work_inv r0 h' r'
    \<and> l_next h' = l_next h \<and> l_info h' = l_info h \<and> l_idx h' = l_idx h \<and> high_bytes h' = high_bytes h
    \<and> (\<forall>e. cached h e \<longrightarrow> cached h' e \<and> cached_value h' e = cached_value h e)
    \<and> cached h' a \<and> cached h' b \<and> (c \<le>s 0 \<longleftrightarrow> cached_value h' a \<le> cached_value h' b)"
proof -
  obtain res where r: "r = Some res" using assms by (auto simp: work_inv_def)
  obtain h1 res1 v where 1: "calc_func h res a = Some (h1, res1, v)" "work_inv r0 h1 (Some res1)"
    "l_next h1 = l_next h" "l_info h1 = l_info h" "l_idx h1 = l_idx h" "high_bytes h1 = high_bytes h"
    "\<forall>e. cached h e \<longrightarrow> cached h1 e \<and> cached_value h1 e = cached_value h e"
    "cached h1 a" "sint v = cached_value h1 a"
    using calc_func_ok [of r0 h res a] assms unfolding r by blast
  obtain h2 res2 w where 2: "calc_func h1 res1 b = Some (h2, res2, w)" "work_inv r0 h2 (Some res2)"
    "l_next h2 = l_next h1" "l_info h2 = l_info h1" "l_idx h2 = l_idx h1" "high_bytes h2 = high_bytes h1"
    "\<forall>e. cached h1 e \<longrightarrow> cached h2 e \<and> cached_value h2 e = cached_value h1 e"
    "cached h2 b" "sint w = cached_value h2 b"
    using calc_func_ok [OF 1(2), of b] by blast
  have "cmp_complex h r a b = Some (h2, Some res2, scast v - scast w)"
    by (simp add: cmp_complex_def r 1(1) 2(1))
  moreover have "(scast v - scast w :: s32) \<le>s 0 \<longleftrightarrow> cached_value h2 a \<le> cached_value h2 b"
    using 1(8,9) 2(7,9) by (simp only: sub_sle_0)
  ultimately show ?thesis using 1 2 by metis
qed

lemma cmp_complexD:
  assumes "work_inv r0 h r" and "cmp_complex h r a b = Some (h', r', c)"
  shows "work_inv r0 h' r' \<and> l_next h' = l_next h \<and> l_info h' = l_info h
      \<and> (l_idx h', high_bytes h') = (l_idx h, high_bytes h)"
    and "cached h e \<Longrightarrow> cached h' e \<and> cached_value h' e = cached_value h e"
    and "cached h' a \<and> cached h' b \<and> (c \<le>s 0 \<longleftrightarrow> cached_value h' a \<le> cached_value h' b)"
  using cmp_complex_ok [OF assms(1), of a b] assms(2) by auto

lemma set_next_irrelevant:
  "work_inv r0 (set_next p q h) r = work_inv r0 h r" "cached (set_next p q h) d = cached h d"
  "cached_value (set_next p q h) d = cached_value h d"
  "(l_idx (set_next p q h), high_bytes (set_next p q h)) = (l_idx h, high_bytes h)"
  by (simp_all add: work_inv_def cached_def cached_value_def high_bytes_def fun_eq_iff)

interpretation by_work: comparator cmp_complex "work_inv r0" cached cached_value
  "\<lambda>h. (l_idx h, high_bytes h)" for r0
  by (unfold_locales; (rule set_next_irrelevant | erule (1) cmp_complexD | use cmp_complex_ok in blast)?)
     (erule (2) cmp_complexD)?

end
