(* ===== verification/CoreBenchList.thy ===== *)
theory CoreBenchList
  imports CoreSortCorrect
begin

text \<open>
  The benchmark of \<^verbatim>\<open>core_list_join.c\<close> as a whole: its searches permute the cells, its two sorts
  and the removal keep them, and the last sort puts the list back as it was.
\<close>

section \<open>The searches\<close>

text \<open>Moving the cell behind \<open>t\<close> to the place behind the head.\<close>

lemma relink_behind_head:
  assumes "is_list nx list (us @ t # f # vs)"
  defines "nx1 \<equiv> nx(t := nx f)"
  defines "nx2 \<equiv> nx1(f := nx1 list)"
  shows "\<exists>ys. is_list (nx2(list := f)) list ys \<and> mset ys = mset (us @ t # f # vs)"
proof (cases us)
  case Nil
  have "distinct (t # f # vs)" using is_list_distinct [OF assms(1)] Nil by simp
  then have "is_list (nx2(list := f)) list (t # f # vs)"
    using assms(1) Nil by (auto simp: nx1_def nx2_def)
  then show ?thesis unfolding Nil by (intro exI conjI) (assumption, simp)
next
  case (Cons l us')
  have d: "distinct (l # us' @ t # f # vs)" using is_list_distinct [OF assms(1)] Cons by simp
  have "is_list (nx2(list := f)) list (l # f # us' @ t # vs)"
    using assms(1) Cons d by (auto simp: nx1_def nx2_def lseg_append)
  then show ?thesis unfolding Cons by (intro exI conjI) (assumption, simp)
qed

lemma list_cell_split:
  assumes "is_list nx list xs" and "t \<in> set xs" and "nx t \<noteq> NULL"
  shows "\<exists>us vs. xs = us @ t # nx t # vs"
proof -
  obtain us ws where xs: "xs = us @ t # ws" using assms(2) by (auto simp: in_set_conv_decomp)
  then have "is_list nx (nx t) ws" using assms(1) by (auto simp: lseg_append)
  then show ?thesis using xs assms(3) by (cases ws) auto
qed

lemma search_loop_ok:
  assumes "is_list (l_next h) list xs"
  shows "\<exists>info' h' list' r f m ys.
    search_loop n i info h list retval found missed = Some (info', h', list', r, f, m)
    \<and> is_list (l_next h') list' ys \<and> mset ys = mset xs \<and> h' = h\<lparr>l_next := l_next h'\<rparr>
    \<and> (\<forall>x. x \<notin> set xs \<longrightarrow> l_next h' x = l_next h x)"
  using assms
proof (induction n arbitrary: i info h list retval found missed xs)
  case 0
  then show ?case by (intro exI [of _ xs] exI) auto
next
  case (Suc n)
  let ?info = "(i AND 0xff, snd info)"
  obtain P where f: "core_list_find h list ?info = Some (first_or_NULL P xs)"
    using core_list_find_loop [OF Suc.prems] by blast
  let ?t = "first_or_NULL P xs"
  obtain p h1 where r: "core_list_reverse h list = Some (p, h1)" "is_list (l_next h1) p (rev xs)"
    "h1 = h\<lparr>l_next := l_next h1\<rparr>" "\<forall>x. x \<notin> set xs \<longrightarrow> l_next h1 x = l_next h x"
    using core_list_reverse_rev [OF Suc.prems] by blast
  let ?f = "l_next h1 ?t"
  define h2 where "h2 = (if ?t = NULL \<or> ?f = NULL then h1 else set_next p ?f
    (set_next ?f (l_next (set_next ?t (l_next h1 ?f) h1) p) (set_next ?t (l_next h1 ?f) h1)))"
  have h2: "\<exists>ys. is_list (l_next h2) p ys \<and> mset ys = mset xs \<and> h2 = h\<lparr>l_next := l_next h2\<rparr>
    \<and> (\<forall>x. x \<notin> set xs \<longrightarrow> l_next h2 x = l_next h x)"
  proof (cases "?t = NULL \<or> ?f = NULL")
    case True
    with r show ?thesis by (intro exI [of _ "rev xs"]) (auto simp: h2_def)
  next
    case False
    then have t: "?t \<in> set (rev xs)" using first_or_NULL_in [of P xs] by auto
    obtain us vs where s: "rev xs = us @ ?t # ?f # vs"
      using list_cell_split [OF r(2) t] False by blast
    have p: "p \<in> set (rev xs)" using is_list_hd [OF r(2)] s by (metis hd_in_set Nil_is_append_conv list.distinct(1))
    have s': "set xs = set (us @ ?t # ?f # vs)" using arg_cong [OF s, of set] by simp
    obtain ys where "is_list (l_next h2) p ys" "mset ys = mset (rev xs)"
      using relink_behind_head [OF r(2) [unfolded s]] False unfolding s by (auto simp: h2_def)
    moreover have "h2 = h\<lparr>l_next := l_next h2\<rparr>"
    proof -
      have "h2 = h1\<lparr>l_next := l_next h2\<rparr>" using False by (simp add: h2_def set_next_def)
      also have "\<dots> = h\<lparr>l_next := l_next h2\<rparr>" by (subst r(3)) simp
      finally show ?thesis .
    qed
    moreover have "\<forall>x. x \<notin> set xs \<longrightarrow> l_next h2 x = l_next h x"
      using False r(4) p s' by (auto simp: h2_def)
    ultimately show ?thesis by (intro exI [of _ ys]) simp
  qed
  then obtain ys where ys: "is_list (l_next h2) p ys" "mset ys = mset xs" "h2 = h\<lparr>l_next := l_next h2\<rparr>"
    "\<forall>x. x \<notin> set xs \<longrightarrow> l_next h2 x = l_next h x" by blast
  have "\<exists>info' retval' found' missed'. search_loop (Suc n) i info h list retval found missed
      = search_loop n (i + 1) info' h2 p retval' found' missed'"
    by (simp add: f r(1) Let_def h2_def) blast
  then obtain info' retval' found' missed' where
    e: "search_loop (Suc n) i info h list retval found missed
      = search_loop n (i + 1) info' h2 p retval' found' missed'" by blast
  show ?case
    using Suc.IH [OF ys(1), of "i + 1" info' retval' found' missed'] ys unfolding e
    by (metis (no_types, lifting) list_heap.update_convs(1) list_heap.surjective mset_eq_setD)
qed

section \<open>The checksum\<close>

lemma crc_loop_value:
  "is_list (l_next h) finder xs \<Longrightarrow>
    crc_loop h list finder r = Some ((crc16 (l_data16 h (l_info h list)) ^^ length xs) r)"
proof (induction xs arbitrary: finder r)
  case Nil
  then show ?case by (subst crc_loop.simps) simp
next
  case (Cons x xs)
  then show ?case by (subst crc_loop.simps) (simp add: funpow_swap1)
qed

lemma is_list_suffix:
  assumes "is_list nx list xs" and "y \<in> set xs"
  shows "\<exists>ys. is_list nx y ys"
proof -
  obtain us ws where "xs = us @ y # ws" using assms(2) by (auto simp: in_set_conv_decomp)
  then show ?thesis using assms(1) by (intro exI [of _ "y # ws"]) (auto simp: lseg_append)
qed

lemma sorted_perm_unique:
  assumes "mset ys = mset xs" and "sorted (map (f :: _ \<Rightarrow> int) ys)" and "sorted_wrt (<) (map f xs)"
  shows "ys = xs"
proof -
  have "sorted (map f xs)" "distinct (map f xs)"
    using assms(3) by (simp_all add: strict_sorted_iff)
  moreover have "mset (map f ys) = mset (map f xs)" using assms(1) by simp
  ultimately have "map f ys = map f xs"
    using assms(2) by (metis properties_for_sort)
  moreover have "inj_on f (set ys \<union> set xs)"
    using \<open>distinct (map f xs)\<close> mset_eq_setD [OF assms(1)] by (simp add: distinct_map)
  ultimately show ?thesis by (rule map_inj_on)
qed

section \<open>The sorts\<close>

lemma sort_by_idx:
  assumes "is_list (l_next h) list xs" and "xs \<noteq> []" and "length xs < 2 ^ 30"
  shows "\<exists>h' list' ys. core_list_mergesort h list cmp_idx None = Some (list', h', None)
    \<and> is_list (l_next h') list' ys \<and> mset ys = mset xs
    \<and> sorted (map (\<lambda>x. sint (l_idx h (l_info h x))) ys)
    \<and> l_info h' = l_info h \<and> l_idx h' = l_idx h \<and> l_mem h' = l_mem h \<and> high_bytes h' = high_bytes h
    \<and> (\<forall>x. x \<notin> set xs \<longrightarrow> l_next h' x = l_next h x)
    \<and> (2 \<le> length xs \<longrightarrow> (\<forall>x \<in> set xs. l_data16 h' (l_info h x) = regen (l_data16 h (l_info h x))))"
proof -
  obtain h' list' ys where r: "core_list_mergesort h list cmp_idx None = Some (list', h', None)"
    "is_list (l_next h') list' ys" "mset ys = mset xs"
    "sorted (map (\<lambda>x. sint (l_idx h' (l_info h' x))) ys)" "l_info h' = l_info h"
    "(l_idx h', l_mem h', high_bytes h') = (l_idx h, l_mem h, high_bytes h)"
    "\<forall>x. x \<notin> set xs \<longrightarrow> l_next h' x = l_next h x"
    "length xs \<le> 1 \<or> (\<forall>x \<in> set xs. regen (l_data16 h' (l_info h' x)) = l_data16 h' (l_info h' x))"
    using by_idx.mergesort_ok [OF refl assms] by blast
  have "l_data16 h' d AND 0xff00 = l_data16 h d AND 0xff00" for d
    using r(6) by (simp add: high_bytes_def fun_eq_iff)
  then have "regen (l_data16 h' d) = regen (l_data16 h d)" for d by (rule regen_cong)
  then show ?thesis using r by (intro exI [of _ h'] exI [of _ list'] exI [of _ ys]) auto
qed

lemma sort_by_work:
  assumes "is_list (l_next h) list xs" and "xs \<noteq> []" and "length xs < 2 ^ 30"
    and "work_inv res h (Some res)"
  shows "\<exists>h' res' list' ys. core_list_mergesort h list cmp_complex (Some res) = Some (list', h', Some res')
    \<and> work_inv res h' (Some res') \<and> is_list (l_next h') list' ys \<and> mset ys = mset xs
    \<and> sorted (map (\<lambda>x. cached_value h' (l_info h x)) ys)
    \<and> l_info h' = l_info h \<and> l_idx h' = l_idx h \<and> high_bytes h' = high_bytes h
    \<and> (\<forall>x. x \<notin> set xs \<longrightarrow> l_next h' x = l_next h x)
    \<and> (\<forall>d. cached h d \<longrightarrow> cached h' d \<and> cached_value h' d = cached_value h d)
    \<and> (2 \<le> length xs \<longrightarrow> (\<forall>x \<in> set xs. cached h' (l_info h x)))"
proof -
  obtain h' r' list' ys where r: "core_list_mergesort h list cmp_complex (Some res) = Some (list', h', r')"
    "work_inv res h' r'" "is_list (l_next h') list' ys" "mset ys = mset xs"
    "sorted (map (\<lambda>x. cached_value h' (l_info h' x)) ys)" "l_info h' = l_info h"
    "(l_idx h', high_bytes h') = (l_idx h, high_bytes h)"
    "\<forall>x. x \<notin> set xs \<longrightarrow> l_next h' x = l_next h x"
    "\<forall>d. cached h d \<longrightarrow> cached h' d \<and> cached_value h' d = cached_value h d"
    "length xs \<le> 1 \<or> (\<forall>x \<in> set xs. cached h' (l_info h' x))"
    using by_work.mergesort_ok [OF assms(4,1-3)] by blast
  obtain res' where "r' = Some res'" using r(2) by (auto simp: work_inv_def)
  then show ?thesis using r
    by (intro exI [of _ h'] exI [of _ res'] exI [of _ list'] exI [of _ ys]) auto
qed

section \<open>The benchmark\<close>

lemma work_inv_relinked: "work_inv r0 (h\<lparr>l_next := nx\<rparr>) r = work_inv r0 h r"
  by (simp add: work_inv_def)

lemma core_bench_list_ok:
  assumes l: "is_list (l_next h) (res_list res) xs" and n: "3 \<le> length xs" "length xs < 2 ^ 30"
    and s: "sorted_wrt (<) (map (\<lambda>x. sint (l_idx h (l_info h x))) xs)"
    and w: "work_inv res h (Some res)"
  shows "\<exists>h' res' crc. core_bench_list h res finder_idx = Some (h', res', crc)
    \<and> is_list (l_next h') (res_list res) xs \<and> l_info h' = l_info h \<and> l_idx h' = l_idx h
    \<and> (\<forall>x \<in> set xs. l_data16 h' (l_info h x) = regen (l_data16 h (l_info h x)))
    \<and> (\<forall>x. x \<notin> set xs \<longrightarrow> l_next h' x = l_next h x) \<and> work_inv res h' (Some res')"
proof -
  obtain info h1 list1 r f m ys1 where 1: "search_loop (nat (sint (res_seed3 res))) 0 (0, finder_idx) h
      (res_list res) 0 0 0 = Some (info, h1, list1, r, f, m)"
    "is_list (l_next h1) list1 ys1" "mset ys1 = mset xs" "h1 = h\<lparr>l_next := l_next h1\<rparr>"
    "\<forall>x. x \<notin> set xs \<longrightarrow> l_next h1 x = l_next h x"
    using search_loop_ok [OF l, of "nat (sint (res_seed3 res))" 0 "(0, finder_idx)" 0 0 0] by blast
  have w1: "work_inv res h1 (Some res)" using w by (subst 1(4)) (simp only: work_inv_relinked)
  have f1: "l_info h1 = l_info h" "l_idx h1 = l_idx h" "high_bytes h1 = high_bytes h"
    by (subst 1(4), simp add: high_bytes_def fun_eq_iff)+
  have n1: "length ys1 = length xs" using mset_eq_length [OF 1(3)] .
  then have ne1: "ys1 \<noteq> []" "length ys1 < 2 ^ 30" using n by auto
  obtain h2 res2 list2 ys2 where 2: "(if 0 <s finder_idx then core_list_mergesort h1 list1 cmp_complex (Some res)
        else Some (list1, h1, Some res)) = Some (list2, h2, Some res2)"
    "work_inv res h2 (Some res2)" "is_list (l_next h2) list2 ys2" "mset ys2 = mset ys1"
    "l_info h2 = l_info h1" "l_idx h2 = l_idx h1" "high_bytes h2 = high_bytes h1"
    "\<forall>x. x \<notin> set ys1 \<longrightarrow> l_next h2 x = l_next h1 x"
    using sort_by_work [OF 1(2) ne1 w1] w1 1(2) by (cases "0 <s finder_idx") auto
  have n2: "length ys2 = length xs" using mset_eq_length [OF 2(4)] n1 by simp
  then have "3 \<le> length ys2" using n(1) by simp
  then obtain x y z zs where ys2: "ys2 = x # y # z # zs"
    by (auto simp: numeral_3_eq_3 Suc_le_length_iff)
  have hd2: "list2 = x" "l_next h2 list2 = y" using 2(3) ys2 by auto
  have l2: "is_list (l_next h2) list2 ([x] @ y # z # zs)" using 2(3) ys2 by simp
  obtain h3 where 3: "core_list_remove h2 y = (z, h3)" "is_list (l_next h3) list2 ([x] @ y # zs)"
    "core_list_undo_remove h3 z y = (z, h2)"
    using remove_undo_cells [OF l2] by blast
  have y3: "l_next h3 list2 = y" using 3(2) by auto
  obtain P where fd: "core_list_find h3 list2 info = Some (first_or_NULL P ([x] @ y # zs))"
    using core_list_find_loop [OF 3(2)] by blast
  define found where "found = first_or_NULL P ([x] @ y # zs)"
  let ?finder = "if found = NULL then y else found"
  have "?finder \<in> set ([x] @ y # zs)"
    using first_or_NULL_in [of P "[x] @ y # zs"] unfolding found_def by auto
  then obtain us where us: "is_list (l_next h3) ?finder us" using is_list_suffix [OF 3(2)] by blast
  note crc3 = crc_loop_value [OF us]
  have crc3: "\<exists>v. crc_loop h3 list2 (if found = 0 then y else found) r = Some v" for r
    by (rule exI, rule crc3)
  have ne2: "ys2 \<noteq> []" "length ys2 < 2 ^ 30" using n n2 by auto
  obtain h4 list4 ys4 where 4: "core_list_mergesort h2 list2 cmp_idx None = Some (list4, h4, None)"
    "is_list (l_next h4) list4 ys4" "mset ys4 = mset ys2"
    "sorted (map (\<lambda>x. sint (l_idx h2 (l_info h2 x))) ys4)"
    "l_info h4 = l_info h2" "l_idx h4 = l_idx h2" "l_mem h4 = l_mem h2"
    "\<forall>x. x \<notin> set ys2 \<longrightarrow> l_next h4 x = l_next h2 x"
    "2 \<le> length ys2 \<longrightarrow> (\<forall>x \<in> set ys2. l_data16 h4 (l_info h2 x) = regen (l_data16 h2 (l_info h2 x)))"
    using sort_by_idx [OF 2(3) ne2] by blast
  have info: "l_info h4 = l_info h" "l_idx h4 = l_idx h" using 4(5,6) 2(5,6) f1(1,2) by simp_all
  have sets: "set ys1 = set xs" "set ys2 = set xs" using 1(3) 2(4) mset_eq_setD by metis+
  have ys4: "ys4 = xs"
  proof (rule sorted_perm_unique [OF _ _ s])
    show "mset ys4 = mset xs" using 4(3) 2(4) 1(3) by simp
    show "sorted (map (\<lambda>x. sint (l_idx h (l_info h x))) ys4)" using 4(4) 2(5,6) f1(1,2) by simp
  qed
  have "xs \<noteq> []" using n(1) by auto
  then have e4: "list4 = res_list res"
    using is_list_hd [OF l] is_list_hd [OF 4(2) [unfolded ys4]] by simp
  then have l4: "is_list (l_next h4) (res_list res) xs" using 4(2) unfolding ys4 by simp
  then obtain vs where vs: "is_list (l_next h4) (l_next h4 list4) vs"
    using n(1) e4 l4 by (cases xs) auto
  note crc4 = crc_loop_value [OF vs]
  have "\<exists>crc. core_bench_list h res finder_idx = Some (h4, res2, crc)"
    unfolding core_bench_list_def 1(1)
    by (simp add: 2(1) hd2(2) 3(1) y3 fd [folded found_def] crc3 3(3) 4(1) crc4 Let_def)
       (use crc3 [of "r + (f * 4 - m)"] in \<open>cases "found = 0"; simp\<close>)
  moreover have "l_data16 h4 (l_info h x) = regen (l_data16 h (l_info h x))" if "x \<in> set xs" for x
  proof -
    have "l_data16 h2 d AND 0xff00 = l_data16 h d AND 0xff00" for d
      using 2(7) f1(3) by (simp add: high_bytes_def fun_eq_iff)
    then have "regen (l_data16 h2 d) = regen (l_data16 h d)" for d by (rule regen_cong)
    then show ?thesis using 4(9) n(1) n2 that sets 2(5) f1(1) by simp
  qed
  moreover have "work_inv res h4 (Some res2)" using 2(2) 4(7) by (simp add: work_inv_def)
  moreover have "\<forall>x. x \<notin> set xs \<longrightarrow> l_next h4 x = l_next h x"
    using 4(8) 2(8) 1(5) sets by simp
  ultimately show ?thesis using l4 info by blast
qed

section \<open>Properties\<close>

text \<open>C23: Sorting by index terminates on every list that is not empty, for any data, and gives the
  same cells in ascending order of index; no data structure moves, no index and no byte of memory
  changes, and every cell of a list of two or more has the low byte of its data restored from the
  high byte.\<close>

theorem mergesort_idx_correct:
  assumes "is_list (l_next h) list xs" and "xs \<noteq> []" and "length xs < 2 ^ 30"
  shows "\<exists>h' list' ys. core_list_mergesort h list cmp_idx None = Some (list', h', None)
    \<and> is_list (l_next h') list' ys \<and> mset ys = mset xs
    \<and> sorted (map (\<lambda>x. sint (l_idx h (l_info h x))) ys)
    \<and> l_info h' = l_info h \<and> l_idx h' = l_idx h \<and> l_mem h' = l_mem h
    \<and> (\<forall>x. x \<notin> set xs \<longrightarrow> l_next h' x = l_next h x)
    \<and> (2 \<le> length xs \<longrightarrow> (\<forall>x \<in> set xs. l_data16 h' (l_info h x) = regen (l_data16 h (l_info h x))))"
  using sort_by_idx [OF assms] by blast

theorem mergesort_idx_correct_witness:
  "\<exists>h' list' ys. core_list_mergesort heap3 8 cmp_idx None = Some (list', h', None)
    \<and> is_list (l_next h') list' ys \<and> mset ys = {#8, 16, 24#} \<and> l_data16 h' 100 = 0"
proof -
  have "[8, 16, 24 :: ptr] \<noteq> []" "length [8, 16, 24 :: ptr] < 2 ^ 30" by simp_all
  from mergesort_idx_correct [OF heap3_list this]
  show ?thesis by (auto simp: heap3_def regen_def)
qed

text \<open>C10: Sorting by work terminates on every list that is not empty, whatever part of the data is
  cached, when the state machine block is sound and its two seeds agree. The result has the same
  cells, every one of two or more with a cached value, in ascending order of these values; values
  cached before stay, indices and high bytes do not change, and the block stays sound.\<close>

theorem mergesort_complex_correct:
  assumes "is_list (l_next h) list xs" and "xs \<noteq> []" and "length xs < 2 ^ 30"
    and "work_inv res h (Some res)"
  shows "\<exists>h' res' list' ys. core_list_mergesort h list cmp_complex (Some res) = Some (list', h', Some res')
    \<and> work_inv res h' (Some res') \<and> is_list (l_next h') list' ys \<and> mset ys = mset xs
    \<and> sorted (map (\<lambda>x. cached_value h' (l_info h x)) ys)
    \<and> l_info h' = l_info h \<and> l_idx h' = l_idx h \<and> high_bytes h' = high_bytes h
    \<and> (\<forall>d. cached h d \<longrightarrow> cached h' d \<and> cached_value h' d = cached_value h d)
    \<and> (2 \<le> length xs \<longrightarrow> (\<forall>x \<in> set xs. cached h' (l_info h x)))"
  using sort_by_work [OF assms] by blast

definition results3 :: core_results where
  "results3 = \<lparr>res_seed1 = 0, res_seed2 = 0, res_seed3 = 0x66, res_memblock = [0, 0, 0, 0x4000],
     res_size = 666, res_iterations = 1, res_execs = 7, res_list = 8,
     res_mat = \<lparr>mp_N = 0, mp_A = 0, mp_B = 0, mp_C = 0, arr_A = \<lambda>_. 0, arr_B = \<lambda>_. 0, arr_C = \<lambda>_. 0\<rparr>, res_crc = 0, res_crclist = 0,
     res_crcmatrix = 0, res_crcstate = 0, res_err = 0\<rparr>"

lemma results3_sound: "l_mem h = (\<lambda>_. 0) \<Longrightarrow> work_inv results3 h (Some results3)"
  by (auto simp: work_inv_def results3_def good_block_def intro!: exI [of _ 0])

theorem mergesort_complex_correct_witness:
  "\<exists>h' res' list' ys. core_list_mergesort heap3 8 cmp_complex (Some results3) = Some (list', h', Some res')
    \<and> is_list (l_next h') list' ys \<and> mset ys = {#8, 16, 24#} \<and> cached h' 100"
proof -
  have w: "work_inv results3 heap3 (Some results3)" by (rule results3_sound) (simp add: heap3_def)
  have "[8, 16, 24 :: ptr] \<noteq> []" "length [8, 16, 24 :: ptr] < 2 ^ 30" by simp_all
  from mergesort_complex_correct [OF heap3_list this w]
  show ?thesis by (auto simp: heap3_def)
qed

text \<open>C4: The list benchmark returns for every index to search, on a list of three or more cells in
  strictly ascending order of index with a sound state machine block, and in effect returns the list
  to its original state: the same cells in the same order behind the same head, each with its own
  data structure and index, and data whose low byte is restored; it may be run again on what it
  leaves.\<close>

theorem core_bench_list_restores:
  assumes "is_list (l_next h) (res_list res) xs" and "3 \<le> length xs" and "length xs < 2 ^ 30"
    and "sorted_wrt (<) (map (\<lambda>x. sint (l_idx h (l_info h x))) xs)"
    and "work_inv res h (Some res)"
  shows "\<exists>h' res' crc. core_bench_list h res finder_idx = Some (h', res', crc)
    \<and> is_list (l_next h') (res_list res) xs \<and> l_info h' = l_info h \<and> l_idx h' = l_idx h
    \<and> (\<forall>x \<in> set xs. l_data16 h' (l_info h x) = regen (l_data16 h (l_info h x)))
    \<and> (\<forall>x. x \<notin> set xs \<longrightarrow> l_next h' x = l_next h x) \<and> work_inv res h' (Some res')"
  by (rule core_bench_list_ok [OF assms])

definition heap3s :: list_heap where
  "heap3s = heap3\<lparr>l_idx := (\<lambda>_. 0)(100 := 1, 104 := 2, 108 := 3)\<rparr>"

theorem core_bench_list_restores_witness:
  "\<exists>h' res' crc. core_bench_list heap3s results3 1 = Some (h', res', crc)
    \<and> is_list (l_next h') 8 [8, 16, 24] \<and> l_idx h' = l_idx heap3s"
proof -
  have l: "is_list (l_next heap3s) (res_list results3) [8, 16, 24]"
    "sorted_wrt (<) (map (\<lambda>x. sint (l_idx heap3s (l_info heap3s x))) [8, 16, 24])"
    by (simp_all add: heap3s_def heap3_def results3_def)
  have n: "3 \<le> length [8, 16, 24 :: ptr]" "length [8, 16, 24 :: ptr] < 2 ^ 30" by simp_all
  have w: "work_inv results3 heap3s (Some results3)"
    by (rule results3_sound) (simp add: heap3s_def heap3_def)
  have "res_list results3 = 8" by (simp add: results3_def)
  with core_bench_list_restores [OF l(1) n l(2) w, of 1] show ?thesis by auto
qed

end
