(* ===== verification/CoreListInit.thy ===== *)
theory CoreListInit
  imports CoreBenchList
begin

text \<open>
  \<open>core_list_init\<close> of \<^verbatim>\<open>core_list_join.c\<close>: the list it builds in its block, and when the indices it
  gives are in strictly ascending order, which the list benchmark relies on.
\<close>

section \<open>The cells\<close>

text \<open>Cell \<open>i\<close> of the block and the data structure that belongs to it.\<close>

definition cell :: "ptr \<Rightarrow> nat \<Rightarrow> ptr" where
  "cell mb i = mb + of_nat (8 * i)"

definition cell_data :: "ptr \<Rightarrow> nat \<Rightarrow> nat \<Rightarrow> ptr" where
  "cell_data mb n i = mb + of_nat (8 * n + 4 * i)"

lemma cell_0 [simp]: "cell mb 0 = mb"
  by (simp add: cell_def)

lemma cell_Suc: "cell mb k + 8 = cell mb (Suc k)" "cell_data mb n k + 4 = cell_data mb n (Suc k)"
  by (simp_all add: cell_def cell_data_def algebra_simps)

lemma unat_cell: "unat mb + 12 * n < 2 ^ 32 \<Longrightarrow> i \<le> n \<Longrightarrow> unat (cell mb i) = unat mb + 8 * i"
  unfolding cell_def by (intro unat_add_of_nat) simp

lemma unat_cell_data: "unat mb + 12 * n < 2 ^ 32 \<Longrightarrow> i \<le> n \<Longrightarrow> unat (cell_data mb n i) = unat mb + 8 * n + 4 * i"
  unfolding cell_data_def by (subst unat_add_of_nat) simp_all

lemma list_cell_inj:
  assumes "unat mb + 12 * n < 2 ^ 32" and "i \<le> n" and "j \<le> n"
  shows "cell mb i = cell mb j \<longleftrightarrow> i = j" and "cell_data mb n i = cell_data mb n j \<longleftrightarrow> i = j"
proof -
  have "cell mb i = cell mb j \<longleftrightarrow> unat (cell mb i) = unat (cell mb j)" by (simp only: word_unat_eq_iff)
  then show "cell mb i = cell mb j \<longleftrightarrow> i = j" using assms by (simp only: unat_cell) linarith
  have "cell_data mb n i = cell_data mb n j \<longleftrightarrow> unat (cell_data mb n i) = unat (cell_data mb n j)"
    by (simp only: word_unat_eq_iff)
  then show "cell_data mb n i = cell_data mb n j \<longleftrightarrow> i = j" using assms by (simp only: unat_cell_data) linarith
qed

lemma list_cell_notin:
  assumes "unat mb + 12 * n < 2 ^ 32" and "i \<le> n" and "i \<notin> S" and "\<forall>j \<in> S. j \<le> n"
  shows "cell mb i \<notin> cell mb ` S" and "cell_data mb n i \<notin> cell_data mb n ` S"
  using assms(2-4) list_cell_inj [OF assms(1), of i] by (metis imageE)+

lemma cell_not_NULL: "unat mb + 12 * n < 2 ^ 32 \<Longrightarrow> mb \<noteq> 0 \<Longrightarrow> i \<le> n \<Longrightarrow> cell mb i \<noteq> 0"
  using unat_cell [of mb n i] by (auto simp: unat_gt_0 [symmetric])

text \<open>The state of the insertions: the head, then the cells \<open>1 \<dots> k - 1\<close>, latest first, each with
  its own data structure.\<close>

definition filled :: "ptr \<Rightarrow> nat \<Rightarrow> list_heap \<Rightarrow> nat \<Rightarrow> bool" where
  "filled mb n h k \<longleftrightarrow> is_list (l_next h) mb (mb # rev (map (cell mb) [1..<k]))
     \<and> (\<forall>i < k. l_info h (cell mb i) = cell_data mb n i)"

lemma insert_new_filled:
  assumes r: "unat mb + 12 * n < 2 ^ 32" "mb \<noteq> 0" and k: "1 \<le> k" "k + 1 < n" and f: "filled mb n h k"
  shows "\<exists>h'. core_list_insert_new h mb info (cell mb k) (cell_data mb n k) (cell mb n) (cell_data mb n n)
      = (cell mb k, h', cell mb (Suc k), cell_data mb n (Suc k))
    \<and> filled mb n h' (Suc k) \<and> l_mem h' = l_mem h
    \<and> l_data16 h' = (l_data16 h)(cell_data mb n k := fst info) \<and> l_idx h' = (l_idx h)(cell_data mb n k := snd info)"
proof -
  have guard: "\<not> cell mb n \<le> cell mb (Suc k)" "\<not> cell_data mb n n \<le> cell_data mb n (Suc k)"
    using k by (simp_all add: word_le_nat_alt unat_cell [OF r(1)] unat_cell_data [OF r(1)])
  have fresh: "cell mb k \<noteq> cell mb i" if "i < k" for i
    using list_cell_inj(1) [OF r(1), of k i] that k by simp
  have fresh0: "cell mb k \<noteq> mb" using fresh [of 0] k by simp
  have "cell mb k \<notin> cell mb ` {1..<k}" "cell mb 0 \<notin> cell mb ` {1..<k}"
    by (rule list_cell_notin(1) [OF r(1)]; use k(2) in simp)+
  then have notin: "cell mb k \<notin> set (rev (map (cell mb) [1..<k]))" "mb \<notin> set (rev (map (cell mb) [1..<k]))"
    by simp_all
  have nn: "cell mb k \<noteq> 0" using cell_not_NULL [OF r(1,2), of k] k by simp
  let ?new = "cell mb k" and ?db = "cell_data mb n k"
  let ?h = "copy_info ?db info (set_info ?new ?db (set_next mb ?new (set_next ?new (l_next h mb) h)))"
  have e: "core_list_insert_new h mb info ?new ?db (cell mb n) (cell_data mb n n)
      = (?new, ?h, cell mb (Suc k), cell_data mb n (Suc k))"
    unfolding core_list_insert_new_def cell_Suc Let_def using guard
    by (simp only: if_False heap_upd_simps fun_upd_same)
  have l: "l_next ?h = (l_next h)(?new := l_next h mb, mb := ?new)"
    "l_info ?h = (l_info h)(?new := ?db)" "l_mem ?h = l_mem h"
    "l_data16 ?h = (l_data16 h)(?db := fst info)" "l_idx ?h = (l_idx h)(?db := snd info)"
    by (simp_all add: copy_info_def set_info_def set_next_def set_data16_def set_idx_def)
  have "is_list (l_next ?h) mb (mb # ?new # rev (map (cell mb) [1..<k]))"
    using f r(2) nn fresh0 notin unfolding l(1) filled_def by (simp del: map_map)
  then have "is_list (l_next ?h) mb (mb # rev (map (cell mb) [1..<Suc k]))" using k by simp
  moreover have "\<forall>i < Suc k. l_info ?h (cell mb i) = cell_data mb n i"
    using f fresh [symmetric] unfolding l(2) filled_def by (auto simp: less_Suc_eq)
  ultimately have "filled mb n ?h (Suc k)" by (simp only: filled_def)
  then show ?thesis using e l(3-5) by blast
qed

text \<open>When the blocks are used up an insertion changes nothing.\<close>

lemma insert_new_full:
  assumes "unat mb + 12 * n < 2 ^ 32" and "1 \<le> n"
  shows "core_list_insert_new h mb info (cell mb (n - 1)) (cell_data mb n (n - 1)) (cell mb n) (cell_data mb n n)
    = (NULL, h, cell mb (n - 1), cell_data mb n (n - 1))"
proof -
  have "cell mb (n - 1) + 8 = cell mb n" using assms(2) by (simp add: cell_Suc)
  then show ?thesis by (simp add: core_list_insert_new_def)
qed

lemma insert_loop_filled:
  assumes r: "unat mb + 12 * n < 2 ^ 32" "mb \<noteq> 0" and "1 \<le> k" "k + 1 \<le> n" and "filled mb n h k"
  shows "\<exists>h'. insert_loop t i h mb seed (cell mb k) (cell_data mb n k) (cell mb n) (cell_data mb n n) = h'
    \<and> filled mb n h' (min (k + t) (n - 1)) \<and> l_mem h' = l_mem h
    \<and> (\<forall>i < k. l_idx h' (cell_data mb n i) = l_idx h (cell_data mb n i))"
  using assms(3-)
proof (induction t arbitrary: i k h)
  case 0
  then show ?case by (simp add: min_absorb1)
next
  case (Suc t)
  show ?case
  proof (cases "k + 1 = n")
    case True
    have "insert_loop (Suc t) i h mb seed (cell mb k) (cell_data mb n k) (cell mb n) (cell_data mb n n)
        = insert_loop t (i + 1) h mb seed (cell mb k) (cell_data mb n k) (cell mb n) (cell_data mb n n)"
      using insert_new_full [OF r(1), of h "init_item seed i"] True by auto
    then show ?thesis using Suc.IH [OF Suc.prems, of "i + 1"] True by (simp add: min_absorb2)
  next
    case False
    then have k: "k + 1 < n" using Suc.prems by simp
    from insert_new_filled [OF r Suc.prems(1) this Suc.prems(3), of "init_item seed i"]
    obtain h' where h': "core_list_insert_new h mb (init_item seed i) (cell mb k) (cell_data mb n k) (cell mb n) (cell_data mb n n)
        = (cell mb k, h', cell mb (Suc k), cell_data mb n (Suc k))" "filled mb n h' (Suc k)" "l_mem h' = l_mem h"
      "l_idx h' = (l_idx h)(cell_data mb n k := snd (init_item seed i))" by blast
    have "1 \<le> Suc k" "Suc k + 1 \<le> n" using k by simp_all
    from Suc.IH [OF this h'(2), of "i + 1"] obtain h2 where h2:
      "insert_loop t (i + 1) h' mb seed (cell mb (Suc k)) (cell_data mb n (Suc k)) (cell mb n) (cell_data mb n n) = h2"
      "filled mb n h2 (min (Suc k + t) (n - 1))" "l_mem h2 = l_mem h'"
      "\<forall>i < Suc k. l_idx h2 (cell_data mb n i) = l_idx h' (cell_data mb n i)" by blast
    have "l_idx h2 (cell_data mb n j) = l_idx h (cell_data mb n j)" if "j < k" for j
      using h2(4) h'(4) list_cell_inj(2) [OF r(1), of j k] that k by simp
    then show ?thesis using h2(1-3) h'(1,3) by simp
  qed
qed

section \<open>The indices\<close>

text \<open>The index of the \<open>i\<close>-th item behind the head.\<close>

definition index_value :: "u32 \<Rightarrow> s16 \<Rightarrow> u32 \<Rightarrow> s16" where
  "index_value sz seed i =
     (if i < sz div 5 then ucast i
      else 0x3fff AND (push_bit 8 (ucast ((i + 1) AND 0x07)) OR (ucast (i XOR scast seed) :: u16)))"

lemma index_loop_values:
  assumes "is_list (l_next h) finder (ys @ [z])" and "distinct (map (l_info h) ys)"
  shows "\<exists>h'. index_loop h finder i sz seed = Some h' \<and> h' = h\<lparr>l_idx := l_idx h'\<rparr>
    \<and> (\<forall>j < length ys. l_idx h' (l_info h (ys ! j)) = index_value sz seed (i + of_nat j))
    \<and> (\<forall>d. d \<notin> l_info h ` set ys \<longrightarrow> l_idx h' d = l_idx h d)"
  using assms
proof (induction ys arbitrary: h finder i)
  case Nil
  then show ?case by (subst index_loop.simps) simp
next
  case (Cons y ys)
  then have f: "finder = y" "is_list (l_next h) (l_next h y) (ys @ [z])"
    "distinct (map (l_info h) ys)" "l_info h y \<notin> l_info h ` set ys" by simp_all
  then have n: "l_next h y \<noteq> NULL" by (cases ys) auto
  let ?h = "set_idx (l_info h y) (index_value sz seed i) h"
  have e: "index_loop h finder i sz seed = index_loop ?h (l_next h y) (i + 1) sz seed"
    using n f(1) by (subst index_loop.simps) (simp add: index_value_def Let_def)
  have "is_list (l_next ?h) (l_next h y) (ys @ [z])" "distinct (map (l_info ?h) ys)" using f by simp_all
  from Cons.IH [OF this, of "i + 1"] obtain h' where h': "index_loop h finder i sz seed = Some h'"
    "h' = ?h\<lparr>l_idx := l_idx h'\<rparr>"
    "\<forall>j < length ys. l_idx h' (l_info h (ys ! j)) = index_value sz seed (i + 1 + of_nat j)"
    "\<forall>d. d \<notin> l_info h ` set ys \<longrightarrow> l_idx h' d = l_idx ?h d"
    unfolding e by auto
  have "?h\<lparr>l_idx := u\<rparr> = h\<lparr>l_idx := u\<rparr>" for u by (simp add: set_idx_def)
  then have "h' = h\<lparr>l_idx := l_idx h'\<rparr>" using h'(2) by metis
  moreover have "l_idx h' (l_info h ((y # ys) ! j)) = index_value sz seed (i + of_nat j)"
    if "j < length (y # ys)" for j
    using h'(3,4) f(4) that by (cases j) (simp_all add: add.assoc)
  moreover have "l_idx h' d = l_idx h d" if "d \<notin> l_info h ` set (y # ys)" for d
    using h'(4) that by auto
  ultimately show ?case using h'(1) by blast
qed

section \<open>The list\<close>

text \<open>The heap before the sort: the cells are filled and the indices are set.\<close>

lemma list_built:
  fixes blksize :: u32
  defines "n \<equiv> unat blksize div 20 - 2"
  assumes b: "100 \<le> unat blksize" "unat mb + unat blksize \<le> 2 ^ 32" "mb \<noteq> 0"
  shows "\<exists>h'. core_list_init h blksize mb seed
      = map_option (\<lambda>(list, h, _). (list, h)) (core_list_mergesort h' mb cmp_idx None)
    \<and> filled mb n h' (n - 1) \<and> l_mem h' = l_mem h
    \<and> l_idx h' (cell_data mb n 0) = 0 \<and> l_idx h' (cell_data mb n 1) = 0x7fff
    \<and> (\<forall>i. 1 \<le> i \<and> i < n - 2 \<longrightarrow>
         l_idx h' (cell_data mb n (n - 1 - i)) = index_value (of_nat n) seed (of_nat i))"
proof -
  let ?sz = "blksize div (16 + 4) - 2"
  have "100 div 20 \<le> unat blksize div 20" using b(1) by (rule div_le_mono)
  moreover have "20 * (unat blksize div 20) \<le> unat blksize" by simp
  ultimately have n: "3 \<le> n" "20 * (n + 2) \<le> unat blksize" unfolding n_def by simp_all
  have r: "unat mb + 12 * n < 2 ^ 32" using n b(2) by simp
  have d20: "blksize div (16 + 4) = of_nat (n + 2)"
  proof -
    have "unat (blksize div 20) = n + 2" using n unfolding n_def by (simp add: unat_div_distrib)
    then have "blksize div 20 = of_nat (n + 2)" using of_nat_unat [of "blksize div 20"] by (simp only:)
    then show ?thesis by simp
  qed
  have sz: "?sz = of_nat n" unfolding d20 by simp
  have ends: "mb + 8 * of_nat n = cell_data mb n 0" "cell_data mb n 0 + 4 * of_nat n = cell_data mb n n"
    and mid: "cell mb n = cell_data mb n 0"
    by (simp_all add: cell_def cell_data_def)
  define h1 where "h1 = set_data16 (cell_data mb n 0) 0x8080 (set_idx (cell_data mb n 0) 0
    (set_info mb (cell_data mb n 0) (set_next mb NULL h)))"
  have 1: "filled mb n h1 1" using b(3) by (simp add: filled_def h1_def)
  obtain h2 where 2: "core_list_insert_new h1 mb (0xffff, 0x7fff) (cell mb 1) (cell_data mb n 1)
      (cell mb n) (cell_data mb n n) = (cell mb 1, h2, cell mb 2, cell_data mb n 2)"
    "filled mb n h2 2" "l_mem h2 = l_mem h1" "l_idx h2 = (l_idx h1)(cell_data mb n 1 := 0x7fff)"
    using insert_new_filled [OF r b(3) _ _ 1, of "(0xffff, 0x7fff)"] n(1) by (auto simp: numeral_2_eq_2)
  obtain h3 where 3: "insert_loop (unat (of_nat n :: u32)) 0 h2 mb seed (cell mb 2) (cell_data mb n 2)
      (cell mb n) (cell_data mb n n) = h3" "filled mb n h3 (n - 1)" "l_mem h3 = l_mem h2"
    "\<forall>i < 2. l_idx h3 (cell_data mb n i) = l_idx h2 (cell_data mb n i)"
    using insert_loop_filled [OF r b(3) _ _ 2(2), of "unat (of_nat n :: u32)" 0] n(1) r
    by (simp add: unat_of_nat min_absorb2)
  let ?ys = "map (cell mb) (rev [2..<n - 1])"
  have cells: "rev (map (cell mb) [1..<n - 1]) = ?ys @ [cell mb 1]"
  proof -
    have "[1..<n - 1] = 1 # [2..<n - 1]" using n(1) by (subst upt_conv_Cons) (simp_all add: numeral_2_eq_2)
    then show ?thesis by (simp only: rev_map rev.simps map_append list.simps)
  qed
  have infos: "map (l_info h3) ?ys = map (cell_data mb n) (rev [2..<n - 1])"
    using 3(2) by (simp add: filled_def)
  have "distinct (map (cell_data mb n) (rev [2..<n - 1]))"
    using list_cell_inj(2) [OF r] by (auto simp: distinct_map inj_on_def)
  then have d: "distinct (map (l_info h3) ?ys)" by (simp only: infos)
  have "is_list (l_next h3) (l_next h3 mb) (?ys @ [cell mb 1])"
    using 3(2) unfolding filled_def cells by simp
  from index_loop_values [OF this d, of 1 "of_nat n" seed]
  obtain h4 where 4: "index_loop h3 (l_next h3 mb) 1 (of_nat n) seed = Some h4" "h4 = h3\<lparr>l_idx := l_idx h4\<rparr>"
    "\<forall>j < length ?ys. l_idx h4 (l_info h3 (?ys ! j)) = index_value (of_nat n) seed (1 + of_nat j)"
    "\<forall>d. d \<notin> l_info h3 ` set ?ys \<longrightarrow> l_idx h4 d = l_idx h3 d" by blast
  have own: "l_info h4 (cell mb i) = cell_data mb n i" if "i < n - 1" for i
    using 3(2) that by (subst 4(2)) (simp add: filled_def)
  have "filled mb n h4 (n - 1)" using 3(2) by (subst 4(2)) (simp add: filled_def)
  moreover have "l_mem h4 = l_mem h" using 3(3) 2(3) by (subst 4(2)) (simp add: h1_def)
  moreover have "l_idx h4 (cell_data mb n i) = l_idx h2 (cell_data mb n i)" if "i < 2" for i
  proof -
    have "cell_data mb n i \<notin> cell_data mb n ` {2..<n - 1}"
      using that n(1) by (intro list_cell_notin(2) [OF r]) auto
    moreover have "l_info h3 ` set ?ys = cell_data mb n ` {2..<n - 1}"
      using arg_cong [OF infos, of set] by (simp add: image_image)
    ultimately show ?thesis using 4(4) 3(4) that by simp
  qed
  moreover have "l_idx h2 (cell_data mb n 0) = 0" "l_idx h2 (cell_data mb n 1) = 0x7fff"
    using 2(4) list_cell_inj(2) [OF r, of 0 1] n(1) by (simp_all add: h1_def)
  moreover have "l_idx h4 (cell_data mb n (n - 1 - i)) = index_value (of_nat n) seed (of_nat i)"
    if "1 \<le> i" "i < n - 2" for i
  proof -
    have len: "i - 1 < length ?ys" using that by simp
    have "?ys ! (i - 1) = cell mb (n - 1 - i)" using that by (simp add: rev_nth Suc_diff_Suc numeral_2_eq_2)
    moreover have "l_info h3 (cell mb (n - 1 - i)) = cell_data mb n (n - 1 - i)"
      using 3(2) that by (simp add: filled_def)
    moreover have "1 + of_nat (i - 1) = (of_nat i :: u32)" using that by (cases i) simp_all
    ultimately show ?thesis using 4(3) len by metis
  qed
  moreover have "core_list_init h blksize mb seed
      = map_option (\<lambda>(list, h, _). (list, h)) (core_list_mergesort h4 mb cmp_idx None)"
  proof -
    have first: "mb + 8 = cell mb 1" "cell_data mb n 0 + 4 = cell_data mb n 1"
      using cell_Suc(1) [of mb 0] cell_Suc(2) [of mb n 0] by simp_all
    have "set_data16 (l_info (set_idx (l_info (set_info mb (cell_data mb n 0) (set_next mb NULL h)) mb) 0
        (set_info mb (cell_data mb n 0) (set_next mb NULL h))) mb) 0x8080
        (set_idx (l_info (set_info mb (cell_data mb n 0) (set_next mb NULL h)) mb) 0
          (set_info mb (cell_data mb n 0) (set_next mb NULL h))) = h1"
      by (simp add: h1_def)
    then show ?thesis
      unfolding core_list_init_def Let_def sz ends
      by (simp only: first 2(1) [unfolded mid] prod.case 3(1) [unfolded mid] 4(1) bind.bind_lunit)
  qed
  ultimately show ?thesis by (intro exI [of _ h4]) auto
qed

section \<open>Ascending indices\<close>

text \<open>The low byte of a mixed index is the item number with the seed added bitwise.\<close>

lemma mixed_low:
  "\<not> i < sz div 5 \<Longrightarrow> (ucast (index_value sz seed i) :: u8) = ucast i XOR ucast seed"
proof -
  assume "\<not> i < sz div 5"
  then have e: "index_value sz seed i
      = mask 14 AND (push_bit 8 (ucast ((i + 1) AND 0x07)) OR (ucast (i XOR scast seed) :: u16))"
    by (simp add: index_value_def mask_eq_exp_minus_1)
  show ?thesis
    unfolding e by (rule word_eqI_bits) (auto simp: word_bits bit_unsigned_iff bit_signed_iff)
qed

lemma mixed_high:
  assumes "\<not> i < sz div 5" and "unat i < 256" and "seed AND 0x3f00 \<noteq> 0"
  shows "256 \<le> unat (index_value sz seed i)"
proof -
  obtain b where b: "bit (seed AND 0x3f00) b" using assms(3) by (auto simp: bit_eq_iff)
  have m: "(0x3f00 :: s16) = push_bit 8 (mask 6)" by (simp add: mask_eq_exp_minus_1)
  have s: "8 \<le> b" "b < 14" "bit seed b"
    using b unfolding m by (auto simp: word_bits)
  have "(2 :: nat) ^ 8 \<le> 2 ^ b" using s(1) by (intro power_increasing) simp_all
  then have "unat i < 2 ^ b" using assms(2) by simp
  then have "\<not> bit (unat i) b" by (simp add: bit_iff_odd)
  then have "\<not> bit i b" by (simp add: bit_unsigned_iff s)
  have "bit (index_value sz seed i) b"
  proof -
    have e: "index_value sz seed i
        = mask 14 AND (push_bit 8 (ucast ((i + 1) AND 0x07)) OR (ucast (i XOR scast seed) :: u16))"
      using assms(1) by (simp add: index_value_def mask_eq_exp_minus_1)
    show ?thesis
      unfolding e using s \<open>\<not> bit i b\<close> by (auto simp: word_bits bit_unsigned_iff bit_signed_iff)
  qed
  then have "bit (unat (index_value sz seed i)) b" by (simp add: bit_unsigned_iff)
  then have "unat (index_value sz seed i) div 2 ^ b \<noteq> 0" by (metis bit_iff_odd even_zero)
  then have "2 ^ b \<le> unat (index_value sz seed i)" by (metis div_less not_le)
  moreover have "(2 :: nat) ^ 8 \<le> 2 ^ b" using s(1) by (intro power_increasing) simp_all
  ultimately show ?thesis by simp
qed

text \<open>The mixed indices come after the ones in sequence, as a comment of the code says they do.\<close>

definition mixed_after :: "nat \<Rightarrow> s16 \<Rightarrow> bool" where
  "mixed_after n seed \<longleftrightarrow> (\<forall>i. 1 \<le> i \<and> n div 5 \<le> i \<and> i < n - 2 \<longrightarrow>
     (let v = unat (index_value (of_nat n) seed (of_nat i)) in 0 < v \<and> n div 5 \<le> v))"

lemma of_nat_div_5: "n \<le> 256 \<Longrightarrow> unat (of_nat n div 5 :: u32) = n div 5"
  by (simp add: unat_div_distrib unat_of_nat)

lemma unat_small: "i \<le> 256 \<Longrightarrow> unat (of_nat i :: u32) = i"
  by (simp add: unat_of_nat)

lemma mixed_after_seeds:
  assumes "n \<le> 256" and "seed = 0 \<or> seed AND 0x3f00 \<noteq> 0"
  shows "mixed_after n seed"
  unfolding mixed_after_def Let_def
proof (intro allI impI)
  fix i assume i: "1 \<le> i \<and> n div 5 \<le> i \<and> i < n - 2"
  let ?v = "index_value (of_nat n) seed (of_nat i)"
  have il: "i \<le> 256" using i assms(1) by linarith
  have m: "\<not> (of_nat i :: u32) < of_nat n div 5"
    using il i by (simp only: word_less_nat_alt of_nat_div_5 [OF assms(1)] unat_small) simp
  show "0 < unat ?v \<and> n div 5 \<le> unat ?v"
  proof (cases "seed = 0")
    case True
    then have "(ucast ?v :: u8) = ucast (of_nat i :: u32)" using mixed_low [OF m, of seed] by simp
    then have "unat (ucast ?v :: u8) = unat (ucast (of_nat i :: u32) :: u8)" by (simp only:)
    then have "unat ?v mod 256 = i mod 256" using il by (simp add: unsigned_ucast_eq take_bit_eq_mod unat_small)
    moreover have "i mod 256 = i" by (rule mod_less) (use i assms(1) in linarith)
    moreover have "unat ?v mod 256 \<le> unat ?v" by (rule mod_less_eq_dividend)
    ultimately show ?thesis using i by linarith
  next
    case False
    have "n div 5 \<le> 256" using assms(1) by simp
    moreover have "256 \<le> unat ?v"
    proof (rule mixed_high [OF m])
      show "unat (of_nat i :: u32) < 256" using il i assms(1) by (simp only: unat_small) linarith
      show "seed AND 0x3f00 \<noteq> 0" using False assms(2) by blast
    qed
    ultimately show ?thesis by linarith
  qed
qed

lemma xor_cancel_right: "a XOR c = b XOR c \<longleftrightarrow> a = (b :: u8)"
proof
  assume "a XOR c = b XOR c"
  then have "(a XOR c) XOR c = (b XOR c) XOR c" by (simp only:)
  then show "a = b" by (simp only: xor.assoc xor_self_eq xor.right_neutral)
qed simp

lemma index_value_seq:
  assumes "n \<le> 256" and "i < n div 5"
  shows "unat (index_value (of_nat n) seed (of_nat i)) = i"
proof -
  have i: "i \<le> 256" using assms by linarith
  then have l: "(of_nat i :: u32) < of_nat n div 5"
    using assms(2) by (simp only: word_less_nat_alt of_nat_div_5 [OF assms(1)] unat_small)
  have "unat (ucast (of_nat i :: u32) :: s16) = i"
    using i by (simp add: unsigned_ucast_eq take_bit_eq_mod unat_small)
  then show ?thesis unfolding index_value_def using l by simp
qed

lemma index_value_inj:
  assumes n: "n \<le> 256" and a: "mixed_after n seed"
    and i: "1 \<le> i" "i < n - 2" and j: "1 \<le> j" "j < n - 2"
    and e: "index_value (of_nat n) seed (of_nat i) = index_value (of_nat n) seed (of_nat j)"
  shows "i = j"
proof -
  have less: "(of_nat k :: u32) < of_nat n div 5 \<longleftrightarrow> k < n div 5" if "k < n - 2" for k
  proof -
    have "k \<le> 256" using that n by linarith
    then show ?thesis by (simp only: word_less_nat_alt of_nat_div_5 [OF n] unat_small)
  qed
  note seq = index_value_seq [OF n, of _ seed]
  have mixed: "n div 5 \<le> unat (index_value (of_nat n) seed (of_nat k))" if "1 \<le> k" "k < n - 2" "\<not> k < n div 5" for k
    using a that by (simp add: mixed_after_def Let_def)
  consider "i < n div 5" "j < n div 5" | "i < n div 5" "\<not> j < n div 5" | "\<not> i < n div 5" "j < n div 5"
    | "\<not> i < n div 5" "\<not> j < n div 5" by blast
  then show ?thesis
  proof cases
    case 1
    then show ?thesis using seq [OF 1(1)] seq [OF 1(2)] unfolding e by linarith
  next
    case 2
    then show ?thesis using seq [OF 2(1)] mixed [OF j 2(2)] unfolding e by linarith
  next
    case 3
    then show ?thesis using seq [OF 3(2)] mixed [OF i 3(1)] unfolding e by linarith
  next
    case 4
    have "(ucast (of_nat i :: u32) :: u8) XOR ucast seed = ucast (of_nat j :: u32) XOR ucast seed"
      using e mixed_low [of "of_nat i" "of_nat n" seed] mixed_low [of "of_nat j" "of_nat n" seed] 4
      by (simp add: less i j)
    then have "unat (ucast (of_nat i :: u32) :: u8) = unat (ucast (of_nat j :: u32) :: u8)"
      by (simp only: xor_cancel_right)
    moreover have "i < 256" "j < 256" using i j n by linarith+
    ultimately show ?thesis by (simp add: unsigned_ucast_eq take_bit_eq_mod unat_small)
  qed
qed

lemma index_value_bounds:
  assumes "n \<le> 256" and "mixed_after n seed" and "1 \<le> i" and "i < n - 2"
  shows "index_value (of_nat n) seed (of_nat i) \<noteq> 0" and "index_value (of_nat n) seed (of_nat i) \<noteq> 0x7fff"
proof -
  let ?v = "index_value (of_nat n) seed (of_nat i)"
  have i: "i \<le> 256" using assms by linarith
  have "?v \<noteq> 0 \<and> ?v \<noteq> 0x7fff"
  proof (cases "i < n div 5")
    case True
    then have "unat ?v = i" by (rule index_value_seq [OF assms(1)])
    then show ?thesis using i assms(3) by auto
  next
    case False
    then have "0 < unat ?v" using assms by (simp add: mixed_after_def Let_def)
    moreover have "\<not> bit ?v 14"
      using False i unfolding index_value_def
      by (simp add: word_less_nat_alt of_nat_div_5 [OF assms(1)] unat_small bit_and_iff)
    moreover have "bit (0x7fff :: s16) 14" by simp
    ultimately show ?thesis by (metis less_irrefl unsigned_0)
  qed
  then show "?v \<noteq> 0" "?v \<noteq> 0x7fff" by simp_all
qed

text \<open>With the seed 7 they do not: the seventh item gets the index of the head.\<close>

lemma seed_7_not_after: "index_value 31 7 7 = 0" "\<not> mixed_after 31 7"
proof -
  show v: "index_value 31 7 7 = 0" by (simp add: index_value_def)
  show "\<not> mixed_after 31 7"
    unfolding mixed_after_def Let_def by (intro notI, drule spec [of _ 7]) (simp add: v)
qed

section \<open>The list as it is built\<close>

lemma sint_eq_iff: "sint v = sint w \<longleftrightarrow> v = (w :: s16)"
  by (metis signed_word_eqI)

lemma core_list_init_ok:
  fixes blksize :: u32
  defines "n \<equiv> unat blksize div 20 - 2"
  assumes b: "100 \<le> unat blksize" "unat mb + unat blksize \<le> 2 ^ 32" "mb \<noteq> 0"
  shows "\<exists>list h' ys. core_list_init h blksize mb seed = Some (list, h')
    \<and> is_list (l_next h') list ys \<and> mset ys = mset (map (cell mb) [0..<n - 1])
    \<and> (\<forall>i < n - 1. l_info h' (cell mb i) = cell_data mb n i)
    \<and> sorted (map (\<lambda>x. sint (l_idx h' (l_info h' x))) ys)
    \<and> (\<forall>x \<in> set ys. regen (l_data16 h' (l_info h' x)) = l_data16 h' (l_info h' x)) \<and> l_mem h' = l_mem h
    \<and> (n \<le> 256 \<and> mixed_after n seed \<longrightarrow> sorted_wrt (<) (map (\<lambda>x. sint (l_idx h' (l_info h' x))) ys))"
proof -
  obtain h1 where h1: "core_list_init h blksize mb seed
      = map_option (\<lambda>(list, h, _). (list, h)) (core_list_mergesort h1 mb cmp_idx None)"
    "filled mb n h1 (n - 1)" "l_mem h1 = l_mem h"
    "l_idx h1 (cell_data mb n 0) = 0" "l_idx h1 (cell_data mb n 1) = 0x7fff"
    "\<forall>i. 1 \<le> i \<and> i < n - 2 \<longrightarrow>
       l_idx h1 (cell_data mb n (n - 1 - i)) = index_value (of_nat n) seed (of_nat i)"
    using list_built [OF b, of h seed] unfolding n_def by blast
  have "100 div 20 \<le> unat blksize div 20" using b(1) by (rule div_le_mono)
  then have n: "3 \<le> n" by (simp add: n_def)
  have "20 * (unat blksize div 20) \<le> unat blksize" by simp
  moreover have "unat blksize < 2 ^ 32" using unsigned_less [of blksize, where ?'a = nat] by simp
  ultimately have n30: "n < 2 ^ 30" unfolding n_def by simp
  let ?xs = "mb # rev (map (cell mb) [1..<n - 1])"
  have l: "is_list (l_next h1) mb ?xs" "length ?xs = n - 1" "?xs \<noteq> []" "length ?xs < 2 ^ 30" "2 \<le> length ?xs"
    using h1(2) n n30 by (simp_all add: filled_def)
  have up: "[0..<n - 1] = 0 # [1..<n - 1]" using n by (subst upt_conv_Cons) simp_all
  have m: "mset ?xs = mset (map (cell mb) [0..<n - 1])" unfolding up by simp
  obtain h' list' ys where r: "core_list_mergesort h1 mb cmp_idx None = Some (list', h', None)"
    "is_list (l_next h') list' ys" "mset ys = mset ?xs"
    "sorted (map (\<lambda>x. sint (l_idx h1 (l_info h1 x))) ys)"
    "l_info h' = l_info h1" "l_idx h' = l_idx h1" "l_mem h' = l_mem h1"
    "\<forall>x \<in> set ?xs. l_data16 h' (l_info h1 x) = regen (l_data16 h1 (l_info h1 x))"
    using sort_by_idx [OF l(1,3,4)] l(5) by blast
  have sets: "set ys = set ?xs" using mset_eq_setD [OF r(3)] .
  let ?key = "\<lambda>x. sint (l_idx h' (l_info h' x))"
  have s: "sorted (map ?key ys)" using r(4-6) by simp
  have "sorted_wrt (<) (map ?key ys)" if "n \<le> 256 \<and> mixed_after n seed"
  proof -
    let ?f = "\<lambda>i. l_idx h1 (cell_data mb n i)"
    have n256: "n \<le> 256" and mx: "mixed_after n seed" using that by simp_all
    have v: "?f i = index_value (of_nat n) seed (of_nat (n - 1 - i))" "1 \<le> n - 1 - i" "n - 1 - i < n - 2"
      if "2 \<le> i" "i < n - 1" for i
    proof -
      have a: "1 \<le> n - 1 - i \<and> n - 1 - i < n - 2" "n - 1 - (n - 1 - i) = i" using that n by linarith+
      show "?f i = index_value (of_nat n) seed (of_nat (n - 1 - i))"
        using h1(6) [rule_format, OF a(1)] unfolding a(2) .
    qed (use that n in linarith)+
    have ends: "?f i \<noteq> ?f 0" "?f i \<noteq> ?f 1" if "2 \<le> i" "i < n - 1" for i
      using index_value_bounds [OF n256 mx v(2,3) [OF that]] v(1) [OF that] h1(4,5) by simp_all
    have 01: "?f 0 \<noteq> ?f 1" using h1(4,5) by simp
    have "i = j" if ij: "i < n - 1" "j < n - 1" "?f i = ?f j" for i j
    proof -
      have lt2: "k = 0 \<or> k = 1" if "\<not> 2 \<le> k" for k :: nat using that by auto
      consider "2 \<le> i" "2 \<le> j" | "2 \<le> i" "\<not> 2 \<le> j" | "\<not> 2 \<le> i" "2 \<le> j" | "\<not> 2 \<le> i" "\<not> 2 \<le> j"
        by blast
      then show ?thesis
      proof cases
        case 1
        have "n - 1 - i = n - 1 - j"
          using index_value_inj [OF n256 mx v(2,3) [OF 1(1) ij(1)] v(2,3) [OF 1(2) ij(2)]]
            v(1) [OF 1(1) ij(1)] v(1) [OF 1(2) ij(2)] ij(3) by simp
        then show ?thesis using ij by linarith
      next
        case 2
        then show ?thesis using ends [OF 2(1) ij(1)] lt2 [OF 2(2)] ij(3) by auto
      next
        case 3
        then show ?thesis using ends [OF 3(2) ij(2)] lt2 [OF 3(1)] ij(3) by auto
      next
        case 4
        then show ?thesis using lt2 [OF 4(1)] lt2 [OF 4(2)] ij(3) 01 by auto
      qed
    qed
    then have "inj_on ?f {0..<n - 1}" by (auto simp: inj_on_def)
    then have "distinct (map (\<lambda>i. sint (?f i)) [0..<n - 1])"
      by (auto simp: distinct_map inj_on_def sint_eq_iff)
    moreover have "map (\<lambda>i. sint (?f i)) [0..<n - 1] = map ?key (map (cell mb) [0..<n - 1])"
      using h1(2) r(5,6) by (simp add: filled_def)
    moreover have "mset (map ?key ys) = mset (map ?key (map (cell mb) [0..<n - 1]))"
      using r(3) m by (simp only: mset_map)
    ultimately have "distinct (map ?key ys)" by (metis mset_eq_imp_distinct_iff)
    then show ?thesis using s by (simp add: strict_sorted_iff)
  qed
  moreover have "\<forall>i < n - 1. l_info h' (cell mb i) = cell_data mb n i"
    using h1(2) r(5) by (simp add: filled_def)
  moreover have "\<forall>x \<in> set ys. regen (l_data16 h' (l_info h' x)) = l_data16 h' (l_info h' x)"
    using r(5,8) sets by (simp add: regen_idem)
  ultimately show ?thesis
    using h1(1,3) r(1-3,7) s m by (intro exI [of _ list'] exI [of _ h'] exI [of _ ys]) simp
qed

text \<open>C24: On a block of 100 bytes or more \<open>core_list_init\<close> returns a list of exactly two less than
  a twentieth of the block, less one, cells: the cells of the block in turn, each with its own data
  structure behind them, in ascending order of index and with data whose low byte repeats the high
  byte. When the mixed indices come after the ones in sequence, which they do for the performance and
  validation seeds on a block of up to 5 KiB, the indices differ, so the list benchmark restores the
  list.\<close>

theorem core_list_init_builds:
  fixes blksize :: u32
  defines "n \<equiv> unat blksize div 20 - 2"
  assumes b: "100 \<le> unat blksize" "unat mb + unat blksize \<le> 2 ^ 32" "mb \<noteq> 0"
  shows "\<exists>list h' ys. core_list_init h blksize mb seed = Some (list, h')
    \<and> is_list (l_next h') list ys \<and> mset ys = mset (map (cell mb) [0..<n - 1])
    \<and> (\<forall>i < n - 1. l_info h' (cell mb i) = cell_data mb n i)
    \<and> sorted (map (\<lambda>x. sint (l_idx h' (l_info h' x))) ys)
    \<and> (\<forall>x \<in> set ys. regen (l_data16 h' (l_info h' x)) = l_data16 h' (l_info h' x)) \<and> l_mem h' = l_mem h
    \<and> (n \<le> 256 \<and> mixed_after n seed \<longrightarrow> sorted_wrt (<) (map (\<lambda>x. sint (l_idx h' (l_info h' x))) ys))"
  using core_list_init_ok [OF b] unfolding n_def .

theorem core_list_init_builds_witness:
  "\<exists>list h' ys. core_list_init heap3 666 0x1000 0x3415 = Some (list, h') \<and> is_list (l_next h') list ys
    \<and> mset ys = mset (map (cell 0x1000) [0..<30])
    \<and> sorted_wrt (<) (map (\<lambda>x. sint (l_idx h' (l_info h' x))) ys)"
proof -
  have b: "100 \<le> unat (666 :: u32)" "unat (0x1000 :: u32) + unat (666 :: u32) \<le> 2 ^ 32" "(0x1000 :: u32) \<noteq> 0"
    by simp_all
  have n: "unat (666 :: u32) div 20 - 2 = 31" by simp
  have m: "mixed_after 31 0x3415" by (rule mixed_after_seeds) simp_all
  show ?thesis
    using core_list_init_builds [OF b, of heap3 "0x3415", unfolded n] m by auto
qed

end
