(* ===== verification/CoreMain.thy ===== *)
theory CoreMain
  imports CoreListInit
begin

text \<open>
  \<^verbatim>\<open>sw/coremark/core_main.c\<close>, the parts of \<^verbatim>\<open>core_util.c\<close> and \<^verbatim>\<open>riscinator/core_portme.c\<close> it calls: the
  seeds, the division of the static block, the timed run, the automatic number of iterations and the
  verdict. One context (\<open>MULTITHREAD\<close> is 1), static memory, seeds from volatile variables, no floating
  point, as \<^verbatim>\<open>riscinator/core_portme.h\<close> configures. What \<open>main\<close> prints is in the
  theory of the report; here a run ends with the number the verdict is printed by.

  What the build and the machine decide are arguments: \<open>CLK_FREQ_MHZ\<close>, \<open>ITERATIONS\<close>, the address
  and size of \<open>static_memblk\<close>, what the stack holds where \<open>results\<close> starts out uninitialised, and
  the reading \<open>clk k\<close> that the \<open>k\<close>-th \<open>csrr\<close> of the cycle counter gives.
\<close>

section \<open>The code: seeds\<close>

datatype run_kind = VALIDATION_RUN | PERFORMANCE_RUN | PROFILE_RUN

definition run_kind :: "u32 \<Rightarrow> run_kind" where
  "run_kind total_data_size =
     (if total_data_size = 1200 then PROFILE_RUN
      else if total_data_size = 2000 then PERFORMANCE_RUN else VALIDATION_RUN)"

record seeds =
  seed1_volatile :: s32
  seed2_volatile :: s32
  seed3_volatile :: s32
  seed4_volatile :: s32
  seed5_volatile :: s32

definition volatile_seeds :: "run_kind \<Rightarrow> s32 \<Rightarrow> seeds" where
  "volatile_seeds kind iterations =
     (case kind of
        VALIDATION_RUN \<Rightarrow> \<lparr>seed1_volatile = 0x3415, seed2_volatile = 0x3415, seed3_volatile = 0x66,
          seed4_volatile = iterations, seed5_volatile = 0\<rparr>
      | PERFORMANCE_RUN \<Rightarrow> \<lparr>seed1_volatile = 0x0, seed2_volatile = 0x0, seed3_volatile = 0x66,
          seed4_volatile = iterations, seed5_volatile = 0\<rparr>
      | PROFILE_RUN \<Rightarrow> \<lparr>seed1_volatile = 0x8, seed2_volatile = 0x8, seed3_volatile = 0x8,
          seed4_volatile = iterations, seed5_volatile = 0\<rparr>)"

definition get_seed_32 :: "seeds \<Rightarrow> s32 \<Rightarrow> s32" where
  "get_seed_32 s i =
     (if i = 1 then seed1_volatile s else if i = 2 then seed2_volatile s
      else if i = 3 then seed3_volatile s else if i = 4 then seed4_volatile s
      else if i = 5 then seed5_volatile s else 0)"

definition get_seed :: "seeds \<Rightarrow> s32 \<Rightarrow> s16" where
  "get_seed s x = ucast (get_seed_32 s x)"

definition ALL_ALGORITHMS_MASK :: u32 where
  "ALL_ALGORITHMS_MASK = 1 OR 2 OR 4"

text \<open>The fields of \<open>results[0]\<close> that come from the seeds and the configuration.\<close>

definition default_seeds :: "core_results \<Rightarrow> core_results" where
  "default_seeds r =
     (let r = (if res_seed1 r = 0 \<and> res_seed2 r = 0 \<and> res_seed3 r = 0
               then r\<lparr>res_seed1 := 0, res_seed2 := 0, res_seed3 := 0x66\<rparr> else r)
      in if res_seed1 r = 1 \<and> res_seed2 r = 0 \<and> res_seed3 r = 0
         then r\<lparr>res_seed1 := 0x3415, res_seed2 := 0x3415, res_seed3 := 0x66\<rparr> else r)"

definition take_seeds :: "seeds \<Rightarrow> u32 \<Rightarrow> ptr \<Rightarrow> core_results \<Rightarrow> core_results" where
  "take_seeds s total_data_size static_memblk r =
     (let r = r\<lparr>res_seed1 := get_seed s 1, res_seed2 := get_seed s 2, res_seed3 := get_seed s 3,
                res_iterations := get_seed_32 s 4, res_execs := get_seed_32 s 5\<rparr>;
          r = (if res_execs r = 0 then r\<lparr>res_execs := ALL_ALGORITHMS_MASK\<rparr> else r);
          r = default_seeds r
      in r\<lparr>res_memblock := (res_memblock r)[0 := static_memblk], res_size := total_data_size, res_err := 0\<rparr>)"

section \<open>The code: memory\<close>

text \<open>\<open>(1 << i) & execs\<close>\<close>

definition selected :: "u32 \<Rightarrow> nat \<Rightarrow> bool" where
  "selected execs i \<longleftrightarrow> push_bit i 1 AND execs \<noteq> 0"

definition num_algorithms :: "u32 \<Rightarrow> u16" where
  "num_algorithms execs = fold (\<lambda>i n. if selected execs i then n + 1 else n) [0..<3] 0"

text \<open>A division by zero is undefined.\<close>

definition divide_size :: "core_results \<Rightarrow> core_results option" where
  "divide_size r =
     (if num_algorithms (res_execs r) = 0 then None
      else Some (r\<lparr>res_size := res_size r div ucast (num_algorithms (res_execs r))\<rparr>))"

definition assign_step :: "nat \<Rightarrow> core_results \<times> u16 \<Rightarrow> core_results \<times> u16" where
  "assign_step i = (\<lambda>(r, j).
     if selected (res_execs r) i
     then (r\<lparr>res_memblock := (res_memblock r)[i + 1 := res_memblock r ! 0 + res_size r * ucast j]\<rparr>, j + 1)
     else (r, j))"

definition assign_blocks :: "core_results \<Rightarrow> core_results" where
  "assign_blocks r = fst (fold assign_step [0..<3] (r, 0))"

definition call_inits :: "list_heap \<Rightarrow> core_results \<Rightarrow> (list_heap \<times> core_results) option" where
  "call_inits h r =
     Option.bind
       (if res_execs r AND 1 \<noteq> 0
        then map_option (\<lambda>(list, h). (h, r\<lparr>res_list := list\<rparr>))
               (core_list_init h (res_size r) (res_memblock r ! 1) (res_seed1 r))
        else Some (h, r)) (\<lambda>(h, r).
     Option.bind
       (if res_execs r AND 2 \<noteq> 0
        then map_option (\<lambda>(_, mat). r\<lparr>res_mat := mat\<rparr>)
               (core_init_matrix (res_size r) (res_memblock r ! 2)
                  (scast (res_seed1 r) OR push_bit 16 (scast (res_seed2 r))) (res_mat r))
        else Some r) (\<lambda>r.
     if res_execs r AND 4 \<noteq> 0
     then map_option (\<lambda>m. (h\<lparr>l_mem := m\<rparr>, r))
            (core_init_state (l_mem h) (res_size r) (res_seed1 r) (res_memblock r ! 3))
     else Some (h, r)))"

section \<open>The code: iterations\<close>

text \<open>\<open>n\<close> turns remain, \<open>i\<close> counts.\<close>

primrec iterate_loop :: "nat \<Rightarrow> u32 \<Rightarrow> list_heap \<Rightarrow> core_results \<Rightarrow> (list_heap \<times> core_results) option" where
  "iterate_loop 0 i h res = Some (h, res)"
| "iterate_loop (Suc n) i h res =
     Option.bind (core_bench_list h res 1) (\<lambda>(h, res, crc).
     let res = res\<lparr>res_crc := crcu16 crc (res_crc res)\<rparr> in
     Option.bind (core_bench_list h res (- 1)) (\<lambda>(h, res, crc).
     let res = res\<lparr>res_crc := crcu16 crc (res_crc res)\<rparr>;
         res = (if i = 0 then res\<lparr>res_crclist := res_crc res\<rparr> else res)
     in iterate_loop n (i + 1) h res))"

definition iterate :: "list_heap \<Rightarrow> core_results \<Rightarrow> (list_heap \<times> core_results) option" where
  "iterate h res =
     iterate_loop (unat (res_iterations res)) 0 h
       (res\<lparr>res_crc := 0, res_crclist := 0, res_crcmatrix := 0, res_crcstate := 0\<rparr>)"

text \<open>The clock: the two times kept and the number of readings so far.\<close>

record timer =
  start_time_val :: u32
  stop_time_val :: u32
  readings :: nat

definition start_time :: "(nat \<Rightarrow> u32) \<Rightarrow> timer \<Rightarrow> timer" where
  "start_time clk t = t\<lparr>start_time_val := clk (readings t), readings := Suc (readings t)\<rparr>"

definition stop_time :: "(nat \<Rightarrow> u32) \<Rightarrow> timer \<Rightarrow> timer" where
  "stop_time clk t = t\<lparr>stop_time_val := clk (readings t), readings := Suc (readings t)\<rparr>"

definition get_time :: "timer \<Rightarrow> u32" where
  "get_time t = stop_time_val t - start_time_val t"

text \<open>\<open>EE_TICKS_PER_SEC\<close> is \<open>CLK_FREQ_MHZ * 1000000 / 1\<close>.\<close>

definition time_in_secs :: "u32 \<Rightarrow> u32 \<Rightarrow> u32" where
  "time_in_secs clk_freq_mhz ticks = ticks div (clk_freq_mhz * 1000000 div 1)"

definition timed_iterate ::
  "(nat \<Rightarrow> u32) \<Rightarrow> list_heap \<Rightarrow> core_results \<Rightarrow> timer \<Rightarrow> (list_heap \<times> core_results \<times> timer) option" where
  "timed_iterate clk h r t =
     (let t = start_time clk t in map_option (\<lambda>(h, r). (h, r, stop_time clk t)) (iterate h r))"

text \<open>\<open>while (secs_passed < 1)\<close>\<close>

partial_function (option) calibrate_loop ::
  "u32 \<Rightarrow> (nat \<Rightarrow> u32) \<Rightarrow> u32 \<Rightarrow> list_heap \<Rightarrow> core_results \<Rightarrow> timer
     \<Rightarrow> (u32 \<times> list_heap \<times> core_results \<times> timer) option" where
  "calibrate_loop mhz clk secs_passed h r t =
     (if secs_passed < 1
      then Option.bind (timed_iterate clk h (r\<lparr>res_iterations := res_iterations r * 10\<rparr>) t)
             (\<lambda>(h, r, t). calibrate_loop mhz clk (time_in_secs mhz (get_time t)) h r t)
      else Some (secs_passed, h, r, t))"

definition calibrate ::
  "u32 \<Rightarrow> (nat \<Rightarrow> u32) \<Rightarrow> list_heap \<Rightarrow> core_results \<Rightarrow> timer \<Rightarrow> (list_heap \<times> core_results \<times> timer) option"
where
  "calibrate mhz clk h r t =
     (if res_iterations r = 0
      then map_option (\<lambda>(secs_passed, h, r, t).
             let divisor = secs_passed; divisor = (if divisor = 0 then 1 else divisor)
             in (h, r\<lparr>res_iterations := res_iterations r * (1 + 10 div divisor)\<rparr>, t))
             (calibrate_loop mhz clk 0 h (r\<lparr>res_iterations := 1\<rparr>) t)
      else Some (h, r, t))"

section \<open>The code: verdict\<close>

definition seed_crc :: "core_results \<Rightarrow> u16" where
  "seed_crc r =
     crc16 (ucast (res_size r)) (crc16 (res_seed3 r) (crc16 (res_seed2 r) (crc16 (res_seed1 r) 0)))"

text \<open>\<open>known_id\<close> and \<open>total_errors\<close> after the \<open>switch\<close>.\<close>

definition known_run :: "u16 \<Rightarrow> s16 \<times> s16" where
  "known_run seedcrc =
     (if seedcrc = 0x8a02 then (0, 0) else if seedcrc = 0x7b05 then (1, 0)
      else if seedcrc = 0x4eaf then (2, 0) else if seedcrc = 0xe9f5 then (3, 0)
      else if seedcrc = 0x18f2 then (4, 0) else (- 1, - 1))"

definition list_known_crc :: "u16 list" where
  "list_known_crc = [0xd4b0, 0x3340, 0x6a79, 0xe714, 0xe3c1]"

definition matrix_known_crc :: "u16 list" where
  "matrix_known_crc = [0xbe52, 0x1199, 0x5608, 0x1fd7, 0x0747]"

definition state_known_crc :: "u16 list" where
  "state_known_crc = [0x5e47, 0x39bf, 0xe5a4, 0x8e3a, 0x8d84]"

definition check_crcs :: "s16 \<Rightarrow> core_results \<Rightarrow> core_results" where
  "check_crcs known_id r =
     (let k = unat known_id; r = r\<lparr>res_err := 0\<rparr>;
          r = (if res_execs r AND 1 \<noteq> 0 \<and> res_crclist r \<noteq> list_known_crc ! k
               then r\<lparr>res_err := res_err r + 1\<rparr> else r);
          r = (if res_execs r AND 2 \<noteq> 0 \<and> res_crcmatrix r \<noteq> matrix_known_crc ! k
               then r\<lparr>res_err := res_err r + 1\<rparr> else r)
      in if res_execs r AND 4 \<noteq> 0 \<and> res_crcstate r \<noteq> state_known_crc ! k
         then r\<lparr>res_err := res_err r + 1\<rparr> else r)"

text \<open>\<open>check_data_types\<close>, of the sizes of \<open>ee_u8\<close>, \<open>ee_u16\<close>, \<open>ee_s16\<close>, \<open>ee_s32\<close>, \<open>ee_u32\<close>,
  \<open>ee_ptr_int\<close> and \<open>int *\<close>.\<close>

definition check_data_types :: "nat \<Rightarrow> nat \<Rightarrow> nat \<Rightarrow> nat \<Rightarrow> nat \<Rightarrow> nat \<Rightarrow> nat \<Rightarrow> u8" where
  "check_data_types su8 su16 ss16 ss32 su32 sptr sintp =
     (let retval = 0;
          retval = (if su8 \<noteq> 1 then retval + 1 else retval);
          retval = (if su16 \<noteq> 2 then retval + 1 else retval);
          retval = (if ss16 \<noteq> 2 then retval + 1 else retval);
          retval = (if ss32 \<noteq> 4 then retval + 1 else retval);
          retval = (if su32 \<noteq> 4 then retval + 1 else retval);
          retval = (if sptr \<noteq> sintp then retval + 1 else retval)
      in retval)"

text \<open>\<open>total_errors\<close> as the last three messages of \<open>main\<close> test it.\<close>

definition total_errors :: "u32 \<Rightarrow> core_results \<Rightarrow> u32 \<Rightarrow> s16 \<times> core_results" where
  "total_errors mhz r total_time =
     (let (known_id, total_errors) = known_run (seed_crc r);
          (total_errors, r) = (if 0 \<le>s known_id
             then (let r = check_crcs known_id r in (total_errors + res_err r, r)) else (total_errors, r));
          total_errors = total_errors + ucast (check_data_types 1 2 2 4 4 4 4);
          total_errors = (if time_in_secs mhz total_time < 10 then total_errors + 1 else total_errors)
      in (total_errors, r))"

datatype verdict = Correct_operation_validated | Errors_detected | Cannot_validate

definition verdict :: "s16 \<Rightarrow> verdict" where
  "verdict errors =
     (if errors = 0 then Correct_operation_validated
      else if 0 <s errors then Errors_detected else Cannot_validate)"

text \<open>\<open>main\<close>, between \<open>portable_init\<close> and the end of the timed run.\<close>

definition core_run ::
  "u32 \<Rightarrow> seeds \<Rightarrow> u32 \<Rightarrow> ptr \<Rightarrow> (nat \<Rightarrow> u32) \<Rightarrow> list_heap \<Rightarrow> core_results \<Rightarrow> timer
     \<Rightarrow> (list_heap \<times> core_results \<times> timer) option" where
  "core_run mhz s total_data_size static_memblk clk h r0 t =
     Option.bind (divide_size (take_seeds s total_data_size static_memblk r0)) (\<lambda>r.
     Option.bind (call_inits h (assign_blocks r)) (\<lambda>(h, r).
     Option.bind (calibrate mhz clk h r t) (\<lambda>(h, r, t).
     timed_iterate clk h r t)))"

end
