(* ===== verification/CoreReport.thy ===== *)
theory CoreReport
  imports CoreMain EePrintf
begin

text \<open>
  What \<^verbatim>\<open>sw/coremark/core_main.c\<close> prints, and \<open>main\<close> as a whole. The calls of \<open>ee_printf\<close> a part of
  \<open>main\<close> makes are listed in order, each with its format and arguments; the few statements between
  them that change \<open>results[0]\<close> or \<open>total_errors\<close> do not depend on the printing. There is one context,
  so the loops over the contexts run once, with \<open>i = 0\<close>. \<open>COMPILER_VERSION\<close>, \<open>COMPILER_FLAGS\<close> and
  \<open>MEM_LOCATION\<close> are strings of the build and arguments here.
\<close>

section \<open>The code: printing\<close>

type_synonym printf_call = "string \<times> vararg list"

fun print_all :: "('s \<Rightarrow> char \<Rightarrow> 's) \<Rightarrow> printf_call list \<Rightarrow> 's \<Rightarrow> 's option" where
  "print_all send [] s = Some s"
| "print_all send ((fmt, args) # calls) s =
     Option.bind (ee_printf send fmt args s) (\<lambda>(_, s). print_all send calls s)"

section \<open>The code: the report\<close>

text \<open>The messages of the \<open>switch\<close> on \<open>seedcrc\<close>.\<close>

definition run_message :: "u16 \<Rightarrow> printf_call list" where
  "run_message seedcrc =
     (if seedcrc = 0x8a02 then [(''6k performance run parameters for coremark.'' @ nl, [])]
      else if seedcrc = 0x7b05 then [(''6k validation run parameters for coremark.'' @ nl, [])]
      else if seedcrc = 0x4eaf then [(''Profile generation run parameters for coremark.'' @ nl, [])]
      else if seedcrc = 0xe9f5 then [(''2K performance run parameters for coremark.'' @ nl, [])]
      else if seedcrc = 0x18f2 then [(''2K validation run parameters for coremark.'' @ nl, [])]
      else [])"

definition check_report :: "s16 \<Rightarrow> core_results \<Rightarrow> printf_call list \<times> core_results" where
  "check_report known_id r =
     (let k = unat known_id; r = r\<lparr>res_err := 0\<rparr>; out = [];
          (out, r) = (if res_execs r AND 1 \<noteq> 0 \<and> res_crclist r \<noteq> list_known_crc ! k
             then (out @ [(''[%u]ERROR! list crc 0x%04x - should be 0x%04x'' @ nl,
                           [A32 0, A32 (ucast (res_crclist r)), A32 (ucast (list_known_crc ! k))])],
                   r\<lparr>res_err := res_err r + 1\<rparr>) else (out, r));
          (out, r) = (if res_execs r AND 2 \<noteq> 0 \<and> res_crcmatrix r \<noteq> matrix_known_crc ! k
             then (out @ [(''[%u]ERROR! matrix crc 0x%04x - should be 0x%04x'' @ nl,
                           [A32 0, A32 (ucast (res_crcmatrix r)), A32 (ucast (matrix_known_crc ! k))])],
                   r\<lparr>res_err := res_err r + 1\<rparr>) else (out, r))
      in if res_execs r AND 4 \<noteq> 0 \<and> res_crcstate r \<noteq> state_known_crc ! k
         then (out @ [(''[%u]ERROR! state crc 0x%04x - should be 0x%04x'' @ nl,
                       [A32 0, A32 (ucast (res_crcstate r)), A32 (ucast (state_known_crc ! k))])],
               r\<lparr>res_err := res_err r + 1\<rparr>) else (out, r))"

text \<open>The messages of \<open>check_data_types\<close>, of the same sizes.\<close>

definition data_types_report :: "nat \<Rightarrow> nat \<Rightarrow> nat \<Rightarrow> nat \<Rightarrow> nat \<Rightarrow> nat \<Rightarrow> nat \<Rightarrow> printf_call list" where
  "data_types_report su8 su16 ss16 ss32 su32 sptr sintp =
     (if su8 \<noteq> 1 then [(''ERROR: ee_u8 is not an 8b datatype!'' @ nl, [])] else [])
     @ (if su16 \<noteq> 2 then [(''ERROR: ee_u16 is not a 16b datatype!'' @ nl, [])] else [])
     @ (if ss16 \<noteq> 2 then [(''ERROR: ee_s16 is not a 16b datatype!'' @ nl, [])] else [])
     @ (if ss32 \<noteq> 4 then [(''ERROR: ee_s32 is not a 32b datatype!'' @ nl, [])] else [])
     @ (if su32 \<noteq> 4 then [(''ERROR: ee_u32 is not a 32b datatype!'' @ nl, [])] else [])
     @ (if sptr \<noteq> sintp
        then [(''ERROR: ee_ptr_int is not a datatype that holds an int pointer!'' @ nl, [])] else [])
     @ (if check_data_types su8 su16 ss16 ss32 su32 sptr sintp > 0
        then [(''ERROR: Please modify the datatypes in core_portme.h!'' @ nl, [])] else [])"

definition times_report :: "u32 \<Rightarrow> core_results \<Rightarrow> u32 \<Rightarrow> printf_call list" where
  "times_report mhz r total_time =
     [(''CoreMark Size    : %lu'' @ nl, [A32 (res_size r)]),
      (''Total ticks      : %lu'' @ nl, [A32 total_time]),
      (''Total time (secs): %d'' @ nl, [A32 (time_in_secs mhz total_time)])]
     @ (if time_in_secs mhz total_time > 0
        then [(''Iterations/Sec   : %d'' @ nl, [A32 (1 * res_iterations r div time_in_secs mhz total_time)])]
        else [])
     @ (if time_in_secs mhz total_time < 10
        then [(''ERROR! Must execute for at least 10 secs for a valid result!'' @ nl, [])] else [])"

definition run_report :: "string \<Rightarrow> string \<Rightarrow> string \<Rightarrow> core_results \<Rightarrow> u16 \<Rightarrow> printf_call list" where
  "run_report compiler_version compiler_flags mem_location r seedcrc =
     [(''Iterations       : %lu'' @ nl, [A32 (1 * res_iterations r)]),
      (''Compiler version : %s'' @ nl, [AStr compiler_version]),
      (''Compiler flags   : %s'' @ nl, [AStr compiler_flags]),
      (''Memory location  : %s'' @ nl, [AStr mem_location]),
      (''seedcrc          : 0x%04x'' @ nl, [A32 (ucast seedcrc)])]
     @ (if res_execs r AND 1 \<noteq> 0
        then [(''[%d]crclist       : 0x%04x'' @ nl, [A32 0, A32 (ucast (res_crclist r))])] else [])
     @ (if res_execs r AND 2 \<noteq> 0
        then [(''[%d]crcmatrix     : 0x%04x'' @ nl, [A32 0, A32 (ucast (res_crcmatrix r))])] else [])
     @ (if res_execs r AND 4 \<noteq> 0
        then [(''[%d]crcstate      : 0x%04x'' @ nl, [A32 0, A32 (ucast (res_crcstate r))])] else [])
     @ [(''[%d]crcfinal      : 0x%04x'' @ nl, [A32 0, A32 (ucast (res_crc r))])]"

definition verdict_report :: "s16 \<Rightarrow> printf_call list" where
  "verdict_report errors =
     (if errors = 0
      then [(''Correct operation validated. See README.md for run and reporting rules.'' @ nl, [])] else [])
     @ (if 0 <s errors then [(''Errors detected'' @ nl, [])] else [])
     @ (if errors <s 0
        then [(''Cannot validate operation for these seed values, please compare '' @
               ''with results on a known platform.'' @ nl, [])] else [])"

text \<open>\<open>main\<close> behind the timed run: the calls, and \<open>results[0]\<close> at the end.\<close>

definition report ::
  "u32 \<Rightarrow> string \<Rightarrow> string \<Rightarrow> string \<Rightarrow> core_results \<Rightarrow> u32 \<Rightarrow> printf_call list \<times> core_results" where
  "report mhz compiler_version compiler_flags mem_location r total_time =
     (let seedcrc = seed_crc r;
          (known_id, errors) = known_run seedcrc;
          out = run_message seedcrc;
          (out, errors, r) =
            (if 0 \<le>s known_id
             then let (calls, r) = check_report known_id r in (out @ calls, errors + res_err r, r)
             else (out, errors, r));
          out = out @ data_types_report 1 2 2 4 4 4 4;
          errors = errors + ucast (check_data_types 1 2 2 4 4 4 4);
          out = out @ times_report mhz r total_time;
          errors = (if time_in_secs mhz total_time < 10 then errors + 1 else errors);
          out = out @ run_report compiler_version compiler_flags mem_location r seedcrc;
          out = out @ verdict_report errors
      in (out, r))"

section \<open>The code: the whole program\<close>

text \<open>\<open>portable_init\<close> of the sizes of \<open>ee_ptr_int\<close>, \<open>ee_u8 *\<close> and \<open>ee_u32\<close>, with the \<open>portable_id\<close> it
  sets, and that of \<open>portable_fini\<close>.\<close>

definition portable_init :: "nat \<Rightarrow> nat \<Rightarrow> nat \<Rightarrow> printf_call list \<times> u8" where
  "portable_init sptr sptru8 su32 =
     ((if sptr \<noteq> sptru8
       then [(''ERROR! Please define ee_ptr_int to a type that holds a pointer!'' @ nl, [])] else [])
      @ (if su32 \<noteq> 4 then [(''ERROR! Please define ee_u32 to a 32b unsigned type!'' @ nl, [])] else []), 1)"

definition portable_fini :: u8 where
  "portable_fini = 0"

definition core_main ::
  "u32 \<Rightarrow> seeds \<Rightarrow> u32 \<Rightarrow> ptr \<Rightarrow> string \<Rightarrow> string \<Rightarrow> string \<Rightarrow> nat \<Rightarrow> (nat \<Rightarrow> u32) \<Rightarrow> ('s \<Rightarrow> char \<Rightarrow> 's)
     \<Rightarrow> list_heap \<Rightarrow> core_results \<Rightarrow> timer \<Rightarrow> 's \<Rightarrow> (u8 \<times> list_heap \<times> core_results \<times> timer \<times> 's) option" where
  "core_main mhz seeds total_data_size static_memblk compiler_version compiler_flags mem_location
     sizeof_list_head clk send h r0 t s =
     (let (calls, portable_id) = portable_init 4 4 4 in
      Option.bind (print_all send calls s) (\<lambda>s.
      if 128 < sizeof_list_head
      then map_option (\<lambda>s. (portable_id, h, r0, t, s))
             (print_all send [(''list_head structure too big for comparable data!'' @ nl, [])] s)
      else Option.bind (core_run mhz seeds total_data_size static_memblk clk h r0 t) (\<lambda>(h, r, t).
        let (calls, r) = report mhz compiler_version compiler_flags mem_location r (get_time t) in
        map_option (\<lambda>s. (portable_fini, h, r, t, s)) (print_all send calls s))))"

end
