(* ===== verification/CoreMatrixProofs.thy ===== *)
theory CoreMatrixProofs
  imports CoreMatrix
begin

text \<open>
  The loops of \<^verbatim>\<open>core_matrix.c\<close> over the cells of a matrix as one walk over its flat index,
  and the properties of the file: what each product computes, that \<open>matrix_test\<close> gives \<open>A\<close>
  back, what \<open>matrix_sum\<close> counts, and the size, place and contents of the initial matrices.
\<close>

section \<open>Loops over cells\<close>

lemma row_major: "map (\<lambda>(i, j). i * n + j) (List.product [0..<k] [0..<n]) = [0..<k * n]"
proof (induction k)
  case (Suc k)
  have r: "map (\<lambda>j. k * n + j) [0..<n] = [k * n..<k * n + n]"
    using map_add_upt [of "k * n" n] by (simp only: add.commute [of "k * n"])
  have "List.product [0..<Suc k] [0..<n] = List.product [0..<k] [0..<n] @ map (Pair k) [0..<n]"
    by (simp add: product_concat_map)
  then have "map (\<lambda>(i, j). i * n + j) (List.product [0..<Suc k] [0..<n])
      = [0..<k * n] @ [k * n..<k * n + n]"
    by (simp only: map_append Suc.IH map_map o_def prod.case r)
  also have "\<dots> = [0..<Suc k * n]"
    using upt_add_eq_append [of 0 "k * n" n] by (simp add: add.commute)
  finally show ?case .
qed simp

lemma for_to_cells:
  "for_to N (\<lambda>i. for_to N (f i)) s
    = fold (\<lambda>(i, j). f (of_nat i) (of_nat j)) (List.product [0..<unat N] [0..<unat N]) s"
proof -
  have "fold (\<lambda>i. fold (\<lambda>j. f (of_nat i) (of_nat j)) [0..<unat N]) xs s
      = fold (\<lambda>(i, j). f (of_nat i) (of_nat j)) (List.product xs [0..<unat N]) s" for xs :: "nat list"
    by (induction xs arbitrary: s) (simp_all add: fold_map o_def)
  then show ?thesis by (simp add: for_to_def [abs_def])
qed

text \<open>A loop whose body looks at the flat index only.\<close>

lemma for_to_flat:
  "for_to N (\<lambda>i. for_to N (\<lambda>j. g (i * N + j))) s = fold (\<lambda>t. g (of_nat t)) [0..<unat N * unat N] s"
proof -
  have N: "of_nat (unat N) = N" by (rule of_nat_unat)
  have "for_to N (\<lambda>i. for_to N (\<lambda>j. g (i * N + j))) s
      = fold (\<lambda>(i, j). g (of_nat i * N + of_nat j)) (List.product [0..<unat N] [0..<unat N]) s"
    by (rule for_to_cells)
  also have "(\<lambda>(i, j). g (of_nat i * N + of_nat j)) = (\<lambda>t. g (of_nat t)) \<circ> (\<lambda>(i, j). i * unat N + j)"
    by (simp add: fun_eq_iff N)
  also have "fold \<dots> (List.product [0..<unat N] [0..<unat N]) s
      = fold (\<lambda>t. g (of_nat t)) (map (\<lambda>(i, j). i * unat N + j) (List.product [0..<unat N] [0..<unat N])) s"
    by (simp only: fold_map)
  finally show ?thesis by (simp only: row_major)
qed

lemma fold_upd_other: "y \<notin> x ` set ps \<Longrightarrow> fold (\<lambda>p C. C(x p := g p)) ps C y = C y"
  by (induction ps arbitrary: C) auto

lemma fold_upd:
  "inj_on x (set ps) \<Longrightarrow> p \<in> set ps \<Longrightarrow> fold (\<lambda>p C. C(x p := g p)) ps C (x p) = g p"
proof (induction ps arbitrary: C)
  case (Cons q ps)
  show ?case
  proof (cases "p \<in> set ps")
    case True
    then show ?thesis using Cons by (simp add: inj_on_def del: fun_upd_apply)
  next
    case False
    then have q: "p = q" using Cons.prems by simp
    have "x p \<notin> x ` set ps" using False Cons.prems by (auto simp: inj_on_def)
    from fold_upd_other [OF this, of g "C(x q := g q)"] show ?thesis
      by (simp add: q del: fun_upd_apply) (simp add: fun_upd_same)
  qed
qed simp

lemma cell_inj:
  fixes N :: u32
  assumes "unat N \<le> 2 ^ 16"
  shows "inj_on (\<lambda>(i, j). of_nat i * N + of_nat j) (set (List.product [0..<unat N] [0..<unat N]))"
    and "i < unat N \<Longrightarrow> j < unat N \<Longrightarrow> unat (of_nat i * N + of_nat j) = i * unat N + j"
    and "i < unat N \<Longrightarrow> j < unat N \<Longrightarrow> i * unat N + j < unat N * unat N"
proof -
  have lt: "i * unat N + j < unat N * unat N" if "i < unat N" "j < unat N" for i j
  proof -
    have "i * unat N + j < Suc i * unat N" using that by simp
    also have "\<dots> \<le> unat N * unat N" using that by (intro mult_le_mono1) simp
    finally show ?thesis .
  qed
  have sq: "unat N * unat N \<le> 2 ^ 32"
    using mult_le_mono [OF assms assms] by simp
  have u: "unat (of_nat i * N + of_nat j) = i * unat N + j" if "i < unat N" "j < unat N" for i j
  proof -
    have "of_nat i * N + of_nat j = of_nat i * of_nat (unat N) + of_nat j" by (simp only: of_nat_unat)
    also have "\<dots> = of_nat (i * unat N + j)" by (simp only: of_nat_add of_nat_mult)
    finally have e: "of_nat i * N + of_nat j = of_nat (i * unat N + j)" .
    show ?thesis using lt [OF that] sq unfolding e by (simp only: unat_of_nat) simp
  qed
  show "inj_on (\<lambda>(i, j). of_nat i * N + of_nat j) (set (List.product [0..<unat N] [0..<unat N]))"
  proof (rule inj_onI, clarsimp)
    fix i j i' j'
    assume b: "i < unat N" "j < unat N" "i' < unat N" "j' < unat N"
      and "of_nat i * N + of_nat j = of_nat i' * N + of_nat j'"
    then have e: "i * unat N + j = i' * unat N + j'" using u [of i j] u [of i' j'] by metis
    from arg_cong [OF e, of "\<lambda>t. t div unat N"] have "i = i'" using b by simp
    with e show "i = i' \<and> j = j'" by simp
  qed
  show "i < unat N \<Longrightarrow> j < unat N \<Longrightarrow> unat (of_nat i * N + of_nat j) = i * unat N + j"
    "i < unat N \<Longrightarrow> j < unat N \<Longrightarrow> i * unat N + j < unat N * unat N"
    by (rule u lt; assumption)+
qed

text \<open>A loop that assigns every cell a value that does not depend on the target.\<close>

lemma for_to_assign:
  assumes "unat N \<le> 2 ^ 16"
  shows "i < N \<Longrightarrow> j < N \<Longrightarrow>
      for_to N (\<lambda>i. for_to N (\<lambda>j C. C(i * N + j := g i j))) C (i * N + j) = g i j"
    and "unat N * unat N \<le> unat y \<Longrightarrow> for_to N (\<lambda>i. for_to N (\<lambda>j C. C(i * N + j := g i j))) C y = C y"
proof -
  let ?x = "\<lambda>(i, j). of_nat i * N + of_nat j" and ?g = "\<lambda>(i, j). g (of_nat i) (of_nat j)"
  let ?ps = "List.product [0..<unat N] [0..<unat N]"
  have e: "for_to N (\<lambda>i. for_to N (\<lambda>j C. C(i * N + j := g i j))) C = fold (\<lambda>p C. C(?x p := ?g p)) ?ps C"
    unfolding for_to_cells by (intro fold_cong) auto
  show "for_to N (\<lambda>i. for_to N (\<lambda>j C. C(i * N + j := g i j))) C (i * N + j) = g i j" if "i < N" "j < N"
  proof -
    have "(unat i, unat j) \<in> set ?ps" using that by (simp add: word_less_nat_alt)
    from fold_upd [OF cell_inj(1) [OF assms] this, of ?g C] show ?thesis
      by (simp add: e of_nat_unat)
  qed
  show "for_to N (\<lambda>i. for_to N (\<lambda>j C. C(i * N + j := g i j))) C y = C y" if "unat N * unat N \<le> unat y"
  proof -
    have "y \<notin> ?x ` set ?ps" using that cell_inj(2,3) [OF assms] by fastforce
    from fold_upd_other [OF this, of ?g C] show ?thesis by (simp add: e)
  qed
qed

text \<open>An inner loop that accumulates into one cell.\<close>

lemma for_to_accumulate:
  "for_to N (\<lambda>k C. C(x := C x + h k)) (C(x := 0)) = C(x := (\<Sum>k<unat N. h (of_nat k)))"
proof -
  have "fold (\<lambda>k C. C(x := C x + h (of_nat k))) [0..<n] (C(x := 0)) = C(x := (\<Sum>k<n. h (of_nat k)))" for n
    by (induction n) (simp_all add: fun_upd_same del: fun_upd_apply)
  then show ?thesis by (simp add: for_to_def)
qed

section \<open>Products\<close>

lemma bit_extract_field: "bit_extract x lo hi = take_bit hi (signed_drop_bit lo x)"
proof (rule word_eqI_bits)
  fix n assume n: "n < LENGTH(32)"
  have "bit (0xffffffff :: u32) k" if "k < 32" for k
  proof -
    have "(0xffffffff :: u32) = mask 32" by (simp add: mask_eq_exp_minus_1)
    then show ?thesis using that by (simp only: bit_mask_iff) simp
  qed
  then show "bit (bit_extract x lo hi) n = bit (take_bit hi (signed_drop_bit lo x)) n"
    using n by (auto simp: bit_extract_def word_bits bit_take_bit_iff bit_signed_drop_bit_iff)
qed

text \<open>C34: \<open>matrix_mul_matrix\<close> leaves in cell (i, j) of \<open>C\<close> the product of row i of \<open>A\<close> and
  column j of \<open>B\<close>, and \<open>matrix_mul_matrix_bitextract\<close> the sum over k of the product of the 4 bits
  from bit 2 and the 7 bits from bit 5 of the products of their elements; neither depends on what
  \<open>C\<close> held, and neither writes beyond the N * N cells.\<close>

theorem matrix_products:
  fixes C :: "u32 \<Rightarrow> s32"
  assumes "unat N \<le> 2 ^ 16" and "i < N" and "j < N" and "unat N * unat N \<le> unat y"
  shows "matrix_mul_matrix N C A B (i * N + j)
      = (\<Sum>k<unat N. scast (A (i * N + of_nat k)) * scast (B (of_nat k * N + j)))
    \<and> matrix_mul_matrix_bitextract N C A B (i * N + j)
      = (\<Sum>k<unat N. let t = scast (A (i * N + of_nat k)) * scast (B (of_nat k * N + j)) :: s32
           in take_bit 4 (signed_drop_bit 2 t) * take_bit 7 (signed_drop_bit 5 t))
    \<and> matrix_mul_matrix N C A B y = C y \<and> matrix_mul_matrix_bitextract N C A B y = C y"
  unfolding matrix_mul_matrix_def matrix_mul_matrix_bitextract_def Let_def for_to_accumulate
    bit_extract_field
  by (intro conjI for_to_assign [OF assms(1)] assms)

theorem matrix_products_witness:
  "matrix_mul_matrix 2 (\<lambda>_. 9) (\<lambda>t. ucast t) (\<lambda>t. ucast t + 1) (1 * 2 + 0)
      = (\<Sum>k<unat (2::u32). scast (ucast (1 * 2 + of_nat k :: u32) :: s16)
           * scast (ucast (of_nat k * 2 + 0 :: u32) + 1 :: s16))
    \<and> matrix_mul_matrix 2 (\<lambda>_. 9) (\<lambda>t. ucast t) (\<lambda>t. ucast t + 1) 4 = 9"
proof -
  have "unat (2::u32) \<le> 2 ^ 16" "(1::u32) < 2" "(0::u32) < 2" "unat (2::u32) * unat (2::u32) \<le> unat (4::u32)"
    by simp_all
  from matrix_products [OF this, of "\<lambda>_. 9" "\<lambda>t. ucast t" "\<lambda>t. ucast t + 1"] show ?thesis by blast
qed

lemma sint_mul_16:
  "sint (scast (x :: s16) * scast (y :: s16) :: s32) = sint x * sint y"
proof -
  have b: "\<bar>sint z\<bar> \<le> 2 ^ 15" for z :: s16
    using sint_ge [of z] sint_lt [of z] by (simp add: abs_le_iff)
  have "\<bar>sint x * sint y\<bar> \<le> 2 ^ 15 * 2 ^ 15"
    unfolding abs_mult by (rule mult_mono [OF b b]) simp_all
  then have r: "- (2 ^ 31) \<le> sint x * sint y" "sint x * sint y < 2 ^ 31" by (simp_all add: abs_le_iff)
  have "scast x * scast y = (word_of_int (sint x * sint y) :: s32)"
    by (metis of_int_sint of_int_mult)
  then show ?thesis using sint_of_int_small [of "sint x * sint y", where ?'a = 32] r by simp
qed

text \<open>\<open>matrix_mul_const\<close> multiplies every cell without overflow, and \<open>matrix_mul_vect\<close> leaves
  the product of the matrix with the vector in the first N entries of \<open>C\<close>; the rest of \<open>C\<close> stays as
  it was.\<close>

theorem matrix_scaling:
  fixes C :: "u32 \<Rightarrow> s32"
  assumes "unat N \<le> 2 ^ 16" and "i < N" and "j < N"
  shows "sint (matrix_mul_const N C A v (i * N + j)) = sint (A (i * N + j)) * sint v
    \<and> matrix_mul_vect N C A B i = (\<Sum>k<unat N. scast (A (i * N + of_nat k)) * scast (B (of_nat k)))
    \<and> (unat N \<le> unat y \<longrightarrow> matrix_mul_vect N C A B y = C y)
    \<and> (unat N * unat N \<le> unat y \<longrightarrow> matrix_mul_const N C A v y = C y)"
proof -
  have mc: "matrix_mul_const N C A v (i * N + j) = scast (A (i * N + j)) * scast v"
    "unat N * unat N \<le> unat y \<Longrightarrow> matrix_mul_const N C A v y = C y"
    unfolding matrix_mul_const_def using for_to_assign [OF assms(1)] assms by simp_all
  let ?g = "\<lambda>i. \<Sum>k<unat N. scast (A (i * N + of_nat k)) * scast (B (of_nat k)) :: s32"
  have v: "matrix_mul_vect N C A B = fold (\<lambda>i C. C(of_nat i := ?g (of_nat i))) [0..<unat N] C"
    unfolding matrix_mul_vect_def for_to_accumulate by (simp add: for_to_def)
  have inj: "inj_on (of_nat :: nat \<Rightarrow> u32) (set [0..<unat N])"
    using assms(1) by (auto intro!: inj_onI simp: word_of_nat_eq_iff take_bit_nat_eq_self)
  have "unat i \<in> set [0..<unat N]" using assms(2) by (simp add: word_less_nat_alt)
  from fold_upd [OF inj this, of "\<lambda>i. ?g (of_nat i)" C]
  have "matrix_mul_vect N C A B i = ?g i" by (simp add: v of_nat_unat)
  moreover have "matrix_mul_vect N C A B y = C y" if "unat N \<le> unat y"
  proof -
    have "y \<notin> of_nat ` set [0..<unat N]"
      using that assms(1) by (auto simp: unat_of_nat)
    from fold_upd_other [OF this, of "\<lambda>i. ?g (of_nat i)" C] show ?thesis by (simp add: v)
  qed
  ultimately show ?thesis using mc by (simp add: sint_mul_16)
qed

theorem matrix_scaling_witness:
  "sint (matrix_mul_const 2 (\<lambda>_. 9) (\<lambda>t. - ucast t) 300 (1 * 2 + 1)) = sint (- ucast (1 * 2 + 1 :: u32) :: s16) * sint (300 :: s16)
    \<and> matrix_mul_vect 2 (\<lambda>_. 9) (\<lambda>t. - ucast t) (\<lambda>_. 7) 1
      = (\<Sum>k<unat (2::u32). scast (- ucast (1 * 2 + of_nat k :: u32) :: s16) * scast (7 :: s16))"
proof -
  have "unat (2::u32) \<le> 2 ^ 16" "(1::u32) < 2" "(1::u32) < 2" by simp_all
  from matrix_scaling [OF this, of "\<lambda>_. 9" "\<lambda>t. - ucast t" 300] matrix_scaling [OF this, of "\<lambda>_. 9" "\<lambda>t. - ucast t" _ "\<lambda>_. 7"]
  show ?thesis by blast
qed

section \<open>The benchmark\<close>

lemma add_const_count:
  "fold (\<lambda>t A. A(x t := A (x t) + v)) ts A y = A y + of_nat (length (filter (\<lambda>t. x t = y) ts)) * (v :: s16)"
  by (induction ts arbitrary: A) (auto simp: algebra_simps)

lemma matrix_add_const_count:
  "matrix_add_const N A v y
    = A y + of_nat (length (filter (\<lambda>t. of_nat t = y) [0..<unat N * unat N])) * v"
proof -
  have "matrix_add_const N A v = fold (\<lambda>t A. A(of_nat t := A (of_nat t) + v)) [0..<unat N * unat N] A"
    unfolding matrix_add_const_def using for_to_flat [of N "\<lambda>t A. A(t := A t + v)" A] .
  then show ?thesis by (simp only: add_const_count)
qed

lemma matrix_add_const_inverse: "matrix_add_const N (matrix_add_const N A v) (- v) = A"
  by (rule ext) (simp add: matrix_add_const_count)

text \<open>C22: \<open>matrix_test\<close> and with it \<open>core_bench_matrix\<close> give \<open>A\<close> back as it was and leave \<open>B\<close>,
  the dimension and the pointers alone, for every size, seed and content, overflow included.\<close>

theorem matrix_test_restores:
  "fst (snd (matrix_test N C A B v)) = A
   \<and> (let p' = fst (core_bench_matrix p seed crc)
      in arr_A p' = arr_A p \<and> arr_B p' = arr_B p \<and> mp_N p' = mp_N p \<and> mp_A p' = mp_A p
         \<and> mp_B p' = mp_B p \<and> mp_C p' = mp_C p)"
  by (simp add: core_bench_matrix_def matrix_test_def Let_def matrix_add_const_inverse)

text \<open>What \<open>matrix_sum\<close> counts: 10 for an element at which the accumulator exceeds the limit, 1
  for another element that is larger than the one before.\<close>

fun score :: "s16 \<Rightarrow> s32 \<Rightarrow> s32 \<Rightarrow> s32 list \<Rightarrow> nat" where
  "score clip acc prev [] = 0"
| "score clip acc prev (c # cs) =
     (if sint clip < sint (acc + c) then 10 + score clip 0 c cs
      else (if sint prev < sint c then 1 else 0) + score clip (acc + c) c cs)"

lemma score_le: "score clip acc prev cs \<le> 10 * length cs"
proof (induction cs arbitrary: acc prev)
  case (Cons c cs)
  have "score clip 0 c cs \<le> 10 * length cs" "score clip (acc + c) c cs \<le> 10 * length cs"
    by (rule Cons.IH)+
  then show ?case by auto
qed simp

lemma scast_sless_16: "(scast (x :: s16) :: s32) <s y \<longleftrightarrow> sint x < sint y"
  by (simp add: word_sless_alt sint_up_scast is_up)

lemma matrix_sum_score:
  "matrix_sum N C clip = of_nat (score clip 0 0 (map (\<lambda>t. C (of_nat t)) [0..<unat N * unat N]))"
proof -
  define f where "f t = (\<lambda>(tmp, prev, ret :: s16). let cur = C t; tmp = tmp + cur;
      (tmp, ret) = (if scast clip <s tmp then (0, ret + 10) else (tmp, ret + (if prev <s cur then 1 else 0)))
      in (tmp, cur, ret))" for t
  have f: "f t (acc, prev, ret) = (if sint clip < sint (acc + C t) then (0, C t, ret + 10)
      else (acc + C t, C t, ret + (if sint prev < sint (C t) then 1 else 0)))" for t acc prev ret
    by (simp add: f_def Let_def scast_sless_16 sint_less_iff_word_sless)
  have "snd (snd (fold (\<lambda>t. f (of_nat t)) ts (acc, prev, ret)))
      = ret + of_nat (score clip acc prev (map (\<lambda>t. C (of_nat t)) ts))" for ts :: "nat list" and acc prev ret
    by (induction ts arbitrary: acc prev ret) (simp_all add: f)
  from this [of "[0..<unat N * unat N]" 0 0 0]
  have "snd (snd (for_to N (\<lambda>i. for_to N (\<lambda>j. f (i * N + j))) (0, 0, 0)))
      = of_nat (score clip 0 0 (map (\<lambda>t. C (of_nat t)) [0..<unat N * unat N]))"
    by (simp only: for_to_flat add_0)
  then show ?thesis
    unfolding matrix_sum_def f_def by (simp only: Let_def case_prod_beta)
qed

text \<open>\<open>matrix_sum\<close> reads the N * N cells once each in row-major order and returns, modulo
  2^16, 10 for every reset of its accumulator plus 1 for every other increase; the count is at most
  10 per cell, so up to N = 57 the result is exact and not negative.\<close>

theorem matrix_sum_counts:
  "\<exists>n. matrix_sum N C clip = of_nat n
    \<and> n = score clip 0 0 (map (\<lambda>t. C (of_nat t)) [0..<unat N * unat N])
    \<and> n \<le> 10 * (unat N * unat N)
    \<and> (57 < unat N \<or> sint (matrix_sum N C clip) = int n)"
proof (intro exI conjI)
  let ?cs = "map (\<lambda>t. C (of_nat t)) [0..<unat N * unat N]"
  let ?n = "score clip 0 0 ?cs"
  show "matrix_sum N C clip = of_nat ?n" by (rule matrix_sum_score)
  show n: "?n \<le> 10 * (unat N * unat N)" using score_le [of clip 0 0 ?cs] by simp
  show "57 < unat N \<or> sint (matrix_sum N C clip) = int ?n"
  proof (cases "57 < unat N")
    case False
    then have "unat N * unat N \<le> 57 * 57" by (intro mult_le_mono) simp_all
    with n have "?n < 2 ^ 15" by simp
    then show ?thesis unfolding matrix_sum_score by (intro disjI2 sint_of_nat_small) simp
  qed simp
qed simp

section \<open>Initialisation\<close>

lemma align_mem_diff: "align_mem x - x = 3 - ((x - 1) AND 3)"
proof -
  have "(y AND NOT m) + (y AND m) = y" for y m :: u32
  proof -
    have "(y AND NOT m) + (y AND m) = (y AND NOT m) OR (y AND m)"
      by (intro disjunctive_add) (auto simp: bit_and_iff bit_not_iff)
    also have "\<dots> = y" by (rule word_eqI_bits) (auto simp: word_bits)
    finally show ?thesis .
  qed
  from this [of "x - 1" 3] show ?thesis by (simp add: align_mem_def algebra_simps)
qed

lemma unat_and_3: "unat (w AND 3 :: u32) = unat w mod 4"
proof -
  have "(3 :: u32) = mask 2" by (simp add: mask_eq_exp_minus_1)
  then have "w AND 3 = take_bit 2 w" by (simp only: take_bit_eq_mask)
  then show ?thesis by (simp add: unsigned_take_bit_eq take_bit_eq_mod unat_mod_distrib)
qed

lemma mod_4_pred: "n mod 4 = 0 \<Longrightarrow> n \<noteq> 0 \<Longrightarrow> (n - 1) mod 4 = (3 :: nat)"
  by (cases n) (auto simp: mod_Suc split: if_splits)

lemma align_mem_id: "x AND 3 = 0 \<Longrightarrow> align_mem x = x"
proof -
  assume "x AND 3 = 0"
  then have x: "unat x mod 4 = 0" using unat_and_3 [of x] by simp
  have "unat (x - 1) mod 4 = 3"
  proof (cases "x = 0")
    case True
    then show ?thesis by (simp add: unsigned_minus_1_eq_mask mask_eq_exp_minus_1)
  next
    case False
    then have "unat x \<noteq> 0" by (simp add: unat_eq_zero)
    with x have "(unat x - 1) mod 4 = 3" by (intro mod_4_pred)
    then show ?thesis by (simp only: unat_minus_one [OF False])
  qed
  then have "unat ((x - 1) AND 3) = unat (3 :: u32)" by (simp only: unat_and_3) simp
  then have "(x - 1) AND 3 = 3" by (simp only: word_unat_eq_iff)
  then have "align_mem x - x = 0" unfolding align_mem_diff by simp
  then show ?thesis by simp
qed

lemma align_mem_near: "unat (align_mem x - x) \<le> 3"
proof -
  have "(x - 1) AND 3 \<le> 3" by (rule word_and_le1)
  then have "3 - ((x - 1) AND 3) \<le> 3" by (rule word_sub_le)
  then show ?thesis unfolding align_mem_diff by (simp add: word_le_nat_alt)
qed

lemma align_mem_aligned: "align_mem x AND 3 = 0"
proof -
  have "(y AND NOT (mask 2)) = push_bit 2 (drop_bit 2 y)" for y :: u32
  proof (rule word_eqI_bits)
    fix n
    show "bit (y AND NOT (mask 2)) n = bit (push_bit 2 (drop_bit 2 y)) n" if "n < LENGTH(32)"
    proof (cases "n < 2")
      case True
      then show ?thesis by (auto simp: word_bits)
    next
      case False
      then obtain k where "n = 2 + k" by (metis not_less le_Suc_ex)
      with that show ?thesis by (simp add: word_bits)
    qed
  qed
  then have "(x - 1) AND NOT 3 = 4 * drop_bit 2 (x - 1)"
    by (simp add: mask_eq_exp_minus_1 push_bit_eq_mult mult.commute)
  then have "align_mem x = 4 * (1 + drop_bit 2 (x - 1))"
    by (simp only: align_mem_def) (simp add: algebra_simps)
  moreover have "unat (4 * k :: u32) mod 4 = 0" for k
    by (simp add: unat_word_ariths mod_mod_cancel)
  ultimately show ?thesis using unat_and_3 [of "align_mem x"] by (metis unat_eq_zero)
qed

lemma size_loop_returns:
  assumes "unat blksize \<le> 2 ^ 31" and "unat i \<le> 2 ^ 14" and "unat j = 8 * (unat i * unat i)"
  shows "\<exists>r. size_loop blksize i j = Some r \<and> unat i \<le> unat r \<and> unat blksize \<le> 8 * (unat r * unat r)
    \<and> (unat r = unat i \<or> 8 * ((unat r - 1) * (unat r - 1)) < unat blksize)"
  using assms(2,3)
proof (induction "2 ^ 14 - unat i" arbitrary: i j rule: less_induct)
  case less
  show ?case
  proof (cases "j < blksize")
    case False
    then show ?thesis using less.prems
      by (subst size_loop.simps) (simp add: word_less_nat_alt not_less)
  next
    case True
    then have lt: "8 * (unat i * unat i) < unat blksize" using less.prems by (simp add: word_less_nat_alt)
    have i: "unat i < 2 ^ 14"
    proof (rule ccontr)
      assume "\<not> unat i < 2 ^ 14"
      then have "unat i = 2 ^ 14" using less.prems(1) by simp
      with lt assms(1) show False by simp
    qed
    let ?i = "i + 1" and ?j = "(i + 1) * (i + 1) * 2 * 4"
    have ui: "unat ?i = unat i + 1" using i by (simp add: unat_word_ariths)
    have sq: "(unat i + 1) * (unat i + 1) \<le> 2 ^ 14 * 2 ^ 14" using i by (intro mult_le_mono) simp_all
    have "unat (?i * ?i) = unat ?i * unat ?i"
      using sq by (intro unat_mult_small) (simp add: ui)
    moreover from this have "unat (?i * ?i * 2) = unat (?i * ?i) * 2"
      using sq unat_mult_small [of "?i * ?i" 2] by (simp add: ui)
    moreover from calculation have "unat (?i * ?i * 2 * 4) = unat (?i * ?i * 2) * 4"
      using sq unat_mult_small [of "?i * ?i * 2" 4] by (simp add: ui)
    ultimately have uj: "unat ?j = 8 * (unat ?i * unat ?i)" by simp
    have "\<exists>r. size_loop blksize ?i ?j = Some r \<and> unat ?i \<le> unat r \<and> unat blksize \<le> 8 * (unat r * unat r)
      \<and> (unat r = unat ?i \<or> 8 * ((unat r - 1) * (unat r - 1)) < unat blksize)"
      using i uj by (intro less.hyps) (simp_all add: ui)
    then show ?thesis using True lt
      by (subst size_loop.simps) (auto simp: Let_def ui)
  qed
qed

text \<open>The values of the matrices, cell by cell.\<close>

definition b_value :: "s32 \<Rightarrow> nat \<Rightarrow> s16" where
  "b_value seed t = of_nat (fact (t + 1)) * ucast seed + of_nat (t + 1)"

lemma take_bit_16_32:
  "take_bit 16 (x * y) = take_bit 16 (take_bit 32 x * take_bit 32 (y :: int))"
  "take_bit 16 (x + y) = take_bit 16 (take_bit 32 x + take_bit 32 (y :: int))"
  using take_bit_mult [of 16 "take_bit 32 x" "take_bit 32 y"]
    take_bit_add [of 16 "take_bit 32 x" "take_bit 32 y"]
  by (simp_all add: take_bit_mult take_bit_add)

lemma ucast16_mult: "(ucast (x * y :: u32) :: u16) = ucast x * ucast y"
  by (transfer, simp, rule take_bit_16_32)

lemma ucast16_add: "(ucast (x + y :: u32) :: u16) = ucast x + ucast y"
  by (transfer, simp, rule take_bit_16_32)

lemma ucast16_of_int: "(ucast (word_of_int k :: u32) :: u16) = word_of_int k"
  by transfer simp

lemma ucast16_of_nat: "(ucast (of_nat k :: u32) :: u16) = of_nat k"
  using ucast16_of_int [of "int k"] by (simp only: of_int_of_nat_eq)

lemma ucast16_rem: "(ucast (rem_65536 x) :: u16) = ucast x"
proof -
  have "sint x smod 65536 = sint x - sint x sdiv 65536 * 65536"
    by (rule minus_sdiv_mult_eq_smod [symmetric])
  then have "(ucast (rem_65536 x) :: u16) = word_of_int (sint x - sint x sdiv 65536 * 65536)"
    by (simp only: rem_65536_def ucast16_of_int)
  also have "\<dots> = word_of_int (sint x) - word_of_int (sint x sdiv 65536) * word_of_int 65536"
    by (simp only: of_int_diff of_int_mult)
  also have "(word_of_int 65536 :: u16) = 0" by simp
  finally show ?thesis
    using ucast16_of_int [of "sint x"] by (simp add: of_int_sint)
qed

definition cell_step :: "u32 \<Rightarrow> s32 \<times> s32 \<times> (u32 \<Rightarrow> s16) \<times> (u32 \<Rightarrow> s16)
    \<Rightarrow> s32 \<times> s32 \<times> (u32 \<Rightarrow> s16) \<times> (u32 \<Rightarrow> s16)" where
  "cell_step x = (\<lambda>(seed, order, A, B).
     let seed = rem_65536 (order * seed); b = ucast seed + ucast order
     in (seed, order + 1, A(x := (b + ucast order) AND 0xff), B(x := b)))"

lemma ucast16_scast: "(ucast (scast (v :: u16) :: u32) :: u16) = v"
  using ucast16_of_int [of "sint v"] by (simp add: of_int_sint)

lemma init_step_cell: "init_step N i j = cell_step (i * N + j)"
proof -
  have e: "(0xffff :: s16) = - 1" by simp
  have "v AND 0xffff = v" for v :: s16 by (simp only: e and.right_neutral)
  then show ?thesis
    by (auto simp: init_step_def cell_step_def Let_def matrix_clip_def ucast16_add ucast16_scast fun_eq_iff)
qed

lemma fact_step: "of_nat (Suc n) * (of_nat (fact n) * s) = (of_nat (fact (Suc n)) * s :: u16)"
  by (simp add: algebra_simps)

lemma cell_step_apply:
  "cell_step x (seed, order, A, B) = (rem_65536 (order * seed), order + 1,
     A(x := (ucast (rem_65536 (order * seed)) + ucast order + ucast order) AND 0xff),
     B(x := ucast (rem_65536 (order * seed)) + ucast order))"
  by (simp add: cell_step_def Let_def)

lemma cells_values:
  assumes "n \<le> 2 ^ 32"
  shows "\<exists>sd A B. fold (\<lambda>t. cell_step (of_nat t)) [0..<n] (seed, 1, A0, B0) = (sd, of_nat (n + 1), A, B)
    \<and> ucast sd = (of_nat (fact n) * ucast seed :: u16)
    \<and> (\<forall>t < n. B (of_nat t) = b_value seed t
         \<and> A (of_nat t) = (b_value seed t + of_nat (t + 1)) AND 0xff)"
  using assms
proof (induction n)
  case 0
  show ?case by simp
next
  case (Suc n)
  then obtain sd A B where IH:
    "fold (\<lambda>t. cell_step (of_nat t)) [0..<n] (seed, 1, A0, B0) = (sd, of_nat (n + 1), A, B)"
    "ucast sd = (of_nat (fact n) * ucast seed :: u16)"
    "\<And>t. t < n \<Longrightarrow> B (of_nat t) = b_value seed t \<and> A (of_nat t) = (b_value seed t + of_nat (t + 1)) AND 0xff"
    by auto
  let ?sd = "rem_65536 (of_nat (n + 1) * sd)" and ?b = "b_value seed n"
  have sd: "ucast ?sd = (of_nat (fact (Suc n)) * ucast seed :: u16)"
    unfolding ucast16_rem ucast16_mult ucast16_of_nat IH(2) using fact_step [of n "ucast seed"]
    by (simp only: Suc_eq_plus1)
  then have b: "ucast ?sd + ucast (of_nat (n + 1) :: u32) = ?b"
    unfolding b_value_def ucast16_of_nat by (simp only: Suc_eq_plus1)
  have step: "fold (\<lambda>t. cell_step (of_nat t)) [0..<Suc n] (seed, 1, A0, B0)
      = (?sd, of_nat (n + 1) + 1, A(of_nat n := (?b + of_nat (n + 1)) AND 0xff), B(of_nat n := ?b))"
  proof -
    have "fold (\<lambda>t. cell_step (of_nat t)) [0..<Suc n] (seed, 1, A0, B0)
        = cell_step (of_nat n) (sd, of_nat (n + 1), A, B)"
      using IH(1) by (simp del: of_nat_add of_nat_Suc)
    then show ?thesis unfolding cell_step_apply b by (simp only: ucast16_of_nat)
  qed
  have ne: "(of_nat t :: u32) \<noteq> of_nat n" if "t < n" for t
    using that Suc.prems by (simp add: word_of_nat_eq_iff take_bit_nat_eq_self)
  show ?case
    unfolding step using sd IH(3) ne by (auto simp: less_Suc_eq)
qed

lemma of_nat_dvd_16: "(2 :: nat) ^ 16 dvd k \<Longrightarrow> (of_nat k :: u16) = 0"
  by (simp add: word_of_nat_eq_0_iff)

lemma b_value_seedless:
  assumes "17 \<le> t"
  shows "b_value seed t = of_nat (t + 1)"
proof -
  have "(2 :: nat) ^ 16 dvd fact 18" by (simp add: fact_numeral)
  also have "fact 18 dvd (fact (t + 1) :: nat)" using assms by (intro fact_dvd) simp
  finally have "(of_nat (fact (t + 1)) :: u16) = 0" by (rule of_nat_dvd_16)
  then show ?thesis unfolding b_value_def by (simp only: mult_zero_left add_0)
qed

lemma core_init_matrix_eq:
  assumes "0 < unat blksize" and "unat blksize \<le> 2 ^ 31"
  shows "\<exists>N A B. core_init_matrix blksize memblk seed p = Some (N,
        p\<lparr>mp_A := align_mem memblk, mp_B := align_mem memblk + 2 * (N * N),
          mp_C := align_mem (align_mem memblk + 2 * (N * N) + 2 * (N * N)), mp_N := N,
          arr_A := A, arr_B := B\<rparr>)
    \<and> 8 * (unat N * unat N) < unat blksize \<and> unat blksize \<le> 8 * ((unat N + 1) * (unat N + 1))
    \<and> (\<forall>t < unat N * unat N. B (of_nat t) = b_value (if seed = 0 then 1 else seed) t
         \<and> A (of_nat t) = (B (of_nat t) + of_nat (t + 1)) AND 0xff)"
proof -
  let ?seed = "if seed = 0 then 1 else seed"
  obtain r where r: "size_loop blksize 0 0 = Some r" "unat blksize \<le> 8 * (unat r * unat r)"
    "unat r = 0 \<or> 8 * ((unat r - 1) * (unat r - 1)) < unat blksize"
    using size_loop_returns [of blksize 0 0] assms(2) by auto
  have r0: "unat r \<noteq> 0" using r(2) assms(1) by (intro notI) simp
  then have "r \<noteq> 0" by auto
  then have N: "unat (r - 1) = unat r - 1" by (rule unat_minus_one)
  let ?N = "r - 1"
  have lt: "8 * (unat ?N * unat ?N) < unat blksize" using r(3) r0 by (simp add: N)
  have le: "unat blksize \<le> 8 * ((unat ?N + 1) * (unat ?N + 1))" using r(2) r0 by (simp add: N)
  have n32: "unat ?N * unat ?N \<le> 2 ^ 32" using lt assms(2) by simp
  obtain sd A B where c: "fold (\<lambda>t. cell_step (of_nat t)) [0..<unat ?N * unat ?N] (?seed, 1, arr_A p, arr_B p)
      = (sd, of_nat (unat ?N * unat ?N + 1), A, B)"
    "\<forall>t < unat ?N * unat ?N. B (of_nat t) = b_value ?seed t
         \<and> A (of_nat t) = (b_value ?seed t + of_nat (t + 1)) AND 0xff"
    using cells_values [OF n32, of ?seed "arr_A p" "arr_B p"] by blast
  have "for_to ?N (\<lambda>i. for_to ?N (init_step ?N i)) (?seed, 1, arr_A p, arr_B p)
      = (sd, of_nat (unat ?N * unat ?N + 1), A, B)"
  proof -
    have "init_step ?N i = (\<lambda>j. cell_step (i * ?N + j))" for i
      by (rule ext) (rule init_step_cell)
    then show ?thesis using for_to_flat [of ?N cell_step] c(1) by (simp only:)
  qed
  then have "core_init_matrix blksize memblk seed p = Some (?N,
        p\<lparr>mp_A := align_mem memblk, mp_B := align_mem memblk + 2 * (?N * ?N),
          mp_C := align_mem (align_mem memblk + 2 * (?N * ?N) + 2 * (?N * ?N)), mp_N := ?N,
          arr_A := A, arr_B := B\<rparr>)"
    by (simp only: core_init_matrix_def Let_def r(1) Option.bind.simps prod.case)
  then show ?thesis using lt le c(2) by (intro exI [of _ ?N] exI [of _ A] exI [of _ B]) auto
qed

lemma aligned_add:
  assumes "x AND 3 = (0 :: u32)"
  shows "(x + 4 * M) AND 3 = 0"
proof -
  have "unat (x + y) mod 4 = (unat x + unat y) mod 4" for y
    by (simp add: unat_word_ariths mod_mod_cancel)
  moreover have "unat x mod 4 = 0" using assms unat_and_3 [of x] by simp
  moreover have "unat (4 * M) mod 4 = 0" by (simp add: unat_word_ariths mod_mod_cancel)
  ultimately have "unat (x + 4 * M) mod 4 = 0"
    using mod_add_eq [of "unat x" 4 "unat (4 * M)"] by simp
  then show ?thesis using unat_and_3 [of "x + 4 * M"] by (metis unat_eq_zero)
qed

text \<open>C35: For every block size up to 2^31 \<open>core_init_matrix\<close> returns the largest N whose three
  matrices, 8 * N * N bytes, are smaller than the block; \<open>A\<close>, \<open>B\<close> and \<open>C\<close> follow one another
  without gap or overlap from the block's first aligned address (at most 3 bytes in), so on an
  aligned block they lie inside it. \<open>C\<close> is not initialised.\<close>

theorem core_init_matrix_layout:
  assumes "0 < unat blksize" and "unat blksize \<le> 2 ^ 31"
  shows "\<exists>N p'. core_init_matrix blksize memblk seed p = Some (N, p')
    \<and> 8 * (unat N * unat N) < unat blksize \<and> unat blksize \<le> 8 * ((unat N + 1) * (unat N + 1))
    \<and> mp_N p' = N \<and> mp_A p' AND 3 = 0 \<and> unat (mp_A p' - memblk) \<le> 3
    \<and> (memblk AND 3 = 0 \<longrightarrow> mp_A p' = memblk)
    \<and> mp_B p' = mp_A p' + 2 * (N * N) \<and> mp_C p' = mp_B p' + 2 * (N * N) \<and> arr_C p' = arr_C p"
proof -
  have "align_mem (align_mem memblk + 2 * M + 2 * M) = align_mem memblk + 2 * M + 2 * M" for M :: u32
  proof (rule align_mem_id)
    show "align_mem memblk + 2 * M + 2 * M AND 3 = 0"
      using aligned_add [OF align_mem_aligned, of memblk M] by (simp add: algebra_simps)
  qed
  then show ?thesis
    using core_init_matrix_eq [OF assms, of memblk seed p] align_mem_aligned align_mem_near align_mem_id
    by auto
qed

definition mat0 :: mat_params where
  "mat0 = \<lparr>mp_N = 0, mp_A = 0, mp_B = 0, mp_C = 0, arr_A = \<lambda>_. 0, arr_B = \<lambda>_. 0, arr_C = \<lambda>_. 0\<rparr>"

theorem core_init_matrix_layout_witness:
  "\<exists>N p'. core_init_matrix 666 0x8000029a 0x66 mat0 = Some (N, p')
    \<and> 8 * (unat N * unat N) < 666 \<and> 666 \<le> 8 * ((unat N + 1) * (unat N + 1))
    \<and> mp_A p' AND 3 = 0 \<and> unat (mp_A p' - 0x8000029a) \<le> 3"
proof -
  have "0 < unat (666 :: u32)" "unat (666 :: u32) \<le> 2 ^ 31" by simp_all
  from core_init_matrix_layout [OF this, of "0x8000029a" "0x66" mat0] show ?thesis by auto
qed

text \<open>Cell t of \<open>B\<close> holds seed * (t+1)! + t + 1 and cell t of \<open>A\<close> the low byte of that plus
  t + 1, modulo 2^16 (0 counts as seed 1), although the running seed is reduced with the C remainder
  and may be negative. Since 2^16 divides 18!, the cells from the eighteenth on do not depend on the
  seed.\<close>

theorem core_init_matrix_values:
  assumes "0 < unat blksize" and "unat blksize \<le> 2 ^ 31"
  shows "\<exists>N p'. core_init_matrix blksize memblk seed p = Some (N, p')
    \<and> (\<forall>t < unat N * unat N.
         arr_B p' (of_nat t) = of_nat (fact (t + 1)) * ucast (if seed = 0 then 1 else seed) + of_nat (t + 1)
         \<and> arr_A p' (of_nat t) = (arr_B p' (of_nat t) + of_nat (t + 1)) AND 0xff
         \<and> (17 \<le> t \<longrightarrow> arr_B p' (of_nat t) = of_nat (t + 1)))"
proof -
  let ?s = "if seed = 0 then 1 else seed"
  obtain N p' where N: "core_init_matrix blksize memblk seed p = Some (N, p')"
    "\<forall>t < unat N * unat N. arr_B p' (of_nat t) = b_value ?s t
         \<and> arr_A p' (of_nat t) = (arr_B p' (of_nat t) + of_nat (t + 1)) AND 0xff"
    using core_init_matrix_eq [OF assms, of memblk seed p] by auto
  show ?thesis
  proof (intro exI conjI allI impI)
    show "core_init_matrix blksize memblk seed p = Some (N, p')" by (rule N(1))
    fix t assume t: "t < unat N * unat N"
    show "arr_B p' (of_nat t) = of_nat (fact (t + 1)) * ucast ?s + of_nat (t + 1)"
      using N(2) t by (simp only: b_value_def [symmetric])
    show "arr_A p' (of_nat t) = (arr_B p' (of_nat t) + of_nat (t + 1)) AND 0xff"
      using N(2) t by blast
    show "arr_B p' (of_nat t) = of_nat (t + 1)" if "17 \<le> t"
      using N(2) t b_value_seedless [OF that, of ?s] by metis
  qed
qed

theorem core_init_matrix_values_witness:
  "\<exists>N p'. core_init_matrix 666 0x80000000 0x66 mat0 = Some (N, p')
    \<and> (\<forall>t. t < unat N * unat N \<longrightarrow>
         arr_A p' (of_nat t) = (arr_B p' (of_nat t) + of_nat (t + 1)) AND 0xff)"
proof -
  have "0 < unat (666 :: u32)" "unat (666 :: u32) \<le> 2 ^ 31" by simp_all
  from core_init_matrix_values [OF this, of "0x80000000" "0x66" mat0] show ?thesis by blast
qed

end
