(* ===== verification/CoreMainCorrect.thy ===== *)
theory CoreMainCorrect
  imports CoreMain CoreMatrixProofs
begin

text \<open>The properties of a run of CoreMark, over those of its three algorithms.\<close>

section \<open>Iterations\<close>

text \<open>What every run of the list benchmark needs and keeps.\<close>

definition bench_ready :: "list_heap \<Rightarrow> core_results \<Rightarrow> ptr list \<Rightarrow> bool" where
  "bench_ready h res xs \<longleftrightarrow> is_list (l_next h) (res_list res) xs \<and> 3 \<le> length xs \<and> length xs < 2 ^ 30
     \<and> sorted_wrt (<) (map (\<lambda>x. sint (l_idx h (l_info h x))) xs) \<and> work_inv res h (Some res)"

lemma work_inv_rebase:
  assumes "work_inv res0 h (Some res)" and "fixed_part res' = fixed_part res"
  shows "work_inv res' h (Some res')"
  using assms by (auto simp: work_inv_def fixed_part_def)

lemma bench_ready_cong:
  assumes "bench_ready h res xs" and "fixed_part res' = fixed_part res"
  shows "bench_ready h res' xs"
proof -
  have "work_inv res' h (Some res')" using assms work_inv_rebase by (auto simp: bench_ready_def)
  moreover have "res_list res' = res_list res" using assms(2) by (simp add: fixed_part_def)
  ultimately show ?thesis using assms(1) by (simp add: bench_ready_def)
qed

lemma fixed_part_crclist [simp]: "fixed_part (res\<lparr>res_crclist := v\<rparr>) = fixed_part res"
  by (simp add: fixed_part_def)

text \<open>A run of the list benchmark keeps the list: cells, data structures, indices; the low bytes of the data are put back.\<close>

definition list_kept :: "ptr list \<Rightarrow> list_heap \<Rightarrow> list_heap \<Rightarrow> bool" where
  "list_kept xs h h' \<longleftrightarrow> l_info h' = l_info h \<and> l_idx h' = l_idx h
     \<and> (\<forall>x \<in> set xs. l_data16 h' (l_info h x) = regen (l_data16 h (l_info h x)))"

lemma list_kept_trans: "list_kept xs h h' \<Longrightarrow> list_kept xs h' h'' \<Longrightarrow> list_kept xs h h''"
  by (simp add: list_kept_def regen_idem)

lemma bench_step:
  assumes "bench_ready h res xs"
  shows "\<exists>h' res' crc. core_bench_list h res finder_idx = Some (h', res', crc)
    \<and> bench_ready h' res' xs \<and> fixed_part res' = fixed_part res \<and> list_kept xs h h'"
proof -
  obtain h' res' crc where r: "core_bench_list h res finder_idx = Some (h', res', crc)"
    "is_list (l_next h') (res_list res) xs" "l_info h' = l_info h" "l_idx h' = l_idx h"
    "\<forall>x \<in> set xs. l_data16 h' (l_info h x) = regen (l_data16 h (l_info h x))" "work_inv res h' (Some res')"
    using core_bench_list_ok [of h res xs finder_idx] assms unfolding bench_ready_def by blast
  have f: "fixed_part res' = fixed_part res" using r(6) by (simp add: work_inv_def)
  have "bench_ready h' res xs"
    using assms r work_inv_rebase [OF r(6), of res] f by (simp add: bench_ready_def)
  then have "bench_ready h' res' xs" using bench_ready_cong f by blast
  then show ?thesis using r(1,3-5) f by (auto simp: list_kept_def)
qed

text \<open>One iteration: the benchmark for the index 1 and for the index -1, whose results go into the checksum; the first
  iteration keeps it.\<close>

definition one_turn :: "bool \<Rightarrow> list_heap \<times> core_results \<Rightarrow> list_heap \<times> core_results \<Rightarrow> bool" where
  "one_turn first s s' \<longleftrightarrow>
     (\<exists>h1 r1 up h2 r2 down.
        core_bench_list (fst s) (snd s) 1 = Some (h1, r1, up)
        \<and> core_bench_list h1 (r1\<lparr>res_crc := crcu16 up (res_crc r1)\<rparr>) (- 1) = Some (h2, r2, down)
        \<and> s' = (h2, r2\<lparr>res_crc := crcu16 down (res_crc r2),
                      res_crclist := if first then crcu16 down (res_crc r2) else res_crclist r2\<rparr>))"

lemma iterate_loop_turns:
  assumes "bench_ready h res xs" "k + n \<le> 2 ^ 32"
  shows "\<exists>s. s 0 = (h, res) \<and> iterate_loop n (of_nat k) h res = Some (s n)
    \<and> (\<forall>j < n. one_turn (k + j = 0) (s j) (s (Suc j)) \<and> list_kept xs (fst (s j)) (fst (s (Suc j))))
    \<and> (\<forall>j \<le> n. bench_ready (fst (s j)) (snd (s j)) xs \<and> fixed_part (snd (s j)) = fixed_part res)"
  using assms
proof (induction n arbitrary: k h res)
  case 0
  then show ?case by (intro exI [of _ "\<lambda>_. (h, res)"]) simp
next
  case (Suc n)
  obtain h1 r1 up where 1: "core_bench_list h res 1 = Some (h1, r1, up)"
    "bench_ready h1 r1 xs" "fixed_part r1 = fixed_part res" "list_kept xs h h1"
    using bench_step [OF Suc.prems(1)] by blast
  let ?r1 = "r1\<lparr>res_crc := crcu16 up (res_crc r1)\<rparr>"
  have "bench_ready h1 ?r1 xs" using bench_ready_cong [OF 1(2)] by simp
  then obtain h2 r2 down where 2: "core_bench_list h1 ?r1 (- 1) = Some (h2, r2, down)"
    "bench_ready h2 r2 xs" "fixed_part r2 = fixed_part ?r1" "list_kept xs h1 h2"
    using bench_step by blast
  let ?r2 = "r2\<lparr>res_crc := crcu16 down (res_crc r2)\<rparr>"
  let ?r3 = "if k = 0 then ?r2\<lparr>res_crclist := res_crc ?r2\<rparr> else ?r2"
  have f: "fixed_part ?r3 = fixed_part r2" "fixed_part ?r3 = fixed_part res" using 1(3) 2(3) by simp_all
  have b: "bench_ready h2 ?r3 xs" using bench_ready_cong [OF 2(2) f(1)] .
  have i: "(of_nat k :: u32) = 0 \<longleftrightarrow> k = 0" using Suc.prems(2) by (simp add: word_unat_eq_iff unat_of_nat)
  have turn: "one_turn (k = 0) (h, res) (h2, ?r3)" using 1(1) 2(1) f(1) by (simp add: one_turn_def)
  have "Suc k + n \<le> 2 ^ 32" using Suc.prems(2) by simp
  from Suc.IH [OF b this] obtain s where s: "s 0 = (h2, ?r3)" "iterate_loop n (of_nat (Suc k)) h2 ?r3 = Some (s n)"
    "\<forall>j < n. one_turn (Suc k + j = 0) (s j) (s (Suc j)) \<and> list_kept xs (fst (s j)) (fst (s (Suc j)))"
    "\<forall>j \<le> n. bench_ready (fst (s j)) (snd (s j)) xs \<and> fixed_part (snd (s j)) = fixed_part ?r3" by blast
  define t where "t = case_nat (h, res) s"
  have t: "t 0 = (h, res)" "t (Suc j) = s j" for j by (simp_all add: t_def)
  have "iterate_loop (Suc n) (of_nat k) h res = Some (t (Suc n))"
    using s(2) i by (simp add: 1(1) 2(1) Let_def t add.commute del: of_nat_eq_0_iff split: if_splits)
  moreover have "\<forall>j < Suc n. one_turn (k + j = 0) (t j) (t (Suc j)) \<and> list_kept xs (fst (t j)) (fst (t (Suc j)))"
    using s(1,3) turn list_kept_trans [OF 1(4) 2(4)] by (auto simp: less_Suc_eq_0_disj t)
  moreover have "\<forall>j \<le> Suc n. bench_ready (fst (t j)) (snd (t j)) xs \<and> fixed_part (snd (t j)) = fixed_part res"
    using s(4) f(2) Suc.prems(1) t less_Suc_eq_0_disj by (simp only: less_Suc_eq_le [symmetric]) auto
  ultimately show ?case using t(1) by blast
qed

lemma iterate_turns:
  fixes h res xs
  defines "n \<equiv> unat (res_iterations res)"
  assumes "bench_ready h res xs"
  shows "\<exists>s. s 0 = (h, res\<lparr>res_crc := 0, res_crclist := 0, res_crcmatrix := 0, res_crcstate := 0\<rparr>) \<and> iterate h res = Some (s n)
    \<and> (\<forall>j < n. one_turn (j = 0) (s j) (s (Suc j)) \<and> list_kept xs (fst (s j)) (fst (s (Suc j))))
    \<and> (\<forall>j \<le> n. bench_ready (fst (s j)) (snd (s j)) xs \<and> fixed_part (snd (s j)) = fixed_part res)"
proof -
  let ?res = "res\<lparr>res_crc := 0, res_crclist := 0, res_crcmatrix := 0, res_crcstate := 0\<rparr>"
  have f: "fixed_part ?res = fixed_part res" by (simp add: fixed_part_def)
  then have "bench_ready h ?res xs" using bench_ready_cong [OF assms(2)] by blast
  moreover have "0 + n \<le> 2 ^ 32" using unsigned_less [of "res_iterations res", where ?'a = nat] by (simp add: n_def)
  ultimately show ?thesis using iterate_loop_turns [of h ?res xs 0 n] f by (simp add: iterate_def n_def)
qed

lemma iterate_ok:
  assumes "bench_ready h res xs"
  shows "\<exists>h' res'. iterate h res = Some (h', res') \<and> bench_ready h' res' xs \<and> fixed_part res' = fixed_part res"
  using iterate_turns [OF assms] by (metis order_refl prod.collapse)

lemma turns_kept:
  assumes "\<forall>j < n. list_kept xs (s j) (s (Suc j))" "j \<le> n"
  shows "l_info (s j) = l_info (s 0) \<and> l_idx (s j) = l_idx (s 0)
    \<and> (0 < j \<longrightarrow> (\<forall>x \<in> set xs. l_data16 (s j) (l_info (s 0) x) = regen (l_data16 (s 0) (l_info (s 0) x))))"
  using assms(2)
proof (induction j)
  case (Suc j)
  then have "list_kept xs (s j) (s (Suc j))" using assms(1) by simp
  then show ?case using Suc by (cases "j = 0") (auto simp: list_kept_def regen_idem)
qed simp

text \<open>C11: \<open>iterate\<close> returns, and has then gone through exactly as many iterations as the field says: \<open>s j\<close> is the state
  behind the \<open>j\<close>-th, each of which runs the list benchmark for the indices 1 and -1, adds both results to the checksum
  and, the first one, keeps it in \<open>res_crclist\<close>. Every iteration finds the list as the first did: same head, same
  cells in the same order with the same data structures and indices, the inputs of the benchmark unchanged, the state
  machine block sound; and from the second on, with the same data.\<close>

theorem iterate_restores:
  assumes "bench_ready h res xs"
  shows "\<exists>s. s 0 = (h, res\<lparr>res_crc := 0, res_crclist := 0, res_crcmatrix := 0, res_crcstate := 0\<rparr>)
    \<and> iterate h res = Some (s (unat (res_iterations res)))
    \<and> (\<forall>j < unat (res_iterations res). one_turn (j = 0) (s j) (s (Suc j)))
    \<and> (\<forall>j \<le> unat (res_iterations res).
         is_list (l_next (fst (s j))) (res_list res) xs \<and> l_info (fst (s j)) = l_info h \<and> l_idx (fst (s j)) = l_idx h
         \<and> fixed_part (snd (s j)) = fixed_part res \<and> bench_ready (fst (s j)) (snd (s j)) xs
         \<and> (0 < j \<longrightarrow> (\<forall>x \<in> set xs. l_data16 (fst (s j)) (l_info h x) = regen (l_data16 h (l_info h x)))))"
proof -
  let ?n = "unat (res_iterations res)"
  obtain s where s: "s 0 = (h, res\<lparr>res_crc := 0, res_crclist := 0, res_crcmatrix := 0, res_crcstate := 0\<rparr>)"
    "iterate h res = Some (s ?n)" "\<forall>j < ?n. one_turn (j = 0) (s j) (s (Suc j))"
    "\<forall>j < ?n. list_kept xs (fst (s j)) (fst (s (Suc j)))"
    "\<forall>j \<le> ?n. bench_ready (fst (s j)) (snd (s j)) xs \<and> fixed_part (snd (s j)) = fixed_part res"
    using iterate_turns [OF assms] by blast
  have "is_list (l_next (fst (s j))) (res_list res) xs" if "j \<le> ?n" for j
    using s(5) that by (auto simp: bench_ready_def fixed_part_def)
  then show ?thesis
    using s turns_kept [OF s(4)] by (intro exI [of _ s]) simp
qed

theorem iterate_restores_witness:
  "\<exists>s. iterate heap3s (results3\<lparr>res_iterations := 2\<rparr>) = Some (s 2) \<and> one_turn True (s 0) (s 1) \<and> one_turn False (s 1) (s 2)
    \<and> is_list (l_next (fst (s (2 :: nat)))) 8 [8, 16, 24]"
proof -
  let ?r = "results3\<lparr>res_iterations := 2\<rparr>"
  have w: "work_inv results3 heap3s (Some results3)"
    by (rule results3_sound) (simp add: heap3s_def heap3_def)
  have r: "res_list results3 = 8" by (simp add: results3_def)
  have "bench_ready heap3s results3 [8, 16, 24]"
    using w by (simp add: bench_ready_def r) (simp add: heap3s_def heap3_def)
  then have b: "bench_ready heap3s ?r [8, 16, 24]"
    by (auto simp: bench_ready_def work_inv_def fixed_part_def)
  have n: "unat (res_iterations ?r) = 2" by simp
  from iterate_restores [OF b, unfolded n] obtain s where "iterate heap3s ?r = Some (s 2)"
    "\<forall>j < 2. one_turn (j = 0) (s j) (s (Suc j))" "is_list (l_next (fst (s 2))) (res_list ?r) [8, 16, 24]" by blast
  moreover have "res_list ?r = 8" using r by simp
  ultimately show ?thesis by (intro exI [of _ s]) (auto simp: numeral_2_eq_2)
qed

section \<open>Memory\<close>

text \<open>The selected algorithms in front of number \<open>i\<close>, and all of them.\<close>

definition rank :: "u32 \<Rightarrow> nat \<Rightarrow> nat" where
  "rank execs i = length (filter (selected execs) [0..<i])"

lemma upt_3: "[0..<3] = [0, 1, 2 :: nat]"
  by (simp add: upt_rec)

lemma upt_small: "[0..<1] = [0 :: nat]" "[0..<2] = [0, 1 :: nat]"
  by (simp_all add: upt_rec)

lemma num_algorithms_rank: "unat (num_algorithms execs) = rank execs 3"
  by (simp add: num_algorithms_def rank_def upt_3)

lemma update_4: "[a, b, c, d][2 := v] = [a, b, v, d]" "[a, b, c, d][3 := v] = [a, b, c, v]"
  by (simp_all add: numeral_eq_Suc)

lemma assign_blocks_cells:
  assumes "length (res_memblock r) = 4"
  shows "length (res_memblock (assign_blocks r)) = 4"
    and "res_memblock (assign_blocks r) ! 0 = res_memblock r ! 0"
    and "i < 3 \<Longrightarrow> res_memblock (assign_blocks r) ! (i + 1)
      = (if selected (res_execs r) i then res_memblock r ! 0 + res_size r * of_nat (rank (res_execs r) i)
         else res_memblock r ! (i + 1))"
proof -
  obtain a b c d where m: "res_memblock r = [a, b, c, d]"
    using assms by (auto simp: numeral_eq_Suc length_Suc_conv)
  have "\<exists>j. assign_blocks r = r\<lparr>res_memblock := [a,
      if selected (res_execs r) 0 then a + res_size r * of_nat (rank (res_execs r) 0) else b,
      if selected (res_execs r) 1 then a + res_size r * of_nat (rank (res_execs r) 1) else c,
      if selected (res_execs r) 2 then a + res_size r * of_nat (rank (res_execs r) 2) else d]\<rparr>"
    by (simp add: assign_blocks_def assign_step_def upt_3 m rank_def upt_small update_4)
  then have e: "res_memblock (assign_blocks r) = [a,
      if selected (res_execs r) 0 then a + res_size r * of_nat (rank (res_execs r) 0) else b,
      if selected (res_execs r) 1 then a + res_size r * of_nat (rank (res_execs r) 1) else c,
      if selected (res_execs r) 2 then a + res_size r * of_nat (rank (res_execs r) 2) else d]" by auto
  show "length (res_memblock (assign_blocks r)) = 4" "res_memblock (assign_blocks r) ! 0 = res_memblock r ! 0"
    by (simp_all add: e m)
  assume "i < 3"
  then have "i = 0 \<or> i = 1 \<or> i = 2" by auto
  then show "res_memblock (assign_blocks r) ! (i + 1)
      = (if selected (res_execs r) i then res_memblock r ! 0 + res_size r * of_nat (rank (res_execs r) i)
         else res_memblock r ! (i + 1))"
    unfolding e m by auto
qed

lemma rank_mono: "i \<le> j \<Longrightarrow> rank e i \<le> rank e j"
  by (metis rank_def filter_append length_append le_add1 upt_add_eq_append zero_le le_add_diff_inverse)

lemma rank_less: "selected e i \<Longrightarrow> i < j \<Longrightarrow> rank e i < rank e j"
  using rank_mono [of "Suc i" j e] by (simp add: rank_def)

lemma rank_3: "rank e 3 \<le> 3"
  by (simp add: rank_def upt_3)

text \<open>C26: The static block is divided evenly among the selected algorithms, in order: the blocks lie
  inside it, do not overlap, and the pointers of algorithms that are not selected are left alone. The
  division itself fails exactly if none of the three bits is set.\<close>

theorem memory_split:
  assumes "length (res_memblock r) = 4" and "unat (res_memblock r ! 0) + unat (res_size r) \<le> 2 ^ 32"
  shows "case divide_size r of
      None \<Rightarrow> \<forall>i < 3. \<not> selected (res_execs r) i
    | Some r1 \<Rightarrow> (let mb = res_memblock (assign_blocks r1); n = unat (res_size r1) in
        n = unat (res_size r) div rank (res_execs r) 3 \<and> mb ! 0 = res_memblock r ! 0
        \<and> (\<forall>i < 3. if selected (res_execs r) i
            then unat (mb ! (i + 1)) = unat (mb ! 0) + n * rank (res_execs r) i
              \<and> unat (mb ! (i + 1)) + n \<le> unat (mb ! 0) + unat (res_size r)
            else mb ! (i + 1) = res_memblock r ! (i + 1))
        \<and> (\<forall>i j. i < j \<and> j < 3 \<and> selected (res_execs r) i \<and> selected (res_execs r) j \<longrightarrow>
            unat (mb ! (i + 1)) + n \<le> unat (mb ! (j + 1))))"
proof (cases "num_algorithms (res_execs r) = 0")
  case True
  then have "rank (res_execs r) 3 = 0" using num_algorithms_rank [of "res_execs r"] by simp
  then have "\<forall>i < 3. \<not> selected (res_execs r) i" by (simp add: rank_def filter_empty_conv)
  then show ?thesis using True by (simp add: divide_size_def)
next
  case False
  let ?e = "res_execs r" and ?c = "rank (res_execs r) 3"
  let ?r1 = "r\<lparr>res_size := res_size r div ucast (num_algorithms ?e)\<rparr>"
  let ?n = "unat (res_size ?r1)" and ?base = "res_memblock r ! 0"
  have "unat (num_algorithms ?e) \<noteq> 0" using False by (simp only: unat_eq_zero not_False_eq_True)
  then have c0: "0 < ?c" by (simp only: num_algorithms_rank)
  have c: "unat (ucast (num_algorithms ?e) :: u32) = ?c"
    using rank_3 [of ?e] by (simp add: num_algorithms_rank [symmetric] unsigned_ucast_eq take_bit_eq_mod)
  have "res_size ?r1 = res_size r div ucast (num_algorithms ?e)" by simp
  then have n: "?n = unat (res_size r) div ?c" by (simp only: unat_div_distrib c)
  have fits: "?n * k \<le> unat (res_size r)" if "k \<le> ?c" for k
  proof -
    have "?n * k \<le> ?n * ?c" using that by simp
    also have "\<dots> \<le> unat (res_size r)" unfolding n by (rule div_times_less_eq_dividend)
    finally show ?thesis .
  qed
  note cells = assign_blocks_cells [of ?r1, simplified, OF assms(1)]
  have at: "unat (res_memblock (assign_blocks ?r1) ! (i + 1)) = unat ?base + ?n * rank ?e i
      \<and> ?n * rank ?e i + ?n \<le> unat (res_size r)"
    if "i < 3" "selected ?e i" for i
  proof -
    have rk: "rank ?e i + 1 \<le> ?c" using rank_less [OF that(2,1)] by simp
    have le: "?n * rank ?e i + ?n \<le> unat (res_size r)" using fits [OF rk] by (simp add: algebra_simps)
    have small: "rank ?e i < 4" using rk rank_3 [of ?e] by linarith
    have size: "unat (res_size r) < 2 ^ 32" "unat ?base < 2 ^ 32"
      using unsigned_less [of "res_size r", where ?'a = nat] unsigned_less [of ?base, where ?'a = nat] by simp_all
    have k: "unat (of_nat (rank ?e i) :: u32) = rank ?e i" using small by (simp add: unat_of_nat)
    have less: "?n * rank ?e i < 2 ^ 32" using le size(1) by linarith
    have u: "unat (res_size ?r1 * of_nat (rank ?e i)) = ?n * rank ?e i"
      using unat_mult_small [of "res_size ?r1" "of_nat (rank ?e i)"] less unfolding k by simp
    have "unat ?base + ?n * rank ?e i < 2 ^ 32"
    proof (cases "?n = 0")
      case True
      then show ?thesis using size(2) by (simp only: mult_0 add_0_right)
    next
      case False
      then show ?thesis using le assms(2) by linarith
    qed
    then have "unat (?base + res_size ?r1 * of_nat (rank ?e i)) = unat ?base + ?n * rank ?e i"
      by (simp only: unat_word_ariths(1) u) simp
    then show ?thesis using cells(3) [OF that(1)] that(2) le by simp
  qed
  have "unat (res_memblock (assign_blocks ?r1) ! (i + 1)) + ?n \<le> unat (res_memblock (assign_blocks ?r1) ! (j + 1))"
    if "i < j" "j < 3" "selected ?e i" "selected ?e j" for i j
  proof -
    have "rank ?e i + 1 \<le> rank ?e j" using rank_less [OF that(3,1)] by simp
    then have "?n * (rank ?e i + 1) \<le> ?n * rank ?e j" by (rule mult_le_mono2)
    then show ?thesis using at [of i] at [of j] that by (simp add: algebra_simps)
  qed
  then show ?thesis
    using False n at cells by (simp add: divide_size_def Let_def)
qed

theorem memory_split_witness:
  "\<exists>r1. divide_size (results3\<lparr>res_memblock := [0x1000, 1, 2, 3], res_size := 2000, res_execs := 5\<rparr>) = Some r1
    \<and> unat (res_size r1) = 1000 \<and> unat (res_memblock (assign_blocks r1) ! 1) = 0x1000
    \<and> res_memblock (assign_blocks r1) ! 2 = 2 \<and> unat (res_memblock (assign_blocks r1) ! 3) = 0x1000 + 1000"
proof -
  let ?r = "results3\<lparr>res_memblock := [0x1000, 1, 2, 3], res_size := 2000, res_execs := 5\<rparr>"
  have b: "length (res_memblock ?r) = 4" "unat (res_memblock ?r ! 0) + unat (res_size ?r) \<le> 2 ^ 32" by simp_all
  have s: "selected 5 0" "\<not> selected 5 1" "selected 5 2" by (simp_all add: selected_def)
  have n: "num_algorithms 5 = 2" by (simp add: num_algorithms_def upt_3 s del: One_nat_def)
  have r: "rank 5 3 = 2" "rank 5 0 = 0" "rank 5 2 = 1"
    by (simp_all add: rank_def upt_3 upt_small s del: One_nat_def)
  obtain r1 where d: "divide_size ?r = Some r1" by (simp add: divide_size_def n)
  let ?m = "res_memblock (assign_blocks r1)"
  note ms = memory_split [OF b, unfolded d option.case Let_def]
  have size: "unat (res_size r1) = 1000" "?m ! 0 = 0x1000" using ms r(1) by simp_all
  have all: "\<forall>i < 3. if selected (res_execs ?r) i
      then unat (?m ! (i + 1)) = unat (?m ! 0) + unat (res_size r1) * rank (res_execs ?r) i
        \<and> unat (?m ! (i + 1)) + unat (res_size r1) \<le> unat (?m ! 0) + unat (res_size ?r)
      else ?m ! (i + 1) = res_memblock ?r ! (i + 1)"
    using ms by blast
  show ?thesis
    using spec [OF all, of 0] spec [OF all, of 1] spec [OF all, of 2] size s r d
    by (simp add: numeral_2_eq_2 [symmetric])
qed

section \<open>The verdict\<close>

lemma crcu8_unroll: "crcu8 d c = snd (crcu8_step (crcu8_step (crcu8_step (crcu8_step
    (crcu8_step (crcu8_step (crcu8_step (crcu8_step (d, c)))))))))"
  by (simp add: crcu8_def numeral_eq_Suc)

lemma seed_codes:
  "map (\<lambda>(s1, s2, s3, size). crc16 size (crc16 s3 (crc16 s2 (crc16 s1 0))))
     [(0, 0, 0x66, 2000), (0x3415, 0x3415, 0x66, 2000), (8, 8, 8, 400), (0, 0, 0x66, 666), (0x3415, 0x3415, 0x66, 666)]
   = [0x8a02, 0x7b05, 0x4eaf, 0xe9f5, 0x18f2]"
  by (simp add: crc16_def crcu16_def crcu8_unroll crcu8_step_def)

text \<open>The five codes the \<open>switch\<close> knows are those of the parameters its comments give: two sizes
  of performance run, two of validation run, and the profile run.\<close>

theorem known_runs:
  "map (\<lambda>(s1, s2, s3, size). known_run (seed_crc
       (r\<lparr>res_seed1 := s1, res_seed2 := s2, res_seed3 := s3, res_size := size\<rparr>)))
     [(0, 0, 0x66, 2000), (0x3415, 0x3415, 0x66, 2000), (8, 8, 8, 400), (0, 0, 0x66, 666), (0x3415, 0x3415, 0x66, 666)]
   = [(0, 0), (1, 0), (2, 0), (3, 0), (4, 0)]"
  using seed_codes by (simp add: seed_crc_def known_run_def)

lemma check_crcs_err:
  "res_err (check_crcs k r) = of_bool (res_execs r AND 1 \<noteq> 0 \<and> res_crclist r \<noteq> list_known_crc ! unat k)
     + of_bool (res_execs r AND 2 \<noteq> 0 \<and> res_crcmatrix r \<noteq> matrix_known_crc ! unat k)
     + of_bool (res_execs r AND 4 \<noteq> 0 \<and> res_crcstate r \<noteq> state_known_crc ! unat k)"
  by (simp add: check_crcs_def Let_def)

lemma check_data_types_ok: "check_data_types (Suc 0) 2 2 4 4 4 4 = 0"
  by (simp add: check_data_types_def)

lemma known_run_cases:
  obtains (known) k where "known_run c = (of_nat k, 0)" "k < 5" | (unknown) "known_run c = (- 1, - 1)"
proof -
  have "(\<exists>k < 5. known_run c = (of_nat k, 0)) \<or> known_run c = (- 1, - 1)"
    by (auto simp: known_run_def intro: exI [of _ 0] exI [of _ 1] exI [of _ 2] exI [of _ 3] exI [of _ 4])
  then show ?thesis using that by blast
qed

text \<open>C25: What "Correct operation validated" says. For known parameters: the checksum of every
  selected algorithm is the known one and the run took ten seconds or more. For unknown parameters,
  which cannot be validated, it is printed exactly if the run was too short, because the error that
  counts is added to the \<open>-1\<close> that marks them.\<close>

theorem verdict_iff:
  "verdict (fst (total_errors mhz r ticks)) = Correct_operation_validated \<longleftrightarrow>
     (let k = fst (known_run (seed_crc r)); short = time_in_secs mhz ticks < 10
      in if k = - 1 then short
         else \<not> short \<and> (res_execs r AND 1 = 0 \<or> res_crclist r = list_known_crc ! unat k)
           \<and> (res_execs r AND 2 = 0 \<or> res_crcmatrix r = matrix_known_crc ! unat k)
           \<and> (res_execs r AND 4 = 0 \<or> res_crcstate r = state_known_crc ! unat k))"
proof (cases rule: known_run_cases [of "seed_crc r"])
  case (known k)
  have k: "(of_nat k :: s16) \<noteq> - 1" "0 \<le>s (of_nat k :: s16)"
  proof -
    have "k = 0 \<or> k = 1 \<or> k = 2 \<or> k = 3 \<or> k = 4" using known(2) by linarith
    then show "(of_nat k :: s16) \<noteq> - 1" "0 \<le>s (of_nat k :: s16)" by (auto simp: word_sle_eq)
  qed
  show ?thesis
    using known k by (simp add: total_errors_def check_data_types_ok check_crcs_err verdict_def Let_def)
next
  case unknown
  then show ?thesis by (simp add: total_errors_def check_data_types_ok verdict_def Let_def word_sle_eq)
qed

section \<open>The number of iterations\<close>

lemma bench_ready_iterations [simp]:
  "bench_ready h (r\<lparr>res_iterations := v\<rparr>) xs = bench_ready h r xs"
  by (auto simp: bench_ready_def work_inv_def fixed_part_def)

lemma timed_iterate_ok:
  assumes "bench_ready h r xs"
  shows "\<exists>h' r'. timed_iterate clk h r t = Some (h', r', t\<lparr>start_time_val := clk (readings t),
      stop_time_val := clk (readings t + 1), readings := readings t + 2\<rparr>)
    \<and> bench_ready h' r' xs \<and> fixed_part r' = fixed_part r"
  using iterate_ok [OF assms] by (auto simp: timed_iterate_def start_time_def stop_time_def)

text \<open>The seconds the \<open>k\<close>-th timed run from the state \<open>t\<close> of the clock shows.\<close>

definition run_secs :: "u32 \<Rightarrow> (nat \<Rightarrow> u32) \<Rightarrow> timer \<Rightarrow> nat \<Rightarrow> u32" where
  "run_secs mhz clk t k = time_in_secs mhz (clk (readings t + 2 * k + 1) - clk (readings t + 2 * k))"

lemma calibrate_loop_ok:
  assumes "bench_ready h r xs" and "1 \<le> run_secs mhz clk t k"
  shows "\<exists>j h' r'. calibrate_loop mhz clk 0 h r t = Some (run_secs mhz clk t j, h', r', t\<lparr>
        start_time_val := clk (readings t + 2 * j), stop_time_val := clk (readings t + 2 * j + 1),
        readings := readings t + 2 * j + 2\<rparr>)
    \<and> j \<le> k \<and> 1 \<le> run_secs mhz clk t j \<and> (\<forall>i < j. run_secs mhz clk t i = 0)
    \<and> bench_ready h' r' xs \<and> fixed_part r' = fixed_part (r\<lparr>res_iterations := res_iterations r * 10 ^ (j + 1)\<rparr>)"
  using assms
proof (induction k arbitrary: h r t)
  case 0
  let ?r = "r\<lparr>res_iterations := res_iterations r * 10\<rparr>"
  have "bench_ready h ?r xs" using 0(1) by simp
  from timed_iterate_ok [OF this, of clk t] obtain h1 r1 where 1: "timed_iterate clk h ?r t = Some (h1, r1,
      t\<lparr>start_time_val := clk (readings t), stop_time_val := clk (readings t + 1), readings := readings t + 2\<rparr>)"
    "bench_ready h1 r1 xs" "fixed_part r1 = fixed_part ?r" by blast
  have s: "\<not> run_secs mhz clk t 0 < 1" using 0(2) by (simp only: not_less)
  have "calibrate_loop mhz clk 0 h r t = calibrate_loop mhz clk (run_secs mhz clk t 0) h1 r1
      (t\<lparr>start_time_val := clk (readings t), stop_time_val := clk (readings t + 1), readings := readings t + 2\<rparr>)"
    by (subst calibrate_loop.simps) (simp add: 1(1) get_time_def run_secs_def)
  also have "\<dots> = Some (run_secs mhz clk t 0, h1, r1,
      t\<lparr>start_time_val := clk (readings t), stop_time_val := clk (readings t + 1), readings := readings t + 2\<rparr>)"
    using s by (subst calibrate_loop.simps) simp
  finally show ?case
    using 1(2,3) 0(2) by (intro exI [of _ 0] exI [of _ h1] exI [of _ r1]) simp
next
  case (Suc k)
  let ?r = "r\<lparr>res_iterations := res_iterations r * 10\<rparr>"
  let ?t = "t\<lparr>start_time_val := clk (readings t), stop_time_val := clk (readings t + 1), readings := readings t + 2\<rparr>"
  have "bench_ready h ?r xs" using Suc.prems(1) by simp
  from timed_iterate_ok [OF this, of clk t] obtain h1 r1 where 1: "timed_iterate clk h ?r t = Some (h1, r1, ?t)"
    "bench_ready h1 r1 xs" "fixed_part r1 = fixed_part ?r" by blast
  have e: "calibrate_loop mhz clk 0 h r t = calibrate_loop mhz clk (run_secs mhz clk t 0) h1 r1 ?t"
    by (subst calibrate_loop.simps) (simp add: 1(1) get_time_def run_secs_def)
  show ?case
  proof (cases "run_secs mhz clk t 0 < 1")
    case False
    then have "calibrate_loop mhz clk 0 h r t = Some (run_secs mhz clk t 0, h1, r1, ?t)"
      unfolding e by (subst calibrate_loop.simps) simp
    moreover have "1 \<le> run_secs mhz clk t 0" using False by (simp only: not_less)
    ultimately show ?thesis using 1(2,3) by (intro exI [of _ 0] exI [of _ h1] exI [of _ r1]) simp
  next
    case True
    then have z: "run_secs mhz clk t 0 = 0" by (simp add: word_less_1)
    have shift: "run_secs mhz clk ?t i = run_secs mhz clk t (Suc i)" for i
      by (simp add: run_secs_def algebra_simps)
    have "1 \<le> run_secs mhz clk ?t k" using Suc.prems(2) by (simp only: shift)
    from Suc.IH [OF 1(2) this] obtain j h' r' where
      j: "calibrate_loop mhz clk 0 h1 r1 ?t = Some (run_secs mhz clk ?t j, h', r', ?t\<lparr>
          start_time_val := clk (readings ?t + 2 * j), stop_time_val := clk (readings ?t + 2 * j + 1),
          readings := readings ?t + 2 * j + 2\<rparr>)"
        "j \<le> k" "1 \<le> run_secs mhz clk ?t j" "\<forall>i < j. run_secs mhz clk ?t i = 0" "bench_ready h' r' xs"
        "fixed_part r' = fixed_part (r1\<lparr>res_iterations := res_iterations r1 * 10 ^ (j + 1)\<rparr>)" by blast
    have "\<forall>i < Suc j. run_secs mhz clk t i = 0"
      using z j(4) unfolding shift by (auto simp: less_Suc_eq_0_disj)
    moreover have "fixed_part r' = fixed_part (r\<lparr>res_iterations := res_iterations r * 10 ^ (Suc j + 1)\<rparr>)"
      using j(6) 1(3) by (simp add: fixed_part_def algebra_simps)
    moreover have "calibrate_loop mhz clk 0 h r t = Some (run_secs mhz clk t (Suc j), h', r', t\<lparr>
          start_time_val := clk (readings t + 2 * Suc j), stop_time_val := clk (readings t + 2 * Suc j + 1),
          readings := readings t + 2 * Suc j + 2\<rparr>)"
      unfolding e z j(1) shift by (simp add: algebra_simps)
    ultimately show ?thesis using j(2,3,5) unfolding shift by (intro exI [of _ "Suc j"] exI [of _ h'] exI [of _ r']) auto
  qed
qed

text \<open>C37: With the number of iterations left to it, \<open>main\<close> stops measuring as soon as a run shows a
  second or more, if any run does; it has then multiplied the iterations by ten once per run, keeps
  as many of them as ten seconds take by that measure, and the list is as before.\<close>

theorem calibrate_ends:
  assumes "bench_ready h r xs" and "res_iterations r = 0" and "1 \<le> run_secs mhz clk t k"
  shows "\<exists>j h' r' t'. calibrate mhz clk h r t = Some (h', r', t') \<and> j \<le> k
    \<and> 1 \<le> run_secs mhz clk t j \<and> (\<forall>i < j. run_secs mhz clk t i = 0) \<and> readings t' = readings t + 2 * (j + 1)
    \<and> res_iterations r' = 10 ^ (j + 1) * (1 + 10 div run_secs mhz clk t j) \<and> bench_ready h' r' xs"
proof -
  have "bench_ready h (r\<lparr>res_iterations := 1\<rparr>) xs" using assms(1) by simp
  from calibrate_loop_ok [OF this assms(3)] obtain j h' r' t' where
    j: "calibrate_loop mhz clk 0 h (r\<lparr>res_iterations := 1\<rparr>) t = Some (run_secs mhz clk t j, h', r', t')"
    "readings t' = readings t + 2 * j + 2" "j \<le> k" "1 \<le> run_secs mhz clk t j"
    "\<forall>i < j. run_secs mhz clk t i = 0" "bench_ready h' r' xs" "res_iterations r' = 10 ^ (j + 1)"
    by (force simp: fixed_part_def)
  have "run_secs mhz clk t j \<noteq> 0" using j(4) by auto
  then show ?thesis using j assms(2)
    by (intro exI [of _ j] exI [of _ h'] exI [of _ "r'\<lparr>res_iterations := res_iterations r' * (1 + 10 div run_secs mhz clk t j)\<rparr>"] exI [of _ t'])
       (simp add: calibrate_def)
qed

definition timer0 :: timer where
  "timer0 = \<lparr>start_time_val = 0, stop_time_val = 0, readings = 0\<rparr>"

lemma heap3s_ready: "bench_ready heap3s results3 [8, 16, 24]"
proof -
  have w: "work_inv results3 heap3s (Some results3)"
    by (rule results3_sound) (simp add: heap3s_def heap3_def)
  have r: "res_list results3 = 8" by (simp add: results3_def)
  show ?thesis using w by (simp add: bench_ready_def r) (simp add: heap3s_def heap3_def)
qed

theorem calibrate_ends_witness:
  "\<exists>h' r' t'. calibrate 1 (\<lambda>k. of_nat k * 1500000) heap3s (results3\<lparr>res_iterations := 0\<rparr>) timer0 = Some (h', r', t')
    \<and> readings t' = 2 \<and> res_iterations r' = 110"
proof -
  have b: "bench_ready heap3s (results3\<lparr>res_iterations := 0\<rparr>) [8, 16, 24]" using heap3s_ready by simp
  have s: "run_secs 1 (\<lambda>k. of_nat k * 1500000) timer0 0 = 1"
    by (simp add: run_secs_def time_in_secs_def timer0_def)
  from calibrate_ends [OF b _ eq_refl [OF s [symmetric]]] s show ?thesis by (auto simp: timer0_def)
qed

section \<open>A run\<close>

lemma call_inits_ok:
  assumes e: "res_execs r AND 1 \<noteq> 0" "res_execs r AND 2 \<noteq> 0" "res_execs r AND 4 \<noteq> 0"
    and s: "120 \<le> unat (res_size r)" "unat (res_size r) \<le> 5160"
    and b1: "res_memblock r ! 1 \<noteq> 0" "unat (res_memblock r ! 1) + unat (res_size r) \<le> 2 ^ 32"
    and b3: "unat (res_memblock r ! 3) + unat (res_size r) + 2 ^ 15 \<le> 2 ^ 32"
    and sd: "res_seed2 r = res_seed1 r" "ucast (res_seed1 r) \<noteq> comma"
    and m: "mixed_after (unat (res_size r) div 20 - 2) (res_seed1 r)"
  shows "\<exists>h' r' xs. call_inits h r = Some (h', r') \<and> bench_ready h' r' xs
    \<and> (\<exists>list mat. r' = r\<lparr>res_list := list, res_mat := mat\<rparr>)"
proof -
  let ?n = "unat (res_size r) div 20 - 2"
  have "120 div 20 \<le> unat (res_size r) div 20" using s(1) by (rule div_le_mono)
  then have n: "4 \<le> ?n" by simp
  have "unat (res_size r) div 20 \<le> 5160 div 20" using s(2) by (rule div_le_mono)
  then have n256: "?n \<le> 256" by simp
  have "100 \<le> unat (res_size r)" using s(1) by simp
  from core_list_init_ok [OF this b1(2,1), of h "res_seed1 r"] n256 m
  obtain list h1 ys where l: "core_list_init h (res_size r) (res_memblock r ! 1) (res_seed1 r) = Some (list, h1)"
    "is_list (l_next h1) list ys" "mset ys = mset (map (cell (res_memblock r ! 1)) [0..<?n - 1])"
    "sorted_wrt (<) (map (\<lambda>x. sint (l_idx h1 (l_info h1 x))) ys)"
    by blast
  have len: "3 \<le> length ys" "length ys < 2 ^ 30" using mset_eq_length [OF l(3)] n n256 by simp_all
  have "0 < unat (res_size r)" "unat (res_size r) \<le> 2 ^ 31" using s by simp_all
  from core_init_matrix_eq [OF this] obtain N mat where
    mat: "core_init_matrix (res_size r) (res_memblock r ! 2)
      (scast (res_seed1 r) OR push_bit 16 (scast (res_seed2 r))) (res_mat r) = Some (N, mat)" by blast
  let ?p = "res_memblock r ! 3"
  have z: "0 < unat (res_size r)" "unat (res_size r) + 15 \<le> 2 ^ 32" "2 \<le> unat (res_size r)" using s by simp_all
  from core_init_state_store [OF z(1,2), where seed = "res_seed1 r" and p = ?p]
  obtain k where k: "\<And>m. core_init_state m (res_size r) (res_seed1 r) ?p = Some (store_bytes m ?p
      (patterns (res_seed1 r + 1) k @ replicate (unat (res_size r) - length (patterns (res_seed1 r + 1) k)) 0))"
    "k = 0 \<or> length (patterns (res_seed1 r + 1) k) + 2 \<le> unat (res_size r)" by blast
  let ?bs = "patterns (res_seed1 r + 1) k @ replicate (unat (res_size r) - length (patterns (res_seed1 r + 1) k)) 0"
  have lbs: "length ?bs = unat (res_size r)" using k(2) z(3) by (auto simp: patterns_0)
  let ?m = "store_bytes (l_mem h1) ?p ?bs"
  have "length ?bs \<le> 2 ^ 32" unfolding lbs using s(2) by simp
  from bytes_at_store_bytes [OF this, of "l_mem h1" ?p] have bs: "bytes_at ?m ?p (unat (res_size r)) = ?bs"
    unfolding lbs .
  have g: "good_block ?m ?p (unat (res_size r))" using init_good_block [OF z(3) b3 bs k(2)] .
  let ?r = "r\<lparr>res_list := list, res_mat := mat\<rparr>" and ?h = "h1\<lparr>l_mem := ?m\<rparr>"
  have "call_inits h r = Some (?h, ?r)"
    using e l(1) mat k(1) by (simp add: call_inits_def)
  moreover have "bench_ready ?h ?r ys"
    using l(2,4) len g sd by (simp add: bench_ready_def work_inv_Some)
  ultimately show ?thesis by blast
qed

lemma bench_ready_err [simp]: "bench_ready h (r\<lparr>res_err := v\<rparr>) xs = bench_ready h r xs"
  by (auto simp: bench_ready_def work_inv_def fixed_part_def)

lemma check_crcs_upd: "check_crcs k r = r\<lparr>res_err := res_err (check_crcs k r)\<rparr>"
  by (simp add: check_crcs_def Let_def)

lemma total_errors_upd: "\<exists>e. snd (total_errors mhz r ticks) = r\<lparr>res_err := e\<rparr>"
proof -
  have "r = r\<lparr>res_err := res_err r\<rparr>" by simp
  then have "\<exists>e. r = r\<lparr>res_err := e\<rparr>" by (rule exI)
  moreover have "\<exists>e. check_crcs k r = r\<lparr>res_err := e\<rparr>" for k using check_crcs_upd by (rule exI)
  ultimately show ?thesis
    by (simp add: total_errors_def Let_def split: prod.splits)
qed

lemma known_not_cannot:
  assumes "known_run (seed_crc r) = (of_nat k, 0)" and "k < 5"
  shows "verdict (fst (total_errors mhz r ticks)) \<noteq> Cannot_validate"
proof -
  have "k = 0 \<or> k = 1 \<or> k = 2 \<or> k = 3 \<or> k = 4" using assms(2) by linarith
  then have k: "0 \<le>s (of_nat k :: s16)" by (auto simp: word_sle_eq)
  show ?thesis
    using assms(1) k
    by (simp add: total_errors_def check_data_types_ok check_crcs_err verdict_def Let_def word_sless_alt)
qed

text \<open>The runs the \<open>switch\<close> of \<open>main\<close> knows: kind and size of the build, first (and second) seed,
  third seed and the size per algorithm.\<close>

definition standard_runs :: "(run_kind \<times> u32 \<times> s16 \<times> s16 \<times> u32) list" where
  "standard_runs =
     [(PERFORMANCE_RUN, 2000, 0, 0x66, 666), (VALIDATION_RUN, 2000, 0x3415, 0x66, 666),
      (PROFILE_RUN, 1200, 8, 8, 400), (PERFORMANCE_RUN, 6000, 0, 0x66, 2000),
      (VALIDATION_RUN, 6000, 0x3415, 0x66, 2000)]"

lemma standard_known:
  assumes "(kind, tot, s1, s3, sz) \<in> set standard_runs" and "res_seed1 r = s1" and "res_seed2 r = s1"
    and "res_seed3 r = s3" and "res_size r = sz"
  shows "\<exists>k < 5. known_run (seed_crc r) = (of_nat k, 0)"
  using assms seed_codes
  by (auto simp: standard_runs_def seed_crc_def known_run_def
      intro: exI [of _ 0] exI [of _ 1] exI [of _ 2] exI [of _ 3] exI [of _ 4])

lemma mixed_after_8: "mixed_after 18 8"
proof -
  have i: "i \<in> {3..<16}" if "1 \<le> i \<and> 18 div 5 \<le> i \<and> i < 18 - (2::nat)" for i using that by auto
  have "\<forall>i \<in> {3..<16}. 0 < unat (index_value 18 8 (of_nat i)) \<and> 3 \<le> unat (index_value 18 8 (of_nat i))"
    by (simp add: atLeastLessThan_nat_numeral index_value_def)
  then show ?thesis using i by (auto simp: mixed_after_def Let_def)
qed

lemma standard_mixed:
  assumes "(kind, tot, s1, s3, sz) \<in> set standard_runs"
  shows "mixed_after (unat sz div 20 - 2) s1"
  using assms mixed_after_8 mixed_after_seeds [of 31 0] mixed_after_seeds [of 31 "0x3415"]
    mixed_after_seeds [of 98 0] mixed_after_seeds [of 98 "0x3415"]
  by (auto simp: standard_runs_def)

lemma num_algorithms_7: "num_algorithms 7 = 3"
  by (simp add: num_algorithms_def upt_3 selected_def)

lemma mask_7: "ALL_ALGORITHMS_MASK = 7"
  by (simp add: ALL_ALGORITHMS_MASK_def)

lemma standard_seeds:
  assumes "(kind, tot, s1, s3, sz) \<in> set standard_runs"
  shows "seed1_volatile (volatile_seeds kind it) = ucast s1" "seed2_volatile (volatile_seeds kind it) = ucast s1"
    "seed3_volatile (volatile_seeds kind it) = ucast s3" "seed4_volatile (volatile_seeds kind it) = it"
    "seed5_volatile (volatile_seeds kind it) = 0" "tot div 3 = sz" "s3 \<noteq> 0"
    "s1 = 0 \<or> s1 = 8 \<or> s1 = 0x3415"
  using assms by (auto simp: standard_runs_def volatile_seeds_def)

lemma standard_setup:
  assumes "(kind, tot, s1, s3, sz) \<in> set standard_runs"
  shows "divide_size (take_seeds (volatile_seeds kind iterations) tot base r0)
    = Some (r0\<lparr>res_seed1 := s1, res_seed2 := s1, res_seed3 := s3, res_iterations := iterations,
        res_execs := 7, res_memblock := (res_memblock r0)[0 := base], res_size := sz, res_err := 0\<rparr>)"
proof -
  note sd = standard_seeds [OF assms]
  have u: "ucast (ucast s :: s32) = s" for s :: s16 by (simp add: ucast_up_ucast_id is_up)
  have "take_seeds (volatile_seeds kind iterations) tot base r0
      = r0\<lparr>res_seed1 := s1, res_seed2 := s1, res_seed3 := s3, res_iterations := iterations,
        res_execs := 7, res_memblock := (res_memblock r0)[0 := base], res_size := tot, res_err := 0\<rparr>"
    using sd(7) by (simp add: take_seeds_def get_seed_def get_seed_32_def sd(1-5) u mask_7 default_seeds_def Let_def)
  then show ?thesis by (simp add: divide_size_def num_algorithms_7 sd(6))
qed

text \<open>A standard run, up to the report.\<close>

lemma standard_run:
  assumes "(kind, tot, s1, s3, sz) \<in> set standard_runs" and "length (res_memblock r0) = 4"
    and "iterations \<noteq> 0" and "base \<noteq> 0" and "unat base + unat tot + 2 ^ 15 \<le> 2 ^ 32"
  shows "\<exists>h' r' t' xs. core_run mhz (volatile_seeds kind iterations) tot base clk h r0 t = Some (h', r', t')
    \<and> (\<exists>k < 5. known_run (seed_crc r') = (of_nat k, 0)) \<and> readings t' = readings t + 2 \<and> res_iterations r' = iterations
    \<and> res_memblock r' = [base, base, base + sz, base + 2 * sz] \<and> bench_ready h' r' xs"
proof -
  note run = assms(1)
  let ?r = "r0\<lparr>res_seed1 := s1, res_seed2 := s1, res_seed3 := s3, res_iterations := iterations,
        res_execs := 7, res_memblock := (res_memblock r0)[0 := base], res_size := sz, res_err := 0\<rparr>"
  obtain a b c d where m: "res_memblock r0 = [a, b, c, d]"
    using assms(2) by (auto simp: numeral_eq_Suc length_Suc_conv)
  have sel: "selected 7 0" "selected 7 (Suc 0)" "selected 7 2" by (simp_all add: selected_def)
  let ?r1 = "assign_blocks ?r"
  have r1: "?r1 = ?r\<lparr>res_memblock := [base, base, base + sz, base + 2 * sz]\<rparr>"
    by (simp add: assign_blocks_def assign_step_def upt_3 m sel update_4 mult.commute)
  have sz: "120 \<le> unat sz" "unat sz \<le> 5160" "3 * unat sz \<le> unat tot" "ucast s1 \<noteq> comma"
    using run by (auto simp: standard_runs_def)
  have e: "res_execs ?r1 AND 1 \<noteq> 0" "res_execs ?r1 AND 2 \<noteq> 0" "res_execs ?r1 AND 4 \<noteq> 0"
    by (simp_all add: r1)
  have s: "120 \<le> unat (res_size ?r1)" "unat (res_size ?r1) \<le> 5160" using sz by (simp_all add: r1)
  have b1: "res_memblock ?r1 ! 1 \<noteq> 0" "unat (res_memblock ?r1 ! 1) + unat (res_size ?r1) \<le> 2 ^ 32"
    using assms(4,5) sz by (simp_all add: r1)
  have "unat (base + 2 * sz) = unat base + 2 * unat sz"
  proof -
    have "base + of_nat (2 * unat sz) = base + 2 * sz" by simp
    moreover have "unat (base + of_nat (2 * unat sz)) = unat base + 2 * unat sz"
      using assms(5) sz by (intro unat_add_of_nat) simp
    ultimately show ?thesis by (simp only:)
  qed
  then have b3: "unat (res_memblock ?r1 ! 3) + unat (res_size ?r1) + 2 ^ 15 \<le> 2 ^ 32"
    using assms(5) sz by (simp add: r1)
  have sd: "res_seed2 ?r1 = res_seed1 ?r1" "ucast (res_seed1 ?r1) \<noteq> comma" using sz(4) by (simp_all add: r1)
  have mx: "mixed_after (unat (res_size ?r1) div 20 - 2) (res_seed1 ?r1)"
    using standard_mixed [OF run] by (simp add: r1)
  obtain h2 r2 xs where 2: "call_inits h ?r1 = Some (h2, r2)" "bench_ready h2 r2 xs"
    "\<exists>list mat. r2 = ?r1\<lparr>res_list := list, res_mat := mat\<rparr>"
    using call_inits_ok [OF e s b1 b3 sd mx, of h] by blast
  have it: "res_iterations r2 = iterations" using 2(3) r1 by auto
  then have cal: "calibrate mhz clk h2 r2 t = Some (h2, r2, t)" using assms(3) by (simp add: calibrate_def)
  obtain h3 r3 t3 where 3: "timed_iterate clk h2 r2 t = Some (h3, r3, t3)" "readings t3 = readings t + 2"
    "bench_ready h3 r3 xs" "fixed_part r3 = fixed_part r2"
    using timed_iterate_ok [OF 2(2), of clk t] by fastforce
  have fields: "res_seed1 r3 = s1" "res_seed2 r3 = s1" "res_seed3 r3 = s3" "res_size r3 = sz"
    "res_iterations r3 = iterations" "res_memblock r3 = [base, base, base + sz, base + 2 * sz]"
    using 3(4) 2(3) by (auto simp: fixed_part_def r1)
  obtain k where "k < 5" "known_run (seed_crc r3) = (of_nat k, 0)"
    using standard_known [OF run fields(1-4)] by blast
  moreover have "core_run mhz (volatile_seeds kind iterations) tot base clk h r0 t = Some (h3, r3, t3)"
    by (simp add: core_run_def standard_setup [OF run] 2(1) cal 3(1))
  ultimately show ?thesis using 3(2,3) fields(5,6) by blast
qed

end
