(* ===== verification/EePrintfCorrect.thy ===== *)
theory EePrintfCorrect
  imports EePrintf TinyprintfCorrect
begin

text \<open>
  The properties of \<^verbatim>\<open>ee_printf.c\<close>: the fields of numbers and addresses, agreement with
  \<^verbatim>\<open>tinyprintf.c\<close>, and what \<open>ee_printf\<close> sends.
\<close>

section \<open>Flags\<close>

lemma flag_bits:
  "type AND ZEROPAD = 0 \<longleftrightarrow> \<not> bit type 0" "type AND SIGN = 0 \<longleftrightarrow> \<not> bit type 1"
  "type AND PLUS = 0 \<longleftrightarrow> \<not> bit type 2" "type AND SPACE = 0 \<longleftrightarrow> \<not> bit type 3"
  "type AND LEFT = 0 \<longleftrightarrow> \<not> bit type 4" "type AND HEX_PREP = 0 \<longleftrightarrow> \<not> bit type 5"
  "type AND UPPERCASE = 0 \<longleftrightarrow> \<not> bit type 6"
  using and_exp_eq_0_iff_not_bit [of type 0] and_exp_eq_0_iff_not_bit [of type 1]
    and_exp_eq_0_iff_not_bit [of type 2] and_exp_eq_0_iff_not_bit [of type 3]
    and_exp_eq_0_iff_not_bit [of type 4] and_exp_eq_0_iff_not_bit [of type 5]
    and_exp_eq_0_iff_not_bit [of type 6]
  by (simp_all add: ZEROPAD_def SIGN_def PLUS_def SPACE_def LEFT_def HEX_PREP_def UPPERCASE_def)

lemma pad_bits: "type AND (ZEROPAD OR LEFT) = 0 \<longleftrightarrow> \<not> bit type 0 \<and> \<not> bit type 4"
proof -
  have "type AND (ZEROPAD OR LEFT) = (type AND ZEROPAD) OR (type AND LEFT)"
    by (simp add: bit.conj_disj_distrib)
  then show ?thesis by (simp add: or_eq_0_iff flag_bits)
qed

lemma bit_ZEROPAD: "bit ZEROPAD n \<longleftrightarrow> n = 0"
  by (simp add: ZEROPAD_def bit_simps)

lemma bit_without_zeropad:
  "bit (type AND NOT ZEROPAD) n \<longleftrightarrow> bit type n \<and> n \<noteq> 0" for type :: u32
  using bit_imp_le_length [of type n] by (auto simp: bit_simps bit_ZEROPAD)

section \<open>Loops\<close>

lemma pad_loop_eq: "pad_loop c sz str = (min sz 0 - 1, str @ replicate (nat sz) c)"
proof (induction c sz str rule: pad_loop.induct)
  case (1 c sz str)
  show ?case
  proof (cases "0 < sz")
    case True
    then have "nat sz = Suc (nat (sz - 1))" by simp
    with 1 True show ?thesis by (subst pad_loop.simps) (simp add: min_def)
  qed (subst pad_loop.simps, simp)
qed

lemma zero_loop_eq: "zero_loop i p str = str @ replicate (nat (p - i)) (CHR ''0'')"
proof (induction i p str rule: zero_loop.induct)
  case (1 i p str)
  show ?case
  proof (cases "i < p")
    case True
    then have "nat (p - i) = Suc (nat (p - 1 - i))" by simp
    with 1 True show ?thesis by (subst zero_loop.simps) simp
  qed (subst zero_loop.simps, simp)
qed

lemma fill_loop_eq:
  "fill_loop len sz str = (min sz len - 1, str @ replicate (nat (sz - len)) (CHR '' ''))"
proof (induction len sz str rule: fill_loop.induct)
  case (1 len sz str)
  show ?case
  proof (cases "len < sz")
    case True
    then have "nat (sz - len) = Suc (nat (sz - 1 - len))" by simp
    with 1 True show ?thesis by (subst fill_loop.simps) (simp add: min_def)
  qed (subst fill_loop.simps, simp)
qed

lemma pre_loop_eq: "pre_loop w str = (min w 1 - 1, str @ replicate (nat (w - 1)) (CHR '' ''))"
proof (induction w str rule: pre_loop.induct)
  case (1 w str)
  show ?case
  proof (cases "0 < w - 1")
    case True
    then have "nat (w - 1) = Suc (nat (w - 1 - 1))" by simp
    with 1 True show ?thesis by (subst pre_loop.simps) (simp add: min_def)
  qed (subst pre_loop.simps, simp add: min_def)
qed

lemma copy_down_loop_eq: "i \<le> length tmp \<Longrightarrow> copy_down_loop i tmp str = str @ rev (take i tmp)"
  by (induction i arbitrary: str) (simp_all add: take_Suc_conv_app_nth)

lemma digit_loop_eq:
  assumes b: "2 \<le> unat base"
  shows "digit_loop dig num base tmp =
    Some (tmp @ (if num = 0 then [] else rev (map ((!) dig) (nat_digits (unat base) (unat num)))))"
proof (induction "unat num" arbitrary: num tmp rule: less_induct)
  case less
  show ?case
  proof (cases "num = 0")
    case True
    then show ?thesis by (subst digit_loop.simps) simp
  next
    case False
    then have pos: "0 < unat num" by (simp add: unat_gt_0)
    have d: "unat (num div base) = unat num div unat base" "unat (num mod base) = unat num mod unat base"
      by (simp_all only: unat_div_distrib unat_mod_distrib)
    have lt: "unat (num div base) < unat num" unfolding d using pos b by simp
    have z: "num div base = 0 \<longleftrightarrow> unat num < unat base"
      using b by (simp add: word_unat_eq_iff unat_div_distrib div_eq_0_iff)
    show ?thesis
      using False b by (subst digit_loop.simps, subst nat_digits.simps) (simp add: less.hyps [OF lt] z d)
  qed
qed

section \<open>Numbers\<close>

definition show_base :: "bool \<Rightarrow> nat \<Rightarrow> nat \<Rightarrow> string" where
  "show_base uc b n = map ((!) (if uc then upper_digits else digits)) (nat_digits b n)"

text \<open>The field of a number: sign, base prefix and digits, with zeros up to the precision, filled to
  the width on the right, between prefix and digits, or on the left.\<close>

definition num_sign :: "u32 \<Rightarrow> s32 \<Rightarrow> string" where
  "num_sign type num =
     (if \<not> bit type 1 then [] else if num <s 0 then ''-'' else if bit type 2 then ''+''
      else if bit type 3 then '' '' else [])"

definition num_prefix :: "u32 \<Rightarrow> nat \<Rightarrow> string" where
  "num_prefix type base =
     (if \<not> bit type 5 then [] else if base = 8 then ''0'' else if base = 16 then ''0x'' else [])"

definition num_body :: "u32 \<Rightarrow> nat \<Rightarrow> int \<Rightarrow> s32 \<Rightarrow> string" where
  "num_body type base precision num =
     (let ds = show_base (bit type 6) base (if bit type 1 then nat \<bar>sint num\<bar> else unat num)
      in replicate (nat precision - length ds) (CHR ''0'') @ ds)"

definition num_field :: "u32 \<Rightarrow> nat \<Rightarrow> int \<Rightarrow> int \<Rightarrow> s32 \<Rightarrow> string" where
  "num_field type base sz precision num =
     (let head = num_sign type num @ num_prefix type base;
          body = num_body type base precision num;
          pad = replicate (nat sz - length (head @ body))
      in if bit type 4 then head @ body @ pad (CHR '' '')
         else if bit type 0 then head @ pad (CHR ''0'') @ body
         else pad (CHR '' '') @ head @ body)"

lemma digits_0: "digits ! 0 = CHR ''0''" "upper_digits ! 0 = CHR ''0''" "digits ! 33 = CHR ''x''"
  by (simp_all add: digits_def upper_digits_def)

lemma number_digits:
  assumes "2 \<le> base" "base \<le> 36"
  shows "(if num = 0 then Some [CHR ''0'']
     else digit_loop (if uc then upper_digits else digits) num (word_of_int base) [])
   = Some (rev (show_base uc (nat base) (unat num)))"
proof -
  have "unat (word_of_int base :: u32) = nat base"
    using assms by (simp add: unsigned_of_int take_bit_int_eq_self)
  then show ?thesis
    using assms by (subst digit_loop_eq)
      (auto simp: show_base_def digits_0 nat_digits.simps [of _ 0])
qed

definition sign_char :: "string \<Rightarrow> char" where
  "sign_char s = (case s of [] \<Rightarrow> NUL | c # _ \<Rightarrow> c)"

lemma number_write_eq:
  assumes "- (2 ^ 31) + 3 \<le> sz" and "sz < 2 ^ 31"
  shows "number_write str c (sign_char (num_sign ty num)) (rev ds) base sz precision type =
   Some (str @
     (let head = num_sign ty num @ (if bit type 5 then if base = 8 then ''0'' else if base = 16 then ''0x'' else [] else []);
          body = replicate (nat (precision - int (length ds))) (CHR ''0'') @ ds
      in if bit type 4 then head @ body @ replicate (nat sz) (CHR '' '')
         else if bit type 0 then head @ replicate (nat sz) c @ body
         else replicate (nat sz) (CHR '' '') @ head @ body))"
proof -
  have 1: "(if sign_char (num_sign ty num) \<noteq> NUL then s @ [sign_char (num_sign ty num)] else s)
      = s @ num_sign ty num" for s
    by (simp add: num_sign_def sign_char_def)
  have 2: "in_int (min sz 0 - k) = Some (min sz 0 - k)" if "k \<in> {1, 2, 3}" for k
    using assms that by (auto simp: in_int_def)
  have 3: "nat (min (min sz 0 - 1) 0 - 1) = 0" "nat (min sz 0 - 1) = 0" by simp_all
  consider "bit type 4" | "\<not> bit type 4" "bit type 0" | "\<not> bit type 4" "\<not> bit type 0" by blast
  then show ?thesis
    by cases (simp_all add: number_write_def flag_bits pad_bits pad_loop_eq zero_loop_eq 1 2 3
        copy_down_loop_eq digits_0 Let_def)
qed

lemma number_sign_eq:
  "number_sign type num sz = (sign_char (num_sign type num), if bit type 1 \<and> num <s 0 then - num else num,
     sz - int (length (num_sign type num)))"
  by (simp add: number_sign_def num_sign_def flag_bits sign_char_def)

lemma length_show_base:
  assumes "2 \<le> b" and "n < 2 ^ 32"
  shows "length (show_base uc b n) \<le> 32"
proof -
  have "(2::nat) ^ 32 \<le> b ^ 32" using assms(1) by (rule power_mono) simp
  then show ?thesis using assms length_nat_digits [of b n 32] by (simp add: show_base_def)
qed

lemma number_field:
  assumes "2 \<le> base" "base \<le> 36" and "- 1 \<le> sz" "sz < 2 ^ 31" "- 1 \<le> precision" "precision < 2 ^ 31 - 8"
  shows "number str num base sz precision type = Some (str @ num_field type (nat base) sz precision num)"
proof -
  define mag where "mag = (if bit type 1 \<and> num <s 0 then - num else num)"
  define ds where "ds = show_base (bit type 6) (nat base) (unat mag)"
  define t where "t = (if bit type 4 then type AND NOT ZEROPAD else type)"
  define pre where "pre = num_prefix type (nat base)"
  define pr where "pr = (if precision < int (length ds) then int (length ds) else precision)"
  define s where "s = sz - int (length (num_sign type num)) - int (length pre) - pr"
  have t: "bit t 0 \<longleftrightarrow> bit type 0 \<and> \<not> bit type 4" "0 < n \<Longrightarrow> bit t n \<longleftrightarrow> bit type n" for n
    by (auto simp: t_def bit_without_zeropad)
  have sign: "num_sign t num = num_sign type num" by (simp add: num_sign_def t)
  have body: "num_body type (nat base) precision num = replicate (nat precision - length ds) (CHR ''0'') @ ds"
    by (simp add: num_body_def ds_def mag_def unat_abs_sint Let_def)
  have ds: "length ds \<le> 32" unfolding ds_def using assms unsigned_less [of mag, where ?'a = nat]
    by (intro length_show_base) simp_all
  have digits: "(if mag = 0 then Some [CHR ''0'']
     else digit_loop (if bit type 6 then upper_digits else digits) mag (word_of_int base) []) = Some (rev ds)"
    unfolding ds_def using assms(1,2) by (rule number_digits)
  have pre: "(if bit type 5 then if base = 16 then x - 2 else if base = 8 then x - 1 else x else x)
      = x - int (length pre)"
    "(if bit type 5 then if base = 8 then ''0'' else if base = 16 then ''0x'' else [] else []) = pre" for x
    using assms(1) by (auto simp: pre_def num_prefix_def t)
  have "length (num_sign type num) \<le> 1" "length pre \<le> 2"
    by (simp_all add: num_sign_def pre_def num_prefix_def)
  then have s: "- (2 ^ 31) + 3 \<le> s" "s < 2 ^ 31" using assms ds by (auto simp: s_def pr_def)
  have "number str num base sz precision type
      = number_write str (if bit t 0 then CHR ''0'' else CHR '' '') (sign_char (num_sign t num)) (rev ds) base s pr t"
  proof -
    have "in_int s = Some s" using s by (simp add: in_int_def)
    moreover have "\<not> (base < 2 \<or> 36 < base)" using assms(1,2) by simp
    ultimately show ?thesis
      by (simp only: number_def flag_bits not_not t_def [symmetric] number_sign_eq sign t zero_less_numeral
          zero_less_one mag_def [symmetric] digits pre pr_def [symmetric] s_def [symmetric] Let_def if_False
          split_conv bind.simps length_rev)
  qed
  also have "\<dots> = Some (str @ num_field type (nat base) sz precision num)"
  proof -
    have "nat (pr - int (length ds)) = nat precision - length ds" by (auto simp: pr_def)
    moreover have "nat s = nat sz - (length (num_sign type num) + (length pre + (nat precision - length ds + length ds)))"
    proof -
      have "nat precision - length ds + length ds = nat pr" "0 \<le> pr" by (auto simp: pr_def)
      then show ?thesis by (simp add: s_def)
    qed
    ultimately show ?thesis
      unfolding number_write_eq [OF s]
      by (simp add: num_field_def Let_def body sign pre t add.assoc flip: pre_def)
  qed
  finally show ?thesis .
qed

lemma length_num_field:
  "length (num_field type base sz precision num) =
    max (nat sz) (length (num_sign type num @ num_prefix type base @ num_body type base precision num))"
  by (auto simp: num_field_def Let_def max_def)

section \<open>The directives of tinyprintf\<close>

lemma digit_codes:
  "map (\<lambda>d. of_char (digits ! d) :: nat) [0..<16] = map (\<lambda>d. if d < 10 then 48 + d else 87 + d) [0..<16]"
  "map (\<lambda>d. of_char (upper_digits ! d) :: nat) [0..<16] = map (\<lambda>d. if d < 10 then 48 + d else 55 + d) [0..<16]"
  by code_simp+

lemma digit_char_nth:
  assumes "d < 16"
  shows "(if uc then upper_digits else digits) ! d = digit_char uc (of_nat d)"
proof -
  have "of_char ((if uc then upper_digits else digits) ! d) = (of_char (digit_char uc (of_nat d)) :: nat)"
    using assms digit_codes unfolding digit_char_small(1) [OF assms] map_eq_conv by (cases uc) simp_all
  then show ?thesis by simp
qed

lemma show_base_digits_text:
  assumes "2 \<le> b" "b \<le> 16"
  shows "show_base uc b n = digits_text uc b n"
proof -
  have "d < 16" if "d \<in> set (nat_digits b n)" for d
    using nat_digits_small [OF assms(1) that] assms(2) by simp
  then show ?thesis
    unfolding show_base_def digits_text_def by (intro map_cong refl digit_char_nth)
qed

text \<open>The formats both interpreters read alike: text, and conversions without flag, width or
  precision.\<close>

fun plain_format :: "string \<Rightarrow> bool" where
  "plain_format [] = True"
| "plain_format [c] = (c \<noteq> NUL \<and> c \<noteq> CHR ''%'')"
| "plain_format (c # d # cs) =
     (if c = CHR ''%'' then d \<in> set ''diuxXocs%'' \<and> plain_format cs else c \<noteq> NUL \<and> plain_format (d # cs))"

definition short_args :: "vararg list \<Rightarrow> bool" where
  "short_args = list_all (\<lambda>a. case a of AStr s \<Rightarrow> length s < 2 ^ 32 - 1 | _ \<Rightarrow> True)"

lemma plain_specs:
  assumes "d \<in> set ''diuxXocs%''"
  shows "parse_spec (d # cs) p = (d, cs, init_param p, 0)"
    and "ee_spec (d # cs) va = Some (0, - 1, - 1, NUL, d # cs, va)"
proof -
  have ne: "d \<noteq> CHR ''-''" "d \<noteq> CHR ''+''" "d \<noteq> CHR '' ''" "d \<noteq> CHR ''#''" "d \<noteq> CHR ''0''" "d \<noteq> CHR ''.''"
    "d \<noteq> CHR ''*''" "d \<noteq> CHR ''l''" "d \<noteq> CHR ''L''" "d \<noteq> CHR ''z''" "\<not> (CHR ''0'' \<le> d \<and> d \<le> CHR ''9'')"
    using assms by (auto simp: less_eq_char_def)
  show "parse_spec (d # cs) p = (d, cs, init_param p, 0)"
    using ne by (cases "CHR ''0'' \<le> d") (simp_all add: parse_spec_def parse_width_def parse_precision_def parse_length_def)
  show "ee_spec (d # cs) va = Some (0, - 1, - 1, NUL, d # cs, va)"
    using ne by (cases "CHR ''0'' \<le> d") (simp_all add: ee_spec_def ee_width_def ee_precision_def ee_qualifier_def cur_def is_digit_char_def)
qed

lemma number_plain:
  assumes "base \<in> {8, 10, 16}"
  shows "number str num base (- 1) (- 1) type = Some (str @ num_sign type num @ num_prefix type (nat base) @
     digits_text (bit type 6) (nat base) (if bit type 1 then nat \<bar>sint num\<bar> else unat num))"
proof -
  have "2 \<le> base" "base \<le> 36" "2 \<le> nat base" "nat base \<le> 16" using assms by auto
  then show ?thesis
    by (simp add: number_field num_field_def num_body_def show_base_digits_text Let_def)
qed

lemma strnlen_eq: "length s < unat n \<Longrightarrow> strnlen s n = length (c_str s)"
proof (induction s n rule: strnlen.induct)
  case (2 c cs n)
  have "n \<noteq> 0" using "2.prems" by auto
  then have "unat (n - 1) = unat n - 1" by (simp add: unat_minus_one)
  with 2 \<open>n \<noteq> 0\<close> show ?case by (auto simp: c_str_def)
qed (simp add: c_str_def)

lemma digits_text_small:
  assumes "2 \<le> b" "b \<le> 10"
  shows "digits_text uc b n = digits_text False b n"
proof -
  have "digit_char uc (of_nat d) = digit_char False (of_nat d)" if "d \<in> set (nat_digits b n)" for d
  proof -
    have "d < 10" using nat_digits_small [OF assms(1) that] assms(2) by simp
    then have "of_char (digit_char uc (of_nat d)) = (of_char (digit_char False (of_nat d)) :: nat)"
      by (simp add: digit_char_small(1))
    then show ?thesis by simp
  qed
  then show ?thesis by (simp add: digits_text_def)
qed

definition plain_base :: "char \<Rightarrow> nat" where
  "plain_base d = (if d = CHR ''u'' then 10 else if d = CHR ''o'' then 8 else 16)"

lemma conv_text_unsigned:
  "conv_text CHR ''u'' 0 (init_param p) va = Some (p', va', t)
    \<Longrightarrow> \<exists>x. va = A32 x # va' \<and> t = digits_text False 10 (unat x)"
  "conv_text CHR ''o'' 0 (init_param p) va = Some (p', va', t)
    \<Longrightarrow> \<exists>x. va = A32 x # va' \<and> t = digits_text False 8 (unat x)"
  "conv_text CHR ''x'' 0 (init_param p) va = Some (p', va', t)
    \<Longrightarrow> \<exists>x. va = A32 x # va' \<and> t = digits_text False 16 (unat x)"
  "conv_text CHR ''X'' 0 (init_param p) va = Some (p', va', t)
    \<Longrightarrow> \<exists>x. va = A32 x # va' \<and> t = digits_text True 16 (unat x)"
  using digits_text_small [of 8 "p_uc p"] digits_text_small [of 10 "p_uc p"]
  by (auto simp: conv_text_def convert_def conv_unsigned_eq va_eq putchw_field foldl_snoc
      field_def sign_text_def alt_text_def c_str_digits split: list.splits vararg.splits)

lemma convert_plain:
  assumes "d \<in> set ''diuxXocs''" and "conv_text d 0 (init_param p) va = Some (p', va', t)"
    and "short_args va"
  shows "ee_convert str d NUL (- 1) (- 1) 0 va = Some (Some (str @ t, va')) \<and> va' = tl va"
proof -
  consider "d = CHR ''s''" | "d = CHR ''c''" | "d \<in> set ''di''" | "d \<in> set ''uoxX''" using assms(1) by auto
  then show ?thesis
  proof cases
    case 1
    with assms(2) obtain s where va: "va = AStr s # va'" and t: "t = c_str s"
      by (auto simp: conv_text_def convert_def va_eq putchw_field foldl_snoc field_def sign_text_def
          alt_text_def split: list.splits vararg.splits)
    have "length s < 2 ^ 32 - 1" using assms(3) by (simp add: va short_args_def)
    then have "strnlen s (- 1) = length (c_str s)" by (intro strnlen_eq) (simp add: unsigned_minus_1_eq_mask mask_eq_exp_minus_1)
    moreover have "take (length (c_str s)) s = c_str s"
      by (simp add: c_str_def takeWhile_eq_take [symmetric])
    ultimately show ?thesis by (simp add: 1 va t ee_convert_def fill_loop_eq flag_bits)
  next
    case 2
    with assms(2) show ?thesis
      by (auto simp: conv_text_def convert_def va_eq ee_convert_def pre_loop_eq flag_bits
          split: list.splits vararg.splits)
  next
    case 3
    obtain x where va: "va = A32 x # va'" and t: "t = show_int (sint x)"
    proof -
      let ?q = "(init_param p)\<lparr>p_base := 10\<rparr>"
      obtain x where va: "va = A32 x # va'"
        and t: "t = field ((with_sign x ?q)\<lparr>p_bf := digits_text (p_uc ?q) 10 (nat \<bar>sint x\<bar>)\<rparr>)"
        using assms(2) 3
        by (auto simp: conv_text_def convert_def conv_signed_eq va_eq putchw_field foldl_snoc
            split: list.splits vararg.splits)
      have "t = show_int (sint x)" unfolding t by (subst field_signed) simp_all
      with va that show thesis by blast
    qed
    have "num_sign (0 OR SIGN) x @ digits_text False 10 (nat \<bar>sint x\<bar>) = show_int (sint x)"
      by (simp add: num_sign_def SIGN_def show_int_def digits_text_10 word_sless_alt)
    then show ?thesis
      using 3 by (auto simp: ee_convert_def ee_integer_def va t number_plain num_prefix_def SIGN_def bit_simps)
  next
    case 4
    obtain x where va: "va = A32 x # va'" and t: "t = digits_text (d = CHR ''X'') (plain_base d) (unat x)"
    proof -
      consider "d = CHR ''u''" | "d = CHR ''o''" | "d = CHR ''x''" | "d = CHR ''X''" using 4 by auto
      then have "\<exists>x. va = A32 x # va' \<and> t = digits_text (d = CHR ''X'') (plain_base d) (unat x)"
        by cases (use assms(2) in \<open>simp_all add: plain_base_def conv_text_unsigned\<close>)
      with that show thesis by blast
    qed
    then show ?thesis
      using 4 by (auto simp: ee_convert_def ee_integer_def va t number_plain num_prefix_def num_sign_def
          UPPERCASE_def bit_simps plain_base_def)
  qed
qed

lemma format_plain:
  assumes "plain_format fmt" and "short_args va" and "format_text p fmt va = Some t"
  shows "ee_vsprintf_loop str fmt va = Some (str @ t)"
  using assms
proof (induction fmt arbitrary: str va p t rule: plain_format.induct)
  case (3 c d cs)
  show ?case
  proof (cases "c = CHR ''%''")
    case True
    with "3.prems"(1) have d: "d \<in> set ''diuxXocs%''" "d \<noteq> NUL" and cs: "plain_format cs" by auto
    obtain p' va' t1 t2 where conv: "conv_text d 0 (init_param p) va = Some (p', va', t1)"
      and rest: "format_text p' cs va' = Some t2" and t: "t = t1 @ t2"
      using "3.prems"(3) format_text_percent [OF plain_specs(1) [OF d(1)] d(2)]
      by (auto simp: True bind_eq_Some_conv simp del: format_text.simps(2))
    show ?thesis
    proof (cases "d = CHR ''%''")
      case perc: True
      with conv have *: "va' = va" "t1 = ''%''" by (auto simp: conv_text_def convert_def)
      have "ee_convert str (CHR ''%'') NUL (- 1) (- 1) 0 va = None" by (simp add: ee_convert_def)
      then show ?thesis
        using "3.IH"(1) [OF True cs _ rest] "3.prems"(2)
        by (simp add: True perc plain_specs(2) cur_def * t)
    next
      case False
      with d(1) have "d \<in> set ''diuxXocs''" by auto
      note conv' = convert_plain [OF this conv "3.prems"(2)]
      then have "short_args va'" using "3.prems"(2) by (cases va) (auto simp: short_args_def)
      with conv' show ?thesis
        using "3.IH"(1) [OF True cs _ rest]
        by (simp add: True plain_specs(2) [OF d(1)] cur_def t)
    qed
  next
    case False
    with "3.prems"(1,3) obtain t' where rest: "format_text p (d # cs) va = Some t'" and t: "t = c # t'"
      and d: "c \<noteq> NUL" "plain_format (d # cs)"
      by (subst (asm) format_text.simps) (auto simp del: format_text.simps)
    show ?thesis
      using "3.IH"(2) [OF False d(2) "3.prems"(2) rest, of "str @ [c]"] False d(1)
      by (subst ee_vsprintf_loop.simps) (simp add: t del: ee_vsprintf_loop.simps)
  qed
qed auto

text \<open>C18: CoreMark's \<open>printf\<close> and the library's agree: on every format of plain text and the
  conversions \<open>%d\<close>, \<open>%i\<close>, \<open>%u\<close>, \<open>%x\<close>, \<open>%X\<close>, \<open>%o\<close>, \<open>%c\<close>, \<open>%s\<close> and \<open>%%\<close> without flags, wherever \<open>tinyprintf\<close> has
  a text, \<open>ee_vsprintf\<close> stores the same text, terminates it and returns its length.\<close>

theorem printf_agree:
  assumes "plain_format fmt" and "short_args va" and "tfp_format p [] (\<lambda>s c. s @ [c]) fmt va = Some t"
  shows "ee_vsprintf fmt va = Some (t @ [NUL], int (length t))"
proof -
  obtain t' where "format_text p fmt va = Some t'" "t = t'"
    using assms(3) by (auto simp: tfp_format_text foldl_snoc)
  then show ?thesis using format_plain [OF assms(1,2), of p t "[]"] by (simp add: ee_vsprintf_def)
qed

theorem printf_agree_witness:
  "ee_vsprintf ''%s 100%%'' [AStr ''at''] = Some (''at 100%'' @ [NUL], 7)"
proof -
  have "tfp_format param0 [] (\<lambda>s c. s @ [c]) ''%s 100%%'' [AStr ''at''] = Some ''at 100%''"
    by (simp add: tfp_format_text plain_specs(1) conv_text_def convert_def putchw_field foldl_snoc field_def
        sign_text_def alt_text_def c_str_def)
  from printf_agree [OF _ _ this] show ?thesis by (simp add: short_args_def)
qed

section \<open>Numbers and addresses\<close>

text \<open>C16: \<open>number\<close> returns for every base it accepts, every width and precision a format can give, and
  every value, and appends exactly the declared field: sign and base prefix as the flags ask, the
  digits of the value in the base, zeros up to the precision, and padding that fills the width on
  the side the flags choose and never cuts. Its digits fit the 66 bytes of \<open>tmp\<close>.\<close>

theorem number_writes_field:
  assumes "2 \<le> base" "base \<le> 36" and "- 1 \<le> sz" "sz < 2 ^ 31" "- 1 \<le> precision" "precision < 2 ^ 31 - 8"
  shows "number str num base sz precision type = Some (str @ num_field type (nat base) sz precision num)
    \<and> length (num_field type (nat base) sz precision num) = max (nat sz)
        (length (num_sign type num @ num_prefix type (nat base) @ num_body type (nat base) precision num))
    \<and> length (show_base uc (nat base) (unat num)) \<le> 66"
  using number_field [OF assms, of str num type] assms(1) length_show_base [of "nat base" "unat num" uc]
    unsigned_less [of num, where ?'a = nat]
  by (auto simp: length_num_field le_nat_iff intro: order_trans)

theorem number_writes_field_witness:
  "number ''<'' 255 16 8 4 (HEX_PREP OR LEFT) = Some (''<'' @ num_field (HEX_PREP OR LEFT) 16 8 4 255)
   \<and> num_field (HEX_PREP OR LEFT) 16 8 4 255 = ''0x00ff  ''"
  using number_writes_field [of 16 8 4 "''<''" 255 "HEX_PREP OR LEFT"] by (simp, code_simp)

lemma nat_digits_3:
  "n < 1000 \<Longrightarrow> nat_digits 10 n =
    (if n < 10 then [n] else if n < 100 then [n div 10, n mod 10]
     else [n div 100, n div 10 mod 10, n mod 10])"
proof -
  assume n: "n < 1000"
  then have d: "n div 10 < 10 \<longleftrightarrow> n < 100" "n div 10 div 10 < 10" "n div 10 div 10 = n div 100" by auto
  have "nat_digits 10 (n div 10 div 10) = [n div 100]"
    by (subst nat_digits.simps) (use d in simp)
  then show ?thesis
    by (subst nat_digits.simps, subst nat_digits.simps) (simp only: d, simp)
qed

lemma iaddr_byte_cases:
  "n < 10 \<Longrightarrow> iaddr_byte n tmp = tmp @ [digits ! n]"
  "10 \<le> n \<Longrightarrow> n < 100 \<Longrightarrow> iaddr_byte n tmp = tmp @ [digits ! (n div 10), digits ! (n mod 10)]"
  "100 \<le> n \<Longrightarrow> iaddr_byte n tmp = tmp @ [digits ! (n div 100), digits ! (n mod 100 div 10), digits ! (n mod 100 mod 10)]"
  unfolding iaddr_byte_def by (simp_all add: Let_def)

lemma iaddr_byte_eq:
  assumes "n < 1000"
  shows "iaddr_byte n tmp = tmp @ show_base False 10 n"
proof -
  have "n mod 100 = 10 * (n div 10 mod 10) + n mod 10" using mod_mult2_eq [of n 10 10] by simp
  then have m: "n mod 100 div 10 = n div 10 mod 10" "n mod 100 mod 10 = n mod 10" by simp_all
  show ?thesis
    by (cases "n < 10"; cases "n < 100")
       (simp_all only: nat_digits_3 [OF assms] iaddr_byte_cases m show_base_def not_less if_True if_False
          list.map, simp_all)
qed

definition dotted :: "string \<Rightarrow> string" where
  "dotted addr =
     show_base False 10 (of_char (addr ! 0)) @ ''.'' @ show_base False 10 (of_char (addr ! 1)) @ ''.''
     @ show_base False 10 (of_char (addr ! 2)) @ ''.'' @ show_base False 10 (of_char (addr ! 3))"

definition hex_byte :: "u32 \<Rightarrow> char \<Rightarrow> string" where
  "hex_byte type c =
     (let dig = (if type AND UPPERCASE \<noteq> 0 then upper_digits else digits)
      in [dig ! (of_char c div 16), dig ! (of_char c mod 16)])"

definition colons :: "u32 \<Rightarrow> string \<Rightarrow> string" where
  "colons type addr = hex_byte type (addr ! 0) @ concat (map (\<lambda>i. CHR '':'' # hex_byte type (addr ! i)) [1..<6])"

definition placed :: "u32 \<Rightarrow> int \<Rightarrow> string \<Rightarrow> string" where
  "placed type sz t =
     (let pad = replicate (nat sz - length t) (CHR '' '') in if type AND LEFT = 0 then pad @ t else t @ pad)"

lemma fill_placed:
  "(let (sz, str) = (if type AND LEFT = 0 then fill_loop (int (length t)) sz str else (sz, str));
        str = str @ t;
        (sz, str) = fill_loop (int (length t)) sz str
    in Some str) = Some (str @ placed type sz t)"
proof -
  have "nat (sz - int (length t)) = nat sz - length t" by simp
  then show ?thesis by (simp add: fill_loop_eq placed_def Let_def)
qed

lemma iaddr_eq:
  assumes "4 \<le> length addr"
  shows "iaddr str addr sz precision type = Some (str @ placed type sz (dotted addr))"
proof -
  have byte: "iaddr_byte (of_char c) tmp = tmp @ show_base False 10 (of_char c)" for c tmp
    by (rule iaddr_byte_eq, rule order_less_trans [OF nat_of_char_less_256]) simp
  have "fold (\<lambda>i tmp. (if i \<noteq> 0 then tmp @ [CHR ''.''] else tmp) @ show_base False 10 (of_char (addr ! i)))
      [0..<4] [] = dotted addr"
  proof -
    have "[0..<4] = [0, 1, 2, 3 :: nat]" by code_simp
    then show ?thesis by (simp add: dotted_def)
  qed
  then show ?thesis
    using assms fill_placed [of type "dotted addr" sz str] by (simp add: iaddr_def byte Let_def)
qed

lemma nibbles:
  "unat (drop_bit 4 (of_char c :: u8)) = of_char c div 16"
  "unat ((of_char c :: u8) AND 0x0F) = of_char c mod 16"
proof -
  have "(of_char c :: u8) = of_nat (of_char c)" by (simp only: of_nat_of_char)
  moreover have "of_char c < (256 :: nat)" by (rule nat_of_char_less_256)
  ultimately have u: "unat (of_char c :: u8) = of_char c" by (simp only: unat_of_nat) simp
  show "unat (drop_bit 4 (of_char c :: u8)) = of_char c div 16"
    unfolding unsigned_drop_bit_eq u by (simp add: drop_bit_eq_div take_bit_eq_mod)
  have "(15 :: u8) = mask 4" by (simp add: mask_eq_exp_minus_1)
  then have "(of_char c :: u8) AND 0x0F = take_bit 4 (of_char c)" by (simp only: take_bit_eq_mask)
  then show "unat ((of_char c :: u8) AND 0x0F) = of_char c mod 16"
    by (simp only: unsigned_take_bit_eq u) (simp add: take_bit_eq_mod)
qed

lemma eaddr_eq:
  assumes "6 \<le> length addr"
  shows "eaddr str addr sz precision type = Some (str @ placed type sz (colons type addr))"
proof -
  let ?dig = "if type AND UPPERCASE \<noteq> 0 then upper_digits else digits"
  have "[0..<6] = [0, 1, 2, 3, 4, 5 :: nat]" "[1..<6] = [1, 2, 3, 4, 5 :: nat]" by code_simp+
  then have "fold (\<lambda>i tmp.
      let tmp = (if i \<noteq> 0 then tmp @ [CHR '':''] else tmp);
          tmp = tmp @ [?dig ! unat (drop_bit 4 (of_char (addr ! i) :: u8))]
      in tmp @ [?dig ! unat ((of_char (addr ! i) :: u8) AND 0x0F)]) [0..<6] [] = colons type addr"
    by (simp add: colons_def hex_byte_def nibbles Let_def)
  then show ?thesis
    using assms fill_placed [of type "colons type addr" sz str] unfolding eaddr_def Let_def
    by (cases "type AND LEFT = 0") simp_all
qed

text \<open>\<open>%a\<close> prints its bytes as an IPv4 address, four decimal numbers between dots, and \<open>%la\<close> as a
  hardware address, six pairs of hexadecimal digits between colons, in the letters the flag asks
  for; both placed in the field on the side the flags ask for, and never cut.\<close>

theorem addresses_print:
  assumes "6 \<le> length addr"
  shows "iaddr str addr sz precision type = Some (str @ placed type sz (dotted addr))
    \<and> eaddr str addr sz precision type = Some (str @ placed type sz (colons type addr))"
  using assms by (simp add: iaddr_eq eaddr_eq)

theorem addresses_print_witness:
  "iaddr [] [CHR 0x7F, CHR 0x00, CHR 0x00, CHR 0x01, CHR 0xAB, CHR 0x0C] 12 (- 1) 0
     = Some (placed 0 12 ''127.0.0.1'') \<and> placed 0 12 ''127.0.0.1'' = ''   127.0.0.1''"
  using addresses_print [of "[CHR 0x7F, CHR 0x00, CHR 0x00, CHR 0x01, CHR 0xAB, CHR 0x0C]" "[]" 12 "- 1" 0]
  by (simp add: dotted_def, code_simp)

section \<open>Sending\<close>

lemma ee_send_loop_eq: "ee_send_loop send p n s = (n + of_nat (length (c_str p)), foldl send s (c_str p))"
  by (induction send p n s rule: ee_send_loop.induct) (auto simp: c_str_def)

lemma c_str_terminated: "c_str (t @ [NUL]) = c_str t"
  by (induction t) (auto simp: c_str_def)

text \<open>\<open>ee_printf\<close> returns exactly when the format has a text and that text, with its terminator,
  fits the 1024 bytes of \<open>buf\<close>; then it has sent the characters of the text to the device, each
  once and in order, up to the first NUL in it, and returns how many it sent.\<close>

theorem ee_printf_sends:
  "ee_printf send fmt va s = Some (n, s') \<longleftrightarrow>
    (\<exists>t. ee_vsprintf fmt va = Some (t @ [NUL], int (length t)) \<and> length t < 1024
       \<and> n = of_nat (length (c_str t)) \<and> s' = foldl send s (c_str t))"
  by (auto simp: ee_printf_def ee_vsprintf_def bind_eq_Some_conv ee_send_loop_eq c_str_terminated)

section \<open>Deviations\<close>

text \<open>The buffer of \<open>ee_printf\<close> has a fixed size that \<open>ee_vsprintf\<close> does not know: a width is enough to
  write behind it.\<close>

lemma ee_printf_overflows: "ee_printf send ''%1024d'' [A32 x] s = None"
proof -
  have spec: "ee_spec ''1024d'' [A32 x] = Some (0, 1024, - 1, NUL, ''d'', [A32 x])"
    by (simp add: ee_spec_def ee_width_def ee_precision_def ee_qualifier_def cur_def is_digit_char_def
        less_eq_char_def skip_atoi_def in_int_def)
  define t where "t = num_field SIGN 10 1024 (- 1) x"
  have "ee_vsprintf_loop [] ''%1024d'' [A32 x] = Some t"
    by (simp add: spec cur_def ee_convert_def ee_integer_def number_field t_def)
  moreover have "1024 \<le> length t" by (simp add: t_def length_num_field)
  ultimately show ?thesis by (simp add: ee_printf_def ee_vsprintf_def)
qed

end
