(* ===== verification/CoreReportCorrect.thy ===== *)
theory CoreReportCorrect
  imports CoreReport CoreMainCorrect EePrintfCorrect
begin

text \<open>
  The properties of the report and of the whole program: each call of the report returns and sends the
  line it stands for, and a standard run ends with one of two verdicts.
\<close>

section \<open>Directives\<close>

definition show_hex4 :: "nat \<Rightarrow> string" where
  "show_hex4 n = replicate (4 - length (digits_text False 16 n)) (CHR ''0'') @ digits_text False 16 n"

lemma spec_lu: "ee_spec (CHR ''l'' # CHR ''u'' # fmt) va = Some (0, - 1, - 1, CHR ''l'', CHR ''u'' # fmt, va)"
  by (simp add: ee_spec_def ee_width_def ee_precision_def ee_qualifier_def cur_def is_digit_char_def less_eq_char_def)

lemma spec_04x:
  "ee_spec (CHR ''0'' # CHR ''4'' # CHR ''x'' # fmt) va = Some (ZEROPAD, 4, - 1, NUL, CHR ''x'' # fmt, va)"
  by (simp add: ee_spec_def ee_width_def ee_precision_def ee_qualifier_def cur_def is_digit_char_def less_eq_char_def
      skip_atoi_def in_int_def)

lemma loop_u: "ee_vsprintf_loop str (CHR ''%'' # CHR ''u'' # fmt) (A32 x # va)
    = ee_vsprintf_loop (str @ show_nat (unat x)) fmt va"
  by (simp add: plain_specs(2) cur_def ee_convert_def ee_integer_def number_plain num_sign_def num_prefix_def
      digits_text_10)

lemma loop_lu: "ee_vsprintf_loop str (CHR ''%'' # CHR ''l'' # CHR ''u'' # fmt) (A32 x # va)
    = ee_vsprintf_loop (str @ show_nat (unat x)) fmt va"
  by (simp add: spec_lu cur_def ee_convert_def ee_integer_def number_plain num_sign_def num_prefix_def
      digits_text_10)

lemma loop_d: "ee_vsprintf_loop str (CHR ''%'' # CHR ''d'' # fmt) (A32 x # va)
    = ee_vsprintf_loop (str @ show_int (sint x)) fmt va"
  by (simp add: plain_specs(2) cur_def ee_convert_def ee_integer_def number_plain num_sign_def num_prefix_def
      digits_text_10 SIGN_def bit_simps show_int_def word_sless_alt)

lemma loop_04x: "ee_vsprintf_loop str (CHR ''%'' # CHR ''0'' # CHR ''4'' # CHR ''x'' # fmt) (A32 x # va)
    = ee_vsprintf_loop (str @ show_hex4 (unat x)) fmt va"
  by (simp add: spec_04x cur_def ee_convert_def ee_integer_def number_field num_field_def num_sign_def
      num_prefix_def num_body_def show_base_digits_text ZEROPAD_def bit_simps show_hex4_def Let_def)

lemma loop_s:
  assumes "length t < 2 ^ 32 - 1"
  shows "ee_vsprintf_loop str (CHR ''%'' # CHR ''s'' # fmt) (AStr t # va)
    = ee_vsprintf_loop (str @ c_str t) fmt va"
proof -
  have "strnlen t (- 1) = length (c_str t)"
    using assms by (intro strnlen_eq) (simp add: unsigned_minus_1_eq_mask mask_eq_exp_minus_1)
  moreover have "take (length (c_str t)) t = c_str t" by (simp add: c_str_def takeWhile_eq_take [symmetric])
  ultimately show ?thesis
    by (simp add: plain_specs(2) cur_def ee_convert_def fill_loop_eq flag_bits)
qed

lemma loop_literal:
  "ee_vsprintf_loop str [] va = Some str"
  "c \<noteq> NUL \<Longrightarrow> c \<noteq> CHR ''%'' \<Longrightarrow> ee_vsprintf_loop str (c # fmt) va = ee_vsprintf_loop (str @ [c]) fmt va"
  by simp_all

lemmas directives = loop_literal loop_u loop_lu loop_d loop_04x loop_s

declare ee_vsprintf_loop.simps [simp del]

section \<open>Calls\<close>

definition prints :: "printf_call \<Rightarrow> string \<Rightarrow> bool" where
  "prints = (\<lambda>(fmt, args) t. ee_vsprintf_loop [] fmt args = Some t \<and> length t < 1024 \<and> NUL \<notin> set t)"

lemma print_all_prints:
  "list_all2 prints calls ts \<Longrightarrow> print_all send calls s = Some (foldl send s (concat ts))"
proof (induction calls ts arbitrary: s rule: list_all2_induct)
  case (Cons c calls t ts)
  obtain fmt args where c: "c = (fmt, args)" by (cases c)
  have "ee_printf send fmt args s = Some (of_nat (length t), foldl send s t)"
    using Cons.hyps(1) by (simp add: prints_def c ee_printf_def ee_vsprintf_def ee_send_loop_eq c_str_terminated c_str_id)
  then show ?case using Cons.IH by (simp add: c)
qed simp

lemma length_show_nat: "n < 2 ^ 32 \<Longrightarrow> length (show_nat n) \<le> 10"
  using length_nat_digits [of 10 n 10] by (simp add: show_nat_def digits_text_def)

lemma length_show_int: "length (show_int (sint (x :: u32))) \<le> 11"
proof -
  have "nat \<bar>sint x\<bar> = unat (if x <s 0 then - x else x)" by (simp only: unat_abs_sint)
  also have "\<dots> < 2 ^ 32" using unsigned_less [of "if x <s 0 then - x else x", where ?'a = nat] by simp
  finally have "length (show_nat (nat \<bar>sint x\<bar>)) \<le> 10" by (rule length_show_nat)
  then show ?thesis by (auto simp: show_int_def)
qed

lemma length_show_hex4: "n < 2 ^ 32 \<Longrightarrow> length (show_hex4 n) \<le> 12"
  using length_nat_digits [of 16 n 8] by (simp add: show_hex4_def digits_text_def)

lemma no_NUL:
  "NUL \<notin> set (show_nat n)" "NUL \<notin> set (show_int i)" "NUL \<notin> set (show_hex4 n)"
  using digits_text_no_NUL [of 10 False n] digits_text_no_NUL [of 16 False n] digits_text_no_NUL [of 10 False "nat \<bar>i\<bar>"]
  by (auto simp: show_nat_def show_int_def show_hex4_def)

text \<open>The call of a text without directives prints it.\<close>

lemma prints_literal: "list_all (\<lambda>c. c \<noteq> NUL \<and> c \<noteq> CHR ''%'') fmt \<Longrightarrow> length fmt < 1024 \<Longrightarrow> prints (fmt, []) fmt"
proof -
  have "list_all (\<lambda>c. c \<noteq> NUL \<and> c \<noteq> CHR ''%'') fmt \<Longrightarrow> ee_vsprintf_loop str fmt va = Some (str @ fmt)" for str va
    by (induction fmt arbitrary: str) (simp_all add: loop_literal)
  then show "list_all (\<lambda>c. c \<noteq> NUL \<and> c \<noteq> CHR ''%'') fmt \<Longrightarrow> length fmt < 1024 \<Longrightarrow> prints (fmt, []) fmt"
    by (auto simp: prints_def list_all_iff)
qed

section \<open>The lines of the report\<close>

definition crc_line :: "string \<Rightarrow> u16 \<Rightarrow> string" where
  "crc_line name crc = ''[0]'' @ name @ show_hex4 (unat crc) @ nl"

definition mismatch_line :: "string \<Rightarrow> u16 \<Rightarrow> u16 \<Rightarrow> string" where
  "mismatch_line name crc known =
     ''[0]ERROR! '' @ name @ '' crc 0x'' @ show_hex4 (unat crc) @ '' - should be 0x'' @ show_hex4 (unat known) @ nl"

definition mismatch_lines :: "nat \<Rightarrow> core_results \<Rightarrow> string list" where
  "mismatch_lines k r =
     (if res_execs r AND 1 \<noteq> 0 \<and> res_crclist r \<noteq> list_known_crc ! k
      then [mismatch_line ''list'' (res_crclist r) (list_known_crc ! k)] else [])
     @ (if res_execs r AND 2 \<noteq> 0 \<and> res_crcmatrix r \<noteq> matrix_known_crc ! k
        then [mismatch_line ''matrix'' (res_crcmatrix r) (matrix_known_crc ! k)] else [])
     @ (if res_execs r AND 4 \<noteq> 0 \<and> res_crcstate r \<noteq> state_known_crc ! k
        then [mismatch_line ''state'' (res_crcstate r) (state_known_crc ! k)] else [])"

definition times_lines :: "u32 \<Rightarrow> core_results \<Rightarrow> u32 \<Rightarrow> string list" where
  "times_lines mhz r ticks =
     (let secs = time_in_secs mhz ticks
      in [''CoreMark Size    : '' @ show_nat (unat (res_size r)) @ nl,
          ''Total ticks      : '' @ show_nat (unat ticks) @ nl,
          ''Total time (secs): '' @ show_int (sint secs) @ nl]
         @ (if 0 < secs then [''Iterations/Sec   : '' @ show_int (sint (res_iterations r div secs)) @ nl] else [])
         @ (if secs < 10 then [''ERROR! Must execute for at least 10 secs for a valid result!'' @ nl] else []))"

definition run_lines :: "string \<Rightarrow> string \<Rightarrow> string \<Rightarrow> core_results \<Rightarrow> string list" where
  "run_lines cv cf ml r =
     [''Iterations       : '' @ show_nat (unat (res_iterations r)) @ nl,
      ''Compiler version : '' @ cv @ nl, ''Compiler flags   : '' @ cf @ nl, ''Memory location  : '' @ ml @ nl,
      ''seedcrc          : 0x'' @ show_hex4 (unat (seed_crc r)) @ nl]
     @ (if res_execs r AND 1 \<noteq> 0 then [crc_line ''crclist       : 0x'' (res_crclist r)] else [])
     @ (if res_execs r AND 2 \<noteq> 0 then [crc_line ''crcmatrix     : 0x'' (res_crcmatrix r)] else [])
     @ (if res_execs r AND 4 \<noteq> 0 then [crc_line ''crcstate      : 0x'' (res_crcstate r)] else [])
     @ [crc_line ''crcfinal      : 0x'' (res_crc r)]"

definition verdict_line :: "verdict \<Rightarrow> string" where
  "verdict_line v = (case v of
     Correct_operation_validated \<Rightarrow> ''Correct operation validated. See README.md for run and reporting rules.''
   | Errors_detected \<Rightarrow> ''Errors detected''
   | Cannot_validate \<Rightarrow> ''Cannot validate operation for these seed values, please compare with results on a known platform.'')
   @ nl"

definition report_lines :: "u32 \<Rightarrow> string \<Rightarrow> string \<Rightarrow> string \<Rightarrow> core_results \<Rightarrow> u32 \<Rightarrow> string list" where
  "report_lines mhz cv cf ml r ticks =
     map fst (run_message (seed_crc r))
     @ (if 0 \<le>s fst (known_run (seed_crc r)) then mismatch_lines (unat (fst (known_run (seed_crc r)))) r else [])
     @ times_lines mhz r ticks @ run_lines cv cf ml r @ [verdict_line (verdict (fst (total_errors mhz r ticks)))]"

lemma list_all2_if: "(P \<Longrightarrow> list_all2 Q xs ys) \<Longrightarrow> (\<not> P \<Longrightarrow> list_all2 Q xs' ys') \<Longrightarrow>
    list_all2 Q (if P then xs else xs') (if P then ys else ys')"
  by simp

lemma unat_ucast_16: "unat (ucast (x :: u16) :: u32) = unat x"
  by (simp add: unsigned_ucast_eq take_bit_nat_eq_self less_le_trans [OF unsigned_less])

lemma show_0: "show_nat 0 = ''0''" "show_int 0 = ''0''"
  by code_simp+

lemma run_message_prints: "list_all2 prints (run_message c) (map fst (run_message c))"
  by (simp add: run_message_def prints_literal nl_def)

lemmas print_simps = prints_def directives nl_def no_NUL unat_ucast_16 show_0

lemma lengths:
  "length (show_nat (unat (x :: u32))) \<le> 10" "length (show_int (sint (x :: u32))) \<le> 11"
  "length (show_hex4 (unat (c :: u16))) \<le> 12"
  using length_show_nat [of "unat x"] length_show_int [of x] length_show_hex4 [of "unat c"]
    unsigned_less [of x, where ?'a = nat] unsigned_less [of c, where ?'a = nat] by simp_all

lemmas prints_intros = list_all2_appendI list_all2_if list.rel_intros

lemma times_prints: "list_all2 prints (times_report mhz r ticks) (times_lines mhz r ticks)"
proof -
  have "prints (''CoreMark Size    : %lu'' @ nl, [A32 x]) (''CoreMark Size    : '' @ show_nat (unat x) @ nl)" for x
    using lengths(1) [of x] by (simp add: print_simps)
  moreover have "prints (''Total ticks      : %lu'' @ nl, [A32 x]) (''Total ticks      : '' @ show_nat (unat x) @ nl)" for x
    using lengths(1) [of x] by (simp add: print_simps)
  moreover have "prints (''Total time (secs): %d'' @ nl, [A32 x]) (''Total time (secs): '' @ show_int (sint x) @ nl)" for x
    using lengths(2) [of x] by (simp add: print_simps)
  moreover have "prints (''Iterations/Sec   : %d'' @ nl, [A32 x]) (''Iterations/Sec   : '' @ show_int (sint x) @ nl)" for x
    using lengths(2) [of x] by (simp add: print_simps)
  moreover have "prints (''ERROR! Must execute for at least 10 secs for a valid result!'' @ nl, [])
      (''ERROR! Must execute for at least 10 secs for a valid result!'' @ nl)"
    by (rule prints_literal) (simp_all add: nl_def)
  ultimately show ?thesis
    unfolding times_report_def times_lines_def Let_def mult_1
    by (intro prints_intros) assumption+
qed

definition line_string :: "string \<Rightarrow> bool" where
  "line_string t \<longleftrightarrow> length t < 1000 \<and> NUL \<notin> set t"

lemma run_prints:
  assumes "line_string cv" "line_string cf" "line_string ml"
  shows "list_all2 prints (run_report cv cf ml r (seed_crc r)) (run_lines cv cf ml r)"
proof -
  note x = c_str_id line_string_def
  have "prints (''Iterations       : %lu'' @ nl, [A32 x]) (''Iterations       : '' @ show_nat (unat x) @ nl)" for x
    using lengths(1) [of x] by (simp add: print_simps)
  moreover have "prints (''Compiler version : %s'' @ nl, [AStr cv]) (''Compiler version : '' @ cv @ nl)"
    using assms(1) by (simp add: print_simps x)
  moreover have "prints (''Compiler flags   : %s'' @ nl, [AStr cf]) (''Compiler flags   : '' @ cf @ nl)"
    using assms(2) by (simp add: print_simps x)
  moreover have "prints (''Memory location  : %s'' @ nl, [AStr ml]) (''Memory location  : '' @ ml @ nl)"
    using assms(3) by (simp add: print_simps x)
  moreover have "prints (''seedcrc          : 0x%04x'' @ nl, [A32 (ucast (c :: u16))])
      (''seedcrc          : 0x'' @ show_hex4 (unat c) @ nl)" for c
    using lengths(3) [of c] by (simp add: print_simps)
  moreover have "prints (''[%d]crclist       : 0x%04x'' @ nl, [A32 0, A32 (ucast c)]) (crc_line ''crclist       : 0x'' c)" for c
    using lengths(3) [of c] by (simp add: print_simps crc_line_def)
  moreover have "prints (''[%d]crcmatrix     : 0x%04x'' @ nl, [A32 0, A32 (ucast c)]) (crc_line ''crcmatrix     : 0x'' c)" for c
    using lengths(3) [of c] by (simp add: print_simps crc_line_def)
  moreover have "prints (''[%d]crcstate      : 0x%04x'' @ nl, [A32 0, A32 (ucast c)]) (crc_line ''crcstate      : 0x'' c)" for c
    using lengths(3) [of c] by (simp add: print_simps crc_line_def)
  moreover have "prints (''[%d]crcfinal      : 0x%04x'' @ nl, [A32 0, A32 (ucast c)]) (crc_line ''crcfinal      : 0x'' c)" for c
    using lengths(3) [of c] by (simp add: print_simps crc_line_def)
  ultimately show ?thesis
    unfolding run_report_def run_lines_def mult_1 by (intro prints_intros) assumption+
qed

lemma verdict_prints: "list_all2 prints (verdict_report e) [verdict_line (verdict e)]"
proof -
  consider "e = 0" | "0 <s e" "e \<noteq> 0" "\<not> e <s 0" | "e <s 0" "\<not> 0 <s e" "e \<noteq> 0"
    by (metis signed.less_irrefl signed.not_less_iff_gr_or_eq)
  then show ?thesis
    by cases (simp_all add: verdict_report_def verdict_line_def verdict_def prints_literal nl_def)
qed

lemma check_report_eq:
  "snd (check_report k r) = check_crcs k r"
  "list_all2 prints (fst (check_report k r)) (mismatch_lines (unat k) r)"
proof -
  have m: "prints (''[%u]ERROR! list crc 0x%04x - should be 0x%04x'' @ nl, [A32 0, A32 (ucast c), A32 (ucast d)])
      (mismatch_line ''list'' c d)"
    "prints (''[%u]ERROR! matrix crc 0x%04x - should be 0x%04x'' @ nl, [A32 0, A32 (ucast c), A32 (ucast d)])
      (mismatch_line ''matrix'' c d)"
    "prints (''[%u]ERROR! state crc 0x%04x - should be 0x%04x'' @ nl, [A32 0, A32 (ucast c), A32 (ucast d)])
      (mismatch_line ''state'' c d)" for c d
    using lengths(3) [of c] lengths(3) [of d] by (simp_all add: print_simps mismatch_line_def)
  show "snd (check_report k r) = check_crcs k r" by (simp add: check_report_def check_crcs_def Let_def)
  have "fst (check_report k r) = 
     (if res_execs r AND 1 \<noteq> 0 \<and> res_crclist r \<noteq> list_known_crc ! unat k
      then [(''[%u]ERROR! list crc 0x%04x - should be 0x%04x'' @ nl,
             [A32 0, A32 (ucast (res_crclist r)), A32 (ucast (list_known_crc ! unat k))])] else [])
     @ (if res_execs r AND 2 \<noteq> 0 \<and> res_crcmatrix r \<noteq> matrix_known_crc ! unat k
        then [(''[%u]ERROR! matrix crc 0x%04x - should be 0x%04x'' @ nl,
               [A32 0, A32 (ucast (res_crcmatrix r)), A32 (ucast (matrix_known_crc ! unat k))])] else [])
     @ (if res_execs r AND 4 \<noteq> 0 \<and> res_crcstate r \<noteq> state_known_crc ! unat k
        then [(''[%u]ERROR! state crc 0x%04x - should be 0x%04x'' @ nl,
               [A32 0, A32 (ucast (res_crcstate r)), A32 (ucast (state_known_crc ! unat k))])] else [])"
    by (simp add: check_report_def Let_def)
  then show "list_all2 prints (fst (check_report k r)) (mismatch_lines (unat k) r)"
    by (simp only: mismatch_lines_def) (intro prints_intros m)
qed

lemma check_crcs_fields: "\<exists>e. check_crcs k r = r\<lparr>res_err := e\<rparr>"
  using check_crcs_upd by blast

lemma reports_err:
  "times_report mhz (r\<lparr>res_err := e\<rparr>) ticks = times_report mhz r ticks"
  "run_report cv cf ml (r\<lparr>res_err := e\<rparr>) c = run_report cv cf ml r c"
  by (simp_all add: times_report_def run_report_def)

lemma report_eq:
  "report mhz cv cf ml r ticks =
    (run_message (seed_crc r)
     @ (if 0 \<le>s fst (known_run (seed_crc r)) then fst (check_report (fst (known_run (seed_crc r))) r) else [])
     @ times_report mhz r ticks @ run_report cv cf ml r (seed_crc r)
     @ verdict_report (fst (total_errors mhz r ticks)),
     snd (total_errors mhz r ticks))"
proof -
  obtain id e0 where known: "known_run (seed_crc r) = (id, e0)" by (cases "known_run (seed_crc r)")
  obtain e where e: "check_crcs id r = r\<lparr>res_err := e\<rparr>" using check_crcs_fields by blast
  obtain calls where calls: "check_report id r = (calls, r\<lparr>res_err := e\<rparr>)"
    using check_report_eq(1) [of id r] by (cases "check_report id r") (simp add: e)
  have "data_types_report 1 2 2 4 4 4 4 = []" by (simp add: data_types_report_def check_data_types_def)
  then show ?thesis
    by (cases "0 \<le>s id") (simp_all add: report_def total_errors_def known e calls reports_err Let_def)
qed

lemma report_calls:
  assumes "line_string cv" "line_string cf" "line_string ml"
  shows "print_all send (fst (report mhz cv cf ml r ticks)) s
    = Some (foldl send s (concat (report_lines mhz cv cf ml r ticks)))"
  unfolding report_eq report_lines_def fst_conv
  by (intro print_all_prints prints_intros run_message_prints check_report_eq(2) times_prints
      run_prints verdict_prints assms)

text \<open>The report does not depend on the count of errors of an earlier check.\<close>

lemma check_crcs_err_upd: "check_crcs k (r\<lparr>res_err := e\<rparr>) = check_crcs k r"
  by (simp add: check_crcs_def Let_def)

lemma seed_crc_err: "seed_crc (r\<lparr>res_err := e\<rparr>) = seed_crc r"
  by (simp add: seed_crc_def)

lemma report_lines_err:
  "fst (total_errors mhz (r\<lparr>res_err := e\<rparr>) ticks) = fst (total_errors mhz r ticks)"
  "report_lines mhz cv cf ml (r\<lparr>res_err := e\<rparr>) ticks = report_lines mhz cv cf ml r ticks"
proof -
  show t: "fst (total_errors mhz (r\<lparr>res_err := e\<rparr>) ticks) = fst (total_errors mhz r ticks)"
    by (simp add: total_errors_def check_crcs_err_upd seed_crc_err Let_def split: prod.splits)
  have "mismatch_lines k (r\<lparr>res_err := e\<rparr>) = mismatch_lines k r" for k by (simp add: mismatch_lines_def)
  moreover have "times_lines mhz (r\<lparr>res_err := e\<rparr>) ticks = times_lines mhz r ticks"
    by (simp add: times_lines_def Let_def)
  moreover have "run_lines cv cf ml (r\<lparr>res_err := e\<rparr>) = run_lines cv cf ml r" by (simp add: run_lines_def seed_crc_err)
  ultimately show "report_lines mhz cv cf ml (r\<lparr>res_err := e\<rparr>) ticks = report_lines mhz cv cf ml r ticks"
    unfolding report_lines_def t seed_crc_err by (simp only:)
qed

lemma core_main_standard:
  assumes "(kind, tot, s1, s3, sz) \<in> set standard_runs" and "length (res_memblock r0) = 4"
    and "iterations \<noteq> 0" and "base \<noteq> 0" and "unat base + unat tot + 2 ^ 15 \<le> 2 ^ 32"
    and "line_string cv" "line_string cf" "line_string ml"
  shows "\<exists>h' r' t'.
      core_main mhz (volatile_seeds kind iterations) tot base cv cf ml 8 clk send h r0 t s
        = Some (0, h', r', t', foldl send s (concat (report_lines mhz cv cf ml r' (get_time t'))))
    \<and> verdict (fst (total_errors mhz r' (get_time t'))) \<noteq> Cannot_validate
    \<and> readings t' = readings t + 2 \<and> res_iterations r' = iterations
    \<and> res_memblock r' = [base, base, base + sz, base + 2 * sz]"
proof -
  obtain h' r' t' xs k where run: "core_run mhz (volatile_seeds kind iterations) tot base clk h r0 t = Some (h', r', t')"
    and k: "k < 5" "known_run (seed_crc r') = (of_nat k, 0)"
    and post: "readings t' = readings t + 2" "res_iterations r' = iterations"
      "res_memblock r' = [base, base, base + sz, base + 2 * sz]" "bench_ready h' r' xs"
    using standard_run [OF assms(1-5), of mhz clk h t] by blast
  obtain e where e: "snd (total_errors mhz r' (get_time t')) = r'\<lparr>res_err := e\<rparr>"
    using total_errors_upd by blast
  let ?r = "r'\<lparr>res_err := e\<rparr>"
  have v: "verdict (fst (total_errors mhz ?r (get_time t'))) \<noteq> Cannot_validate"
    unfolding report_lines_err using known_not_cannot k by blast
  obtain calls where calls: "report mhz cv cf ml r' (get_time t') = (calls, ?r)"
    by (simp add: report_eq e)
  have "print_all send calls s = Some (foldl send s (concat (report_lines mhz cv cf ml ?r (get_time t'))))"
    using report_calls [OF assms(6-8), of send mhz r' "get_time t'" s] by (simp add: calls report_lines_err)
  then have "core_main mhz (volatile_seeds kind iterations) tot base cv cf ml 8 clk send h r0 t s
      = Some (0, h', ?r, t', foldl send s (concat (report_lines mhz cv cf ml ?r (get_time t'))))"
    by (simp add: core_main_def portable_init_def portable_fini_def run calls)
  moreover have "res_iterations ?r = iterations" "res_memblock ?r = [base, base, base + sz, base + 2 * sz]"
    using post by simp_all
  ultimately show ?thesis using v post(1) by blast
qed

section \<open>Properties\<close>

text \<open>Whatever \<open>results[0]\<close> and the times are, every call of \<open>ee_printf\<close> in the report of \<open>main\<close> returns,
  none writes behind its 1024 bytes, and the device receives exactly the lines of the report, in
  order: the run it recognises, the checksums that are wrong, sizes, times and checksums in decimal
  and hexadecimal, and last the one line of the verdict on \<open>total_errors\<close>. The three strings of the
  build must be shorter than 1000 characters.\<close>

theorem report_prints:
  assumes "line_string cv" "line_string cf" "line_string ml"
  shows "\<exists>calls. report mhz cv cf ml r ticks = (calls, snd (total_errors mhz r ticks))
    \<and> print_all send calls s = Some (foldl send s (concat (report_lines mhz cv cf ml r ticks)))
    \<and> last (report_lines mhz cv cf ml r ticks) = verdict_line (verdict (fst (total_errors mhz r ticks)))"
proof (intro exI conjI)
  show "report mhz cv cf ml r ticks = (fst (report mhz cv cf ml r ticks), snd (total_errors mhz r ticks))"
    by (simp add: report_eq)
  show "print_all send (fst (report mhz cv cf ml r ticks)) s
      = Some (foldl send s (concat (report_lines mhz cv cf ml r ticks)))"
    by (rule report_calls [OF assms])
qed (simp add: report_lines_def)

theorem report_prints_witness:
  "\<exists>calls. report 25 ''GCC'' ''-O2'' ''STACK'' results3 1000 = (calls, snd (total_errors 25 results3 1000))
    \<and> print_all (\<lambda>s c. s @ [c]) calls [] =
        Some (foldl (\<lambda>s c. s @ [c]) [] (concat (report_lines 25 ''GCC'' ''-O2'' ''STACK'' results3 1000)))"
  using report_prints [of "''GCC''" "''-O2''" "''STACK''" 25 results3 1000 "\<lambda>s c. s @ [c]" "[]"]
  by (auto simp: line_string_def)

text \<open>C1: A standard run of CoreMark, with the number of iterations given, returns on every heap and
  whatever the stack held before: the static block is divided in three, the three algorithms are set
  up, all iterations run, the clock is read twice, and the device has received exactly the lines of the
  report on \<open>results[0]\<close>; its last line says that the checksums are right or that they are not, never
  that the seeds are unknown.\<close>

theorem standard_run_returns:
  assumes "(kind, tot, s1, s3, sz) \<in> set standard_runs" and "length (res_memblock r0) = 4"
    and "iterations \<noteq> 0" and "base \<noteq> 0" and "unat base + unat tot + 2 ^ 15 \<le> 2 ^ 32"
    and "line_string cv" "line_string cf" "line_string ml"
  shows "\<exists>h' r' t' v lines.
      core_main mhz (volatile_seeds kind iterations) tot base cv cf ml 8 clk send h r0 t s
        = Some (0, h', r', t', foldl send s (concat (lines @ [verdict_line v])))
    \<and> report_lines mhz cv cf ml r' (get_time t') = lines @ [verdict_line v] \<and> v \<noteq> Cannot_validate
    \<and> readings t' = readings t + 2 \<and> res_iterations r' = iterations
    \<and> res_memblock r' = [base, base, base + sz, base + 2 * sz]"
proof -
  obtain h' r' t' where run: "core_main mhz (volatile_seeds kind iterations) tot base cv cf ml 8 clk send h r0 t s
        = Some (0, h', r', t', foldl send s (concat (report_lines mhz cv cf ml r' (get_time t'))))"
    and post: "verdict (fst (total_errors mhz r' (get_time t'))) \<noteq> Cannot_validate"
      "readings t' = readings t + 2" "res_iterations r' = iterations"
      "res_memblock r' = [base, base, base + sz, base + 2 * sz]"
    using core_main_standard [OF assms, of mhz clk send h t s] by blast
  obtain lines where "report_lines mhz cv cf ml r' (get_time t')
      = lines @ [verdict_line (verdict (fst (total_errors mhz r' (get_time t'))))]"
    by (simp add: report_lines_def)
  with run post show ?thesis by metis
qed

theorem standard_run_returns_witness:
  "\<exists>h' r' t' lines v. core_main 25 (volatile_seeds VALIDATION_RUN 1) 2000 0x1000 ''GCC'' ''-O2'' ''STACK'' 8
      (\<lambda>k. of_nat k * 300000000) (\<lambda>s c. s @ [c]) heap3 results3 timer0 []
      = Some (0, h', r', t', foldl (\<lambda>s c. s @ [c]) [] (concat (lines @ [verdict_line v])))
    \<and> v \<noteq> Cannot_validate \<and> readings t' = 2
    \<and> res_memblock r' = [0x1000, 0x1000, 0x1000 + 666, 0x1000 + 2 * 666]"
proof -
  have s: "(VALIDATION_RUN, 2000, 0x3415, 0x66, 666) \<in> set standard_runs" by (simp add: standard_runs_def)
  have "length (res_memblock results3) = 4" "(1 :: s32) \<noteq> 0" "(0x1000 :: u32) \<noteq> 0"
    "unat (0x1000 :: u32) + unat (2000 :: u32) + 2 ^ 15 \<le> 2 ^ 32"
    "line_string ''GCC''" "line_string ''-O2''" "line_string ''STACK''" by (simp_all add: results3_def line_string_def)
  from standard_run_returns [OF s this, where mhz = 25 and clk = "\<lambda>k. of_nat k * 300000000" and h = heap3
      and t = timer0 and s = "[]" and send = "\<lambda>s c. s @ [c]"]
  show ?thesis by (fastforce simp: timer0_def)
qed

end
