(* ===== verification/Fifo.thy ===== *)
theory Fifo
  imports Prelude
begin

text \<open>
  The queue of eight bytes in the UART, \<^verbatim>\<open>src/main/scala/lib/fifo/Fifo.scala\<close> with \<open>addrw = 3\<close>
  (\<^verbatim>\<open>Soc.scala\<close>): two pointers, two flags and a register file. \<open>fifo_step\<close> is one clock cycle. It
  refines a list as long as the two sides keep to the flags; a read and a write in one cycle do so
  only if the queue is not full.
\<close>

section \<open>The hardware\<close>

record fifo =
  w_ptr :: "3 word"
  r_ptr :: "3 word"
  ff_full :: bool
  ff_empty :: bool
  ff_regs :: "3 word \<Rightarrow> u8"

definition fifo_step :: "bool \<Rightarrow> bool \<Rightarrow> u8 \<Rightarrow> fifo \<Rightarrow> fifo" where
  "fifo_step wr rd wdata f =
     (let f' =
        (if \<not> wr \<and> rd
         then if \<not> ff_empty f
              then f\<lparr>ff_empty := (if r_ptr f + 1 = w_ptr f then True else ff_empty f),
                     r_ptr := r_ptr f + 1, ff_full := False\<rparr>
              else f
         else if wr \<and> \<not> rd
         then if \<not> ff_full f
              then f\<lparr>ff_full := (if w_ptr f + 1 = r_ptr f then True else ff_full f),
                     w_ptr := w_ptr f + 1, ff_empty := False\<rparr>
              else f
         else if wr \<and> rd
         then f\<lparr>w_ptr := w_ptr f + 1, r_ptr := r_ptr f + 1\<rparr>
         else f)
      in if wr \<and> \<not> ff_full f then f'\<lparr>ff_regs := (ff_regs f)(w_ptr f := wdata)\<rparr> else f')"

definition fifo_head :: "fifo \<Rightarrow> u8" where
  "fifo_head f = ff_regs f (r_ptr f)"

section \<open>Refinement of a list\<close>

definition fifo_ok :: "fifo \<Rightarrow> bool" where
  "fifo_ok f \<longleftrightarrow> (if w_ptr f = r_ptr f then ff_full f \<noteq> ff_empty f else \<not> ff_full f \<and> \<not> ff_empty f)"

definition fifo_count :: "fifo \<Rightarrow> nat" where
  "fifo_count f = (if ff_full f then 8 else unat (w_ptr f - r_ptr f))"

definition queued :: "fifo \<Rightarrow> u8 list" where
  "queued f = map (\<lambda>i. ff_regs f (r_ptr f + of_nat i)) [0..<fifo_count f]"

lemma count_bounds: "fifo_count f \<le> 8" "\<not> ff_full f \<Longrightarrow> fifo_count f < 8"
  using unsigned_less [of "w_ptr f - r_ptr f", where ?'a = nat] by (simp_all add: fifo_count_def)

lemma queued_Nil: "fifo_ok f \<Longrightarrow> queued f = [] \<longleftrightarrow> ff_empty f"
  by (auto simp: queued_def fifo_ok_def fifo_count_def unat_eq_zero split: if_splits)

lemma ptr_at:
  assumes "i < 8"
  shows "r_ptr f + of_nat i = w_ptr f \<longleftrightarrow> i = unat (w_ptr f - r_ptr f)"
proof -
  have "r_ptr f + of_nat i = w_ptr f \<longleftrightarrow> of_nat i = w_ptr f - r_ptr f" by (auto simp: algebra_simps)
  also have "\<dots> \<longleftrightarrow> unat (of_nat i :: 3 word) = unat (w_ptr f - r_ptr f)" by (simp only: word_unat_eq_iff)
  also have "unat (of_nat i :: 3 word) = i" using assms by (simp add: unat_of_nat)
  finally show ?thesis .
qed

lemma succ_meets: "w_ptr f + 1 = r_ptr f \<longleftrightarrow> unat (w_ptr f - r_ptr f) = 7"
proof -
  have "w_ptr f + 1 = r_ptr f \<longleftrightarrow> r_ptr f + of_nat 7 = w_ptr f"
  proof -
    have "of_nat 7 = (- 1 :: 3 word)" by code_simp
    then show ?thesis by (simp only:) (auto simp: algebra_simps)
  qed
  then show ?thesis using ptr_at [of 7 f] by auto
qed

lemma count_succ:
  assumes "unat (w_ptr f - r_ptr f) \<noteq> 7"
  shows "unat (w_ptr f + 1 - r_ptr f) = unat (w_ptr f - r_ptr f) + 1"
proof -
  have "unat (w_ptr f - r_ptr f) < 8" using unsigned_less [of "w_ptr f - r_ptr f", where ?'a = nat] by simp
  then have "unat (w_ptr f - r_ptr f + 1) = unat (w_ptr f - r_ptr f) + 1"
    using assms by (simp add: unat_word_ariths)
  then show ?thesis by (simp add: algebra_simps)
qed

lemma fifo_write:
  assumes ok: "fifo_ok f" and "\<not> ff_full f"
  shows "fifo_ok (fifo_step True False d f)" "queued (fifo_step True False d f) = queued f @ [d]"
proof -
  let ?n = "unat (w_ptr f - r_ptr f)" and ?g = "fifo_step True False d f"
  have n: "fifo_count f = ?n" "?n < 8" using assms(2) count_bounds(2) by (auto simp: fifo_count_def)
  have c: "fifo_count ?g = ?n + 1"
    using assms(2) count_succ [of f] by (simp add: fifo_step_def fifo_count_def succ_meets)
  show "fifo_ok ?g"
    using assms by (auto simp: fifo_step_def fifo_ok_def)
  have g: "r_ptr ?g = r_ptr f" "ff_regs ?g = (ff_regs f)(w_ptr f := d)"
    using assms(2) by (simp_all add: fifo_step_def)
  show "queued ?g = queued f @ [d]"
  proof -
    have "map (\<lambda>i. ff_regs ?g (r_ptr f + of_nat i)) [0..<?n] = map (\<lambda>i. ff_regs f (r_ptr f + of_nat i)) [0..<?n]"
    proof (rule map_cong [OF refl])
      fix i assume "i \<in> set [0..<?n]"
      then have "r_ptr f + of_nat i \<noteq> w_ptr f" using ptr_at [of i f] n(2) by simp
      then show "ff_regs ?g (r_ptr f + of_nat i) = ff_regs f (r_ptr f + of_nat i)" by (simp add: g(2))
    qed
    moreover have "ff_regs ?g (r_ptr f + of_nat ?n) = d" using ptr_at [of ?n f] n(2) by (simp add: g(2))
    moreover have "[0..<?n + 1] = [0..<?n] @ [?n]" by simp
    ultimately show ?thesis unfolding queued_def c g(1) n(1) by (simp only: map_append list.map)
  qed
qed

lemma count_pred:
  assumes "fifo_ok f" "\<not> ff_empty f"
  shows "unat (w_ptr f - (r_ptr f + 1)) + 1 = fifo_count f"
proof (cases "ff_full f")
  case True
  then have "w_ptr f = r_ptr f" using assms by (auto simp: fifo_ok_def split: if_splits)
  then show ?thesis
    using True by (simp add: fifo_count_def unsigned_minus_1_eq_mask mask_eq_exp_minus_1)
next
  case False
  then have "w_ptr f \<noteq> r_ptr f" using assms by (auto simp: fifo_ok_def split: if_splits)
  then have "w_ptr f - r_ptr f \<noteq> 0" by simp
  then have "unat (w_ptr f - r_ptr f - 1) = unat (w_ptr f - r_ptr f) - 1" "0 < unat (w_ptr f - r_ptr f)"
    by (simp_all add: unat_minus_one unat_gt_0)
  then show ?thesis using False by (simp add: fifo_count_def diff_diff_eq)
qed

lemma queued_Cons:
  assumes "fifo_ok f" "\<not> ff_empty f"
  shows "queued f = fifo_head f # map (\<lambda>i. ff_regs f (r_ptr f + 1 + of_nat i)) [0..<unat (w_ptr f - (r_ptr f + 1))]"
proof -
  let ?m = "unat (w_ptr f - (r_ptr f + 1))"
  have "fifo_count f = Suc ?m" using count_pred [OF assms] by simp
  then show ?thesis
    unfolding queued_def fifo_head_def
    by (simp add: upt_conv_Cons map_Suc_upt [symmetric] o_def add.assoc del: upt_Suc)
qed

lemma fifo_read:
  assumes "fifo_ok f" "\<not> ff_empty f"
  shows "fifo_ok (fifo_step False True d f)" "queued f = fifo_head f # queued (fifo_step False True d f)"
    "\<not> ff_full (fifo_step False True d f)"
proof -
  let ?g = "fifo_step False True d f"
  have g: "r_ptr ?g = r_ptr f + 1" "w_ptr ?g = w_ptr f" "ff_regs ?g = ff_regs f" "\<not> ff_full ?g"
    using assms by (simp_all add: fifo_step_def)
  show "fifo_ok ?g"
    using assms by (auto simp: fifo_step_def fifo_ok_def split: if_splits)
  show "queued f = fifo_head f # queued ?g"
    unfolding queued_Cons [OF assms] by (simp add: queued_def fifo_count_def g)
  show "\<not> ff_full ?g" by (rule g)
qed

text \<open>A read and a write in one cycle, on a queue that is neither full nor empty, are a read followed by
  a write.\<close>

lemma fifo_both:
  assumes "fifo_ok f" "\<not> ff_empty f" "\<not> ff_full f"
  shows "fifo_ok (fifo_step True True d f)" "queued (fifo_step True True d f) = tl (queued f) @ [d]"
    "ff_full (fifo_step True True d f) \<longleftrightarrow> ff_full f"
proof -
  let ?g = "fifo_step False True d f" and ?b = "fifo_step True True d f" and ?w = "fifo_step True False d"
  note rd = fifo_read [OF assms(1,2), of d]
  have wr: "w_ptr (?w ?g) = w_ptr f + 1" "r_ptr (?w ?g) = r_ptr f + 1" "ff_regs (?w ?g) = (ff_regs f)(w_ptr f := d)"
    using assms by (simp_all add: fifo_step_def)
  have b: "w_ptr ?b = w_ptr f + 1" "r_ptr ?b = r_ptr f + 1" "ff_regs ?b = (ff_regs f)(w_ptr f := d)"
    "ff_full ?b = ff_full f" "ff_empty ?b = ff_empty f"
    using assms by (simp_all add: fifo_step_def)
  have "w_ptr f \<noteq> r_ptr f" using assms by (auto simp: fifo_ok_def split: if_splits)
  then show "fifo_ok ?b" using assms by (simp add: fifo_ok_def b)
  have "fifo_count (?w ?g) = fifo_count ?b"
  proof -
    have "fifo_ok (?w ?g)" by (rule fifo_write(1) [OF rd(1,3)])
    then have "\<not> ff_full (?w ?g)"
      using \<open>w_ptr f \<noteq> r_ptr f\<close> by (simp add: fifo_ok_def wr split: if_splits)
    then show ?thesis using assms by (simp add: fifo_count_def wr b)
  qed
  then have "queued (?w ?g) = queued ?b" by (simp add: queued_def wr b)
  then show "queued ?b = tl (queued f) @ [d]"
    using fifo_write(2) [OF rd(1,3)] by (simp add: rd(2))
  show "ff_full ?b \<longleftrightarrow> ff_full f" by (rule b(4))
qed

text \<open>On a full queue the same cycle drops the new byte and puts the oldest one back.\<close>

lemma fifo_both_full:
  assumes "fifo_ok f" "ff_full f"
  shows "queued (fifo_step True True d f) = rotate1 (queued f)"
proof -
  let ?b = "fifo_step True True d f"
  have e: "\<not> ff_empty f" using assms by (auto simp: fifo_ok_def split: if_splits)
  have b: "r_ptr ?b = r_ptr f + 1" "ff_regs ?b = ff_regs f" "fifo_count ?b = 8"
    using assms(2) by (simp_all add: fifo_step_def fifo_count_def)
  have m: "unat (w_ptr f - (r_ptr f + 1)) = 7"
    using count_pred [OF assms(1) e] assms(2) by (simp add: fifo_count_def)
  have wrap: "r_ptr f + 1 + of_nat 7 = r_ptr f"
  proof -
    have "1 + of_nat 7 = (0 :: 3 word)" by code_simp
    then show ?thesis by (simp only: add.assoc add_0_right)
  qed
  have "queued ?b = map (\<lambda>i. ff_regs f (r_ptr f + 1 + of_nat i)) ([0..<7] @ [7])"
  proof -
    have "[0..<8] = [0..<7] @ [7 :: nat]" by code_simp
    then show ?thesis by (simp only: queued_def b)
  qed
  also have "\<dots> = map (\<lambda>i. ff_regs f (r_ptr f + 1 + of_nat i)) [0..<7] @ [fifo_head f]"
    by (simp only: map_append list.map wrap fifo_head_def)
  also have "\<dots> = rotate1 (queued f)"
    unfolding queued_Cons [OF assms(1) e] m by simp
  finally show ?thesis .
qed

lemma fifo_idle: "fifo_step False False d f = f"
  by (simp add: fifo_step_def)

lemma fifo_ok_step: "fifo_ok f \<Longrightarrow> fifo_ok (fifo_step wr rd d f)"
  by (cases wr; cases rd) (auto simp: fifo_step_def fifo_ok_def Let_def split: if_splits)

end
