(* ===== verification/UartHw.thy ===== *)
theory UartHw
  imports Fifo
begin

text \<open>
  The UART of the chip, \<^verbatim>\<open>src/main/scala/sys/uart/\<close>: the baud counter, the transmitter, and the block
  of registers on the bus (\<open>Baud\<close>, \<open>Tx\<close>, \<open>UartBlock\<close>, \<open>Uart\<close>), cycle by cycle, with 8 data bits,
  16 ticks a bit and queues of eight bytes as in \<^verbatim>\<open>Soc.scala\<close>. What the receiver delivers in a
  cycle is an input; the receiver itself is in \<open>UartRx\<close>.
\<close>

section \<open>The hardware\<close>

datatype uart_state = Idle | Start | Data | Stop

definition baud_step :: "11 word \<Rightarrow> 11 word \<Rightarrow> 11 word" where
  "baud_step dvsr count = (if count = dvsr then 0 else count + 1)"

definition baud_tick :: "11 word \<Rightarrow> bool" where
  "baud_tick count \<longleftrightarrow> count = 1"

record tx =
  tx_state :: uart_state
  tx_data :: u8
  tick_c :: "4 word"
  data_c :: "3 word"
  tx_line :: bool

definition tx_done :: "bool \<Rightarrow> tx \<Rightarrow> bool" where
  "tx_done tick t \<longleftrightarrow> tx_state t = Stop \<and> tick \<and> tick_c t = 15"

definition tx_step :: "bool \<Rightarrow> bool \<Rightarrow> u8 \<Rightarrow> tx \<Rightarrow> tx" where
  "tx_step start tick bits t =
     (case tx_state t of
        Idle \<Rightarrow>
          (let t = t\<lparr>tx_line := True\<rparr>
           in if start then t\<lparr>tx_state := Start, tick_c := 0, tx_data := bits\<rparr> else t)
      | Start \<Rightarrow>
          (let t = t\<lparr>tx_line := False\<rparr>
           in if tick
              then if tick_c t = 15 then t\<lparr>tx_state := Data, tick_c := 0, data_c := 0\<rparr>
                   else t\<lparr>tick_c := tick_c t + 1\<rparr>
              else t)
      | Data \<Rightarrow>
          (let t = t\<lparr>tx_line := bit (tx_data t) 0\<rparr>
           in if tick
              then if tick_c t = 15
                   then let t = t\<lparr>tick_c := 0, tx_data := drop_bit 1 (tx_data t)\<rparr>
                        in if data_c t = 7 then t\<lparr>tx_state := Stop\<rparr> else t\<lparr>data_c := data_c t + 1\<rparr>
                   else t\<lparr>tick_c := tick_c t + 1\<rparr>
              else t)
      | Stop \<Rightarrow>
          (let t = t\<lparr>tx_line := True\<rparr>
           in if tick
              then if tick_c t = 15 then t\<lparr>tx_state := Idle\<rparr> else t\<lparr>tick_c := tick_c t + 1\<rparr>
              else t))"

record uart_hw =
  u_dvsr :: "11 word"
  u_baud :: "11 word"
  u_tx :: tx
  u_txf :: fifo
  u_rxf :: fifo

text \<open>One access to the registers of a cycle: an offset in the block, and the word written.\<close>

datatype bus_op = No_access | Bus_read u32 | Bus_write u32 u32

definition TXDATA :: u32 where "TXDATA = 0"
definition RXDATA :: u32 where "RXDATA = 4"
definition DVSR :: u32 where "DVSR = 8"
definition CLEAR :: u32 where "CLEAR = 12"

definition uart_rdata :: "u32 \<Rightarrow> uart_hw \<Rightarrow> u32" where
  "uart_rdata addr u =
     (if addr = RXDATA
      then push_bit 9 (of_bool (ff_full (u_txf u))) OR push_bit 8 (of_bool (ff_empty (u_rxf u)))
           OR ucast (fifo_head (u_rxf u))
      else if addr = DVSR then ucast (u_dvsr u)
      else 0)"

definition written :: "u32 \<Rightarrow> bus_op \<Rightarrow> u32 option" where
  "written reg op = (case op of Bus_write a d \<Rightarrow> if a = reg then Some d else None | _ \<Rightarrow> None)"

definition uart_cycle :: "bus_op \<Rightarrow> u8 option \<Rightarrow> uart_hw \<Rightarrow> uart_hw" where
  "uart_cycle op rxd u =
     (let tick = baud_tick (u_baud u)
      in u\<lparr>u_dvsr := (case written DVSR op of Some d \<Rightarrow> ucast d | None \<Rightarrow> u_dvsr u),
           u_baud := baud_step (u_dvsr u) (u_baud u),
           u_tx := tx_step (\<not> ff_empty (u_txf u)) tick (fifo_head (u_txf u)) (u_tx u),
           u_txf := fifo_step (written TXDATA op \<noteq> None) (tx_done tick (u_tx u))
                      (case written TXDATA op of Some d \<Rightarrow> ucast d | None \<Rightarrow> 0) (u_txf u),
           u_rxf := fifo_step (rxd \<noteq> None) (written CLEAR op \<noteq> None)
                      (case rxd of Some b \<Rightarrow> b | None \<Rightarrow> 0) (u_rxf u)\<rparr>)"

section \<open>Observers\<close>

text \<open>A run of the UART, observed: the bytes the transmitter has taken from its queue, and the level of
  the line behind each tick of the baud counter outside the idle state.\<close>

record uart_run =
  run_hw :: uart_hw
  taken :: "u8 list"
  wire :: "bool list"

definition run_cycle :: "bus_op \<Rightarrow> u8 option \<Rightarrow> uart_run \<Rightarrow> uart_run" where
  "run_cycle op rxd r =
     (let u = run_hw r; v = uart_cycle op rxd u
      in r\<lparr>run_hw := v,
           taken := (if tx_state (u_tx u) = Idle \<and> \<not> ff_empty (u_txf u)
                     then taken r @ [fifo_head (u_txf u)] else taken r),
           wire := (if tx_state (u_tx u) \<noteq> Idle \<and> baud_tick (u_baud u)
                    then wire r @ [tx_line (u_tx v)] else wire r)\<rparr>)"

text \<open>The 160 ticks of a byte on the line: a start bit, eight data bits from the lowest on, a stop bit.\<close>

definition frame :: "u8 \<Rightarrow> bool list" where
  "frame b = map (\<lambda>k. if k < 16 then False else if k < 144 then bit b ((k - 16) div 16) else True) [0..<160]"

lemma length_frame [simp]: "length (frame b) = 160"
  by (simp add: frame_def)

text \<open>How many ticks of its byte the transmitter has sent.\<close>

definition frame_pos :: "tx \<Rightarrow> nat" where
  "frame_pos t = (case tx_state t of
     Idle \<Rightarrow> 0 | Start \<Rightarrow> unat (tick_c t) | Data \<Rightarrow> 16 + 16 * unat (data_c t) + unat (tick_c t)
   | Stop \<Rightarrow> 144 + unat (tick_c t))"

text \<open>The transmitter is on the byte \<open>b\<close>.\<close>

definition tx_holds :: "u8 \<Rightarrow> tx \<Rightarrow> bool" where
  "tx_holds b t \<longleftrightarrow> tx_state t \<noteq> Idle
     \<and> (tx_state t = Start \<longrightarrow> tx_data t = b) \<and> (tx_state t = Data \<longrightarrow> tx_data t = drop_bit (unat (data_c t)) b)"

text \<open>The divisor is not 0, the flags of the queues agree with their pointers, the byte being sent is still
  the head of its queue, and the line has carried the frames of the bytes taken before and a part of
  that of the last.\<close>

definition run_ok :: "uart_run \<Rightarrow> bool" where
  "run_ok r \<longleftrightarrow>
     (let u = run_hw r; t = u_tx u
      in u_dvsr u \<noteq> 0 \<and> fifo_ok (u_txf u) \<and> fifo_ok (u_rxf u)
       \<and> (if tx_state t = Idle then wire r = concat (map frame (taken r))
          else \<not> ff_empty (u_txf u) \<and> taken r \<noteq> []
            \<and> wire r = concat (map frame (butlast (taken r))) @ take (frame_pos t) (frame (last (taken r)))
            \<and> tx_holds (last (taken r)) t))"

text \<open>All bytes the UART has accepted: those taken, and those that wait.\<close>

definition accepted :: "uart_run \<Rightarrow> u8 list" where
  "accepted r =
     taken r @ (if tx_state (u_tx (run_hw r)) = Idle then queued (u_txf (run_hw r))
                else tl (queued (u_txf (run_hw r))))"

section \<open>Every cycle keeps the invariant\<close>

lemma frame_nth: "k < 160 \<Longrightarrow> frame b ! k = (if k < 16 then False else if k < 144 then bit b ((k - 16) div 16) else True)"
  by (simp add: frame_def)

lemma take_frame: "k < 160 \<Longrightarrow> take (Suc k) (frame b) = take k (frame b) @ [frame b ! k]"
  by (simp add: take_Suc_conv_app_nth)

lemma unat_succ:
  fixes x :: "'a::len word"
  assumes "x \<noteq> - 1"
  shows "unat (x + 1) = unat x + 1"
proof -
  have "unat (- 1 :: 'a word) = 2 ^ LENGTH('a) - 1" by (simp add: unsigned_minus_1_eq_mask mask_eq_exp_minus_1)
  moreover have "unat x \<noteq> unat (- 1 :: 'a word)" using assms by (simp add: word_unat_eq_iff)
  moreover have "unat x < 2 ^ LENGTH('a)" by (rule unsigned_less)
  ultimately have "unat x + 1 < 2 ^ LENGTH('a)" by linarith
  then show ?thesis by (simp add: unat_word_ariths)
qed

lemma counter_succ:
  "(c :: 4 word) \<noteq> 15 \<Longrightarrow> unat (c + 1) = unat c + 1" "(d :: 3 word) \<noteq> 7 \<Longrightarrow> unat (d + 1) = unat d + 1"
proof -
  have "(15 :: 4 word) = - 1" "(7 :: 3 word) = - 1" by code_simp+
  then have "(c :: 4 word) \<noteq> 15 \<Longrightarrow> c \<noteq> - 1" "(d :: 3 word) \<noteq> 7 \<Longrightarrow> d \<noteq> - 1" by (simp_all only: not_False_eq_True)
  then show "(c :: 4 word) \<noteq> 15 \<Longrightarrow> unat (c + 1) = unat c + 1" "(d :: 3 word) \<noteq> 7 \<Longrightarrow> unat (d + 1) = unat d + 1"
    by (blast intro: unat_succ)+
qed

lemma counter_bounds: "unat (c :: 4 word) < 16" "unat (d :: 3 word) < 8"
  using unsigned_less [of c, where ?'a = nat] unsigned_less [of d, where ?'a = nat] by simp_all

lemma counter_less: "(c :: 4 word) \<noteq> 15 \<Longrightarrow> unat c < 15" "(d :: 3 word) \<noteq> 7 \<Longrightarrow> unat d < 7"
proof -
  have "unat c \<noteq> 15" if "c \<noteq> (15 :: 4 word)" using that by (simp add: word_unat_eq_iff)
  then show "c \<noteq> 15 \<Longrightarrow> unat c < 15" using counter_bounds(1) [of c] by fastforce
  have "unat d \<noteq> 7" if "d \<noteq> (7 :: 3 word)" using that by (simp add: word_unat_eq_iff)
  then show "d \<noteq> 7 \<Longrightarrow> unat d < 7" using counter_bounds(2) [of d] by fastforce
qed

lemma frame_pos_less: "frame_pos t < 160"
  using counter_bounds(1) [of "tick_c t"] counter_bounds(2) [of "data_c t"]
  by (auto simp: frame_pos_def split: uart_state.split)

text \<open>A tick sends the next sample of the frame; the transmitter is done with the last.\<close>

lemma tx_quiet:
  assumes "tx_holds b t"
  shows "tx_holds b (tx_step start False bits t)" "frame_pos (tx_step start False bits t) = frame_pos t"
    "\<not> tx_done False t"
  using assms by (cases "tx_state t"; simp add: tx_holds_def tx_step_def frame_pos_def tx_done_def Let_def)+

lemma tx_ticks:
  assumes "tx_holds b t"
  shows "tx_line (tx_step start True bits t) = frame b ! frame_pos t"
    and "tx_done True t \<longleftrightarrow> frame_pos t = 159"
    and "tx_done True t \<Longrightarrow> tx_state (tx_step start True bits t) = Idle"
    and "\<not> tx_done True t \<Longrightarrow> tx_holds b (tx_step start True bits t)
      \<and> frame_pos (tx_step start True bits t) = Suc (frame_pos t)"
proof -
  note c = counter_bounds(1) [of "tick_c t"] counter_bounds(2) [of "data_c t"]
  have eq: "tick_c t = 15 \<longleftrightarrow> unat (tick_c t) = 15" "data_c t = 7 \<longleftrightarrow> unat (data_c t) = 7"
    by (simp_all add: word_unat_eq_iff)
  show "tx_line (tx_step start True bits t) = frame b ! frame_pos t"
    using assms c by (cases "tx_state t")
      (simp_all add: tx_holds_def tx_step_def frame_pos_def frame_nth Let_def bit_drop_bit_eq)
  show "tx_done True t \<longleftrightarrow> frame_pos t = 159"
    using c by (cases "tx_state t") (auto simp: tx_done_def frame_pos_def eq)
  show "tx_done True t \<Longrightarrow> tx_state (tx_step start True bits t) = Idle"
    by (simp add: tx_done_def tx_step_def)
  assume nd: "\<not> tx_done True t"
  show "tx_holds b (tx_step start True bits t) \<and> frame_pos (tx_step start True bits t) = Suc (frame_pos t)"
  proof (cases "tick_c t = 15")
    case False
    with assms show ?thesis
      by (cases "tx_state t") (simp_all add: tx_holds_def tx_step_def frame_pos_def counter_succ Let_def)
  next
    case True
    with assms nd show ?thesis
      by (cases "tx_state t")
         (simp_all add: tx_holds_def tx_step_def frame_pos_def tx_done_def counter_succ Let_def drop_bit_Suc)
  qed
qed

text \<open>A transmit register is only written while the queue is not full, the divisor never to 0.\<close>

definition op_ok :: "bus_op \<Rightarrow> uart_hw \<Rightarrow> bool" where
  "op_ok op u \<longleftrightarrow> (written TXDATA op \<noteq> None \<longrightarrow> \<not> ff_full (u_txf u))
     \<and> (\<forall>d. written DVSR op = Some d \<longrightarrow> (ucast d :: 11 word) \<noteq> 0)"

lemma concat_snoc_last: "xs \<noteq> [] \<Longrightarrow> concat (map f xs) = concat (map f (butlast xs)) @ f (last xs)"
  by (induction xs rule: rev_induct) simp_all

text \<open>The queue of the transmitter in a cycle: it loses its head when the transmitter is done, and gets
  the byte written.\<close>

lemma txf_step:
  assumes "fifo_ok f" and "wr \<longrightarrow> \<not> ff_full f" and "rd \<longrightarrow> \<not> ff_empty f"
  shows "queued (fifo_step wr rd d f) = (if rd then tl (queued f) else queued f) @ (if wr then [d] else [])"
  using assms fifo_write(2) [OF assms(1), of d] fifo_read(2) [OF assms(1), of d] fifo_both(2) [OF assms(1), of d]
  by (cases wr; cases rd) (simp_all add: fifo_idle)

lemma txf_not_empty:
  assumes "fifo_ok f" and "wr \<longrightarrow> \<not> ff_full f" and "\<not> ff_empty f"
  shows "\<not> ff_empty (fifo_step wr False d f)"
proof -
  have "queued f \<noteq> []" using assms(1,3) queued_Nil by blast
  then have "queued (fifo_step wr False d f) \<noteq> []" using txf_step [of f wr False d] assms by auto
  then show ?thesis using queued_Nil [OF fifo_ok_step [OF assms(1)]] by blast
qed

lemma run_cycle_ok:
  assumes ok: "run_ok r" and op: "op_ok op (run_hw r)"
  shows "run_ok (run_cycle op rxd r) \<and>
    accepted (run_cycle op rxd r) = accepted r @ (case written TXDATA op of Some x \<Rightarrow> [ucast x] | None \<Rightarrow> [])"
proof -
  let ?u = "run_hw r" and ?r = "run_cycle op rxd r"
  let ?t = "u_tx ?u" and ?f = "u_txf ?u" and ?tick = "baud_tick (u_baud (run_hw r))"
  let ?b = "last (taken r)"
  define wr where "wr \<longleftrightarrow> written TXDATA op \<noteq> None"
  define d where "d = (case written TXDATA op of Some x \<Rightarrow> ucast x | None \<Rightarrow> (0 :: u8))"
  define start where "start \<longleftrightarrow> \<not> ff_empty ?f"
  have out: "(case written TXDATA op of Some x \<Rightarrow> [ucast x] | None \<Rightarrow> []) = (if wr then [d] else [])"
    by (simp add: wr_def d_def split: option.splits)
  have hw: "u_tx (run_hw ?r) = tx_step start ?tick (fifo_head ?f) ?t"
    "u_txf (run_hw ?r) = fifo_step wr (tx_done ?tick ?t) d ?f"
    by (simp_all add: run_cycle_def uart_cycle_def Let_def wr_def d_def start_def)
  have obs: "taken ?r = (if tx_state ?t = Idle \<and> start then taken r @ [fifo_head ?f] else taken r)"
    "wire ?r = (if tx_state ?t \<noteq> Idle \<and> ?tick then wire r @ [tx_line (tx_step start ?tick (fifo_head ?f) ?t)] else wire r)"
    by (simp_all add: run_cycle_def hw [unfolded run_cycle_def Let_def, simplified] start_def Let_def)
  have f: "fifo_ok ?f" and full: "wr \<longrightarrow> \<not> ff_full ?f"
    using ok op by (simp_all add: run_ok_def op_ok_def wr_def Let_def)
  have f': "fifo_ok (u_txf (run_hw ?r))" unfolding hw(2) by (rule fifo_ok_step [OF f])
  have rest: "u_dvsr (run_hw ?r) \<noteq> 0" "fifo_ok (u_rxf (run_hw ?r))"
    using ok op by (auto simp: run_ok_def op_ok_def run_cycle_def uart_cycle_def Let_def fifo_ok_step split: option.splits)
  show ?thesis
  proof (cases "tx_state ?t = Idle")
    case True
    note idle = True
    have nd: "\<not> tx_done ?tick ?t" by (simp add: tx_done_def idle)
    have w: "wire r = concat (map frame (taken r))" using ok by (simp add: run_ok_def idle Let_def)
    have q: "queued (u_txf (run_hw ?r)) = queued ?f @ (if wr then [d] else [])"
      using txf_step [OF f full, of False d] nd by (simp add: hw(2))
    show ?thesis
    proof (cases start)
      case False
      then have st: "tx_state (u_tx (run_hw ?r)) = Idle" by (simp add: hw(1) tx_step_def idle)
      then have "run_ok ?r" using rest f' w False by (simp add: run_ok_def Let_def obs idle)
      moreover have "accepted ?r = accepted r @ (if wr then [d] else [])"
        using False by (simp add: accepted_def st idle obs q)
      ultimately show ?thesis by (simp only: out)
    next
      case True
      let ?h = "fifo_head ?f"
      have st: "tx_state (u_tx (run_hw ?r)) = Start" "tick_c (u_tx (run_hw ?r)) = 0" "tx_data (u_tx (run_hw ?r)) = ?h"
        using True by (simp_all add: hw(1) tx_step_def idle)
      have qf: "queued ?f = ?h # tl (queued ?f)"
        using True queued_Cons [OF f] by (simp add: start_def)
      have "\<not> ff_empty (u_txf (run_hw ?r))"
        using txf_not_empty [OF f full] True nd by (simp add: hw(2) start_def)
      then have "run_ok ?r"
        using rest f' w True by (simp add: run_ok_def Let_def obs idle st tx_holds_def frame_pos_def)
      moreover have "accepted ?r = accepted r @ (if wr then [d] else [])"
        unfolding accepted_def using True qf by (simp add: st idle obs q) (metis append_Cons list.sel(3))
      ultimately show ?thesis by (simp only: out)
    qed
  next
    case False
    note busy = False
    have b: "\<not> ff_empty ?f" "taken r \<noteq> []" "tx_holds ?b ?t"
      and w: "wire r = concat (map frame (butlast (taken r))) @ take (frame_pos ?t) (frame ?b)"
      using ok busy by (simp_all add: run_ok_def Let_def)
    have tk: "taken ?r = taken r" using busy by (simp add: obs)
    have q: "queued (u_txf (run_hw ?r)) = (if tx_done ?tick ?t then tl (queued ?f) else queued ?f) @ (if wr then [d] else [])"
      using txf_step [OF f full, of "tx_done ?tick ?t" d] b(1) by (simp add: hw(2))
    have ne: "queued ?f \<noteq> []" using b(1) queued_Nil [OF f] by blast
    show ?thesis
    proof (cases "tx_done ?tick ?t")
      case True
      then have tick: "?tick" by (simp add: tx_done_def)
      have pos: "frame_pos ?t = 159" using tx_ticks(2) [OF b(3)] True tick by simp
      have st: "tx_state (u_tx (run_hw ?r)) = Idle"
        using tx_ticks(3) [OF b(3)] True tick by (simp add: hw(1))
      have "wire ?r = concat (map frame (butlast (taken r))) @ take 159 (frame ?b) @ [frame ?b ! 159]"
        using busy tick tx_ticks(1) [OF b(3)] by (simp add: obs w pos)
      also have "take 159 (frame ?b) @ [frame ?b ! 159] = frame ?b" using take_frame [of 159 ?b] by simp
      also have "concat (map frame (butlast (taken r))) @ frame ?b = concat (map frame (taken r))"
        using concat_snoc_last [OF b(2), of frame] by simp
      finally have "run_ok ?r" using rest f' by (simp add: run_ok_def Let_def st tk)
      moreover have "accepted ?r = accepted r @ (if wr then [d] else [])"
        by (simp add: accepted_def st busy tk q True)
      ultimately show ?thesis by (simp only: out)
    next
      case False
      have "\<not> ff_empty (u_txf (run_hw ?r))"
        using txf_not_empty [OF f full b(1)] False by (simp add: hw(2))
      moreover have "tx_holds ?b (u_tx (run_hw ?r)) \<and>
          wire ?r = concat (map frame (butlast (taken r))) @ take (frame_pos (u_tx (run_hw ?r))) (frame ?b)"
      proof (cases ?tick)
        case True
        then show ?thesis
          using False busy tx_ticks [OF b(3)] take_frame [OF frame_pos_less, of ?t ?b]
          by (simp add: hw(1) obs w)
      next
        case nt: False
        then show ?thesis
          using busy tx_quiet [OF b(3)] by (simp add: hw(1) obs w)
      qed
      ultimately have "run_ok ?r" using rest f' b(2) by (simp add: run_ok_def Let_def tk tx_holds_def)
      moreover have "accepted ?r = accepted r @ (if wr then [d] else [])"
      proof -
        have "tx_state (u_tx (run_hw ?r)) \<noteq> Idle" 
          using \<open>tx_holds ?b (u_tx (run_hw ?r)) \<and> _\<close> by (simp add: tx_holds_def)
        then show ?thesis using ne by (simp add: accepted_def busy tk q False)
      qed
      ultimately show ?thesis by (simp only: out)
    qed
  qed
qed

section \<open>A full queue drains\<close>

text \<open>The cycles to the next tick, and those to the end of the byte that is sent.\<close>

definition tick_dist :: "11 word \<Rightarrow> 11 word \<Rightarrow> nat" where
  "tick_dist dvsr count =
     (if count = 0 then 1 else if count = 1 then 0
      else if count \<le> dvsr then unat dvsr - unat count + 2 else 2 ^ 11 - unat count + 1)"

definition rank :: "uart_hw \<Rightarrow> nat" where
  "rank u = (if tx_state (u_tx u) = Idle then 161 else 160 - frame_pos (u_tx u)) * 2 ^ 12
     + tick_dist (u_dvsr u) (u_baud u)"

lemma tick_dist_bound: "tick_dist d c < 2 ^ 12"
  using unsigned_less [of d, where ?'a = nat] unsigned_less [of c, where ?'a = nat]
  by (auto simp: tick_dist_def)

lemma unat_succ_11: "(c :: 11 word) \<noteq> - 1 \<Longrightarrow> unat (c + 1) = unat c + 1"
  by (rule unat_succ)

lemma tick_dist_step:
  assumes "d \<noteq> 0" and "\<not> baud_tick c"
  shows "tick_dist d (baud_step d c) < tick_dist d c"
proof -
  have c1: "c \<noteq> 1" using assms(2) by (simp add: baud_tick_def)
  have dc: "unat c < 2 ^ 11" "unat d < 2 ^ 11"
    using unsigned_less [of c, where ?'a = nat] unsigned_less [of d, where ?'a = nat] by simp_all
  consider "c = 0" | "c \<noteq> 0" "c = d" | "c \<noteq> 0" "c < d" | "d < c" "c = - 1" | "d < c" "c \<noteq> - 1"
    by fastforce
  then show ?thesis
  proof cases
    case 1
    then show ?thesis using assms(1) by (simp add: tick_dist_def baud_step_def)
  next
    case 2
    then show ?thesis using c1 by (simp add: tick_dist_def baud_step_def)
  next
    case 3
    have m: "c \<noteq> - 1" using 3 by (metis word_n1_ge not_less)
    then have s: "unat (c + 1) = unat c + 1" by (rule unat_succ_11)
    have "c + 1 \<noteq> 0" "c + 1 \<noteq> 1" using s 3 by (auto simp: word_unat_eq_iff)
    moreover have "c + 1 \<le> d" "unat c < unat d" using 3 s by (simp_all add: word_le_nat_alt word_less_nat_alt)
    moreover have "c \<le> d" "c \<noteq> d" using 3 by auto
    ultimately show ?thesis using 3 c1 s by (simp add: tick_dist_def baud_step_def diff_less_mono2)
  next
    case 4
    then have "baud_step d c = 0" "unat c = 2 ^ 11 - 1"
      by (simp_all add: baud_step_def unsigned_minus_1_eq_mask mask_eq_exp_minus_1)
    then show ?thesis using 4 c1 by (simp add: tick_dist_def)
  next
    case 5
    then have s: "unat (c + 1) = unat c + 1" by (intro unat_succ_11)
    have "c \<noteq> 0" using 5 by auto
    moreover from this have "c + 1 \<noteq> 0" "c + 1 \<noteq> 1" using s by (auto simp: word_unat_eq_iff)
    moreover have "\<not> c + 1 \<le> d" using 5 s by (simp add: word_le_nat_alt word_less_nat_alt)
    moreover have "unat c + 1 < 2 ^ 11" using s unsigned_less [of "c + 1", where ?'a = nat] by simp
    moreover have "2 ^ 11 - (unat c + 1) < 2 ^ 11 - unat c" using dc by simp
    ultimately show ?thesis using 5 c1 s by (auto simp: tick_dist_def baud_step_def)
  qed
qed

text \<open>An access that writes neither the transmit register nor the divisor.\<close>

definition quiet :: "bus_op \<Rightarrow> bool" where
  "quiet op \<longleftrightarrow> written TXDATA op = None \<and> written DVSR op = None"

lemma quiet_ok: "quiet op \<Longrightarrow> op_ok op u"
  by (simp add: quiet_def op_ok_def)

lemma tx_rank_less:
  assumes "k' < k" and "a < 2 ^ 12"
  shows "k' * 2 ^ 12 + a < k * 2 ^ 12 + (b :: nat)"
proof -
  have "Suc k' * 2 ^ 12 \<le> k * 2 ^ 12" using assms(1) by (intro mult_le_mono1) simp
  then show ?thesis using assms(2) by simp
qed

lemma quiet_cycle:
  fixes op rxd r
  defines "u \<equiv> run_hw r" and "v \<equiv> run_hw (run_cycle op rxd r)"
  assumes ok: "run_ok r" and q: "quiet op"
  shows "u_txf v = fifo_step False (tx_done (baud_tick (u_baud u)) (u_tx u)) 0 (u_txf u)"
    and "tx_done (baud_tick (u_baud u)) (u_tx u) \<Longrightarrow> \<not> ff_empty (u_txf u)"
    and "\<not> tx_done (baud_tick (u_baud u)) (u_tx u) \<Longrightarrow> \<not> ff_empty (u_txf u) \<Longrightarrow> u_txf v = u_txf u \<and> rank v < rank u"
proof -
  let ?t = "u_tx u" and ?f = "u_txf u" and ?tick = "baud_tick (u_baud u)" and ?b = "last (taken r)"
  have v: "u_tx v = tx_step (\<not> ff_empty ?f) ?tick (fifo_head ?f) ?t" "u_dvsr v = u_dvsr u"
    "u_baud v = baud_step (u_dvsr u) (u_baud u)"
    using q by (simp_all add: u_def v_def run_cycle_def uart_cycle_def quiet_def Let_def)
  show f': "u_txf v = fifo_step False (tx_done ?tick ?t) 0 ?f"
    using q by (simp add: u_def v_def run_cycle_def uart_cycle_def quiet_def Let_def)
  have d: "u_dvsr u \<noteq> 0" using ok by (simp add: run_ok_def u_def Let_def)
  have busy: "tx_holds ?b ?t" "\<not> ff_empty ?f" if "tx_state ?t \<noteq> Idle" using ok that by (simp_all add: run_ok_def u_def Let_def)
  show "tx_done ?tick ?t \<Longrightarrow> \<not> ff_empty ?f" by (intro busy(2)) (simp add: tx_done_def)
  assume nd: "\<not> tx_done ?tick ?t" and ne: "\<not> ff_empty ?f"
  note bound = tick_dist_bound [of "u_dvsr u" "baud_step (u_dvsr u) (u_baud u)"]
  have "rank v < rank u"
  proof (cases "tx_state ?t = Idle")
    case True
    then have "tx_state (u_tx v) = Start" "tick_c (u_tx v) = 0" using ne by (simp_all add: v(1) tx_step_def)
    then show ?thesis using True bound by (simp add: rank_def frame_pos_def v(2,3))
  next
    case False
    note h = busy(1) [OF False]
    show ?thesis
    proof (cases ?tick)
      case True
      then have "tx_holds ?b (u_tx v)" "frame_pos (u_tx v) = Suc (frame_pos ?t)"
        using tx_ticks(4) [OF h] nd by (simp_all add: v(1))
      then show ?thesis
        using False frame_pos_less [of ?t] tx_rank_less [OF _ bound, of "160 - Suc (frame_pos ?t)" "160 - frame_pos ?t"]
        by (simp add: rank_def v(2,3) tx_holds_def)
    next
      case nt: False
      then have "tx_holds ?b (u_tx v)" "frame_pos (u_tx v) = frame_pos ?t"
        using tx_quiet [OF h] by (simp_all add: v(1))
      then show ?thesis using False tick_dist_step [OF d nt] by (simp add: rank_def v(2,3) tx_holds_def)
    qed
  qed
  with nd show "u_txf v = u_txf u \<and> rank v < rank u" by (simp add: f' fifo_idle)
qed

lemma quiet_full:
  assumes ok: "run_ok r" and q: "quiet op" and full: "ff_full (u_txf (run_hw (run_cycle op rxd r)))"
  shows "ff_full (u_txf (run_hw r)) \<and> rank (run_hw (run_cycle op rxd r)) < rank (run_hw r)"
proof -
  note c = quiet_cycle [OF ok q]
  have f: "fifo_ok (u_txf (run_hw r))" using ok by (simp add: run_ok_def Let_def)
  have nd: "\<not> tx_done (baud_tick (u_baud (run_hw r))) (u_tx (run_hw r))"
    using c(1) [of rxd] c(2) fifo_read(3) [OF f] full by metis
  then have "u_txf (run_hw (run_cycle op rxd r)) = u_txf (run_hw r)" using c(1) [of rxd] by (simp add: fifo_idle)
  then have fu: "ff_full (u_txf (run_hw r))" using full by simp
  then have "\<not> ff_empty (u_txf (run_hw r))" using f by (auto simp: fifo_ok_def split: if_splits)
  then show ?thesis using c(3) [OF nd] fu by simp
qed

section \<open>The whole queue is sent\<close>

text \<open>Cycles without an access, with whatever the receiver delivers.\<close>

primrec idle_cycles :: "nat \<Rightarrow> (nat \<Rightarrow> u8 option) \<Rightarrow> uart_run \<Rightarrow> uart_run" where
  "idle_cycles 0 rx r = r"
| "idle_cycles (Suc n) rx r = idle_cycles n (\<lambda>i. rx (Suc i)) (run_cycle No_access (rx 0) r)"

lemma quiet_No_access: "quiet No_access"
  by (simp add: quiet_def written_def)

lemma idle_cycles_ok:
  "run_ok r \<Longrightarrow> run_ok (idle_cycles n rx r) \<and> accepted (idle_cycles n rx r) = accepted r"
proof (induction n arbitrary: rx r)
  case (Suc n)
  have "run_ok (run_cycle No_access (rx 0) r) \<and> accepted (run_cycle No_access (rx 0) r) = accepted r"
    using run_cycle_ok [OF Suc.prems quiet_ok [OF quiet_No_access]] by (simp add: written_def)
  then show ?case using Suc.IH [of "run_cycle No_access (rx 0) r"] by simp
qed simp

lemma rank_bound: "rank u < 2 ^ 20"
proof -
  have "rank u \<le> 161 * 2 ^ 12 + tick_dist (u_dvsr u) (u_baud u)"
    unfolding rank_def by (intro add_le_mono1 mult_le_mono1) auto
  then show ?thesis using tick_dist_bound [of "u_dvsr u" "u_baud u"] by simp
qed

lemma queue_sent:
  assumes "run_ok r"
  shows "\<exists>n. ff_empty (u_txf (run_hw (idle_cycles n rx r)))"
  using assms
proof (induction r arbitrary: rx rule: measure_induct_rule
    [where f = "\<lambda>r. length (queued (u_txf (run_hw r))) * 2 ^ 20 + rank (run_hw r)"])
  case (less r)
  show ?case
  proof (cases "ff_empty (u_txf (run_hw r))")
    case True
    then show ?thesis by (intro exI [of _ 0]) simp
  next
    case False
    let ?s = "run_cycle No_access (rx 0) r" and ?u = "run_hw r"
    let ?done = "tx_done (baud_tick (u_baud ?u)) (u_tx ?u)"
    note c = quiet_cycle [OF less.prems quiet_No_access]
    have f: "fifo_ok (u_txf ?u)" using less.prems by (simp add: run_ok_def Let_def)
    have "length (queued (u_txf (run_hw ?s))) * 2 ^ 20 + rank (run_hw ?s)
        < length (queued (u_txf ?u)) * 2 ^ 20 + rank ?u"
    proof (cases ?done)
      case True
      then have "length (queued (u_txf ?u)) = Suc (length (queued (u_txf (run_hw ?s))))"
        using fifo_read(2) [OF f False, of 0] by (simp add: c(1))
      then show ?thesis using rank_bound [of "run_hw ?s"] by simp
    next
      case nd: False
      then show ?thesis using c(3) [OF nd False, of "rx 0"] by simp
    qed
    moreover have "run_ok ?s" using run_cycle_ok [OF less.prems quiet_ok [OF quiet_No_access]] by simp
    ultimately obtain n where "ff_empty (u_txf (run_hw (idle_cycles n (\<lambda>i. rx (Suc i)) ?s)))"
      using less.IH by blast
    then show ?thesis by (intro exI [of _ "Suc n"]) simp
  qed
qed

lemma sent_all:
  assumes ok: "run_ok r" and e: "ff_empty (u_txf (run_hw r))"
  shows "wire r = concat (map frame (accepted r))"
proof -
  have "queued (u_txf (run_hw r)) = []" using ok e queued_Nil by (simp add: run_ok_def Let_def)
  then show ?thesis using ok e by (simp add: run_ok_def accepted_def Let_def split: if_splits)
qed

end
