(* ===== verification/Uart.thy ===== *)
theory Uart
  imports UartHw Bits "HOL-Library.Signed_Division"
begin

text \<open>
  The driver of the UART, \<^verbatim>\<open>sw/librtor/uart.c\<close>. The registers are volatile: every access is one
  operation on the state of the device, \<open>get\<close> and \<open>put\<close>, and a read changes that state because time
  passes. \<open>uart_bus\<close> is what the driver needs of a device; the UART of the chip has it, whatever
  number of cycles the processor spends between two accesses and whatever arrives meanwhile.
\<close>

section \<open>The code\<close>

definition BIT_EMPTY :: u32 where "BIT_EMPTY = 8"
definition BIT_FULL :: u32 where "BIT_FULL = 9"
definition BIT_DATA_LOW :: u32 where "BIT_DATA_LOW = 0"
definition BIT_DATA_HIGH :: u32 where "BIT_DATA_HIGH = 7"

text \<open>The arithmetic on \<open>CLK_FREQ_MHZ\<close> and \<open>baud\<close> is on \<open>int\<close>; a division by 0 is undefined.\<close>

definition uart_set_baud :: "int \<Rightarrow> (u32 \<Rightarrow> u32 \<Rightarrow> 's \<Rightarrow> 's) \<Rightarrow> s32 \<Rightarrow> 's \<Rightarrow> 's option" where
  "uart_set_baud clk_freq_mhz put baud s =
     Option.bind (in_int (clk_freq_mhz * 1000000)) (\<lambda>hz.
       if baud = 0 then None
       else Option.bind (in_int (hz sdiv 16 sdiv sint baud - 1)) (\<lambda>dvsr.
              Some (put DVSR (word_of_int dvsr) s)))"

definition uart_rx_empty :: "(u32 \<Rightarrow> 's \<Rightarrow> u32 \<times> 's) \<Rightarrow> 's \<Rightarrow> (s32 \<times> 's) option" where
  "uart_rx_empty get s = (let (v, s) = get RXDATA s in map_option (\<lambda>b. (b, s)) (bit_is_on v BIT_EMPTY))"

definition uart_tx_full :: "(u32 \<Rightarrow> 's \<Rightarrow> u32 \<times> 's) \<Rightarrow> 's \<Rightarrow> (s32 \<times> 's) option" where
  "uart_tx_full get s = (let (v, s) = get RXDATA s in map_option (\<lambda>b. (b, s)) (bit_is_on v BIT_FULL))"

text \<open>\<open>while (uart_tx_full()) {}\<close>\<close>

partial_function (option) uart_tx_wait :: "(u32 \<Rightarrow> 's \<Rightarrow> u32 \<times> 's) \<Rightarrow> 's \<Rightarrow> 's option" where
  "uart_tx_wait get s =
     Option.bind (uart_tx_full get s) (\<lambda>(full, s). if full \<noteq> 0 then uart_tx_wait get s else Some s)"

definition uart_tx :: "(u32 \<Rightarrow> 's \<Rightarrow> u32 \<times> 's) \<Rightarrow> (u32 \<Rightarrow> u32 \<Rightarrow> 's \<Rightarrow> 's) \<Rightarrow> u8 \<Rightarrow> 's \<Rightarrow> 's option" where
  "uart_tx get put byte s = map_option (put TXDATA (ucast byte)) (uart_tx_wait get s)"

definition uart_rx :: "(u32 \<Rightarrow> 's \<Rightarrow> u32 \<times> 's) \<Rightarrow> (u32 \<Rightarrow> u32 \<Rightarrow> 's \<Rightarrow> 's) \<Rightarrow> 's \<Rightarrow> (s32 \<times> 's) option" where
  "uart_rx get put s =
     Option.bind (uart_rx_empty get s) (\<lambda>(empty, s).
       if empty \<noteq> 0 then Some (- 1, s)
       else let (v, s) = get RXDATA s
            in map_option (\<lambda>data. (data, put CLEAR 0 s)) (bits_get v BIT_DATA_LOW BIT_DATA_HIGH))"

definition uart_putc ::
  "(u32 \<Rightarrow> 's \<Rightarrow> u32 \<times> 's) \<Rightarrow> (u32 \<Rightarrow> u32 \<Rightarrow> 's \<Rightarrow> 's) \<Rightarrow> ptr \<Rightarrow> char \<Rightarrow> 's \<Rightarrow> 's option" where
  "uart_putc get put p c s = uart_tx get put (of_char c) s"

section \<open>What the driver needs of the device\<close>

text \<open>\<open>room\<close>: the device takes a byte now. A status without \<open>BIT_FULL\<close> promises room, and a status with
  it brings the device nearer to having room.\<close>

locale uart_bus =
  fixes get :: "u32 \<Rightarrow> 's \<Rightarrow> u32 \<times> 's"
    and put :: "u32 \<Rightarrow> u32 \<Rightarrow> 's \<Rightarrow> 's"
    and inv :: "'s \<Rightarrow> bool"
    and room :: "'s \<Rightarrow> bool"
    and level :: "'s \<Rightarrow> nat"
    and sent :: "'s \<Rightarrow> u8 list"
  assumes get_keeps: "inv s \<Longrightarrow> get RXDATA s = (v, s') \<Longrightarrow> inv s' \<and> sent s' = sent s"
    and get_room: "inv s \<Longrightarrow> get RXDATA s = (v, s') \<Longrightarrow> \<not> bit v 9 \<Longrightarrow> room s'"
    and get_level: "inv s \<Longrightarrow> get RXDATA s = (v, s') \<Longrightarrow> bit v 9 \<Longrightarrow> \<not> room s' \<Longrightarrow> level s' < level s"
    and room_full: "inv s \<Longrightarrow> room s \<Longrightarrow> get RXDATA s = (v, s') \<Longrightarrow> \<not> bit v 9"
    and put_sends: "inv s \<Longrightarrow> room s \<Longrightarrow> inv (put TXDATA d s) \<and> sent (put TXDATA d s) = sent s @ [ucast d]"
begin

lemma tx_full_eq: "get RXDATA s = (v, s') \<Longrightarrow> uart_tx_full get s = Some (of_bool (bit v 9), s')"
  by (simp add: uart_tx_full_def BIT_FULL_def bit_is_on_Some)

lemma wait_returns: "inv s \<Longrightarrow> \<exists>s'. uart_tx_wait get s = Some s' \<and> inv s' \<and> room s' \<and> sent s' = sent s"
proof (induction s rule: measure_induct_rule [where f = "\<lambda>s. if room s then 0 else Suc (level s)"])
  case (less s)
  obtain v s1 where g: "get RXDATA s = (v, s1)" by (cases "get RXDATA s")
  have 1: "inv s1" "sent s1 = sent s" using get_keeps [OF less.prems g] by auto
  show ?case
  proof (cases "bit v 9")
    case False
    then show ?thesis
      using 1 get_room [OF less.prems g] by (subst uart_tx_wait.simps) (simp add: tx_full_eq [OF g])
  next
    case True
    then have "\<not> room s" using room_full [OF less.prems _ g] by blast
    moreover have "\<not> room s1 \<Longrightarrow> level s1 < level s" using get_level [OF less.prems g True] .
    ultimately obtain s' where "uart_tx_wait get s1 = Some s'" "inv s'" "room s'" "sent s' = sent s1"
      using less.IH [of s1] 1 by (cases "room s1") auto
    then show ?thesis using True 1 by (subst uart_tx_wait.simps) (simp add: tx_full_eq [OF g])
  qed
qed

lemma tx_sends: "inv s \<Longrightarrow> \<exists>s'. uart_tx get put b s = Some s' \<and> inv s' \<and> sent s' = sent s @ [b]"
  using wait_returns [of s] put_sends [where d = "ucast b"]
  by (fastforce simp: uart_tx_def ucast_up_ucast_id is_up)

text \<open>A text, character by character through a call-back on the state of the device.\<close>

lemma text_sends:
  assumes "inv s" and "\<And>s c. f (Some s) c = uart_tx get put (of_char c) s"
  shows "\<exists>s'. foldl f (Some s) t = Some s' \<and> inv s' \<and> sent s' = sent s @ map of_char t"
  using assms(1)
proof (induction t arbitrary: s)
  case (Cons c t)
  obtain s1 where 1: "uart_tx get put (of_char c) s = Some s1" "inv s1" "sent s1 = sent s @ [of_char c]"
    using tx_sends [OF Cons.prems] by blast
  then show ?case using Cons.IH [OF 1(2)] by (simp add: assms(2))
qed simp

end

section \<open>The UART of the chip, seen by the processor\<close>

text \<open>\<open>dev_gap k\<close> is the number of cycles the processor spends behind its \<open>k\<close>-th access, \<open>dev_rx t\<close> what
  the receiver delivers in cycle \<open>t\<close>.\<close>

record uart_dev =
  dev_run :: uart_run
  dev_gap :: "nat \<Rightarrow> nat"
  dev_rx :: "nat \<Rightarrow> u8 option"
  dev_time :: nat
  dev_accesses :: nat

definition dev_cycle :: "bus_op \<Rightarrow> uart_dev \<Rightarrow> uart_dev" where
  "dev_cycle op d = d\<lparr>dev_run := run_cycle op (dev_rx d (dev_time d)) (dev_run d), dev_time := dev_time d + 1\<rparr>"

definition dev_access :: "bus_op \<Rightarrow> uart_dev \<Rightarrow> uart_dev" where
  "dev_access op d =
     ((dev_cycle No_access ^^ dev_gap d (dev_accesses d)) (dev_cycle op d))\<lparr>dev_accesses := dev_accesses d + 1\<rparr>"

definition dev_get :: "u32 \<Rightarrow> uart_dev \<Rightarrow> u32 \<times> uart_dev" where
  "dev_get reg d = (uart_rdata reg (run_hw (dev_run d)), dev_access (Bus_read reg) d)"

definition dev_put :: "u32 \<Rightarrow> u32 \<Rightarrow> uart_dev \<Rightarrow> uart_dev" where
  "dev_put reg v d = dev_access (Bus_write reg v) d"

definition dev_ok :: "uart_dev \<Rightarrow> bool" where
  "dev_ok d \<longleftrightarrow> run_ok (dev_run d)"

definition dev_room :: "uart_dev \<Rightarrow> bool" where
  "dev_room d \<longleftrightarrow> \<not> ff_full (u_txf (run_hw (dev_run d)))"

definition dev_level :: "uart_dev \<Rightarrow> nat" where
  "dev_level d = rank (run_hw (dev_run d))"

definition dev_sent :: "uart_dev \<Rightarrow> u8 list" where
  "dev_sent d = accepted (dev_run d)"

lemma dev_cycle_ok:
  assumes "dev_ok d" and "op_ok op (run_hw (dev_run d))"
  shows "dev_ok (dev_cycle op d)"
    "dev_sent (dev_cycle op d) = dev_sent d @ (case written TXDATA op of Some x \<Rightarrow> [ucast x] | None \<Rightarrow> [])"
  using run_cycle_ok [of "dev_run d" op] assms by (simp_all add: dev_cycle_def dev_ok_def dev_sent_def)

lemma dev_cycle_quiet:
  assumes "dev_ok d" and "quiet op"
  shows "dev_ok (dev_cycle op d)" "dev_sent (dev_cycle op d) = dev_sent d"
    "dev_room (dev_cycle op d) \<or> \<not> dev_room d \<and> dev_level (dev_cycle op d) < dev_level d"
proof -
  show "dev_ok (dev_cycle op d)" "dev_sent (dev_cycle op d) = dev_sent d"
    using dev_cycle_ok [OF assms(1) quiet_ok [OF assms(2)]] assms(2) by (simp_all add: quiet_def)
  show "dev_room (dev_cycle op d) \<or> \<not> dev_room d \<and> dev_level (dev_cycle op d) < dev_level d"
    using quiet_full [of "dev_run d" op] assms by (auto simp: dev_cycle_def dev_room_def dev_level_def dev_ok_def)
qed

text \<open>Cycles without an access, for the time between two accesses.\<close>

lemma dev_idle:
  fixes n d
  defines "d' \<equiv> (dev_cycle No_access ^^ n) d"
  assumes "dev_ok d"
  shows "dev_ok d' \<and> dev_sent d' = dev_sent d \<and> (dev_room d \<longrightarrow> dev_room d')
    \<and> (dev_room d' \<or> dev_level d' \<le> dev_level d)"
  unfolding d'_def
proof (induction n)
  case (Suc n)
  then show ?case
    using dev_cycle_quiet [OF _ quiet_No_access, of "(dev_cycle No_access ^^ n) d"] by fastforce
qed (use assms(2) in simp)

lemma dev_accesses_simps [simp]:
  "dev_ok (d\<lparr>dev_accesses := k\<rparr>) = dev_ok d" "dev_sent (d\<lparr>dev_accesses := k\<rparr>) = dev_sent d"
  "dev_room (d\<lparr>dev_accesses := k\<rparr>) = dev_room d" "dev_level (d\<lparr>dev_accesses := k\<rparr>) = dev_level d"
  by (simp_all add: dev_ok_def dev_sent_def dev_room_def dev_level_def)

lemma dev_access_quiet:
  fixes op d
  defines "d' \<equiv> dev_access op d"
  assumes "dev_ok d" and "quiet op"
  shows "dev_ok d' \<and> dev_sent d' = dev_sent d \<and> (dev_room d \<longrightarrow> dev_room d') \<and> (dev_room d' \<or> dev_level d' < dev_level d)"
  using dev_cycle_quiet [OF assms(2,3)] dev_idle [of "dev_cycle op d" "dev_gap d (dev_accesses d)"]
  by (auto simp: d'_def dev_access_def)

lemma status_bit: "bit (uart_rdata RXDATA u) 9 \<longleftrightarrow> ff_full (u_txf u)"
  by (auto simp: uart_rdata_def bit_or_iff bit_push_bit_iff bit_ucast_iff)

lemma quiet_read: "quiet (Bus_read reg)"
  by (simp add: quiet_def written_def)

interpretation chip: uart_bus dev_get dev_put dev_ok dev_room dev_level dev_sent
proof unfold_locales
  fix d d' v w assume ok: "dev_ok d"
  note q = dev_access_quiet [OF ok quiet_read]
  assume g: "dev_get RXDATA d = (v, d')"
  then have d': "d' = dev_access (Bus_read RXDATA) d" and b: "bit v 9 \<longleftrightarrow> \<not> dev_room d"
    by (auto simp: dev_get_def dev_room_def status_bit)
  show "dev_ok d' \<and> dev_sent d' = dev_sent d" using q by (simp add: d')
  show "\<not> bit v 9 \<Longrightarrow> dev_room d'" using q b by (simp add: d')
  show "bit v 9 \<Longrightarrow> \<not> dev_room d' \<Longrightarrow> dev_level d' < dev_level d" using q by (auto simp: d')
  show "dev_room d \<Longrightarrow> \<not> bit v 9" using b by simp
next
  fix d w assume ok: "dev_ok d" and room: "dev_room d"
  have "op_ok (Bus_write TXDATA w) (run_hw (dev_run d))"
    using room by (simp add: op_ok_def dev_room_def written_def TXDATA_def DVSR_def)
  note c = dev_cycle_ok [OF ok this]
  show "dev_ok (dev_put TXDATA w d) \<and> dev_sent (dev_put TXDATA w d) = dev_sent d @ [ucast w]"
    using c dev_idle [OF c(1), of "dev_gap d (dev_accesses d)"] by (simp add: dev_put_def dev_access_def written_def)
qed

section \<open>Before the baud rate is set\<close>

text \<open>The UART behind the reset, where the divisor is 0 and no tick occurs: nothing to send, nothing
  sent. The receiver may already have bytes.\<close>

definition fifo_reset :: "(3 word \<Rightarrow> u8) \<Rightarrow> fifo" where
  "fifo_reset m = \<lparr>w_ptr = 0, r_ptr = 0, ff_full = False, ff_empty = True, ff_regs = m\<rparr>"

definition uart_reset :: "(3 word \<Rightarrow> u8) \<Rightarrow> (3 word \<Rightarrow> u8) \<Rightarrow> uart_hw" where
  "uart_reset m m' = \<lparr>u_dvsr = 0, u_baud = 0,
     u_tx = \<lparr>tx_state = Idle, tx_data = 0, tick_c = 0, data_c = 0, tx_line = False\<rparr>,
     u_txf = fifo_reset m, u_rxf = fifo_reset m'\<rparr>"

definition fresh :: "uart_dev \<Rightarrow> bool" where
  "fresh d \<longleftrightarrow> (let r = dev_run d; u = run_hw r
     in fifo_ok (u_txf u) \<and> fifo_ok (u_rxf u) \<and> tx_state (u_tx u) = Idle \<and> ff_empty (u_txf u)
        \<and> taken r = [] \<and> wire r = [])"

lemma fresh_reset: "fresh (d\<lparr>dev_run := \<lparr>run_hw = uart_reset m m', taken = [], wire = []\<rparr>\<rparr>)"
  by (simp add: fresh_def uart_reset_def fifo_reset_def fifo_ok_def)

lemma fresh_idle: "fresh d \<Longrightarrow> fresh (dev_cycle No_access d)"
  by (simp add: fresh_def dev_cycle_def run_cycle_def uart_cycle_def written_def tx_step_def tx_done_def fifo_idle
      fifo_ok_step Let_def)

lemma fresh_set_dvsr:
  assumes "fresh d" and "(ucast v :: 11 word) \<noteq> 0"
  shows "dev_ok (dev_put DVSR v d)" and "dev_sent (dev_put DVSR v d) = []"
proof -
  let ?d = "dev_cycle (Bus_write DVSR v) d"
  have 1: "dev_ok ?d" "dev_sent ?d = []"
    using assms by (simp_all add: fresh_def dev_ok_def dev_sent_def run_ok_def accepted_def dev_cycle_def run_cycle_def
        uart_cycle_def written_def tx_step_def tx_done_def fifo_idle fifo_ok_step queued_Nil TXDATA_def DVSR_def Let_def)
  then show "dev_ok (dev_put DVSR v d)" "dev_sent (dev_put DVSR v d) = []"
    using dev_idle [OF 1(1)] by (simp_all add: dev_put_def dev_access_def)
qed

text \<open>The baud counter has a period of one more than the divisor, and ticks once in each; a bit takes 16 ticks.\<close>

definition bit_cycles :: "uart_dev \<Rightarrow> nat" where
  "bit_cycles d = 16 * (unat (u_dvsr (run_hw (dev_run d))) + 1)"

lemma baud_period:
  "k \<le> unat d \<Longrightarrow> (baud_step d ^^ k) 0 = of_nat k" "(baud_step d ^^ (unat d + 1)) 0 = 0"
proof -
  show k: "k \<le> unat d \<Longrightarrow> (baud_step d ^^ k) 0 = of_nat k" for k
  proof (induction k)
    case (Suc k)
    have "unat (of_nat k :: 11 word) \<le> k" by (simp add: unat_of_nat)
    then have "(of_nat k :: 11 word) \<noteq> d" using Suc.prems by auto
    then show ?case using Suc by (simp add: baud_step_def add.commute)
  qed simp
  show "(baud_step d ^^ (unat d + 1)) 0 = 0" using k [of "unat d"] by (simp add: baud_step_def)
qed

lemma dvsr_idle: "u_dvsr (run_hw (dev_run ((dev_cycle No_access ^^ n) d))) = u_dvsr (run_hw (dev_run d))"
  by (induction n) (simp_all add: dev_cycle_def run_cycle_def uart_cycle_def written_def Let_def)

lemma set_dvsr: "u_dvsr (run_hw (dev_run (dev_put DVSR v d))) = ucast v"
  by (simp add: dev_put_def dev_access_def dvsr_idle) (simp add: dev_cycle_def run_cycle_def uart_cycle_def written_def Let_def)

text \<open>From 4 MHz on, 115200 baud have a divisor that is not 0 and fits its eleven bits; below, the
  code writes 0 or \<open>-1\<close>.\<close>

lemma sdiv_pos: "0 \<le> a \<Longrightarrow> 0 < b \<Longrightarrow> a sdiv b = a div (b :: int)"
  by (cases "a = 0") (simp_all add: signed_divide_int_def sgn_if)

lemma set_baud_115200:
  assumes "4 \<le> clk" and "clk \<le> 2147"
  shows "\<exists>v. uart_set_baud clk put 115200 s = Some (put DVSR v s) \<and> (ucast v :: 11 word) \<noteq> 0
    \<and> uint (ucast v :: 11 word) = clk * 1000000 div 16 div 115200 - 1"
proof -
  let ?d = "clk * 1000000 div 16 div 115200 - 1"
  have d: "1 \<le> ?d" "?d < 2 ^ 11" using assms by auto
  have "in_int (clk * 1000000) = Some (clk * 1000000)" "in_int ?d = Some ?d"
    using assms d by (auto simp: in_int_def)
  moreover have "sint (115200 :: s32) = 115200" by simp
  ultimately have "uart_set_baud clk put 115200 s = Some (put DVSR (word_of_int ?d) s)"
    using assms by (simp add: uart_set_baud_def sdiv_pos)
  moreover have "(ucast (word_of_int e :: u32) :: 11 word) \<noteq> 0 \<and> uint (ucast (word_of_int e :: u32) :: 11 word) = e"
    if "1 \<le> e" "e < 2 ^ 11" for e :: int
  proof -
    have "uint (word_of_int e :: u32) = e" using that by (simp add: unsigned_of_int take_bit_int_eq_self)
    then have "uint (ucast (word_of_int e :: u32) :: 11 word) = e"
      using that by (simp add: unsigned_ucast_eq take_bit_int_eq_self)
    then show ?thesis using that by (metis unsigned_0 not_one_le_zero)
  qed
  ultimately show ?thesis using d by blast
qed

text \<open>The rate: a bit takes the number of cycles that 115200 baud allow it, rounded down to a multiple of 16.\<close>

lemma baud_115200:
  assumes "4 \<le> clk" and "uint (ucast v :: 11 word) = clk * 1000000 div 16 div 115200 - 1"
  shows "int (bit_cycles (dev_put DVSR v d)) * 115200 \<le> clk * 1000000
    \<and> clk * 1000000 < (int (bit_cycles (dev_put DVSR v d)) + 16) * 115200"
proof -
  define q where "q = clk * 1000000 div 16 div 115200"
  have "q = clk * 1000000 div 1843200" unfolding q_def using zdiv_zmult2_eq [of 115200 "clk * 1000000" 16] by simp
  moreover have "clk * 1000000 div 1843200 * 1843200 + clk * 1000000 mod 1843200 = clk * 1000000" by (rule div_mult_mod_eq)
  moreover have "0 \<le> clk * 1000000 mod 1843200" "clk * 1000000 mod 1843200 < 1843200" by (rule pos_mod_sign pos_mod_bound, simp)+
  ultimately have q: "q * 1843200 \<le> clk * 1000000" "clk * 1000000 < q * 1843200 + 1843200" by linarith+
  have "uint (ucast v :: 11 word) = q - 1" unfolding q_def by (rule assms(2))
  then have "int (unat (ucast v :: 11 word)) = q - 1" by (simp only: uint_nat [symmetric])
  then have "int (bit_cycles (dev_put DVSR v d)) = 16 * q" by (simp add: bit_cycles_def set_dvsr)
  then show ?thesis using q by (simp add: algebra_simps)
qed

section \<open>Receiving\<close>

lemma head_stays:
  assumes "fifo_ok f" "\<not> ff_empty f"
  shows "\<not> ff_empty (fifo_step wr False d f) \<and> fifo_head (fifo_step wr False d f) = fifo_head f"
  using assms by (cases wr) (auto simp: fifo_step_def fifo_head_def fifo_ok_def Let_def split: if_splits)

definition rx_queue :: "uart_dev \<Rightarrow> fifo" where
  "rx_queue d = u_rxf (run_hw (dev_run d))"

lemma rx_cycle:
  assumes "fifo_ok (rx_queue d)" "\<not> ff_empty (rx_queue d)" "written CLEAR op = None"
  shows "fifo_ok (rx_queue (dev_cycle op d)) \<and> \<not> ff_empty (rx_queue (dev_cycle op d))
    \<and> fifo_head (rx_queue (dev_cycle op d)) = fifo_head (rx_queue d)"
  using assms head_stays [OF assms(1,2)]
  by (simp add: rx_queue_def dev_cycle_def run_cycle_def uart_cycle_def fifo_ok_step Let_def)

lemma rx_access:
  assumes "fifo_ok (rx_queue d)" "\<not> ff_empty (rx_queue d)" "written CLEAR op = None"
  shows "\<not> ff_empty (rx_queue (dev_access op d)) \<and> fifo_head (rx_queue (dev_access op d)) = fifo_head (rx_queue d)"
proof -
  have n: "written CLEAR No_access = None" by (simp add: written_def)
  have "fifo_ok (rx_queue ((dev_cycle No_access ^^ n) (dev_cycle op d)))
    \<and> \<not> ff_empty (rx_queue ((dev_cycle No_access ^^ n) (dev_cycle op d)))
    \<and> fifo_head (rx_queue ((dev_cycle No_access ^^ n) (dev_cycle op d))) = fifo_head (rx_queue d)" for n
    by (induction n) (use rx_cycle [OF assms] rx_cycle [OF _ _ n] in auto)
  then show ?thesis by (simp add: dev_access_def rx_queue_def)
qed

lemma status_bits:
  "bit (uart_rdata RXDATA u) 8 \<longleftrightarrow> ff_empty (u_rxf u)"
  "take_bit 8 (uart_rdata RXDATA u) = ucast (fifo_head (u_rxf u))"
proof -
  show "bit (uart_rdata RXDATA u) 8 \<longleftrightarrow> ff_empty (u_rxf u)"
    by (auto simp: uart_rdata_def bit_or_iff bit_push_bit_iff bit_ucast_iff)
  show "take_bit 8 (uart_rdata RXDATA u) = ucast (fifo_head (u_rxf u))"
    by (rule word_eqI_bits) (auto simp: uart_rdata_def bit_or_iff bit_push_bit_iff bit_ucast_iff bit_take_bit_iff
        dest: bit_imp_le_length)
qed

text \<open>\<open>uart_rx\<close> returns at once: \<open>-1\<close> when its first look finds the queue empty, otherwise the oldest byte,
  as a number below 256; it sends nothing.\<close>

lemma uart_rx_chip:
  assumes ok: "dev_ok d"
  shows "\<exists>d'. uart_rx dev_get dev_put d
      = Some (if ff_empty (rx_queue d) then - 1 else ucast (fifo_head (rx_queue d)), d')
    \<and> dev_ok d' \<and> dev_sent d' = dev_sent d"
proof -
  let ?r = "dev_access (Bus_read RXDATA)"
  have st: "uart_rx_empty dev_get d = Some (of_bool (ff_empty (rx_queue d)), ?r d)"
    by (simp add: uart_rx_empty_def dev_get_def BIT_EMPTY_def bit_is_on_Some status_bits rx_queue_def)
  have 1: "dev_ok (?r d)" "dev_sent (?r d) = dev_sent d" using dev_access_quiet [OF ok quiet_read] by auto
  show ?thesis
  proof (cases "ff_empty (rx_queue d)")
    case True
    then show ?thesis using 1 by (simp add: uart_rx_def st)
  next
    case False
    have f: "fifo_ok (rx_queue d)" using ok by (simp add: dev_ok_def run_ok_def rx_queue_def Let_def)
    have w: "written CLEAR (Bus_read RXDATA) = None" "quiet (Bus_write CLEAR 0)"
      by (simp_all add: written_def quiet_def CLEAR_def TXDATA_def DVSR_def)
    have h: "fifo_head (rx_queue (?r d)) = fifo_head (rx_queue d)" using rx_access [OF f False w(1)] by blast
    have "bits_get (uart_rdata RXDATA (run_hw (dev_run (?r d)))) BIT_DATA_LOW BIT_DATA_HIGH
        = Some (take_bit 8 (uart_rdata RXDATA (run_hw (dev_run (?r d)))))"
      by (simp add: bits_get_Some BIT_DATA_LOW_def BIT_DATA_HIGH_def)
    then have "uart_rx dev_get dev_put d = Some (ucast (fifo_head (rx_queue d)), dev_put CLEAR 0 (?r (?r d)))"
      using False h by (simp add: uart_rx_def st dev_get_def status_bits rx_queue_def [symmetric])
    moreover have "dev_ok (dev_put CLEAR 0 (?r (?r d))) \<and> dev_sent (dev_put CLEAR 0 (?r (?r d))) = dev_sent d"
      using dev_access_quiet [OF 1(1) quiet_read, of RXDATA] dev_access_quiet [of "?r (?r d)", OF _ w(2)] 1
      by (simp add: dev_put_def)
    ultimately show ?thesis using False by simp
  qed
qed

end
