(* ===== verification/Gpio.thy ===== *)
theory Gpio
  imports Bits
begin

text \<open>
  The pins: \<^verbatim>\<open>sw/librtor/gpio.h\<close> on the GPIO block of the chip, \<^verbatim>\<open>src/main/scala/sys/gpio/Gpio.scala\<close>, with
  one input and seven outputs (\<^verbatim>\<open>Soc.scala\<close>). The block answers a read with the register that was
  addressed in the cycle before; what the driver does to the pins it does not name depends on it.
\<close>

section \<open>The code\<close>

datatype gpo_pin = GPO_LED_R | GPO_LED_G | GPO_LED_B | GPO_PIN_0 | GPO_PIN_1 | GPO_PIN_2 | GPO_PIN_3

fun gpo_code :: "gpo_pin \<Rightarrow> u32" where
  "gpo_code GPO_LED_R = 0" | "gpo_code GPO_LED_G = 1" | "gpo_code GPO_LED_B = 2" | "gpo_code GPO_PIN_0 = 3"
| "gpo_code GPO_PIN_1 = 4" | "gpo_code GPO_PIN_2 = 5" | "gpo_code GPO_PIN_3 = 6"

datatype gpi_pin = GPI_BTN

fun gpi_code :: "gpi_pin \<Rightarrow> u32" where
  "gpi_code GPI_BTN = 0"

text \<open>The offsets of the registers in \<open>gpio_reg_t\<close>, and the driver on any device that has them.\<close>

definition GPI_VAL :: u32 where "GPI_VAL = 0"
definition GPO_VAL :: u32 where "GPO_VAL = 4"

definition gpo_write ::
  "(u32 \<Rightarrow> 's \<Rightarrow> u32 \<times> 's) \<Rightarrow> (u32 \<Rightarrow> u32 \<Rightarrow> 's \<Rightarrow> 's) \<Rightarrow> gpo_pin \<Rightarrow> u32 \<Rightarrow> 's \<Rightarrow> 's option" where
  "gpo_write get put pin val s =
     (let (v, s) = get GPO_VAL s in map_option (\<lambda>w. put GPO_VAL w s) (bit_assign v (gpo_code pin) val))"

definition gpi_read :: "(u32 \<Rightarrow> 's \<Rightarrow> u32 \<times> 's) \<Rightarrow> gpi_pin \<Rightarrow> 's \<Rightarrow> (u32 \<times> 's) option" where
  "gpi_read get pin s = (let (v, s) = get GPI_VAL s in map_option (\<lambda>b. (b, s)) (bit_is_on v (gpi_code pin)))"

section \<open>The hardware\<close>

text \<open>One cycle: the address at the block, the word of a write, the level of the input pin. \<open>g_rdata\<close> is
  what the bus sees a cycle later.\<close>

record gpio_hw =
  g_in :: "1 word"
  g_out :: "7 word"
  g_addr :: "10 word"
  g_rdata :: u32

definition gpio_cycle :: "10 word \<Rightarrow> u32 option \<Rightarrow> 1 word \<Rightarrow> gpio_hw \<Rightarrow> gpio_hw" where
  "gpio_cycle addr w gpi g = g\<lparr>
     g_in := gpi,
     g_out := (case w of Some d \<Rightarrow> if addr = 4 then ucast d else g_out g | None \<Rightarrow> g_out g),
     g_addr := addr,
     g_rdata := (if g_addr g = 0 then ucast (g_in g) else if g_addr g = 4 then ucast (g_out g) else 0)\<rparr>"

text \<open>The block seen by the processor. \<open>gp_idle k\<close> are the addresses at the block in the cycles before
  the \<open>k\<close>-th access (0 where the bus selects another device), \<open>gp_pin t\<close> is the input in cycle \<open>t\<close>.\<close>

record gpio_dev =
  gp_hw :: gpio_hw
  gp_idle :: "nat \<Rightarrow> 10 word list"
  gp_pin :: "nat \<Rightarrow> 1 word"
  gp_time :: nat
  gp_accesses :: nat

definition gp_cycle :: "10 word \<Rightarrow> u32 option \<Rightarrow> gpio_dev \<Rightarrow> gpio_dev" where
  "gp_cycle addr w d = d\<lparr>gp_hw := gpio_cycle addr w (gp_pin d (gp_time d)) (gp_hw d), gp_time := gp_time d + 1\<rparr>"

definition gp_wait :: "gpio_dev \<Rightarrow> gpio_dev" where
  "gp_wait d = fold (\<lambda>a. gp_cycle a None) (gp_idle d (gp_accesses d)) d"

definition gp_access :: "10 word \<Rightarrow> u32 option \<Rightarrow> gpio_dev \<Rightarrow> gpio_dev" where
  "gp_access addr w d = (gp_cycle addr w (gp_wait d))\<lparr>gp_accesses := gp_accesses d + 1\<rparr>"

definition gp_get :: "u32 \<Rightarrow> gpio_dev \<Rightarrow> u32 \<times> gpio_dev" where
  "gp_get reg d = (let d = gp_access (ucast reg) None d in (g_rdata (gp_hw d), d))"

definition gp_put :: "u32 \<Rightarrow> u32 \<Rightarrow> gpio_dev \<Rightarrow> gpio_dev" where
  "gp_put reg v d = gp_access (ucast reg) (Some v) d"

section \<open>Pins\<close>

lemma gpo_code_less: "gpo_code pin < 7" "unat (gpo_code pin) < 7"
  by (cases pin; simp)+

lemma gpo_code_inj: "gpo_code p = gpo_code q \<longleftrightarrow> p = q"
  by (cases p; cases q) simp_all

definition pin_level :: "gpo_pin \<Rightarrow> gpio_dev \<Rightarrow> bool" where
  "pin_level pin d = bit (g_out (gp_hw d)) (unat (gpo_code pin))"

text \<open>The driver's word: the pin it names, and the others as it has read them.\<close>

lemma assign_pin:
  assumes "val \<in> {0, 1}"
  shows "\<exists>w. bit_assign v (gpo_code pin) val = Some w
    \<and> (\<forall>q. bit (ucast w :: 7 word) (unat (gpo_code q)) = (if q = pin then val = 1 else bit v (unat (gpo_code q))))"
proof -
  have lt: "gpo_code q < 32" for q using gpo_code_less(1) [of q] by (rule less_trans) simp
  obtain w where w: "bit_assign v (gpo_code pin) val = Some w" using pins.asg_defined [OF lt assms] by blast
  have on: "bit_is_on z (gpo_code q) = Some (of_bool (bit z (unat (gpo_code q))))" for z q
    by (simp add: bit_is_on_Some [OF lt])
  have "bit w (unat (gpo_code pin)) \<longleftrightarrow> val = 1"
    using pins.asg_same [OF lt assms w] assms by (auto simp: on)
  moreover have "bit w (unat (gpo_code q)) = bit v (unat (gpo_code q))" if "q \<noteq> pin" for q
    using pins.asg_other [OF lt lt _ assms w, of q] that
    by (auto simp: bit_is_on_Some [OF lt] gpo_code_inj split: if_splits)
  moreover have "bit (ucast w :: 7 word) (unat (gpo_code q)) = bit w (unat (gpo_code q))" for q
    using gpo_code_less(2) [of q] by (simp add: bit_ucast_iff)
  ultimately show ?thesis using w by auto
qed

text \<open>Waiting changes no output.\<close>

lemma gp_wait_out: "g_out (gp_hw (gp_wait d)) = g_out (gp_hw d)"
proof -
  have "g_out (gp_hw (fold (\<lambda>a. gp_cycle a None) as d)) = g_out (gp_hw d)" for as
    by (induction as arbitrary: d) (simp_all add: gp_cycle_def gpio_cycle_def)
  then show ?thesis by (simp add: gp_wait_def)
qed

text \<open>What a read returns: the register addressed in the cycle before it.\<close>

definition gp_stale :: "gpio_hw \<Rightarrow> u32" where
  "gp_stale g = (if g_addr g = 0 then ucast (g_in g) else if g_addr g = 4 then ucast (g_out g) else 0)"

lemma gp_get_stale:
  "gp_get reg d = (gp_stale (gp_hw (gp_wait d)), gp_access (ucast reg) None d)"
  "g_out (gp_hw (gp_access (ucast reg) None d)) = g_out (gp_hw d)"
  by (simp_all add: gp_get_def gp_access_def gp_cycle_def gpio_cycle_def gp_stale_def gp_wait_out Let_def)

lemma gp_put_out: "g_out (gp_hw (gp_put GPO_VAL v d)) = ucast v"
  by (simp add: gp_put_def gp_access_def gp_cycle_def gpio_cycle_def GPO_VAL_def)

lemma gpo_write_pins:
  assumes "val \<in> {0, 1}"
  shows "\<exists>d'. gpo_write gp_get gp_put pin val d = Some d'
    \<and> (\<forall>q. pin_level q d' = (if q = pin then val = 1 else bit (gp_stale (gp_hw (gp_wait d))) (unat (gpo_code q))))"
proof -
  obtain w where w: "bit_assign (gp_stale (gp_hw (gp_wait d))) (gpo_code pin) val = Some w"
    "\<forall>q. bit (ucast w :: 7 word) (unat (gpo_code q))
       = (if q = pin then val = 1 else bit (gp_stale (gp_hw (gp_wait d))) (unat (gpo_code q)))"
    using assign_pin [OF assms] by blast
  then show ?thesis
    by (simp add: gpo_write_def gp_get_stale(1) pin_level_def gp_put_out)
qed

text \<open>C38: \<open>gpo_write\<close> on the chip is defined for every pin of the enumeration and both levels, and sets
  the output it names to the level asked for. The six others it leaves alone if the cycle before its
  read had the address of \<open>gpo_val\<close> at the block; if it had another one, they all go to 0, but for the red
  LED, which gets the level of the button when that address was 0.\<close>

theorem gpo_write_on_chip:
  assumes "val \<in> {0, 1}"
  shows "\<exists>d'. gpo_write gp_get gp_put pin val d = Some d'
    \<and> (\<forall>q. pin_level q d' =
         (if q = pin then val = 1
          else if g_addr (gp_hw (gp_wait d)) = 4 then pin_level q d
          else g_addr (gp_hw (gp_wait d)) = 0 \<and> q = GPO_LED_R \<and> bit (g_in (gp_hw (gp_wait d))) 0))"
proof -
  let ?g = "gp_hw (gp_wait d)"
  have "bit (ucast (g_in ?g) :: u32) (unat (gpo_code q)) = (q = GPO_LED_R \<and> bit (g_in ?g) 0)" for q
    by (cases q) (auto simp: bit_ucast_iff dest: bit_imp_le_length)
  moreover have "bit (ucast (g_out ?g) :: u32) (unat (gpo_code q)) = pin_level q d" for q
    using gpo_code_less(2) [of q] by (simp add: bit_ucast_iff pin_level_def gp_wait_out)
  ultimately have "bit (gp_stale ?g) (unat (gpo_code q)) =
      (if g_addr ?g = 4 then pin_level q d else g_addr ?g = 0 \<and> q = GPO_LED_R \<and> bit (g_in ?g) 0)" for q
    by (simp add: gp_stale_def)
  then show ?thesis using gpo_write_pins [OF assms, of pin d] by (simp only:)
qed

text \<open>A GPIO block with the green and the blue LED on. Before the first access the processor has another
  address on its bus.\<close>

definition gpio_rgb :: gpio_dev where
  "gpio_rgb = \<lparr>gp_hw = \<lparr>g_in = 1, g_out = 6, g_addr = 0, g_rdata = 0\<rparr>, gp_idle = (\<lambda>k. if k = 0 then [0] else [0, 4]),
     gp_pin = (\<lambda>t. 0), gp_time = 0, gp_accesses = 0\<rparr>"

theorem gpo_write_on_chip_witness:
  "\<exists>d'. gpo_write gp_get gp_put GPO_PIN_3 1 gpio_rgb = Some d'
    \<and> pin_level GPO_PIN_3 d' \<and> \<not> pin_level GPO_LED_G d' \<and> pin_level GPO_LED_G gpio_rgb"
proof -
  have "pin_level GPO_LED_G gpio_rgb" by (simp add: pin_level_def gpio_rgb_def bit_numeral_rec)
  moreover have "g_addr (gp_hw (gp_wait gpio_rgb)) = 0"
    by (simp add: gp_wait_def gpio_rgb_def gp_cycle_def gpio_cycle_def)
  ultimately show ?thesis using gpo_write_on_chip [of 1 GPO_PIN_3 gpio_rgb] by auto
qed

text \<open>The button is read right if the bus selected another device in the cycle before.\<close>

lemma gpi_read_on_chip:
  assumes "g_addr (gp_hw (gp_wait d)) = 0"
  shows "\<exists>d'. gpi_read gp_get GPI_BTN d = Some (of_bool (bit (g_in (gp_hw (gp_wait d))) 0), d')
    \<and> (\<forall>q. pin_level q d' = pin_level q d)"
  using assms
  by (simp add: gpi_read_def gp_get_stale bit_is_on_Some gp_stale_def bit_ucast_iff pin_level_def)

end
