(* ===== verification/Devices.thy ===== *)
theory Devices
  imports Prelude
begin

text \<open>
  The delays of \<^verbatim>\<open>sw/librtor/timer.h\<close>, on the cycle counter of \<^verbatim>\<open>src/main/scala/sys/timer/Timer.scala\<close>, and
  the trap registers of \<^verbatim>\<open>sw/librtor/csr.h\<close>, \<^verbatim>\<open>exception.h\<close> and \<^verbatim>\<open>exception.c\<close>.
\<close>

section \<open>The code: time\<close>

text \<open>\<open>tm_now\<close> is the number of cycles since the reset; the counter is its value modulo 2^32. A read
  takes a cycle, and the processor spends \<open>tm_gap k\<close> cycles behind the \<open>k\<close>-th.\<close>

record timer_dev =
  tm_now :: nat
  tm_reads :: nat
  tm_gap :: "nat \<Rightarrow> nat"

definition timer_get_cycles :: "timer_dev \<Rightarrow> u32 \<times> timer_dev" where
  "timer_get_cycles t =
     (of_nat (tm_now t), t\<lparr>tm_now := tm_now t + 1 + tm_gap t (tm_reads t), tm_reads := tm_reads t + 1\<rparr>)"

partial_function (option) delay_loop :: "u32 \<Rightarrow> u32 \<Rightarrow> timer_dev \<Rightarrow> timer_dev option" where
  "delay_loop rb cyc t =
     (let (ra, t) = timer_get_cycles t in if cyc \<le> ra - rb then Some t else delay_loop rb cyc t)"

definition delay_cyc :: "u32 \<Rightarrow> timer_dev \<Rightarrow> timer_dev option" where
  "delay_cyc cyc t = (let (rb, t) = timer_get_cycles t in delay_loop rb cyc t)"

definition delay_us :: "u32 \<Rightarrow> u32 \<Rightarrow> timer_dev \<Rightarrow> timer_dev option" where
  "delay_us clk_freq_mhz us t = delay_cyc (us * clk_freq_mhz) t"

definition delay_ms :: "u32 \<Rightarrow> u32 \<Rightarrow> timer_dev \<Rightarrow> timer_dev option" where
  "delay_ms clk_freq_mhz ms t = delay_us clk_freq_mhz (1000 * ms) t"

text \<open>The two 64-bit registers \<open>timer.h\<close> declares beside the counter. \<^verbatim>\<open>Timer.scala\<close> names their offsets,
  but answers only at that of the counter.\<close>

record timer_reg =
  mtime :: u64
  mtimecmp :: u64

definition timer_clear_irq :: "timer_reg \<Rightarrow> timer_reg" where
  "timer_clear_irq r = (let r = r\<lparr>mtime := 0\<rparr> in r\<lparr>mtimecmp := mtimecmp r\<rparr>)"

definition timer_init_irq :: "u64 \<Rightarrow> u64 \<Rightarrow> timer_reg \<Rightarrow> timer_reg" where
  "timer_init_irq clk_freq_mhz irq_freq_us r =
     (let r = r\<lparr>mtimecmp := clk_freq_mhz * irq_freq_us\<rparr> in r\<lparr>mtime := 0\<rparr>)"

section \<open>The code: traps\<close>

datatype mcause = MCAUSE_INST_ADDR_MISALIGNED | MCAUSE_INST_ACCESS_FAULT | MCAUSE_ILLEGAL_INST
  | MCAUSE_BREAKPOINT | MCAUSE_LOAD_ADDR_MISALIGNED | MCAUSE_LOAD_ACCESS_FAULT | MCAUSE_ECALL_U | MCAUSE_ECALL_M

fun mcause_code :: "mcause \<Rightarrow> u32" where
  "mcause_code MCAUSE_INST_ADDR_MISALIGNED = 0" | "mcause_code MCAUSE_INST_ACCESS_FAULT = 1"
| "mcause_code MCAUSE_ILLEGAL_INST = 2" | "mcause_code MCAUSE_BREAKPOINT = 3"
| "mcause_code MCAUSE_LOAD_ADDR_MISALIGNED = 4" | "mcause_code MCAUSE_LOAD_ACCESS_FAULT = 5"
| "mcause_code MCAUSE_ECALL_U = 8" | "mcause_code MCAUSE_ECALL_M = 11"

text \<open>The control and status registers the code names, and what \<open>read_csr\<close>, \<open>write_csr\<close>, \<open>swap_csr\<close>,
  \<open>set_csr\<close> and \<open>clear_csr\<close> do to one of them.\<close>

record csrs =
  csr_mtvec :: u32
  csr_mcause :: u32
  csr_mepc :: u32

definition csr_swap :: "u32 \<Rightarrow> u32 \<Rightarrow> u32 \<times> u32" where "csr_swap val reg = (reg, val)"
definition csr_set :: "u32 \<Rightarrow> u32 \<Rightarrow> u32 \<times> u32" where "csr_set b reg = (reg, reg OR b)"
definition csr_clear :: "u32 \<Rightarrow> u32 \<Rightarrow> u32 \<times> u32" where "csr_clear b reg = (reg, reg AND NOT b)"

definition exception_init :: "ptr \<Rightarrow> csrs \<Rightarrow> csrs" where
  "exception_init handler c = c\<lparr>csr_mtvec := handler\<rparr>"

section \<open>Delays\<close>

lemma counter_diff:
  assumes "n0 \<le> n" and "n - n0 < 2 ^ 32"
  shows "unat (of_nat n - of_nat n0 :: u32) = n - n0"
proof -
  have "(of_nat n - of_nat n0 :: u32) = of_nat (n - n0)" using assms(1) by (simp add: of_nat_diff)
  then show ?thesis using assms(2) by (simp add: unat_of_nat)
qed

text \<open>The loop, from a reading within \<open>cyc + G\<close> cycles of the first on.\<close>

lemma delay_loop_returns:
  assumes "\<forall>k. tm_gap t k + 1 \<le> G" and "unat cyc + G < 2 ^ 32"
    and "n0 \<le> tm_now t" and "tm_now t \<le> n0 + unat cyc + G"
  shows "\<exists>t'. delay_loop (of_nat n0) cyc t = Some t' \<and> n0 + unat cyc < tm_now t' \<and> tm_now t' \<le> n0 + unat cyc + 2 * G
    \<and> tm_gap t' = tm_gap t"
  using assms
proof (induction t rule: measure_induct_rule [where f = "\<lambda>t. n0 + unat cyc + G + 1 - tm_now t"])
  case (less t)
  let ?t = "snd (timer_get_cycles t)"
  have d: "unat (of_nat (tm_now t) - of_nat n0 :: u32) = tm_now t - n0"
    using less.prems by (intro counter_diff) auto
  have "tm_gap t (tm_reads t) + 1 \<le> G" using less.prems(1) by blast
  then have tn: "tm_now t < tm_now ?t" "tm_now ?t \<le> tm_now t + G" "tm_gap ?t = tm_gap t"
    by (simp_all add: timer_get_cycles_def)
  show ?case
  proof (cases "unat cyc \<le> tm_now t - n0")
    case True
    then have "delay_loop (of_nat n0) cyc t = Some ?t"
      by (subst delay_loop.simps) (simp add: timer_get_cycles_def word_le_nat_alt d)
    moreover have "n0 + unat cyc < tm_now ?t" using True less.prems(3) tn(1) by linarith
    moreover have "tm_now ?t \<le> n0 + unat cyc + 2 * G" using less.prems(4) tn(2) by linarith
    ultimately show ?thesis using tn(3) by blast
  next
    case False
    then have "delay_loop (of_nat n0) cyc t = delay_loop (of_nat n0) cyc ?t"
      by (subst delay_loop.simps) (simp add: timer_get_cycles_def word_le_nat_alt d)
    moreover have "tm_now ?t \<le> n0 + unat cyc + G" "n0 \<le> tm_now ?t" using False less.prems(3) tn by linarith+
    ultimately show ?thesis
      using less.IH [of ?t] less.prems(1,2) tn by auto
  qed
qed

lemma delay_ms_returns:
  assumes gap: "\<forall>k. tm_gap t k + 1 \<le> G" and room: "1000 * unat ms * unat clk + G < 2 ^ 32"
  shows "\<exists>t'. delay_ms clk ms t = Some t' \<and> tm_now t + 1000 * unat ms * unat clk < tm_now t'
    \<and> tm_now t' \<le> tm_now t + 1000 * unat ms * unat clk + 2 * G
    \<and> tm_gap t' = tm_gap t"
proof -
  have "1000 * ms * clk = of_nat (1000 * unat ms * unat clk)" by simp
  then have "unat (1000 * ms * clk) = (1000 * unat ms * unat clk) mod 2 ^ 32" by (simp only: unat_of_nat) simp
  then have c: "unat (1000 * ms * clk) = 1000 * unat ms * unat clk"
    using room mod_less [of "1000 * unat ms * unat clk" "2 ^ 32"] by linarith
  let ?t = "snd (timer_get_cycles t)"
  have g: "timer_get_cycles t = (of_nat (tm_now t), ?t)" "tm_gap ?t = tm_gap t" by (simp_all add: timer_get_cycles_def)
  have "tm_gap t (tm_reads t) + 1 \<le> G" using gap by blast
  then have "tm_now t \<le> tm_now ?t" "tm_now ?t \<le> tm_now t + unat (1000 * ms * clk) + G"
    by (simp_all add: timer_get_cycles_def)
  moreover have "\<forall>k. tm_gap ?t k + 1 \<le> G" unfolding g(2) by (rule gap)
  moreover have "unat (1000 * ms * clk) + G < 2 ^ 32" unfolding c by (rule room)
  ultimately obtain t' where t': "delay_loop (of_nat (tm_now t)) (1000 * ms * clk) ?t = Some t'"
    "tm_now t + unat (1000 * ms * clk) < tm_now t'" "tm_now t' \<le> tm_now t + unat (1000 * ms * clk) + 2 * G"
    "tm_gap t' = tm_gap ?t"
    using delay_loop_returns [of ?t G "1000 * ms * clk" "tm_now t"] by blast
  have "delay_ms clk ms t = delay_loop (of_nat (tm_now t)) (1000 * ms * clk) ?t"
    unfolding delay_ms_def delay_us_def delay_cyc_def by (subst g(1)) (simp only: Let_def split_conv)
  then show ?thesis using t' g(2) unfolding c by (intro exI [of _ t']) simp
qed

text \<open>C39: A delay ends, not before its number of cycles has passed and at most two polls later, also
  when the counter wraps in between, provided a poll of the counter takes at most \<open>G\<close> cycles and the
  delay leaves that much room below 2^32; \<open>delay_ms\<close> does so for its milliseconds as long as their
  cycles fit 32 bits.\<close>

theorem delay_bounds:
  assumes gap: "\<forall>k. tm_gap t k + 1 \<le> G" and room: "1000 * unat ms * unat clk + G < 2 ^ 32"
  shows "\<exists>t'. delay_ms clk ms t = Some t' \<and> tm_now t + 1000 * unat ms * unat clk < tm_now t'
    \<and> tm_now t' \<le> tm_now t + 1000 * unat ms * unat clk + 2 * G"
  using delay_ms_returns [OF assms] by blast

theorem delay_bounds_witness:
  "\<exists>t'. delay_ms 25 500 \<lparr>tm_now = 2 ^ 32 - 10, tm_reads = 0, tm_gap = \<lambda>k. k mod 7\<rparr> = Some t'
    \<and> 2 ^ 32 - 10 + 12500000 < tm_now t' \<and> tm_now t' \<le> 2 ^ 32 - 10 + 12500000 + 14"
proof -
  have "k mod 7 \<le> (6 :: nat)" for k using mod_less_divisor [of 7 k] by linarith
  then show ?thesis
    using delay_bounds [of "\<lparr>tm_now = 2 ^ 32 - 10, tm_reads = 0, tm_gap = \<lambda>k. k mod 7\<rparr>" 7 500 25] by simp
qed

end
