(* ===== verification/Boot.thy ===== *)
theory Boot
  imports Uart Gpio Devices Tinyprintf
begin

text \<open>
  What runs on the bare chip: the start-up code \<^verbatim>\<open>sw/librtor/cstart.c\<close>, the programs \<^verbatim>\<open>sw/hello/hello.c\<close> and
  \<^verbatim>\<open>sw/blink/blink.c\<close> (a turn of their endless loops), and the trap handler of \<^verbatim>\<open>sw/ecall/ecall.c\<close>. The
  \<open>main\<close> that \<open>_cstart\<close> calls is linked to it and an argument. \<open>printf\<close> is \<open>tfp_printf\<close>, on the call-back
  that \<open>_cstart\<close> registers; a UART that never takes the character makes it \<open>None\<close>.
\<close>

section \<open>The code\<close>

record 's chip =
  chip_mem :: mem
  chip_uart :: 's
  chip_gpio :: gpio_dev
  chip_timer :: timer_dev
  chip_csrs :: csrs
  chip_stdout :: "'s option printf_state"

definition uart_stdout ::
  "(u32 \<Rightarrow> 's \<Rightarrow> u32 \<times> 's) \<Rightarrow> (u32 \<Rightarrow> u32 \<Rightarrow> 's \<Rightarrow> 's) \<Rightarrow> ptr \<Rightarrow> char \<Rightarrow> 's option \<Rightarrow> 's option" where
  "uart_stdout get put p c s = Option.bind s (uart_putc get put p c)"

text \<open>\<open>while (bss < bss_end) *bss++ = 0\<close>\<close>

partial_function (option) bss_loop :: "ptr \<Rightarrow> ptr \<Rightarrow> mem \<Rightarrow> mem option" where
  "bss_loop bss bss_end m = (if bss < bss_end then bss_loop (bss + 4) bss_end (put32 m bss 0) else Some m)"

definition cstart ::
  "int \<Rightarrow> (u32 \<Rightarrow> 's \<Rightarrow> u32 \<times> 's) \<Rightarrow> (u32 \<Rightarrow> u32 \<Rightarrow> 's \<Rightarrow> 's) \<Rightarrow> ptr \<Rightarrow> ptr
     \<Rightarrow> ('s chip \<Rightarrow> 's chip option) \<Rightarrow> 's chip \<Rightarrow> 's chip option" where
  "cstart clk_freq_mhz get put bss bss_end main s =
     Option.bind (bss_loop bss bss_end (chip_mem s)) (\<lambda>m.
     let s = s\<lparr>chip_mem := m\<rparr> in
     Option.bind (uart_set_baud clk_freq_mhz put 115200 (chip_uart s)) (\<lambda>u.
     let s = s\<lparr>chip_uart := u, chip_stdout := init_printf NULL (uart_stdout get put)\<rparr> in
     Option.bind (main s) (\<lambda>s.
     map_option (\<lambda>g. s\<lparr>chip_gpio := g\<rparr>) (gpo_write gp_get gp_put GPO_LED_R 1 (chip_gpio s)))))"

definition chip_printf :: "param \<Rightarrow> string \<Rightarrow> vararg list \<Rightarrow> 's chip \<Rightarrow> 's chip option" where
  "chip_printf p0 fmt args s =
     Option.bind (tfp_printf p0 (chip_stdout s) fmt args (Some (chip_uart s)))
       (\<lambda>u. map_option (\<lambda>u. s\<lparr>chip_uart := u\<rparr>) u)"

definition chip_gpo_write :: "gpo_pin \<Rightarrow> u32 \<Rightarrow> 's chip \<Rightarrow> 's chip option" where
  "chip_gpo_write pin val s = map_option (\<lambda>g. s\<lparr>chip_gpio := g\<rparr>) (gpo_write gp_get gp_put pin val (chip_gpio s))"

definition chip_delay_ms :: "u32 \<Rightarrow> u32 \<Rightarrow> 's chip \<Rightarrow> 's chip option" where
  "chip_delay_ms clk_freq_mhz ms s = map_option (\<lambda>t. s\<lparr>chip_timer := t\<rparr>) (delay_ms clk_freq_mhz ms (chip_timer s))"

text \<open>A turn of the loop of \<open>main\<close>, with the value of \<open>val\<close>.\<close>

definition blink_turn :: "u32 \<Rightarrow> u32 \<times> 's chip \<Rightarrow> (u32 \<times> 's chip) option" where
  "blink_turn clk_freq_mhz = (\<lambda>(val, s).
     Option.bind (chip_gpo_write GPO_LED_R val s) (\<lambda>s.
     let val = (if val = 0 then 1 else 0) in
     map_option (\<lambda>s. (val, s)) (chip_delay_ms clk_freq_mhz 500 s)))"

definition hello_turn :: "param \<Rightarrow> u32 \<Rightarrow> u32 \<times> 's chip \<Rightarrow> (u32 \<times> 's chip) option" where
  "hello_turn p0 clk_freq_mhz = (\<lambda>(val, s).
     Option.bind (chip_gpo_write GPO_LED_R val s) (\<lambda>s.
     let val = (if val = 0 then 1 else 0) in
     Option.bind (chip_printf p0 (''Hello world'' @ nl) [] s) (\<lambda>s.
     map_option (\<lambda>s. (val, s)) (chip_delay_ms clk_freq_mhz 500 s))))"

primrec turns :: "nat \<Rightarrow> ('a \<Rightarrow> 'a option) \<Rightarrow> 'a \<Rightarrow> 'a option" where
  "turns 0 f x = Some x"
| "turns (Suc n) f x = Option.bind (f x) (turns n f)"

definition trap_handler :: "param \<Rightarrow> 's chip \<Rightarrow> 's chip option" where
  "trap_handler p0 s =
     (let cause = csr_mcause (chip_csrs s); epc = csr_mepc (chip_csrs s) in
      Option.bind
        (if cause = mcause_code MCAUSE_ECALL_U then chip_printf p0 (''%p: ecall from u-mode'' @ nl) [A32 epc] s
         else if cause = mcause_code MCAUSE_ECALL_M then chip_printf p0 (''%p: ecall from m-mode'' @ nl) [A32 epc] s
         else chip_printf p0 (''%p: other cause: %d'' @ nl) [A32 epc, A32 cause] s) (\<lambda>s.
      Some (s\<lparr>chip_csrs := (chip_csrs s)\<lparr>csr_mepc := epc + 4\<rparr>\<rparr>)))"

end
