(* ===== verification/ChipCorrect.thy ===== *)
theory ChipCorrect
  imports Boot TinyprintfCorrect
begin

text \<open>
  The programs of \<open>Boot\<close> on the UART of the chip: what \<open>printf\<close> sends and what the line carries, the
  state in which \<open>_cstart\<close> calls \<open>main\<close>, the turns of \<open>hello.c\<close>, the return address of the trap
  handler.
\<close>

section \<open>The line\<close>

text \<open>Whatever the receiver delivers, the line carries the frames of exactly the bytes \<open>bs\<close> once the
  processor leaves the UART alone for long enough.\<close>

definition line_carries :: "u8 list \<Rightarrow> uart_dev \<Rightarrow> bool" where
  "line_carries bs d \<longleftrightarrow>
     (\<forall>rx. \<exists>n. wire (idle_cycles n rx (dev_run d)) = concat (map frame bs)
        \<and> ff_empty (u_txf (run_hw (idle_cycles n rx (dev_run d)))))"

lemma line_carries_sent:
  assumes "dev_ok d"
  shows "line_carries (dev_sent d) d"
  unfolding line_carries_def
proof
  fix rx
  have ok: "run_ok (dev_run d)" using assms by (simp add: dev_ok_def)
  obtain n where "ff_empty (u_txf (run_hw (idle_cycles n rx (dev_run d))))" using queue_sent [OF ok] by blast
  then show "\<exists>n. wire (idle_cycles n rx (dev_run d)) = concat (map frame (dev_sent d))
        \<and> ff_empty (u_txf (run_hw (idle_cycles n rx (dev_run d))))"
    using sent_all [of "idle_cycles n rx (dev_run d)"] idle_cycles_ok [OF ok, of n rx] by (auto simp: dev_sent_def)
qed

section \<open>Printing\<close>

text \<open>The UART works and \<open>printf\<close> writes to it.\<close>

definition chip_ok :: "uart_dev chip \<Rightarrow> bool" where
  "chip_ok s \<longleftrightarrow> dev_ok (chip_uart s) \<and> chip_stdout s = init_printf NULL (uart_stdout dev_get dev_put)"

text \<open>The timer is polled often enough for a delay of half a second.\<close>

definition timer_ok :: "u32 \<Rightarrow> timer_dev \<Rightarrow> bool" where
  "timer_ok clk t \<longleftrightarrow> (\<exists>G. (\<forall>k. tm_gap t k + 1 \<le> G) \<and> 1000 * 500 * unat clk + G < 2 ^ 32)"

text \<open>A chip out of reset, and one whose baud rate is set.\<close>

definition chip_reset :: "uart_dev chip" where
  "chip_reset = \<lparr>chip_mem = (\<lambda>a. 0xa5),
     chip_uart = \<lparr>dev_run = \<lparr>run_hw = uart_reset (\<lambda>_. 0) (\<lambda>_. 0), taken = [], wire = []\<rparr>,
       dev_gap = (\<lambda>k. k mod 5), dev_rx = (\<lambda>t. if t mod 100 = 0 then Some 0x41 else None),
       dev_time = 0, dev_accesses = 0\<rparr>,
     chip_gpio = gpio_rgb,
     chip_timer = \<lparr>tm_now = 0, tm_reads = 0, tm_gap = (\<lambda>k. k mod 7)\<rparr>,
     chip_csrs = \<lparr>csr_mtvec = 0, csr_mcause = 11, csr_mepc = 0x1000\<rparr>,
     chip_stdout = \<lparr>stdout_putf = (\<lambda>p c s. s), stdout_putp = 0\<rparr>\<rparr>"

definition chip_ready :: "uart_dev chip" where
  "chip_ready = chip_reset\<lparr>chip_uart := dev_put DVSR 12 (chip_uart chip_reset),
     chip_stdout := init_printf NULL (uart_stdout dev_get dev_put)\<rparr>"

lemma chip_reset_fresh: "fresh (chip_uart chip_reset)"
  by (simp add: chip_reset_def fresh_def uart_reset_def fifo_reset_def fifo_ok_def)

lemma chip_ready_ok: "chip_ok chip_ready" "dev_sent (chip_uart chip_ready) = []"
  using fresh_set_dvsr [OF chip_reset_fresh, of 12] by (simp_all add: chip_ready_def chip_ok_def)

lemma chip_ready_timer: "timer_ok 25 (chip_timer chip_ready)"
proof -
  have "k mod 7 + 1 \<le> (7 :: nat)" for k using mod_less_divisor [of 7 k] by linarith
  then show ?thesis by (auto simp: timer_ok_def chip_ready_def chip_reset_def intro!: exI [of _ 7])
qed

lemma chip_printf_sends:
  assumes ok: "chip_ok s" and t: "format_text p0 fmt args = Some t"
  shows "\<exists>u. chip_printf p0 fmt args s = Some (s\<lparr>chip_uart := u\<rparr>) \<and> chip_ok (s\<lparr>chip_uart := u\<rparr>)
    \<and> dev_sent u = dev_sent (chip_uart s) @ map of_char t"
proof -
  let ?f = "\<lambda>u c. uart_stdout dev_get dev_put NULL c u"
  have "?f (Some u) c = uart_tx dev_get dev_put (of_char c) u" for u c by (simp add: uart_stdout_def uart_putc_def)
  then obtain u where "foldl ?f (Some (chip_uart s)) t = Some u" "dev_ok u"
    "dev_sent u = dev_sent (chip_uart s) @ map of_char t"
    using chip.text_sends [of "chip_uart s" ?f t] ok by (auto simp: chip_ok_def)
  then show ?thesis
    using ok t by (intro exI [of _ u]) (simp add: chip_printf_def tfp_printf_def tfp_format_text chip_ok_def init_printf_def)
qed

text \<open>C5: \<open>printf\<close> on the chip, whatever the clock, the time between two accesses and the bytes that
  arrive: if the format and the arguments have a text, every character finds room in the queue in the
  end, the call returns with the UART in order, and the line carries, behind all that was sent before,
  the frames of exactly that text: a start bit, eight data bits from the lowest on and a stop bit, each
  for 16 ticks of the baud generator.\<close>

theorem printf_on_line:
  assumes "chip_ok s" and "format_text p0 fmt args = Some t"
  shows "\<exists>s'. chip_printf p0 fmt args s = Some s' \<and> chip_ok s'
    \<and> line_carries (dev_sent (chip_uart s) @ map of_char t) (chip_uart s')"
proof -
  obtain u where u: "chip_printf p0 fmt args s = Some (s\<lparr>chip_uart := u\<rparr>)" "chip_ok (s\<lparr>chip_uart := u\<rparr>)"
    "dev_sent u = dev_sent (chip_uart s) @ map of_char t"
    using chip_printf_sends [OF assms] by blast
  moreover have "line_carries (dev_sent u) u" using u(2) by (intro line_carries_sent) (simp add: chip_ok_def)
  ultimately show ?thesis by auto
qed

theorem printf_on_line_witness:
  "\<exists>s'. chip_printf param0 ''Ok'' [] chip_ready = Some s' \<and> chip_ok s'
    \<and> line_carries [0x4f, 0x6b] (chip_uart s')"
proof -
  have "format_text param0 ''Ok'' [] = Some ''Ok''" by simp
  from printf_on_line [OF chip_ready_ok(1) this] show ?thesis by (simp add: chip_ready_ok(2))
qed

section \<open>Start\<close>

lemma bss_loop_zeroes:
  assumes "unat bss + 4 * k < 2 ^ 32"
  shows "\<exists>m'. bss_loop bss (bss + of_nat (4 * k)) m = Some m'
    \<and> (\<forall>a. m' a = (if in_range a bss (4 * k) then 0 else m a))"
  using assms
proof (induction k arbitrary: bss m)
  case 0
  then show ?case by (subst bss_loop.simps) (simp add: in_range_def)
next
  case (Suc k)
  have b: "unat (bss + 4) = unat bss + 4" using Suc.prems by (subst unat_add_lem [THEN iffD1]) auto
  have e: "bss + of_nat (4 * Suc k) = bss + 4 + of_nat (4 * k)" by simp
  have "unat (bss + of_nat (4 * Suc k)) = unat bss + 4 * Suc k"
    using Suc.prems by (intro unat_add_of_nat) simp
  then have lt: "bss < bss + of_nat (4 * Suc k)" by (simp add: word_less_nat_alt)
  obtain m' where m': "bss_loop (bss + 4) (bss + 4 + of_nat (4 * k)) (put32 m bss 0) = Some m'"
    "\<forall>a. m' a = (if in_range a (bss + 4) (4 * k) then 0 else put32 m bss 0 a)"
    using Suc.IH [of "bss + 4" "put32 m bss 0"] Suc.prems b by auto
  have "in_range a bss (4 * Suc k)
      \<longleftrightarrow> a = bss \<or> a = bss + 1 \<or> a = bss + 2 \<or> a = bss + 3 \<or> in_range a (bss + 4) (4 * k)" for a
  proof -
    have "4 * Suc k = Suc (Suc (Suc (Suc (4 * k))))" by simp
    then show ?thesis using Suc.prems by (simp only: in_range_Suc add.assoc) (simp add: in_range_Suc add.assoc)
  qed
  then have "m' a = (if in_range a bss (4 * Suc k) then 0 else m a)" for a
    using m'(2) by (auto simp: put32_def)
  moreover have "bss_loop bss (bss + of_nat (4 * Suc k)) m = Some m'"
    using lt m'(1) by (subst bss_loop.simps) (simp only: e if_True)
  ultimately show ?case by blast
qed

text \<open>C19: \<open>_cstart\<close>, from a UART out of reset and for a clock of 4 to 2147 MHz: the words of \<open>.bss\<close>
  become 0 and no other byte of memory changes; then \<open>main\<close> is called with the baud rate set (a bit takes as many
  cycles as 115200 baud allow it, rounded down to a multiple of 16), nothing sent and \<open>printf\<close> on the UART. If
  \<open>main\<close> returns, the red LED is set and nothing but pins changes; if it does not, nor does \<open>_cstart\<close>.\<close>

theorem cstart_boots:
  assumes "fresh (chip_uart s)" and "4 \<le> clk" "clk \<le> 2147" and "unat bss + 4 * k < 2 ^ 32"
  shows "\<exists>s1. (\<forall>a. chip_mem s1 a = (if in_range a bss (4 * k) then 0 else chip_mem s a))
    \<and> chip_ok s1 \<and> dev_sent (chip_uart s1) = []
    \<and> int (bit_cycles (chip_uart s1)) * 115200 \<le> clk * 1000000
    \<and> clk * 1000000 < (int (bit_cycles (chip_uart s1)) + 16) * 115200
    \<and> chip_gpio s1 = chip_gpio s \<and> chip_timer s1 = chip_timer s \<and> chip_csrs s1 = chip_csrs s
    \<and> (\<forall>main. case main s1 of
          None \<Rightarrow> cstart clk dev_get dev_put bss (bss + of_nat (4 * k)) main s = None
        | Some s2 \<Rightarrow> \<exists>g. cstart clk dev_get dev_put bss (bss + of_nat (4 * k)) main s = Some (s2\<lparr>chip_gpio := g\<rparr>)
            \<and> pin_level GPO_LED_R g)"
proof -
  obtain m' where m': "bss_loop bss (bss + of_nat (4 * k)) (chip_mem s) = Some m'"
    "\<forall>a. m' a = (if in_range a bss (4 * k) then 0 else chip_mem s a)"
    using bss_loop_zeroes [OF assms(4)] by blast
  obtain v where v: "uart_set_baud clk dev_put 115200 (chip_uart s) = Some (dev_put DVSR v (chip_uart s))"
    "(ucast v :: 11 word) \<noteq> 0" "uint (ucast v :: 11 word) = clk * 1000000 div 16 div 115200 - 1"
    using set_baud_115200 [OF assms(2,3), of dev_put "chip_uart s"] by (elim exE conjE)
  let ?s1 = "s\<lparr>chip_mem := m', chip_uart := dev_put DVSR v (chip_uart s),
    chip_stdout := init_printf NULL (uart_stdout dev_get dev_put)\<rparr>"
  have run: "cstart clk dev_get dev_put bss (bss + of_nat (4 * k)) main s
      = Option.bind (main ?s1) (\<lambda>s. map_option (\<lambda>g. s\<lparr>chip_gpio := g\<rparr>) (gpo_write gp_get gp_put GPO_LED_R 1 (chip_gpio s)))"
    for main
    by (simp only: cstart_def m'(1) Option.bind.simps Let_def) (simp add: v(1))
  have "case main ?s1 of
          None \<Rightarrow> cstart clk dev_get dev_put bss (bss + of_nat (4 * k)) main s = None
        | Some s2 \<Rightarrow> \<exists>g. cstart clk dev_get dev_put bss (bss + of_nat (4 * k)) main s = Some (s2\<lparr>chip_gpio := g\<rparr>)
            \<and> pin_level GPO_LED_R g" for main
  proof (cases "main ?s1")
    case (Some s2)
    have "(1 :: u32) \<in> {0, 1}" by simp
    from gpo_write_pins [OF this, of GPO_LED_R "chip_gpio s2"]
    obtain g where "gpo_write gp_get gp_put GPO_LED_R 1 (chip_gpio s2) = Some g" "pin_level GPO_LED_R g" by auto
    then show ?thesis unfolding run Some option.case Option.bind.simps by (intro exI [of _ g]) simp
  qed (simp only: run option.case Option.bind.simps)
  moreover have "chip_ok ?s1" "dev_sent (chip_uart ?s1) = []"
    using fresh_set_dvsr [OF assms(1) v(2)] by (simp_all add: chip_ok_def)
  ultimately show ?thesis using m'(2) baud_115200 [OF assms(2) v(3), of "chip_uart s"] by (intro exI [of _ ?s1]) simp
qed

theorem cstart_boots_witness:
  "\<exists>s1 g. chip_mem s1 0x2007 = 0 \<and> chip_mem s1 0x2008 = 0xa5 \<and> chip_ok s1 \<and> bit_cycles (chip_uart s1) = 208
    \<and> cstart 25 dev_get dev_put 0x2000 0x2008 (\<lambda>s. Some s) chip_reset = Some (s1\<lparr>chip_gpio := g\<rparr>)
    \<and> pin_level GPO_LED_R g"
proof -
  have r: "in_range (0x2007 :: u32) 0x2000 (4 * 2)" "\<not> in_range (0x2008 :: u32) 0x2000 (4 * 2)"
    by (simp_all add: in_range_def)
  have mem: "chip_mem chip_reset = (\<lambda>a. 0xa5)" by (simp add: chip_reset_def)
  have e: "(0x2000 :: u32) + of_nat (4 * 2) = 0x2008" by simp
  have h: "4 \<le> (25 :: int)" "(25 :: int) \<le> 2147" "unat (0x2000 :: u32) + 4 * 2 < 2 ^ 32" by simp_all
  obtain s1 where s1: "\<forall>a. chip_mem s1 a = (if in_range a 0x2000 (4 * 2) then 0 else 0xa5)" "chip_ok s1"
    "int (bit_cycles (chip_uart s1)) * 115200 \<le> 25 * 1000000" "25 * 1000000 < (int (bit_cycles (chip_uart s1)) + 16) * 115200"
    "\<forall>main. case main s1 of
        None \<Rightarrow> cstart 25 dev_get dev_put 0x2000 0x2008 main chip_reset = None
      | Some s2 \<Rightarrow> \<exists>g. cstart 25 dev_get dev_put 0x2000 0x2008 main chip_reset = Some (s2\<lparr>chip_gpio := g\<rparr>)
          \<and> pin_level GPO_LED_R g"
    using cstart_boots [OF chip_reset_fresh h, unfolded e mem] by (elim exE conjE)
  obtain n where n: "bit_cycles (chip_uart s1) = 16 * n" unfolding bit_cycles_def by blast
  then have "n = 13" using s1(3,4) by simp
  then have c: "bit_cycles (chip_uart s1) = 208" using n by simp
  from s1(5) obtain g where "cstart 25 dev_get dev_put 0x2000 0x2008 (\<lambda>s. Some s) chip_reset = Some (s1\<lparr>chip_gpio := g\<rparr>)"
    "pin_level GPO_LED_R g" by (auto dest!: spec [of _ Some])
  then show ?thesis using r s1(1,2) c by (intro exI [of _ s1] exI [of _ g]) simp
qed

section \<open>The programs\<close>

lemma hello_text: "format_text p0 (''Hello world'' @ nl) [] = Some (''Hello world'' @ nl)"
  by (simp add: nl_def)

lemma half_second:
  assumes "timer_ok clk (chip_timer s)"
  shows "\<exists>t'. chip_delay_ms clk 500 s = Some (s\<lparr>chip_timer := t'\<rparr>) \<and> timer_ok clk t'
    \<and> tm_now (chip_timer s) + 500000 * unat clk < tm_now t'"
proof -
  obtain G where G: "\<forall>k. tm_gap (chip_timer s) k + 1 \<le> G" "1000 * 500 * unat clk + G < 2 ^ 32"
    using assms by (auto simp: timer_ok_def)
  have f: "unat (500 :: u32) = 500" by simp
  obtain t' where t': "delay_ms clk 500 (chip_timer s) = Some t'" "tm_gap t' = tm_gap (chip_timer s)"
    "tm_now (chip_timer s) + 1000 * 500 * unat clk < tm_now t'"
    using delay_ms_returns [OF G(1), of 500 clk, unfolded f, OF G(2)] by (elim exE conjE)
  have "timer_ok clk t'" using G t'(2) by (auto simp: timer_ok_def)
  then show ?thesis using t' by (intro exI [of _ t']) (simp add: chip_delay_ms_def)
qed

lemma hello_turn_runs:
  assumes "chip_ok s" and "timer_ok clk (chip_timer s)" and "val \<in> {0, 1}"
  shows "\<exists>s'. hello_turn p0 clk (val, s) = Some (1 - val, s') \<and> chip_ok s' \<and> timer_ok clk (chip_timer s')
    \<and> dev_sent (chip_uart s') = dev_sent (chip_uart s) @ map of_char (''Hello world'' @ nl)
    \<and> tm_now (chip_timer s) + 500000 * unat clk < tm_now (chip_timer s')
    \<and> pin_level GPO_LED_R (chip_gpio s') = (val = 1)"
proof -
  obtain g' where g': "gpo_write gp_get gp_put GPO_LED_R val (chip_gpio s) = Some g'" "pin_level GPO_LED_R g' = (val = 1)"
    using gpo_write_pins [OF assms(3), of GPO_LED_R "chip_gpio s"] by (elim exE conjE) simp
  let ?s1 = "s\<lparr>chip_gpio := g'\<rparr>"
  have "chip_ok ?s1" using assms(1) by (simp add: chip_ok_def)
  from chip_printf_sends [OF this hello_text, of p0] obtain u
    where u: "chip_printf p0 (''Hello world'' @ nl) [] ?s1 = Some (?s1\<lparr>chip_uart := u\<rparr>)" "chip_ok (?s1\<lparr>chip_uart := u\<rparr>)"
      "dev_sent u = dev_sent (chip_uart s) @ map of_char (''Hello world'' @ nl)" by auto
  let ?s2 = "?s1\<lparr>chip_uart := u\<rparr>"
  obtain t' where t': "chip_delay_ms clk 500 ?s2 = Some (?s2\<lparr>chip_timer := t'\<rparr>)" "timer_ok clk t'"
    "tm_now (chip_timer s) + 500000 * unat clk < tm_now t'"
    using half_second [of clk ?s2] assms(2) by auto
  have "hello_turn p0 clk (val, s) = Some (if val = 0 then 1 else 0, ?s2\<lparr>chip_timer := t'\<rparr>)"
    by (simp only: hello_turn_def chip_gpo_write_def split_conv g'(1) option.map Option.bind.simps u(1) t'(1) Let_def)
  moreover have "(if val = 0 then 1 else 0) = 1 - val" using assms(3) by auto
  ultimately have "hello_turn p0 clk (val, s) = Some (1 - val, ?s2\<lparr>chip_timer := t'\<rparr>)" by simp
  moreover have "chip_ok (?s2\<lparr>chip_timer := t'\<rparr>)" using u(2) by (simp add: chip_ok_def)
  ultimately show ?thesis using u(3) t'(2,3) g'(2) by (intro exI [of _ "?s2\<lparr>chip_timer := t'\<rparr>"]) simp
qed

lemma hello_turns_run:
  assumes "chip_ok s" "timer_ok clk (chip_timer s)" "val \<in> {0, 1}"
  shows "\<exists>s'. turns n (hello_turn p0 clk) (val, s) = Some (if even n then val else 1 - val, s') \<and> chip_ok s'
      \<and> dev_sent (chip_uart s') = dev_sent (chip_uart s) @ concat (replicate n (map of_char (''Hello world'' @ nl)))
      \<and> tm_now (chip_timer s) + n * (500000 * unat clk) \<le> tm_now (chip_timer s')
      \<and> (n > 0 \<longrightarrow> pin_level GPO_LED_R (chip_gpio s') = ((val = 1) = odd n))"
  using assms
proof (induction n arbitrary: s val)
  case (Suc n)
  define m where "m = map (of_char :: char \<Rightarrow> u8) (''Hello world'' @ nl)"
  obtain s1 where s1: "hello_turn p0 clk (val, s) = Some (1 - val, s1)" "chip_ok s1" "timer_ok clk (chip_timer s1)"
    "dev_sent (chip_uart s1) = dev_sent (chip_uart s) @ m"
    "tm_now (chip_timer s) + 500000 * unat clk < tm_now (chip_timer s1)"
    "pin_level GPO_LED_R (chip_gpio s1) = (val = 1)"
    using hello_turn_runs [OF Suc.prems] unfolding m_def by blast
  have v: "1 - val \<in> {0, 1}" "(1 - val = 1) = (val \<noteq> 1)" "1 - (1 - val) = val" using Suc.prems(3) by auto
  obtain s' where s': "turns n (hello_turn p0 clk) (1 - val, s1) = Some (if even n then 1 - val else val, s')" "chip_ok s'"
    "dev_sent (chip_uart s') = dev_sent (chip_uart s1) @ concat (replicate n m)"
    "tm_now (chip_timer s1) + n * (500000 * unat clk) \<le> tm_now (chip_timer s')"
    "n > 0 \<longrightarrow> pin_level GPO_LED_R (chip_gpio s') = ((val \<noteq> 1) = odd n)"
    using Suc.IH [OF s1(2,3) v(1)] unfolding v(2,3) m_def by blast
  have "turns (Suc n) (hello_turn p0 clk) (val, s) = Some (if even (Suc n) then val else 1 - val, s')"
    by (simp add: s1(1) s'(1))
  moreover have "dev_sent (chip_uart s') = dev_sent (chip_uart s) @ concat (replicate (Suc n) m)"
    by (simp add: s1(4) s'(3))
  moreover have "tm_now (chip_timer s) + Suc n * (500000 * unat clk) \<le> tm_now (chip_timer s')"
    using s1(5) s'(4) by simp
  moreover have "pin_level GPO_LED_R (chip_gpio s') = ((val = 1) = odd (Suc n))"
  proof (cases n)
    case 0
    then show ?thesis using s1(6) s'(1) by simp
  qed (use s'(5) in auto)
  ultimately show ?case using s'(2) unfolding m_def by blast
qed simp

text \<open>\<open>hello.c\<close>, for any number of turns of its loop: every turn returns, takes at least half a
  second of the clock and turns the red LED over, beginning with on, and the line carries the text
  once for each turn.\<close>

theorem hello_turns:
  assumes "chip_ok s" and "timer_ok clk (chip_timer s)"
  shows "\<exists>s'. turns n (hello_turn p0 clk) (1, s) = Some (if even n then 1 else 0, s') \<and> chip_ok s'
    \<and> line_carries (dev_sent (chip_uart s) @ concat (replicate n (map of_char (''Hello world'' @ nl)))) (chip_uart s')
    \<and> tm_now (chip_timer s) + n * (500000 * unat clk) \<le> tm_now (chip_timer s')
    \<and> (n > 0 \<longrightarrow> pin_level GPO_LED_R (chip_gpio s') = odd n)"
proof -
  from hello_turns_run [OF assms, of 1 n p0] obtain s' where
    s': "turns n (hello_turn p0 clk) (1, s) = Some (if even n then 1 else 1 - 1, s')" "chip_ok s'"
    "dev_sent (chip_uart s') = dev_sent (chip_uart s) @ concat (replicate n (map of_char (''Hello world'' @ nl)))"
    "tm_now (chip_timer s) + n * (500000 * unat clk) \<le> tm_now (chip_timer s')"
    "n > 0 \<longrightarrow> pin_level GPO_LED_R (chip_gpio s') = (((1 :: u32) = 1) = odd n)" by blast
  moreover have "line_carries (dev_sent (chip_uart s')) (chip_uart s')"
    using s'(2) by (intro line_carries_sent) (simp add: chip_ok_def)
  ultimately show ?thesis unfolding s'(3) by (intro exI [of _ s']) simp
qed

theorem hello_turns_witness:
  "\<exists>s'. turns 2 (hello_turn param0 25) (1, chip_ready) = Some (1, s')
    \<and> line_carries (concat (replicate 2 (map of_char (''Hello world'' @ nl)))) (chip_uart s')
    \<and> \<not> pin_level GPO_LED_R (chip_gpio s')"
proof -
  have p: "(2 :: nat) > 0" "even (2 :: nat)" by simp_all
  obtain s' where "turns 2 (hello_turn param0 25) (1, chip_ready) = Some (1, s')"
    "line_carries ([] @ concat (replicate 2 (map of_char (''Hello world'' @ nl)))) (chip_uart s')"
    "pin_level GPO_LED_R (chip_gpio s') = odd (2 :: nat)"
    using hello_turns [OF chip_ready_ok(1) chip_ready_timer, of 2 param0] p
    unfolding chip_ready_ok(2) by (elim exE conjE) (simp only: if_True simp_thms)
  then show ?thesis by auto
qed

section \<open>Traps\<close>

definition trap_line :: "u32 \<Rightarrow> u32 \<Rightarrow> string" where
  "trap_line epc cause = ''0x'' @ digits_text False 16 (unat epc)
     @ (if cause = 8 then '': ecall from u-mode'' else if cause = 11 then '': ecall from m-mode''
        else '': other cause: '' @ show_int (sint cause)) @ nl"

lemma format_text_literal:
  "list_all (\<lambda>c. c \<noteq> NUL \<and> c \<noteq> CHR ''%'') lit
    \<Longrightarrow> format_text p (lit @ fmt) va = map_option ((@) lit) (format_text p fmt va)"
  by (induction lit) (cases "format_text p fmt va"; simp)+

lemma conv_text_pointer:
  "\<exists>p'. conv_text CHR ''p'' lng (init_param p) (A32 x # va)
     = Some (p', va, ''0x'' @ digits_text False 16 (unat x))"
  by (auto simp: conv_text_def convert_def conv_unsigned_eq putchw_field foldl_snoc field_def sign_text_def
      alt_text_def c_str_digits Let_def)

lemma conv_text_decimal:
  "\<exists>p'. conv_text CHR ''d'' 0 (init_param p) (A32 x # va) = Some (p', va, show_int (sint x))"
  using field_signed [of "init_param p\<lparr>p_base := 10\<rparr>" "p_uc p" x]
  by (auto simp: conv_text_def convert_def conv_signed_eq putchw_field foldl_snoc)

lemma trap_text:
  assumes "list_all (\<lambda>c. c \<noteq> NUL \<and> c \<noteq> CHR ''%'') lit"
  shows "format_text p0 (''%p'' @ lit) [A32 x] = Some (''0x'' @ digits_text False 16 (unat x) @ lit)"
    and "format_text p0 (''%p'' @ lit @ ''%d'' @ nl) [A32 x, A32 y]
      = Some (''0x'' @ digits_text False 16 (unat x) @ lit @ show_int (sint y) @ nl)"
proof -
  have p: "parse_spec (CHR ''p'' # fmt) p = (CHR ''p'', fmt, init_param p, 0)" for fmt p
    by (simp add: parse_spec_def parse_width_def parse_precision_def parse_length_def less_eq_char_def)
  have d: "parse_spec (CHR ''d'' # fmt) p = (CHR ''d'', fmt, init_param p, 0)" for fmt p
    by (simp add: parse_spec_def parse_width_def parse_precision_def parse_length_def less_eq_char_def)
  obtain p1 where p1: "conv_text CHR ''p'' 0 (init_param p0) [A32 x] = Some (p1, [], ''0x'' @ digits_text False 16 (unat x))"
    using conv_text_pointer by blast
  have "format_text p1 lit [] = Some lit" using format_text_literal [OF assms, of p1 "[]" "[]"] by simp
  then show "format_text p0 (''%p'' @ lit) [A32 x] = Some (''0x'' @ digits_text False 16 (unat x) @ lit)"
    using format_text_percent [OF p, of p0 lit "[A32 x]"] p1 by (simp del: format_text.simps(2))
  obtain p2 where p2: "conv_text CHR ''p'' 0 (init_param p0) [A32 x, A32 y]
      = Some (p2, [A32 y], ''0x'' @ digits_text False 16 (unat x))"
    using conv_text_pointer by blast
  obtain p3 where p3: "conv_text CHR ''d'' 0 (init_param p2) [A32 y] = Some (p3, [], show_int (sint y))"
    using conv_text_decimal by blast
  have "format_text p3 nl [] = Some nl" by (simp add: nl_def)
  then have "format_text p2 (''%d'' @ nl) [A32 y] = Some (show_int (sint y) @ nl)"
    using format_text_percent [OF d, of p2 nl "[A32 y]"] p3 by (simp del: format_text.simps(2))
  then have "format_text p2 (lit @ ''%d'' @ nl) [A32 y] = Some (lit @ show_int (sint y) @ nl)"
    by (simp only: format_text_literal [OF assms]) simp
  then show "format_text p0 (''%p'' @ lit @ ''%d'' @ nl) [A32 x, A32 y]
      = Some (''0x'' @ digits_text False 16 (unat x) @ lit @ show_int (sint y) @ nl)"
    using format_text_percent [OF p, of p0 "lit @ ''%d'' @ nl" "[A32 x, A32 y]"] p2 by (simp del: format_text.simps(2))
qed

text \<open>The trap handler, for every cause and every interrupted instruction: it prints one line with
  the address of the instruction and its cause, returns, and has the program go on behind that
  instruction.\<close>

theorem trap_handler_returns:
  assumes "chip_ok s"
  shows "\<exists>s'. trap_handler p0 s = Some s' \<and> chip_ok s'
    \<and> chip_csrs s' = (chip_csrs s)\<lparr>csr_mepc := csr_mepc (chip_csrs s) + 4\<rparr>
    \<and> line_carries (dev_sent (chip_uart s) @ map of_char (trap_line (csr_mepc (chip_csrs s)) (csr_mcause (chip_csrs s))))
         (chip_uart s')"
proof -
  let ?epc = "csr_mepc (chip_csrs s)" and ?cause = "csr_mcause (chip_csrs s)"
  define call where "call =
    (if ?cause = 8 then (''%p: ecall from u-mode'' @ nl, [A32 ?epc])
     else if ?cause = 11 then (''%p: ecall from m-mode'' @ nl, [A32 ?epc])
     else (''%p: other cause: %d'' @ nl, [A32 ?epc, A32 ?cause]))"
  have "format_text p0 (fst call) (snd call) = Some (trap_line ?epc ?cause)"
    using trap_text(1) [of "'': ecall from u-mode'' @ nl" p0 ?epc] trap_text(1) [of "'': ecall from m-mode'' @ nl" p0 ?epc]
      trap_text(2) [of "'': other cause: ''" p0 ?epc ?cause]
    by (simp add: call_def trap_line_def nl_def del: format_text.simps(2))
  then obtain u where u: "chip_printf p0 (fst call) (snd call) s = Some (s\<lparr>chip_uart := u\<rparr>)" "chip_ok (s\<lparr>chip_uart := u\<rparr>)"
    "dev_sent u = dev_sent (chip_uart s) @ map of_char (trap_line ?epc ?cause)"
    using chip_printf_sends [OF assms] by blast
  have "trap_handler p0 s = Option.bind (chip_printf p0 (fst call) (snd call) s) (\<lambda>s.
      Some (s\<lparr>chip_csrs := (chip_csrs s)\<lparr>csr_mepc := ?epc + 4\<rparr>\<rparr>))"
    by (simp add: trap_handler_def call_def Let_def)
  moreover have "line_carries (dev_sent u) u" using u(2) by (intro line_carries_sent) (simp add: chip_ok_def)
  ultimately show ?thesis using u by (simp add: chip_ok_def)
qed

theorem trap_handler_returns_witness:
  "\<exists>s'. trap_handler param0 chip_ready = Some s' \<and> csr_mepc (chip_csrs s') = 0x1004
    \<and> line_carries (map of_char (trap_line 0x1000 11)) (chip_uart s')"
proof -
  have c: "csr_mepc (chip_csrs chip_ready) = 0x1000" "csr_mcause (chip_csrs chip_ready) = 11"
    by (simp_all add: chip_ready_def chip_reset_def)
  show ?thesis using trap_handler_returns [OF chip_ready_ok(1), of param0] unfolding c chip_ready_ok(2) by auto
qed

end
