(* ===== verification/CoreOnChip.thy ===== *)
theory CoreOnChip
  imports CoreReportCorrect ChipCorrect
begin

text \<open>
  CoreMark on the chip: \<open>uart_send_char\<close> of \<^verbatim>\<open>ee_printf.c\<close> is \<open>uart_tx\<close> of \<^verbatim>\<open>sw/librtor/uart.c\<close>, and
  what the benchmark reports is what the line carries.
\<close>

definition uart_send_char ::
  "(u32 \<Rightarrow> 's \<Rightarrow> u32 \<times> 's) \<Rightarrow> (u32 \<Rightarrow> u32 \<Rightarrow> 's \<Rightarrow> 's) \<Rightarrow> 's option \<Rightarrow> char \<Rightarrow> 's option" where
  "uart_send_char get put s c = Option.bind s (uart_tx get put (of_char c))"

text \<open>C12: CoreMark on the chip, with the UART initialised: a standard run returns, whatever the time
  between two accesses to the UART and whatever arrives meanwhile, and the line carries, behind all
  that was sent before, the frames of exactly the lines of the report on its results, the last of which
  says that they are right or that they are not.\<close>

theorem coremark_on_line:
  assumes "(kind, tot, s1, s3, sz) \<in> set standard_runs" and "length (res_memblock r0) = 4"
    and "iterations \<noteq> 0" and "base \<noteq> 0" and "unat base + unat tot + 2 ^ 15 \<le> 2 ^ 32"
    and "line_string cv" "line_string cf" "line_string ml" and "dev_ok d"
  shows "\<exists>h' r' t' v lines d'.
      core_main mhz (volatile_seeds kind iterations) tot base cv cf ml 8 clk (uart_send_char dev_get dev_put) h r0 t (Some d)
        = Some (0, h', r', t', Some d')
    \<and> report_lines mhz cv cf ml r' (get_time t') = lines @ [verdict_line v] \<and> v \<noteq> Cannot_validate
    \<and> line_carries (dev_sent d @ map of_char (concat (lines @ [verdict_line v]))) d'"
proof -
  obtain h' r' t' where run: "core_main mhz (volatile_seeds kind iterations) tot base cv cf ml 8 clk
      (uart_send_char dev_get dev_put) h r0 t (Some d)
      = Some (0, h', r', t', foldl (uart_send_char dev_get dev_put) (Some d)
          (concat (report_lines mhz cv cf ml r' (get_time t'))))"
    and v: "verdict (fst (total_errors mhz r' (get_time t'))) \<noteq> Cannot_validate"
    using core_main_standard [OF assms(1-8), of mhz clk "uart_send_char dev_get dev_put" h t "Some d"] by blast
  obtain lines where lines: "report_lines mhz cv cf ml r' (get_time t')
      = lines @ [verdict_line (verdict (fst (total_errors mhz r' (get_time t'))))]"
    by (simp add: report_lines_def)
  obtain d' where d': "foldl (uart_send_char dev_get dev_put) (Some d) (concat (report_lines mhz cv cf ml r' (get_time t'))) = Some d'"
    "dev_ok d'" "dev_sent d' = dev_sent d @ map of_char (concat (report_lines mhz cv cf ml r' (get_time t')))"
    using chip.text_sends [OF assms(9), of "uart_send_char dev_get dev_put"] by (auto simp: uart_send_char_def)
  have "line_carries (dev_sent d') d'" by (rule line_carries_sent [OF d'(2)])
  with run v lines d'(1,3) show ?thesis by (metis (no_types))
qed

theorem coremark_on_line_witness:
  "\<exists>h' r' t' v lines d'. core_main 25 (volatile_seeds VALIDATION_RUN 1) 2000 0x1000 ''GCC'' ''-O2'' ''STACK'' 8
      (\<lambda>k. of_nat k * 300000000) (uart_send_char dev_get dev_put) heap3 results3 timer0 (Some (chip_uart chip_ready))
      = Some (0, h', r', t', Some d')
    \<and> v \<noteq> Cannot_validate \<and> line_carries (map of_char (concat (lines @ [verdict_line v]))) d'"
proof -
  have s: "(VALIDATION_RUN, 2000, 0x3415, 0x66, 666) \<in> set standard_runs" by (simp add: standard_runs_def)
  have "length (res_memblock results3) = 4" "(1 :: s32) \<noteq> 0" "(0x1000 :: u32) \<noteq> 0"
    "unat (0x1000 :: u32) + unat (2000 :: u32) + 2 ^ 15 \<le> 2 ^ 32"
    "line_string ''GCC''" "line_string ''-O2''" "line_string ''STACK''" by (simp_all add: results3_def line_string_def)
  moreover have "dev_ok (chip_uart chip_ready)" using chip_ready_ok(1) by (simp add: chip_ok_def)
  ultimately show ?thesis
    using coremark_on_line [OF s, of results3 1 "0x1000" "''GCC''" "''-O2''" "''STACK''" "chip_uart chip_ready" 25
        "\<lambda>k. of_nat k * 300000000" heap3 timer0] unfolding chip_ready_ok(2) append_Nil by blast
qed

end
