(* ===== verification/Double.thy ===== *)
theory Double
  imports Complex_Main "HOL-Library.Log_Nat"
begin

text \<open>
  Finite values of C's \<open>double\<close>, the binary64 format of IEEE 754, as rational numbers: an operation
  rounds its exact result to 53 significant bits, to the nearest and ties to even, with the exponent
  of subnormal numbers bounded below. The two zeros are one number here, which nothing in the code can
  tell apart; infinities, NaNs and results beyond 2^1024, which the code does not reach from a finite
  value, are outside the model.
\<close>

section \<open>Operations\<close>

text \<open>The exponent of a number that is not 0: \<open>2 powi expo x \<le> \<bar>x\<bar> < 2 powi (expo x + 1)\<close>.\<close>

definition expo :: "rat \<Rightarrow> int" where
  "expo x = (let (n, d) = quotient_of \<bar>x\<bar>; k = bitlen n - bitlen d in if 2 powi k \<le> \<bar>x\<bar> then k else k - 1)"

definition nearest :: "rat \<Rightarrow> int" where
  "nearest y =
     (let f = \<lfloor>y\<rfloor>; r = y - of_int f
      in if r < 1 / 2 then f else if 1 / 2 < r then f + 1 else if even f then f else f + 1)"

definition ulp :: "rat \<Rightarrow> rat" where
  "ulp x = 2 powi (max (expo x - 52) (- 1074))"

definition rnd :: "rat \<Rightarrow> rat" where
  "rnd x = (if x = 0 then 0 else of_int (nearest (x / ulp x)) * ulp x)"

definition dadd :: "rat \<Rightarrow> rat \<Rightarrow> rat" where "dadd x y = rnd (x + y)"
definition dmul :: "rat \<Rightarrow> rat \<Rightarrow> rat" where "dmul x y = rnd (x * y)"
definition ddiv :: "rat \<Rightarrow> rat \<Rightarrow> rat" where "ddiv x y = rnd (x / y)"

text \<open>The conversion to an integer type, and \<open>modf\<close>: the fraction and the integral part, both exact.\<close>

definition dint :: "rat \<Rightarrow> int" where
  "dint x = (if x < 0 then \<lceil>x\<rceil> else \<lfloor>x\<rfloor>)"

definition dmodf :: "rat \<Rightarrow> rat \<times> rat" where
  "dmodf x = (x - of_int (dint x), of_int (dint x))"

section \<open>Rounding\<close>

lemma powi_pos [simp]: "0 < (2 :: rat) powi k"
  by simp

lemma expo_bounds:
  assumes "x \<noteq> 0"
  shows "2 powi (expo x) \<le> \<bar>x\<bar>" and "\<bar>x\<bar> < 2 powi (expo x + 1)"
proof -
  obtain n d where q: "quotient_of \<bar>x\<bar> = (n, d)" by (cases "quotient_of \<bar>x\<bar>")
  have d: "0 < d" using quotient_of_denom_pos [OF q] .
  have x: "\<bar>x\<bar> = of_int n / of_int d" using quotient_of_div [OF q] .
  have "0 < (of_int n :: rat) / of_int d" using assms by (simp flip: x)
  then have n: "0 < n" using d by (simp add: zero_less_divide_iff)
  define a b where "a = bitlen n" and "b = bitlen d"
  have ab: "1 \<le> a" "1 \<le> b" using n d by (simp_all add: a_def b_def bitlen_alt_def)
  have p: "(2 :: rat) powi (c - 1) = of_int (2 ^ nat (c - 1))" "(2 :: rat) powi c = of_int (2 ^ nat c)" if "1 \<le> c" for c
    using that by (simp_all add: power_int_def)
  have "of_int (2 ^ nat (a - 1)) \<le> (of_int n :: rat)" "(of_int n :: rat) < of_int (2 ^ nat a)"
    "of_int (2 ^ nat (b - 1)) \<le> (of_int d :: rat)" "(of_int d :: rat) < of_int (2 ^ nat b)"
    using bitlen_bounds [OF n] bitlen_bounds [OF d] unfolding a_def b_def by (simp_all only: of_int_le_iff of_int_less_iff)
  then have bnd: "(2 :: rat) powi (a - 1) \<le> of_int n" "(of_int n :: rat) < 2 powi a"
    "(2 :: rat) powi (b - 1) \<le> of_int d" "(of_int d :: rat) < 2 powi b"
    by (simp_all only: p [OF ab(1)] p [OF ab(2)])
  have "2 powi (a - 1) / 2 powi b \<le> \<bar>x\<bar>"
    unfolding x using bnd d n by (intro frac_le) auto
  moreover have "(2 :: rat) powi (a - b - 1) = 2 powi (a - 1) / 2 powi b"
    using power_int_diff [of "2 :: rat" "a - 1" b] by (simp add: diff_diff_add add.commute diff_diff_eq2)
  ultimately have lo: "2 powi (a - b - 1) \<le> \<bar>x\<bar>" by simp
  have "\<bar>x\<bar> < 2 powi a / 2 powi (b - 1)"
    unfolding x using bnd d n by (intro frac_less) auto
  moreover have "(2 :: rat) powi (a - b + 1) = 2 powi a / 2 powi (b - 1)"
    using power_int_diff [of "2 :: rat" a "b - 1"] by (simp add: algebra_simps)
  ultimately have hi: "\<bar>x\<bar> < 2 powi (a - b + 1)" by simp
  have e: "expo x = (if 2 powi (a - b) \<le> \<bar>x\<bar> then a - b else a - b - 1)"
    by (simp add: expo_def q a_def b_def)
  show "2 powi (expo x) \<le> \<bar>x\<bar>" using lo by (simp add: e)
  show "\<bar>x\<bar> < 2 powi (expo x + 1)" using hi by (simp add: e not_le)
qed

lemma expo_less:
  assumes "x \<noteq> 0" and "\<bar>x\<bar> < 2 powi k"
  shows "expo x < k"
proof (rule ccontr)
  assume "\<not> expo x < k"
  then have "(2 :: rat) powi k \<le> 2 powi expo x" by (intro power_int_increasing) auto
  then show False using expo_bounds(1) [OF assms(1)] assms(2) by linarith
qed

lemma nearest_of_int [simp]: "nearest (of_int i) = i"
  by (simp add: nearest_def)

lemma nearest_error: "\<bar>of_int (nearest y) - y\<bar> \<le> 1 / 2"
proof -
  define r where "r = y - of_int \<lfloor>y\<rfloor>"
  have r: "0 \<le> r" "r < 1" unfolding r_def by linarith+
  have y: "y = of_int \<lfloor>y\<rfloor> + r" by (simp add: r_def)
  have "of_int (nearest y) - y = (if r < 1 / 2 then - r else if 1 / 2 < r then 1 - r
      else if even \<lfloor>y\<rfloor> then - r else 1 - r)"
    by (simp add: nearest_def r_def Let_def)
  then show ?thesis using r by auto
qed

text \<open>What needs no rounding: 53 bits and an exponent in range.\<close>

lemma rnd_exact:
  assumes "\<bar>m\<bar> < 2 ^ 53" and "- 1074 \<le> k" and x: "x = of_int m * 2 powi k"
  shows "rnd x = x"
proof (cases "m = 0")
  case False
  define j where "j = max (expo x - 52) (- 1074)"
  have x0: "x \<noteq> 0" using False by (simp add: x)
  have "\<bar>x\<bar> = of_int \<bar>m\<bar> * 2 powi k" by (simp add: x abs_mult)
  also have "\<dots> < of_int (2 ^ 53) * 2 powi k" using assms(1) by (intro mult_strict_right_mono) (simp_all only: of_int_less_iff powi_pos)
  also have "\<dots> = 2 powi (53 + k)" by (simp add: power_int_add)
  finally have "expo x < 53 + k" using expo_less [OF x0] by simp
  then have jk: "j \<le> k" using assms(2) by (simp add: j_def)
  have "x / 2 powi j = of_int m * 2 powi (k - j)" by (simp add: x power_int_diff)
  also have "(2 :: rat) powi (k - j) = of_int (2 ^ nat (k - j))" using jk by (simp add: power_int_def)
  finally have "x / 2 powi j = of_int (m * 2 ^ nat (k - j))" by simp
  then have "of_int (nearest (x / 2 powi j)) = x / 2 powi j" by (simp only: nearest_of_int)
  then show ?thesis using x0 by (simp add: rnd_def ulp_def flip: j_def)
qed (simp add: x rnd_def)

lemma rnd_of_int: "\<bar>m\<bar> < 2 ^ 53 \<Longrightarrow> rnd (of_int m) = of_int m"
  by (rule rnd_exact [where k = 0 and m = m]) simp_all

text \<open>The error is at most half a unit in the last place.\<close>

lemma rnd_error:
  assumes "\<bar>x\<bar> < 2 powi t" and "- 1021 \<le> t"
  shows "\<bar>rnd x - x\<bar> \<le> 2 powi (t - 54)"
proof (cases "x = 0")
  case False
  have "expo x < t" using expo_less [OF False assms(1)] .
  then have "(2 :: rat) powi (max (expo x - 52) (- 1074)) \<le> 2 powi (t - 53)"
    using assms(2) by (intro power_int_increasing) auto
  then have u: "ulp x \<le> 2 powi (t - 53)" "0 < ulp x" by (simp_all add: ulp_def)
  have "rnd x - x = (of_int (nearest (x / ulp x)) - x / ulp x) * ulp x"
    using False u(2) by (simp add: rnd_def left_diff_distrib)
  then have "\<bar>rnd x - x\<bar> = \<bar>of_int (nearest (x / ulp x)) - x / ulp x\<bar> * ulp x"
    using u(2) by (simp add: abs_mult)
  also have "\<dots> \<le> 1 / 2 * ulp x" using nearest_error u(2) by (intro mult_right_mono) auto
  also have "\<dots> \<le> 1 / 2 * 2 powi (t - 53)" using u(1) by simp
  also have "\<dots> = 2 powi (t - 54)"
  proof -
    have "(2 :: rat) powi (t - 53) = 2 * 2 powi (t - 54)" using power_int_add_1 [of "2 :: rat" "t - 54"] by simp
    then show ?thesis by simp
  qed
  finally show ?thesis .
qed (simp add: rnd_def)

section \<open>Truncation\<close>

lemma dint_eqI: "0 \<le> i \<Longrightarrow> of_int i \<le> x \<Longrightarrow> x < of_int (i + 1) \<Longrightarrow> dint x = i"
  by (auto simp: dint_def floor_eq_iff)

lemma dmodf_floor: "0 \<le> x \<Longrightarrow> dmodf x = (frac x, of_int \<lfloor>x\<rfloor>)"
  by (simp add: dmodf_def dint_def frac_def)

end
