(* ===== verification/Cvt.thy ===== *)
theory Cvt
  imports Double Digits Prelude
begin

text \<open>
  \<^verbatim>\<open>sw/coremark/riscinator/cvt.c\<close>: the decimal digits of a \<open>double\<close>. The 80 bytes of the buffer are a list,
  pointers into it are indices, and an access outside it is \<open>None\<close>.
\<close>

section \<open>The code\<close>

definition CVTBUFSIZE :: nat where "CVTBUFSIZE = 80"

text \<open>The character of a value on \<open>char\<close>.\<close>

definition byte_char :: "int \<Rightarrow> char" where
  "byte_char i = char_of (nat (i mod 256))"

text \<open>The digits of the integral part, from the end of the buffer downwards; \<open>p1\<close> is where the last one
  was stored.\<close>

primrec int_loop :: "nat \<Rightarrow> rat \<Rightarrow> char list \<Rightarrow> int \<Rightarrow> (nat \<times> char list \<times> int) option" where
  "int_loop 0 fi buf r2 = (if fi \<noteq> 0 then None else Some (0, buf, r2))"
| "int_loop (Suc p1) fi buf r2 =
     (if fi \<noteq> 0
      then let (fj, fi) = dmodf (ddiv fi 10)
           in int_loop p1 fi (buf[p1 := byte_char (dint (dmul (dadd fj (rnd (3 / 100))) 10) + 48)]) (r2 + 1)
      else Some (Suc p1, buf, r2))"

function copy_loop :: "nat \<Rightarrow> nat \<Rightarrow> char list \<Rightarrow> nat \<times> char list" where
  "copy_loop p p1 buf = (if p1 < CVTBUFSIZE then copy_loop (p + 1) (p1 + 1) (buf[p := buf ! p1]) else (p, buf))"
  by auto
termination by (relation "measure (\<lambda>(p, p1, buf). CVTBUFSIZE - p1)") auto

partial_function (option) norm_loop :: "rat \<Rightarrow> int \<Rightarrow> (rat \<times> int) option" where
  "norm_loop arg r2 = (let fj = dmul arg 10 in if fj < 1 then norm_loop fj (r2 - 1) else Some (arg, r2))"

function frac_loop :: "nat \<Rightarrow> int \<Rightarrow> rat \<Rightarrow> char list \<Rightarrow> char list" where
  "frac_loop p p1 arg buf =
     (if int p \<le> p1 \<and> p < CVTBUFSIZE
      then let arg = dmul arg 10; (arg, fj) = dmodf arg
           in frac_loop (p + 1) p1 arg (buf[p := byte_char (dint fj + 48)])
      else buf)"
  by auto
termination by (relation "measure (\<lambda>(p, p1, arg, buf). CVTBUFSIZE - p)") auto

text \<open>The carry, with \<open>p\<close> and \<open>*decpt\<close>.\<close>

fun carry_loop :: "bool \<Rightarrow> nat \<Rightarrow> nat \<Rightarrow> int \<Rightarrow> char list \<Rightarrow> nat \<times> int \<times> char list" where
  "carry_loop eflag 0 p decpt buf =
     (if CHR ''9'' < buf ! 0
      then let buf = buf[0 := CHR ''0'']; buf = buf[0 := CHR ''1'']; decpt = decpt + 1
           in if \<not> eflag then (p + 1, decpt, if 0 < p then buf[p := CHR ''0''] else buf) else (p, decpt, buf)
      else (p, decpt, buf))"
| "carry_loop eflag (Suc p1) p decpt buf =
     (if CHR ''9'' < buf ! Suc p1
      then let buf = buf[Suc p1 := CHR ''0'']
           in carry_loop eflag p1 p decpt (buf[p1 := byte_char (of_char (buf ! p1) + 1)])
      else (p, decpt, buf))"

text \<open>The buffer, \<open>*decpt\<close> and \<open>*sign\<close>.\<close>

definition cvt :: "rat \<Rightarrow> int \<Rightarrow> char list \<Rightarrow> bool \<Rightarrow> (char list \<times> int \<times> bool) option" where
  "cvt arg ndigits buf eflag =
     (let ndigits = (if ndigits < 0 then 0 else ndigits);
          ndigits = (if int CVTBUFSIZE - 1 \<le> ndigits then int CVTBUFSIZE - 2 else ndigits);
          (sign, arg) = (if arg < 0 then (True, - arg) else (False, arg));
          (arg, fi) = dmodf arg
      in Option.bind
           (if fi \<noteq> 0
            then map_option (\<lambda>(p1, buf, r2). let (p, buf) = copy_loop 0 p1 buf in (p, buf, r2, arg))
                   (int_loop CVTBUFSIZE fi buf 0)
            else if 0 < arg then map_option (\<lambda>(arg, r2). (0, buf, r2, arg)) (norm_loop arg 0)
            else Some (0, buf, 0, arg))
           (\<lambda>(p, buf, r2, arg).
             let p1 = (if \<not> eflag then ndigits + r2 else ndigits); decpt = r2
             in if p1 < 0 then Some (buf[0 := CHR 0x00], decpt, sign)
                else let buf = frac_loop p p1 arg buf
                     in if int CVTBUFSIZE \<le> p1 then Some (buf[CVTBUFSIZE - 1 := CHR 0x00], decpt, sign)
                        else let p = nat p1; buf = buf[p := byte_char (of_char (buf ! p) + 5)];
                                 (p, decpt, buf) = carry_loop eflag p p decpt buf
                             in if p < CVTBUFSIZE then Some (buf[p := CHR 0x00], decpt, sign) else None))"

definition ecvtbuf :: "rat \<Rightarrow> int \<Rightarrow> char list \<Rightarrow> (char list \<times> int \<times> bool) option" where
  "ecvtbuf arg ndigits buf = cvt arg ndigits buf True"

definition fcvtbuf :: "rat \<Rightarrow> int \<Rightarrow> char list \<Rightarrow> (char list \<times> int \<times> bool) option" where
  "fcvtbuf arg ndigits buf = cvt arg ndigits buf False"

text \<open>\<open>ecvt\<close> and \<open>fcvt\<close> use the static buffer \<open>CVTBUF\<close>.\<close>

definition ecvt :: "rat \<Rightarrow> int \<Rightarrow> char list \<Rightarrow> (char list \<times> int \<times> bool) option" where
  "ecvt arg ndigits cvtbuf = cvt arg ndigits cvtbuf True"

definition fcvt :: "rat \<Rightarrow> int \<Rightarrow> char list \<Rightarrow> (char list \<times> int \<times> bool) option" where
  "fcvt arg ndigits cvtbuf = cvt arg ndigits cvtbuf False"

section \<open>Digits\<close>

declare copy_loop.simps [simp del] frac_loop.simps [simp del]

definition dch :: "nat \<Rightarrow> char" where
  "dch d = char_of (48 + d)"

lemma dch_code: "d < 200 \<Longrightarrow> of_char (dch d) = 48 + d"
  by (simp add: dch_def)

lemma dch_chars: "dch 0 = CHR ''0''" "dch 1 = CHR ''1''"
proof -
  have o: "of_char CHR ''0'' = (48 :: nat)" "of_char CHR ''1'' = (49 :: nat)" by simp_all
  have "48 + 0 = (48 :: nat)" "48 + 1 = (49 :: nat)" by simp_all
  then show "dch 0 = CHR ''0''" "dch 1 = CHR ''1''" unfolding dch_def by (simp_all only: char_of_char flip: o)
qed

lemma byte_dch: "d < 200 \<Longrightarrow> byte_char (int d + 48) = dch d"
  by (simp add: byte_char_def dch_def nat_add_distrib add.commute)

lemma byte_dch_add: "d + k < 200 \<Longrightarrow> byte_char (of_char (dch d) + int k) = dch (d + k)"
proof -
  assume d: "d + k < 200"
  have "(of_char (dch d) :: int) = int (of_char (dch d))" by (simp only: of_nat_of_char)
  also have "\<dots> = int (48 + d)" using d by (simp add: dch_code)
  finally show ?thesis using d byte_dch [of "d + k"] by (simp add: algebra_simps)
qed

lemma dch_gt: "d < 200 \<Longrightarrow> CHR ''9'' < dch d \<longleftrightarrow> 9 < d"
  by (simp add: less_char_def dch_code)

subsection \<open>Integral part\<close>

lemma small_error:
  assumes "\<bar>x\<bar> < 2 powi t" and "- 1021 \<le> t" "t \<le> 44"
  shows "rnd x \<le> x + 1 / 1024" "x - 1 / 1024 \<le> rnd x"
proof -
  have "(2 :: rat) powi (t - 54) \<le> 2 powi (- 10)" using assms(3) by (intro power_int_increasing) auto
  also have "\<dots> = 1 / 1024" by (simp add: power_int_def power_one_over)
  finally have "\<bar>rnd x - x\<bar> \<le> 1 / 1024" using rnd_error [OF assms(1,2)] by linarith
  then show "rnd x \<le> x + 1 / 1024" "x - 1 / 1024 \<le> rnd x" by linarith+
qed

text \<open>Division by 10 and the digit that is split off are right for integers below 2^51, although both
  are rounded.\<close>

lemma int_digit:
  assumes "n < 2 ^ 51"
  shows "snd (dmodf (ddiv (of_nat n) 10)) = of_nat (n div 10)"
    and "dint (dmul (dadd (fst (dmodf (ddiv (of_nat n) 10))) (rnd (3 / 100))) 10) = int (n mod 10)"
proof -
  define q :: rat where "q = of_nat n / 10"
  define k where "k = n div 10"
  define r where "r = n mod 10"
  have q: "q = of_nat k + of_nat r / 10"
  proof -
    have "n = 10 * k + r" by (simp add: k_def r_def)
    then have "(of_nat n :: rat) = 10 * of_nat k + of_nat r" by simp
    then show ?thesis by (simp add: q_def field_simps)
  qed
  have r: "r \<le> 9" by (simp add: r_def)
  have rr: "(of_nat r :: rat) \<le> 9" using r by simp
  have "(of_nat n :: rat) < 2 ^ 51" using assms by (metis of_nat_less_numeral_power_cancel_iff)
  then have "\<bar>q\<bar> < 2 powi 48" by (simp add: q_def)
  then have err: "\<bar>rnd q - q\<bar> \<le> 1 / 64" using rnd_error [of q 48] by simp
  have e: "rnd q \<le> q + 1 / 64" "q - 1 / 64 \<le> rnd q" using err by linarith+
  have near: "r = 0 \<Longrightarrow> rnd q = q"
  proof -
    assume "r = 0"
    then have qk: "q = of_int (int k)" by (simp add: q)
    have "k < 2 ^ 53" using assms by (simp add: k_def)
    then have "rnd (of_int (int k)) = of_int (int k)" by (intro rnd_of_int) simp
    then show "rnd q = q" by (simp add: qk)
  qed
  have lo: "of_nat k \<le> rnd q"
  proof (cases "r = 0")
    case True
    then show ?thesis using near by (simp add: q)
  next
    case False
    then have "(1 :: rat) \<le> of_nat r" by simp
    with e(2) show ?thesis unfolding q by linarith
  qed
  have hi: "rnd q < of_nat k + 1" using e(1) rr unfolding q by linarith
  have "dint (rnd q) = int k" by (rule dint_eqI) (use lo hi in simp_all)
  then have mf: "dmodf (rnd q) = (rnd q - of_nat k, of_nat k)" by (simp add: dmodf_def)
  then show "snd (dmodf (ddiv (of_nat n) 10)) = of_nat (n div 10)" by (simp add: ddiv_def q_def k_def)
  define fj where "fj = rnd q - of_nat k"
  have fj: "0 \<le> fj" "of_nat r / 10 - 1 / 64 \<le> fj" "fj \<le> of_nat r / 10 + 1 / 64"
    using lo e unfolding q fj_def by linarith+
  have c: "rnd (3 / 100) \<le> 3 / 100 + 1 / 1024" "3 / 100 - 1 / 1024 \<le> rnd (3 / 100)"
    using small_error [of "3 / 100" 0] by simp_all
  define s where "s = dadd fj (rnd (3 / 100))"
  have "\<bar>fj + rnd (3 / 100)\<bar> < 2 powi 0" using fj c rr by (simp add: abs_less_iff)
  from small_error [OF this] have es: "s \<le> fj + rnd (3 / 100) + 1 / 1024" "fj + rnd (3 / 100) - 1 / 1024 \<le> s"
    by (simp_all add: s_def dadd_def)
  define w where "w = dmul s 10"
  have "s * 10 < 16" "- 16 < s * 10" using fj c rr es by linarith+
  then have "\<bar>s * 10\<bar> < 2 powi 4" by simp
  from small_error [OF this] have ew: "w \<le> s * 10 + 1 / 1024" "s * 10 - 1 / 1024 \<le> w"
    by (simp_all add: w_def dmul_def)
  have "of_nat r \<le> w" "w < of_nat r + 1" using fj c es ew by linarith+
  then have "dint w = int r" by (intro dint_eqI) simp_all
  then show "dint (dmul (dadd (fst (dmodf (ddiv (of_nat n) 10))) (rnd (3 / 100))) 10) = int (n mod 10)"
    using mf by (simp add: ddiv_def flip: q_def) (simp add: w_def s_def fj_def r_def)
qed

lemma int_loop_0: "int_loop p1 0 buf r2 = Some (p1, buf, r2)"
  by (cases p1) simp_all

lemma int_loop_digits:
  assumes "0 < n" and "n < 2 ^ 51" and "length (nat_digits 10 n) \<le> p1" and "p1 \<le> length buf"
  shows "int_loop p1 (of_nat n) buf r2 =
    Some (p1 - length (nat_digits 10 n),
      take (p1 - length (nat_digits 10 n)) buf @ map dch (nat_digits 10 n) @ drop p1 buf,
      r2 + int (length (nat_digits 10 n)))"
  using assms
proof (induction "10 :: nat" n arbitrary: p1 buf r2 rule: nat_digits.induct)
  case (1 n)
  obtain q where p1: "p1 = Suc q" using "1.prems"(3) by (cases p1) auto
  let ?d = "n mod 10" and ?k = "n div 10"
  let ?buf = "buf[q := dch ?d]"
  have step: "int_loop p1 (of_nat n) buf r2 = int_loop q (of_nat ?k) ?buf (r2 + 1)"
  proof -
    have "byte_char (int ?d + 48) = dch ?d" by (rule byte_dch) simp
    then show ?thesis using "1.prems"(1) int_digit [OF "1.prems"(2)]
      by (cases "dmodf (ddiv (of_nat n) 10)") (simp add: p1)
  qed
  have q: "q < length buf" using "1.prems"(4) by (simp add: p1)
  then have dr: "drop q ?buf = dch ?d # drop (Suc q) buf"
    by (simp add: drop_update_swap Cons_nth_drop_Suc [symmetric])
  show ?case
  proof (cases "n < 10")
    case True
    then have "nat_digits 10 n = [n]" "?k = 0" "?d = n" by (simp_all add: nat_digits.simps)
    then show ?thesis using dr id_take_nth_drop [of q ?buf] q unfolding step by (simp add: int_loop_0 p1)
  next
    case False
    then have nd: "nat_digits 10 n = nat_digits 10 ?k @ [?d]" by (subst nat_digits.simps) simp
    have "int_loop q (of_nat ?k) ?buf (r2 + 1) =
      Some (q - length (nat_digits 10 ?k),
        take (q - length (nat_digits 10 ?k)) ?buf @ map dch (nat_digits 10 ?k) @ drop q ?buf,
        r2 + 1 + int (length (nat_digits 10 ?k)))"
      using False "1.prems" by (intro "1.hyps") (auto simp: p1 nd)
    then show ?thesis using dr unfolding step by (simp add: nd p1)
  qed
qed

lemma copy_loop_eq:
  assumes "p \<le> p1" and "p1 \<le> 80" and "length buf = 80"
  shows "copy_loop p p1 buf = (p + (80 - p1), take p buf @ drop p1 buf @ drop (p + (80 - p1)) buf)"
  using assms
proof (induction p p1 buf rule: copy_loop.induct)
  case (1 p p1 buf)
  show ?case
  proof (cases "p1 < 80")
    case True
    have "copy_loop p p1 buf = copy_loop (p + 1) (p1 + 1) (buf[p := buf ! p1])"
      using True by (subst copy_loop.simps) (simp add: CVTBUFSIZE_def)
    also have "\<dots> = (p + 1 + (80 - (p1 + 1)), take (p + 1) (buf[p := buf ! p1]) @ drop (p1 + 1) (buf[p := buf ! p1])
        @ drop (p + 1 + (80 - (p1 + 1))) (buf[p := buf ! p1]))"
      using True "1.prems" by (intro "1.IH") (simp_all add: CVTBUFSIZE_def)
    also have "p + 1 + (80 - (p1 + 1)) = p + (80 - p1)" using True by simp
    also have "take (p + 1) (buf[p := buf ! p1]) = take p buf @ [buf ! p1]"
      using True "1.prems" by (simp add: take_Suc_conv_app_nth)
    finally show ?thesis
      using True "1.prems" by (simp add: drop_update_cancel Cons_nth_drop_Suc)
  next
    case False
    then show ?thesis using "1.prems" by (subst copy_loop.simps) (simp add: CVTBUFSIZE_def)
  qed
qed

subsection \<open>Fraction\<close>

text \<open>A fraction with 50 binary places.\<close>

definition grid :: "rat \<Rightarrow> bool" where
  "grid f \<longleftrightarrow> f < 1 \<and> (\<exists>m. f = of_nat m / 2 ^ 50)"

lemma grid_nonneg: "grid f \<Longrightarrow> 0 \<le> f"
  by (auto simp: grid_def)

lemma grid_mul10:
  assumes "grid f"
  shows "dmul f 10 = 10 * f" and "grid (frac (10 * f))" and "0 \<le> \<lfloor>10 * f\<rfloor>" and "nat \<lfloor>10 * f\<rfloor> < 10"
proof -
  obtain m where m: "f = of_nat m / 2 ^ 50" "f < 1" using assms by (auto simp: grid_def)
  then have "(of_nat m :: rat) < 2 ^ 50" by (simp add: divide_less_eq)
  then have m50: "m < 2 ^ 50" by (metis of_nat_less_numeral_power_cancel_iff)
  have e: "f * 10 = of_int (5 * int m) * 2 powi (- 49)" by (simp add: m(1) power_int_def power_one_over)
  have "rnd (f * 10) = f * 10" using m50 by (intro rnd_exact [OF _ _ e]) auto
  then show "dmul f 10 = 10 * f" by (simp add: dmul_def mult.commute)
  have fl: "0 \<le> \<lfloor>10 * f\<rfloor>" "\<lfloor>10 * f\<rfloor> < 10" using grid_nonneg [OF assms] m(2) by (simp_all add: floor_less_iff)
  then show "0 \<le> \<lfloor>10 * f\<rfloor>" "nat \<lfloor>10 * f\<rfloor> < 10" by linarith+
  have "frac (10 * f) = of_int (10 * int m - \<lfloor>10 * f\<rfloor> * 2 ^ 50) / 2 ^ 50" by (simp add: frac_def m(1) field_simps)
  moreover have "0 \<le> 10 * int m - \<lfloor>10 * f\<rfloor> * 2 ^ 50"
  proof -
    have "0 \<le> frac (10 * f)" by simp
    then have "0 \<le> (of_int (10 * int m - \<lfloor>10 * f\<rfloor> * 2 ^ 50) :: rat)" unfolding calculation by (simp add: zero_le_divide_iff)
    then show ?thesis by (simp only: of_int_0_le_iff)
  qed
  ultimately have "frac (10 * f) = of_nat (nat (10 * int m - \<lfloor>10 * f\<rfloor> * 2 ^ 50)) / 2 ^ 50"
    by (metis of_int_of_nat_eq int_nat_eq)
  then show "grid (frac (10 * f))" unfolding grid_def using frac_lt_1 by blast
qed

primrec frac_digits :: "nat \<Rightarrow> rat \<Rightarrow> nat list" where
  "frac_digits 0 f = []"
| "frac_digits (Suc j) f = nat \<lfloor>10 * f\<rfloor> # frac_digits j (frac (10 * f))"

lemma length_frac_digits [simp]: "length (frac_digits j f) = j"
  by (induction j arbitrary: f) simp_all

lemma frac_digits_value:
  assumes "grid f"
  shows "(\<forall>d \<in> set (frac_digits j f). d < 10)
    \<and> foldl (\<lambda>v d. v * 10 + d) v (frac_digits j f) = v * 10 ^ j + nat \<lfloor>f * 10 ^ j\<rfloor>"
  using assms
proof (induction j arbitrary: f v)
  case 0
  then show ?case using grid_nonneg [of f] by (auto simp: grid_def floor_eq_iff)
next
  case (Suc j)
  let ?a = "\<lfloor>10 * f\<rfloor>" and ?g = "frac (10 * f)"
  note g = grid_mul10 [OF Suc.prems]
  have "f * 10 ^ Suc j = ?g * 10 ^ j + of_int (?a * 10 ^ j)" by (simp add: frac_def algebra_simps)
  then have "\<lfloor>f * 10 ^ Suc j\<rfloor> = \<lfloor>?g * 10 ^ j\<rfloor> + ?a * 10 ^ j" by (simp only: floor_add_int)
  moreover have "0 \<le> \<lfloor>?g * 10 ^ j\<rfloor>" using grid_nonneg [OF g(2)] by simp
  ultimately have "nat \<lfloor>f * 10 ^ Suc j\<rfloor> = nat \<lfloor>?g * 10 ^ j\<rfloor> + nat ?a * 10 ^ j"
    using g(3) by (simp add: nat_add_distrib nat_mult_distrib nat_power_eq)
  then show ?case using Suc.IH [OF g(2), of "v * 10 + nat ?a"] g(4) by (simp add: distrib_right mult.assoc)
qed

lemma frac_loop_digits:
  assumes "grid f" and "p1 < 80" and "length ds \<le> p1 + 1" and "length ds + length rest = 80"
  shows "frac_loop (length ds) (int p1) f (map dch ds @ rest)
    = map dch (ds @ frac_digits (p1 + 1 - length ds) f) @ drop (p1 + 1 - length ds) rest"
  using assms
proof (induction "p1 + 1 - length ds" arbitrary: ds f rest)
  case 0
  then show ?case by (subst frac_loop.simps) simp
next
  case (Suc j)
  let ?a = "nat \<lfloor>10 * f\<rfloor>" and ?g = "frac (10 * f)"
  note g = grid_mul10 [OF Suc.prems(1)]
  obtain c cs where rest: "rest = c # cs" using Suc.hyps(2) Suc.prems by (cases rest) auto
  have m: "dmodf (dmul f 10) = (?g, of_int \<lfloor>10 * f\<rfloor>)"
    using g(1) grid_nonneg [OF Suc.prems(1)] by (simp add: dmodf_floor)
  have "dint (of_int \<lfloor>10 * f\<rfloor>) = \<lfloor>10 * f\<rfloor>" using g(3) by (simp add: dint_def)
  moreover have "byte_char (int ?a + 48) = dch ?a" using g(4) by (intro byte_dch) linarith
  ultimately have b: "byte_char (dint (of_int \<lfloor>10 * f\<rfloor>) + 48) = dch ?a" using g(3) by simp
  have le: "length ds \<le> p1" "length ds < 80" using Suc.hyps(2) Suc.prems(2) by linarith+
  have "frac_loop (length ds) (int p1) f (map dch ds @ rest)
      = frac_loop (length (ds @ [?a])) (int p1) ?g (map dch (ds @ [?a]) @ cs)"
    using le by (subst frac_loop.simps) (simp add: CVTBUFSIZE_def m b rest list_update_append)
  also have "\<dots> = map dch ((ds @ [?a]) @ frac_digits (p1 + 1 - length (ds @ [?a])) ?g) @ drop (p1 + 1 - length (ds @ [?a])) cs"
    using Suc.hyps(2) Suc.prems g(2) by (intro Suc.hyps(1)) (auto simp: rest)
  also have "p1 + 1 - length (ds @ [?a]) = j" using Suc.hyps(2) by simp
  finally show ?case unfolding Suc.hyps(2) [symmetric] by (simp add: rest)
qed

subsection \<open>Rounding\<close>

text \<open>The carry adds 1 to the digits before the last one; if they are all 9, it puts a 1 in front.\<close>

definition carried :: "nat list \<Rightarrow> nat \<Rightarrow> nat" where
  "carried xs d = digits_val 10 xs + (if 9 < d then 1 else 0)"

lemma digits_val_snoc: "digits_val b (xs @ [y]) = digits_val b xs * b + y"
  by (simp add: digits_val_def)

lemma digits_val_bound: "\<forall>x \<in> set xs. x < 10 \<Longrightarrow> digits_val 10 xs < 10 ^ length xs"
proof (induction xs rule: rev_induct)
  case (snoc y ys)
  then have "digits_val 10 ys + 1 \<le> 10 ^ length ys" "y < 10" by simp_all
  then have "(digits_val 10 ys + 1) * 10 \<le> 10 ^ length ys * 10" by (intro mult_right_mono) simp_all
  then show ?case using \<open>y < 10\<close> by (simp add: digits_val_snoc)
qed (simp add: digits_val_def)

lemma carry_loop_run:
  assumes "\<forall>x \<in> set xs. x < 10" and "d < 20" and "length xs \<le> p"
  shows "if carried xs d < 10 ^ length xs
    then \<exists>ys. length ys = length xs \<and> (\<forall>y \<in> set ys. y < 10) \<and> digits_val 10 ys = carried xs d
       \<and> carry_loop False (length xs) p decpt (map dch xs @ dch d # rest)
         = (p, decpt, map dch ys @ (if 9 < d then CHR ''0'' else dch d) # rest)
    else carried xs d = 10 ^ length xs
       \<and> carry_loop False (length xs) p decpt (map dch xs @ dch d # rest)
         = (p + 1, decpt + 1, let b = CHR ''1'' # replicate (length xs) (CHR ''0'') @ rest
                              in if 0 < p then b[p := CHR ''0''] else b)"
  using assms
proof (induction xs arbitrary: d rest rule: rev_induct)
  case Nil
  then show ?case by (auto simp: carried_def digits_val_def dch_gt Let_def)
next
  case (snoc y ys)
  have y: "y < 10" and ys: "\<forall>x \<in> set ys. x < 10" using snoc.prems(1) by auto
  let ?L = "length ys"
  have b: "(map dch ys @ dch y # dch d # rest) ! Suc ?L = dch d" by (simp add: nth_append)
  show ?case
  proof (cases "9 < d")
    case False
    then have c: "carried (ys @ [y]) d = digits_val 10 (ys @ [y])" by (simp add: carried_def)
    moreover have "carried (ys @ [y]) d < 10 ^ length (ys @ [y])"
      unfolding c using snoc.prems(1) by (intro digits_val_bound) auto
    moreover have "carry_loop False (length (ys @ [y])) p decpt (map dch (ys @ [y]) @ dch d # rest)
        = (p, decpt, map dch (ys @ [y]) @ dch d # rest)"
      using False snoc.prems(2) by (simp add: b dch_gt)
    ultimately show ?thesis using False snoc.prems(1) by (intro if_P [THEN iffD2] exI [of _ "ys @ [y]"]) (simp; fail | auto)+
  next
    case True
    have "byte_char (of_char (dch y) + 1) = dch (y + 1)" using byte_dch_add [of y 1] y by simp
    then have step: "carry_loop False (length (ys @ [y])) p decpt (map dch (ys @ [y]) @ dch d # rest)
        = carry_loop False ?L p decpt (map dch ys @ dch (y + 1) # CHR ''0'' # rest)"
      using True snoc.prems(2) by (simp add: b dch_gt nth_append list_update_append)
    have c: "carried (ys @ [y]) d = digits_val 10 ys * 10 + (y + 1)" using True by (simp add: carried_def digits_val_snoc)
    note IH = snoc.IH [OF ys, of "y + 1" "CHR ''0'' # rest"]
    show ?thesis
    proof (cases "y = 9")
      case False
      then have y9: "\<not> 9 < y + 1" "y + 1 < 10" using y by auto
      have ci: "carried ys (y + 1) = digits_val 10 ys" using y9 by (simp add: carried_def)
      have "digits_val 10 ys < 10 ^ ?L" using digits_val_bound [OF ys] .
      with IH y9 ci snoc.prems(3) obtain zs where zs: "length zs = ?L" "\<forall>z \<in> set zs. z < 10" "digits_val 10 zs = digits_val 10 ys"
        "carry_loop False ?L p decpt (map dch ys @ dch (y + 1) # CHR ''0'' # rest)
          = (p, decpt, map dch zs @ dch (y + 1) # CHR ''0'' # rest)" by auto
      have all: "\<forall>z \<in> set (zs @ [y + 1]). z < 10" using zs(2) y9 by auto
      have v: "digits_val 10 (zs @ [y + 1]) = carried (ys @ [y]) d" by (simp add: digits_val_snoc zs(3) c)
      have "carried (ys @ [y]) d < 10 ^ length (ys @ [y])" using digits_val_bound [OF all] v zs(1) by simp
      then show ?thesis unfolding step zs(4) using all v zs(1) True by (simp only: if_True) (intro exI [of _ "zs @ [y + 1]"], simp)
    next
      case y9: True
      have ci: "carried ys (y + 1) = digits_val 10 ys + 1" using y9 by (simp add: carried_def)
      have ce: "carried (ys @ [y]) d = carried ys (y + 1) * 10" unfolding c ci using y9 by simp
      show ?thesis
      proof (cases "carried ys (y + 1) < 10 ^ ?L")
        case True
        with IH y9 snoc.prems(3) obtain zs where zs: "length zs = ?L" "\<forall>z \<in> set zs. z < 10"
          "digits_val 10 zs = carried ys (y + 1)"
          "carry_loop False ?L p decpt (map dch ys @ dch (y + 1) # CHR ''0'' # rest)
            = (p, decpt, map dch zs @ CHR ''0'' # CHR ''0'' # rest)" by auto
        have v: "digits_val 10 (zs @ [0]) = carried (ys @ [y]) d" by (simp add: digits_val_snoc zs(3) ce)
        have "carried (ys @ [y]) d < 10 ^ length (ys @ [y])" using True by (simp add: ce)
        moreover note dch_chars
        ultimately show ?thesis unfolding step zs(4) using v zs(1,2) \<open>9 < d\<close>
          by (simp only: if_True) (intro exI [of _ "zs @ [0]"], simp)
      next
        case False
        with IH y9 snoc.prems(3) have ov: "carried ys (y + 1) = 10 ^ ?L"
          "carry_loop False ?L p decpt (map dch ys @ dch (y + 1) # CHR ''0'' # rest)
            = (p + 1, decpt + 1, let b = CHR ''1'' # replicate ?L (CHR ''0'') @ CHR ''0'' # rest
                                 in if 0 < p then b[p := CHR ''0''] else b)" by auto
        show ?thesis unfolding step ov(2) ce ov(1) by (simp add: replicate_app_Cons_same)
      qed
    qed
  qed
qed

text \<open>Digits without a leading zero are those of positional notation.\<close>

lemma nat_digits_unique:
  assumes "\<forall>x \<in> set xs. x < 10" and "xs \<noteq> []" and "length xs = 1 \<or> 10 ^ (length xs - 1) \<le> digits_val 10 xs"
  shows "nat_digits 10 (digits_val 10 xs) = xs"
  using assms
proof (induction xs rule: rev_induct)
  case (snoc y ys)
  have y: "y < 10" using snoc.prems(1) by simp
  show ?case
  proof (cases "ys = []")
    case True
    then show ?thesis using y by (simp add: digits_val_def nat_digits.simps)
  next
    case False
    let ?v = "digits_val 10 ys"
    obtain l where l: "length ys = Suc l" using False by (cases ys) auto
    have "10 ^ Suc l \<le> ?v * 10 + y" using snoc.prems(3) False by (simp add: digits_val_snoc l)
    then have v: "10 ^ l \<le> ?v" using y by simp
    then have "0 < ?v" by (rule less_le_trans [rotated]) simp
    moreover have "nat_digits 10 ?v = ys" using snoc.prems(1) False v l by (intro snoc.IH) auto
    ultimately show ?thesis
      using y by (subst nat_digits.simps) (simp add: digits_val_snoc)
  qed
qed simp

text \<open>The last step of \<open>cvt\<close>: 5 is added to the last digit, which is dropped.\<close>

lemma round_last:
  assumes "\<forall>x \<in> set (xs @ [d]). x < 10" and "length xs + 1 + length rest = 80" and "length xs < 79"
  defines "N \<equiv> (digits_val 10 (xs @ [d]) + 5) div 10"
  shows "\<exists>zs buf'. carry_loop False (length xs) (length xs) decpt (map dch xs @ dch (d + 5) # rest)
      = (length zs, decpt + int (length zs) - int (length xs), buf')
    \<and> take (length zs) buf' = map dch zs \<and> length buf' = 80 \<and> length zs < 80 \<and> length zs \<in> {length xs, length xs + 1}
    \<and> (\<forall>z \<in> set zs. z < 10) \<and> digits_val 10 zs = N \<and> (length xs < length zs \<longrightarrow> N = 10 ^ length xs)"
proof -
  have d: "d < 10" and xs: "\<forall>x \<in> set xs. x < 10" using assms(1) by auto
  have "(digits_val 10 xs * 10 + (d + 5)) div 10 = digits_val 10 xs + (d + 5) div 10" by simp
  moreover have "(d + 5) div 10 = (if 9 < d + 5 then 1 else 0)" using d by auto
  ultimately have N: "carried xs (d + 5) = N" by (simp add: N_def carried_def digits_val_snoc add.assoc)
  note run = carry_loop_run [OF xs, of "d + 5" "length xs" decpt rest]
  show ?thesis
  proof (cases "N < 10 ^ length xs")
    case True
    then obtain ys where "length ys = length xs" "\<forall>y \<in> set ys. y < 10" "digits_val 10 ys = N"
      "carry_loop False (length xs) (length xs) decpt (map dch xs @ dch (d + 5) # rest)
         = (length xs, decpt, map dch ys @ (if 9 < d + 5 then CHR ''0'' else dch (d + 5)) # rest)"
      using run d by (auto simp: N)
    then show ?thesis using assms(2,3) True
      by (intro exI [of _ ys] exI [of _ "map dch ys @ (if 9 < d + 5 then CHR ''0'' else dch (d + 5)) # rest"]) simp
  next
    case False
    let ?b = "CHR ''1'' # replicate (length xs) (CHR ''0'') @ rest"
    let ?b' = "if 0 < length xs then ?b[length xs := CHR ''0''] else ?b"
    let ?zs = "1 # replicate (length xs) (0 :: nat)"
    have ov: "N = 10 ^ length xs" "carry_loop False (length xs) (length xs) decpt (map dch xs @ dch (d + 5) # rest)
         = (length xs + 1, decpt + 1, ?b')"
      using run d False by (simp_all add: N Let_def)
    have z: "?b ! length xs = CHR ''0''" if "0 < length xs" using that by (simp add: nth_Cons' nth_append)
    have "?b[length xs := CHR ''0''] = ?b" if "0 < length xs"
      using list_update_id [of ?b "length xs"] unfolding z [OF that] .
    then have b': "?b' = ?b" by presburger
    note ch = dch_chars dch_chars(2) [unfolded One_nat_def]
    have "digits_val 10 (1 # replicate n 0) = 10 ^ n" for n
      by (induction n) (simp_all add: digits_val_def replicate_append_same [symmetric])
    then have "digits_val 10 ?zs = N" by (simp add: ov(1))
    then show ?thesis
      using assms(2,3) ov(1) by (intro exI [of _ ?zs] exI [of _ ?b]) (simp add: ov(2) [unfolded b'] ch)
  qed
qed

lemma norm_loop_runs:
  assumes "grid f" and "0 < f"
  shows "\<exists>j f'. norm_loop f r2 = Some (f', r2 - int j) \<and> grid f' \<and> f' = f * 10 ^ j \<and> 1 \<le> 10 * f'"
proof -
  have "\<exists>j f'. norm_loop f r2 = Some (f', r2 - int j) \<and> grid f' \<and> f' = f * 10 ^ j \<and> 1 \<le> 10 * f'"
    if "f = of_nat m / 2 ^ 50" "f < 1" "0 < m" for m f
    using that
  proof (induction "2 ^ 50 - m" arbitrary: m f r2 rule: less_induct)
    case less
    have g: "grid f" using less.prems by (auto simp: grid_def)
    show ?case
    proof (cases "10 * f < 1")
      case True
      have step: "norm_loop f r2 = norm_loop (10 * f) (r2 - 1)"
        using True by (subst norm_loop.simps) (simp add: grid_mul10(1) [OF g])
      have e: "10 * f = of_nat (10 * m) / 2 ^ 50" using less.prems(1) by simp
      have "(of_nat m :: rat) < 2 ^ 50" using less.prems(1,2) by (simp add: divide_less_eq)
      then have "m < 2 ^ 50" by (metis of_nat_less_numeral_power_cancel_iff)
      then have "2 ^ 50 - 10 * m < 2 ^ 50 - m" using less.prems(3) by linarith
      then obtain j f' where "norm_loop (10 * f) (r2 - 1) = Some (f', r2 - 1 - int j)" "grid f'"
        "f' = 10 * f * 10 ^ j" "1 \<le> 10 * f'"
        using less.hyps [OF _ e True, of "r2 - 1"] less.prems(3) by auto
      then show ?thesis by (intro exI [of _ "Suc j"] exI [of _ f']) (simp add: step)
    next
      case False
      then show ?thesis using g by (intro exI [of _ 0] exI [of _ f]) (subst norm_loop.simps, simp add: grid_mul10(1) [OF g])
    qed
  qed
  moreover obtain m where "f = of_nat m / 2 ^ 50" "f < 1" using assms(1) by (auto simp: grid_def)
  moreover have "0 < m" using assms(2) calculation(2) by (cases "m = 0") auto
  ultimately show ?thesis by blast
qed

section \<open>The digits of a number\<close>

text \<open>The text in a buffer: up to the first NUL.\<close>

definition buf_text :: "char list \<Rightarrow> string" where
  "buf_text buf = takeWhile (\<lambda>c. c \<noteq> CHR 0x00) buf"

lemma buf_text_digits:
  assumes "take n buf = map dch zs" and "length zs = n" "n < length buf" "\<forall>z \<in> set zs. z < 10"
  shows "buf_text (buf[n := CHR 0x00]) = map dch zs"
proof -
  have eq: "buf[n := CHR 0x00] = map dch zs @ CHR 0x00 # drop (Suc n) buf"
    using assms by (simp add: upd_conv_take_nth_drop)
  have nz: "c \<noteq> CHR 0x00" if c: "c \<in> set (map dch zs)" for c
  proof -
    obtain z where z: "z \<in> set zs" "c = dch z" using c by auto
    then have "of_char c = 48 + z" using dch_code [of z] assms(4) by fastforce
    then show ?thesis by auto
  qed
  show ?thesis unfolding buf_text_def eq by (subst takeWhile_append2) (use nz in auto)
qed

text \<open>The steps of \<open>cvt\<close> behind the normalisation, with a place for rounding in the buffer.\<close>

lemma finish:
  assumes "grid f" and "length ds + length rest = 80" and "length ds \<le> p1 + 1" and "p1 < 79"
    and "\<forall>d \<in> set ds. d < 10"
  defines "buf \<equiv> frac_loop (length ds) (int p1) f (map dch ds @ rest)"
  defines "N \<equiv> (digits_val 10 (ds @ frac_digits (p1 + 1 - length ds) f) + 5) div 10"
  shows "\<exists>zs buf'. carry_loop False p1 p1 decpt (buf[p1 := byte_char (of_char (buf ! p1) + 5)])
      = (length zs, decpt + int (length zs) - int p1, buf')
    \<and> length zs < 80 \<and> buf_text (buf'[length zs := CHR 0x00]) = map dch zs \<and> length zs \<in> {p1, p1 + 1}
    \<and> (\<forall>z \<in> set zs. z < 10) \<and> digits_val 10 zs = N \<and> (p1 < length zs \<longrightarrow> N = 10 ^ p1)"
proof -
  let ?ds = "ds @ frac_digits (p1 + 1 - length ds) f"
  have all: "\<forall>d \<in> set ?ds. d < 10" using assms(5) frac_digits_value [OF assms(1), where v = 0] by auto
  have len: "length ?ds = p1 + 1" using assms(3) by simp
  define xs d where "xs = butlast ?ds" and "d = last ?ds"
  have "?ds \<noteq> []" using len by (metis list.size(3) add_is_0 one_neq_zero)
  then have xs: "?ds = xs @ [d]" unfolding xs_def d_def by (rule append_butlast_last_id [symmetric])
  have xl: "length xs = p1" using len unfolding xs by simp
  let ?rest = "drop (p1 + 1 - length ds) rest"
  have buf: "buf = map dch xs @ dch d # ?rest"
    unfolding buf_def using frac_loop_digits [OF assms(1) _ assms(3,2)] assms(4) unfolding xs by simp
  have d: "d < 10" using all unfolding xs by simp
  then have upd: "buf[p1 := byte_char (of_char (buf ! p1) + 5)] = map dch xs @ dch (d + 5) # ?rest"
    using byte_dch_add [of d 5] by (simp add: buf list_update_append nth_append xl [symmetric])
  have "length xs + 1 + length ?rest = 80" using assms(2,3,4) xl by simp
  moreover have "\<forall>x \<in> set (xs @ [d]). x < 10" using all by (simp only: xs)
  ultimately obtain zs buf' where z: "carry_loop False p1 p1 decpt (map dch xs @ dch (d + 5) # ?rest)
      = (length zs, decpt + int (length zs) - int p1, buf')"
    "take (length zs) buf' = map dch zs" "length buf' = 80" "length zs < 80" "length zs \<in> {p1, p1 + 1}"
    "\<forall>z \<in> set zs. z < 10" "digits_val 10 zs = N" "p1 < length zs \<longrightarrow> N = 10 ^ p1"
    using round_last [of xs d ?rest decpt] assms(4) unfolding N_def xs xl by blast
  have "buf_text (buf'[length zs := CHR 0x00]) = map dch zs" using z by (intro buf_text_digits) auto
  with z show ?thesis unfolding upd by blast
qed

lemma nat_digits_lower: "0 < n \<Longrightarrow> 10 ^ (length (nat_digits 10 n) - 1) \<le> n"
proof (induction "10 :: nat" n rule: nat_digits.induct)
  case (1 n)
  show ?case
  proof (cases "n < 10")
    case False
    then have k: "0 < n div 10" by (simp add: div_greater_zero_iff)
    have "nat_digits 10 n = nat_digits 10 (n div 10) @ [n mod 10]" using False by (subst nat_digits.simps) simp
    moreover have "10 ^ (length (nat_digits 10 (n div 10)) - 1) \<le> n div 10" using False k by (intro "1.hyps") auto
    then have "10 ^ (length (nat_digits 10 (n div 10)) - 1) * 10 \<le> n div 10 * 10" by (rule mult_right_mono) simp
    then have "10 ^ length (nat_digits 10 (n div 10)) \<le> n"
      using power_Suc2 [of "10 :: nat" "length (nat_digits 10 (n div 10)) - 1"] by (simp add: Suc_diff_1 del: power_Suc)
    ultimately show ?thesis by simp
  qed (use 1 in \<open>simp add: nat_digits.simps\<close>)
qed

lemma round_half: "(\<lfloor>y * 10\<rfloor> + 5) div 10 = \<lfloor>y + 1 / 2 :: rat\<rfloor>"
proof -
  define k where "k = \<lfloor>y + 1 / 2\<rfloor>"
  have "of_int k \<le> y + 1 / 2" "y + 1 / 2 < of_int k + 1" unfolding k_def by linarith+
  then have "of_int (10 * k - 5) \<le> y * 10" "y * 10 < of_int (10 * k + 5)" by simp_all
  then have "10 * k - 5 \<le> \<lfloor>y * 10\<rfloor>" "\<lfloor>y * 10\<rfloor> < 10 * k + 5" by (simp_all only: le_floor_iff floor_less_iff)
  then show ?thesis unfolding k_def [symmetric] by linarith
qed

lemma digits_val_0: "digits_val 10 xs = 0 \<Longrightarrow> i < length xs \<Longrightarrow> xs ! i = 0"
proof (induction xs arbitrary: i rule: rev_induct)
  case (snoc y ys)
  then show ?case by (cases "i < length ys") (auto simp: digits_val_snoc nth_append less_Suc_eq)
qed simp

text \<open>The digits of all places up to one behind the last that is asked for, rounded.\<close>

lemma digits_rounded:
  assumes "grid f"
  shows "(digits_val 10 (ds @ frac_digits (Suc k) f) + 5) div 10 = nat \<lfloor>(of_nat (digits_val 10 ds) + f) * 10 ^ k + 1 / 2\<rfloor>"
proof -
  let ?v = "digits_val 10 ds" and ?y = "(of_nat (digits_val 10 ds) + f) * 10 ^ k"
  have "digits_val 10 (ds @ frac_digits (Suc k) f) = ?v * 10 ^ Suc k + nat \<lfloor>f * 10 ^ Suc k\<rfloor>"
    using frac_digits_value [OF assms, of "Suc k" ?v] by (simp add: digits_val_def)
  moreover have "0 \<le> f * 10 ^ Suc k" using grid_nonneg [OF assms] by simp
  ultimately have "int (digits_val 10 (ds @ frac_digits (Suc k) f)) = int ?v * 10 ^ Suc k + \<lfloor>f * 10 ^ Suc k\<rfloor>" by simp
  also have "\<dots> = \<lfloor>f * 10 ^ Suc k + of_int (int ?v * 10 ^ Suc k)\<rfloor>" by (simp only: floor_add_int add.commute)
  also have "f * 10 ^ Suc k + of_int (int ?v * 10 ^ Suc k) = ?y * 10" by (simp add: algebra_simps)
  finally have "int ((digits_val 10 (ds @ frac_digits (Suc k) f) + 5) div 10) = \<lfloor>?y + 1 / 2\<rfloor>"
    using round_half [of ?y] by (simp add: zdiv_int)
  then show ?thesis by linarith
qed

text \<open>\<open>fcvtbuf\<close> in the buffer of a number whose integral part has at most 51 bits and whose fraction has 50
  binary places.\<close>

definition fixed_ok :: "rat \<Rightarrow> bool" where
  "fixed_ok x \<longleftrightarrow> \<lfloor>\<bar>x\<bar>\<rfloor> < 2 ^ 51 \<and> grid (frac \<bar>x\<bar>)"

definition rounded :: "rat \<Rightarrow> nat \<Rightarrow> nat" where
  "rounded x nd = nat \<lfloor>\<bar>x\<bar> * 10 ^ nd + 1 / 2\<rfloor>"

text \<open>What is in the buffer, and where the point is.\<close>

definition fixed_digits :: "rat \<Rightarrow> nat \<Rightarrow> string \<Rightarrow> int \<Rightarrow> bool" where
  "fixed_digits x nd t decpt \<longleftrightarrow>
     (if x = 0 then t = replicate nd (CHR ''0'') \<and> decpt = 0
      else if rounded x nd = 0 then t = []
      else t = map dch (nat_digits 10 (rounded x nd)) \<and> decpt = int (length t) - int nd)"

text \<open>The steps behind the integral part and the normalisation, for \<open>fcvtbuf\<close>.\<close>

definition cvt_rest :: "nat \<Rightarrow> bool \<Rightarrow> nat \<times> char list \<times> int \<times> rat \<Rightarrow> (char list \<times> int \<times> bool) option" where
  "cvt_rest nd sign = (\<lambda>(p, buf, r2, arg).
     let p1 = int nd + r2
     in if p1 < 0 then Some (buf[0 := CHR 0x00], r2, sign)
        else let buf = frac_loop p p1 arg buf
             in if 80 \<le> p1 then Some (buf[79 := CHR 0x00], r2, sign)
                else let p = nat p1; buf = buf[p := byte_char (of_char (buf ! p) + 5)];
                         (p, decpt, buf) = carry_loop False p p r2 buf
                     in if p < 80 then Some (buf[p := CHR 0x00], decpt, sign) else None)"

lemma cvt_start:
  assumes "nd \<le> 60" and "fixed_ok x"
  defines "n \<equiv> nat \<lfloor>\<bar>x\<bar>\<rfloor>" and "f \<equiv> frac \<bar>x\<bar>"
  shows "fcvtbuf x (int nd) buf =
    Option.bind (if n \<noteq> 0
        then map_option (\<lambda>(p1, buf, r2). let (p, buf) = copy_loop 0 p1 buf in (p, buf, r2, f)) (int_loop 80 (of_nat n) buf 0)
        else if 0 < f then map_option (\<lambda>(arg, r2). (0, buf, r2, arg)) (norm_loop f 0)
        else Some (0, buf, 0, f))
      (cvt_rest nd (x < 0))"
proof -
  have ab: "(if x < 0 then (True, - x) else (False, x)) = (x < 0, \<bar>x\<bar>)" by simp
  have m: "dmodf \<bar>x\<bar> = (f, of_nat n)" by (simp add: dmodf_floor f_def n_def)
  have e79: "80 - 1 = (79 :: nat)" by simp
  have nd: "\<not> int nd < 0" "\<not> 80 - 1 \<le> int nd" using assms(1) by auto
  show ?thesis
    by (simp only: fcvtbuf_def cvt_def cvt_rest_def Let_def CVTBUFSIZE_def ab m split_conv if_False nd of_nat_numeral
        of_nat_eq_0_iff simp_thms if_True e79)
qed

lemma cvt_rest_digits:
  assumes "grid f" and "length ds + length rest = 80" and "length ds \<le> p1 + 1" and "p1 < 79"
    and "\<forall>d \<in> set ds. d < 10" and "int nd + r2 = int p1"
  shows "\<exists>zs buf'. cvt_rest nd sign (length ds, map dch ds @ rest, r2, f) = Some (buf', int (length zs) - int nd, sign)
    \<and> buf_text buf' = map dch zs \<and> length zs \<in> {p1, p1 + 1} \<and> (\<forall>z \<in> set zs. z < 10)
    \<and> digits_val 10 zs = (digits_val 10 (ds @ frac_digits (p1 + 1 - length ds) f) + 5) div 10
    \<and> (p1 < length zs \<longrightarrow> digits_val 10 zs = 10 ^ p1)"
proof -
  obtain zs buf' where z: "carry_loop False p1 p1 r2
      ((frac_loop (length ds) (int p1) f (map dch ds @ rest))
         [p1 := byte_char (of_char (frac_loop (length ds) (int p1) f (map dch ds @ rest) ! p1) + 5)])
      = (length zs, r2 + int (length zs) - int p1, buf')"
    "length zs < 80" "buf_text (buf'[length zs := CHR 0x00]) = map dch zs" "length zs \<in> {p1, p1 + 1}"
    "\<forall>z \<in> set zs. z < 10" "digits_val 10 zs = (digits_val 10 (ds @ frac_digits (p1 + 1 - length ds) f) + 5) div 10"
    "p1 < length zs \<longrightarrow> digits_val 10 zs = 10 ^ p1"
    using finish [OF assms(1-5), of r2] by metis
  have "\<not> int p1 < 0" "\<not> 80 \<le> int p1" "r2 + int (length zs) - int p1 = int (length zs) - int nd"
    using assms(4,6) by auto
  then have "cvt_rest nd sign (length ds, map dch ds @ rest, r2, f)
      = Some (buf'[length zs := CHR 0x00], int (length zs) - int nd, sign)"
    unfolding cvt_rest_def split_conv Let_def assms(6) nat_int z(1) using z(2) by (simp only: if_True if_False)
  then show ?thesis using z(3-7) by blast
qed

lemma digits_rounded':
  assumes "grid h" and "(of_nat (digits_val 10 ds) + h) * 10 ^ k = \<bar>x\<bar> * 10 ^ nd"
  shows "(digits_val 10 (ds @ frac_digits (Suc k) h) + 5) div 10 = rounded x nd"
  unfolding digits_rounded [OF assms(1)] assms(2) rounded_def ..

lemma fcvt_digits_int:
  assumes nd: "nd \<le> 60" and ok: "fixed_ok x" and buf: "length buf = 80" and "nat \<lfloor>\<bar>x\<bar>\<rfloor> \<noteq> 0"
  shows "\<exists>buf' decpt. fcvtbuf x (int nd) buf = Some (buf', decpt, x < 0) \<and> fixed_digits x nd (buf_text buf') decpt"
proof -
  define n where "n = nat \<lfloor>\<bar>x\<bar>\<rfloor>"
  define f where "f = frac \<bar>x\<bar>"
  have g: "grid f" using ok by (simp add: fixed_ok_def f_def)
  have x: "\<bar>x\<bar> = of_nat n + f" by (simp add: n_def f_def frac_def)
  note start = cvt_start [OF nd ok, folded n_def f_def, of buf]
  have n51: "n < 2 ^ 51" using ok unfolding fixed_ok_def n_def by (subst nat_less_iff) (auto simp del: floor_less_numeral)
  have 1: "0 < n" using assms(4) by (simp add: n_def)
  define ds where "ds = nat_digits 10 n"
  let ?L = "length ds"
  have "n < 10 ^ 16" using n51 by simp
  then have L: "?L \<le> 16" unfolding ds_def by (intro length_nat_digits) simp_all
  have L0: "0 < ?L" by (simp add: ds_def)
  let ?b = "take (80 - ?L) buf @ map dch ds"
  have il: "int_loop 80 (of_nat n) buf 0 = Some (80 - ?L, ?b, int ?L)"
    using int_loop_digits [OF 1 n51, of 80 buf 0] L buf by (simp add: ds_def)
  have cl: "copy_loop 0 (80 - ?L) ?b = (?L, map dch ds @ drop ?L ?b)"
    using copy_loop_eq [of 0 "80 - ?L" ?b] L buf by simp
  have run: "fcvtbuf x (int nd) buf = cvt_rest nd (x < 0) (?L, map dch ds @ drop ?L ?b, int ?L, f)"
    unfolding start using 1 by (simp add: il cl)
  have "\<forall>d \<in> set ds. d < 10" using nat_digits_small [of 10] by (auto simp: ds_def)
  moreover have "?L + length (drop ?L ?b) = 80" "?L \<le> nd + ?L + 1" "nd + ?L < 79" "int nd + int ?L = int (nd + ?L)"
    using L buf nd by simp_all
  ultimately obtain zs buf' where z: "fcvtbuf x (int nd) buf = Some (buf', int (length zs) - int nd, x < 0)"
    "buf_text buf' = map dch zs" "length zs \<in> {nd + ?L, nd + ?L + 1}" "\<forall>z \<in> set zs. z < 10"
    "digits_val 10 zs = (digits_val 10 (ds @ frac_digits (nd + ?L + 1 - ?L) f) + 5) div 10"
    "nd + ?L < length zs \<longrightarrow> digits_val 10 zs = 10 ^ (nd + ?L)"
    using cvt_rest_digits [OF g, of ds "drop ?L ?b" "nd + ?L" nd "int ?L" "x < 0"] unfolding run by blast
  have sk: "nd + ?L + 1 - ?L = Suc nd" by simp
  have dv: "digits_val 10 ds = n" by (simp add: ds_def digits_val_nat_digits)
  have N: "digits_val 10 zs = rounded x nd" unfolding z(5) sk by (rule digits_rounded' [OF g]) (simp add: dv x)
  have "10 ^ (?L - 1) \<le> n" using nat_digits_lower [OF 1] by (simp add: ds_def)
  then have "(10 :: rat) ^ (?L - 1) \<le> of_nat n" by (metis of_nat_le_iff of_nat_numeral of_nat_power)
  then have "(10 :: rat) ^ (?L - 1) \<le> \<bar>x\<bar>" using grid_nonneg [OF g] unfolding x by linarith
  then have "(10 :: rat) ^ (?L - 1) * 10 ^ nd \<le> \<bar>x\<bar> * 10 ^ nd" by (rule mult_right_mono) simp
  moreover have "of_int (10 ^ (?L - 1 + nd)) = (10 :: rat) ^ (?L - 1) * 10 ^ nd" by (simp add: power_add)
  ultimately have "of_int (10 ^ (?L - 1 + nd)) \<le> \<bar>x\<bar> * 10 ^ nd + 1 / 2" by linarith
  then have "10 ^ (?L - 1 + nd) \<le> \<lfloor>\<bar>x\<bar> * 10 ^ nd + 1 / 2\<rfloor>" by (simp only: le_floor_iff)
  then have low: "10 ^ (?L - 1 + nd) \<le> rounded x nd" unfolding rounded_def by (simp add: le_nat_iff)
  have "?L - 1 + nd = nd + ?L - 1" using L0 by linarith
  then have low': "10 ^ (nd + ?L - 1) \<le> rounded x nd" using low by simp
  have "zs \<noteq> []" "10 ^ (length zs - 1) \<le> digits_val 10 zs"
    using z(3,6) L0 low' N by auto
  then have "nat_digits 10 (rounded x nd) = zs" using nat_digits_unique [OF z(4)] N by simp
  moreover have "0 < rounded x nd" using low by (rule less_le_trans [rotated]) simp
  moreover have "x \<noteq> 0" using 1 by (auto simp: n_def)
  ultimately have "fixed_digits x nd (map dch zs) (int (length zs) - int nd)" by (simp add: fixed_digits_def)
  then show ?thesis using z(1,2) by (intro exI [of _ buf'] exI [of _ "int (length zs) - int nd"]) simp
qed

lemma fcvt_digits_0:
  assumes nd: "nd \<le> 60" and ok: "fixed_ok x" and buf: "length buf = 80" and x0: "x = 0"
  shows "\<exists>buf' decpt. fcvtbuf x (int nd) buf = Some (buf', decpt, x < 0) \<and> fixed_digits x nd (buf_text buf') decpt"
proof -
  define n where "n = nat \<lfloor>\<bar>x\<bar>\<rfloor>"
  define f where "f = frac \<bar>x\<bar>"
  have g: "grid f" using ok by (simp add: fixed_ok_def f_def)
  have x: "\<bar>x\<bar> = of_nat n + f" by (simp add: n_def f_def frac_def)
  note start = cvt_start [OF nd ok, folded n_def f_def, of buf]
  have 2: "n = 0" "f = 0" by (simp_all add: n_def f_def x0)
  have run: "fcvtbuf x (int nd) buf = cvt_rest nd (x < 0) (length ([] :: nat list), map dch [] @ buf, 0, f)"
    unfolding start using 2 by simp
  have "length ([] :: nat list) + length buf = 80" "length ([] :: nat list) \<le> nd + 1" "nd < 79" "\<forall>d \<in> set []. d < (10 :: nat)" "int nd + 0 = int nd"
    using buf nd by simp_all
  then obtain zs buf' where z: "fcvtbuf x (int nd) buf = Some (buf', int (length zs) - int nd, x < 0)"
    "buf_text buf' = map dch zs" "length zs \<in> {nd, nd + 1}" "\<forall>z \<in> set zs. z < 10"
    "digits_val 10 zs = (digits_val 10 ([] @ frac_digits (nd + 1 - length ([] :: nat list)) f) + 5) div 10"
    "nd < length zs \<longrightarrow> digits_val 10 zs = 10 ^ nd"
    using cvt_rest_digits [OF g, of "[]" buf nd nd 0 "x < 0"] unfolding run by blast
  have sk: "nd + 1 - length ([] :: nat list) = Suc nd" by simp
  have "rounded x nd = 0" by (simp add: rounded_def x0)
  then have v: "digits_val 10 zs = 0" unfolding z(5) sk by (subst digits_rounded' [OF g]) (simp_all add: digits_val_def x 2)
  then have l: "length zs = nd" using z(3,6) by auto
  then have "map dch zs = replicate nd (CHR ''0'')" using digits_val_0 [OF v] dch_chars by (simp add: list_eq_iff_nth_eq)
  then have "fixed_digits x nd (map dch zs) 0" by (simp add: fixed_digits_def x0)
  then show ?thesis using z(1,2) l by (intro exI [of _ buf'] exI [of _ 0]) simp
qed

lemma fcvt_digits_frac:
  assumes nd: "nd \<le> 60" and ok: "fixed_ok x" and buf: "length buf = 80" and "nat \<lfloor>\<bar>x\<bar>\<rfloor> = 0" and x0: "x \<noteq> 0"
  shows "\<exists>buf' decpt. fcvtbuf x (int nd) buf = Some (buf', decpt, x < 0) \<and> fixed_digits x nd (buf_text buf') decpt"
proof -
  define n where "n = nat \<lfloor>\<bar>x\<bar>\<rfloor>"
  define f where "f = frac \<bar>x\<bar>"
  have g: "grid f" using ok by (simp add: fixed_ok_def f_def)
  have x: "\<bar>x\<bar> = of_nat n + f" by (simp add: n_def f_def frac_def)
  note start = cvt_start [OF nd ok, folded n_def f_def, of buf]
  have 3: "n = 0" using assms(4) by (simp add: n_def)
  then have xf: "\<bar>x\<bar> = f" using x by simp
  then have 4: "0 < f" using x0 by simp
  obtain j f' where nl: "norm_loop f 0 = Some (f', - int j)" "grid f'" "f' = f * 10 ^ j" "1 \<le> 10 * f'"
    using norm_loop_runs [OF g 4, of 0] by auto
  show ?thesis
  proof (cases "nd < j")
    case True
    then obtain i where j: "j = Suc (nd + i)" by (auto simp: less_iff_Suc_add)
    have "f * 10 ^ nd * 10 \<le> f * 10 ^ nd * 10 ^ Suc i" using 4 by (intro mult_left_mono) simp_all
    also have "\<dots> = f'" by (simp add: nl(3) j power_add)
    finally have "f * 10 ^ nd * 10 < 1" using nl(2) by (simp add: grid_def)
    then have "rounded x nd = 0" using 4 by (simp add: rounded_def xf floor_eq_iff)
    moreover have "fcvtbuf x (int nd) buf = Some (buf[0 := CHR 0x00], - int j, x < 0)"
      using 3 4 True unfolding start by (simp add: nl(1) cvt_rest_def Let_def)
    moreover have "buf_text (buf[0 := CHR 0x00]) = []" using buf by (cases buf) (simp_all add: buf_text_def)
    ultimately show ?thesis using x0
      by (intro exI [of _ "buf[0 := CHR 0x00]"] exI [of _ "- int j"]) (simp add: fixed_digits_def)
  next
    case False
    define k where "k = nd - j"
    have kj: "int nd + - int j = int k" "nd = k + j" using False by (simp_all add: k_def)
    have run: "fcvtbuf x (int nd) buf = cvt_rest nd (x < 0) (length ([] :: nat list), map dch [] @ buf, - int j, f')"
      unfolding start using 3 4 by (simp add: nl(1))
    have "length ([] :: nat list) + length buf = 80" "length ([] :: nat list) \<le> k + 1" "k < 79" "\<forall>d \<in> set []. d < (10 :: nat)"
      using buf nd kj(2) by simp_all
    then obtain zs buf' where z: "fcvtbuf x (int nd) buf = Some (buf', int (length zs) - int nd, x < 0)"
      "buf_text buf' = map dch zs" "length zs \<in> {k, k + 1}" "\<forall>z \<in> set zs. z < 10"
      "digits_val 10 zs = (digits_val 10 ([] @ frac_digits (k + 1 - length ([] :: nat list)) f') + 5) div 10"
      "k < length zs \<longrightarrow> digits_val 10 zs = 10 ^ k"
      using cvt_rest_digits [OF nl(2), of "[]" buf k nd "- int j" "x < 0"] kj(1) unfolding run by blast
    have sk: "k + 1 - length ([] :: nat list) = Suc k" by simp
    have N: "digits_val 10 zs = rounded x nd"
      unfolding z(5) sk by (rule digits_rounded' [OF nl(2)]) (simp add: digits_val_def xf nl(3) kj(2) power_add)
    show ?thesis
    proof (cases "zs = []")
      case True
      then have "rounded x nd = 0" using N by (simp add: digits_val_def)
      then have "fixed_digits x nd (map dch zs) (int (length zs) - int nd)" using x0 True by (simp add: fixed_digits_def)
      then show ?thesis using z(1,2) by (intro exI [of _ buf'] exI [of _ "int (length zs) - int nd"]) simp
    next
      case ne: False
      have low: "(length zs = 1 \<or> 10 ^ (length zs - 1) \<le> digits_val 10 zs) \<and> 0 < rounded x nd"
      proof (cases k)
        case (Suc i)
        have "of_int (10 ^ i) \<le> f' * 10 ^ k" using nl(4) by (simp add: Suc)
        also have "f' * 10 ^ k = \<bar>x\<bar> * 10 ^ nd" by (simp add: nl(3) xf kj(2) power_add)
        finally have "10 ^ i \<le> \<lfloor>\<bar>x\<bar> * 10 ^ nd + 1 / 2\<rfloor>" by (simp add: le_floor_iff)
        then have "10 ^ i \<le> rounded x nd" unfolding rounded_def by (simp add: le_nat_iff)
        moreover have "0 < rounded x nd" using calculation by (rule less_le_trans [rotated]) simp
        ultimately show ?thesis using z(3,6) N by (auto simp: Suc simp del: power_Suc)
      qed (use z(3,6) N ne in auto)
      then have d: "nat_digits 10 (rounded x nd) = zs" using nat_digits_unique [OF z(4) ne] N low by simp
      then have "fixed_digits x nd (map dch zs) (int (length zs) - int nd)" using x0 d low by (simp add: fixed_digits_def)
      then show ?thesis using z(1,2) by (intro exI [of _ buf'] exI [of _ "int (length zs) - int nd"]) simp
    qed
  qed
qed

lemma fcvt_digits:
  assumes nd: "nd \<le> 60" and ok: "fixed_ok x" and buf: "length buf = 80"
  shows "\<exists>buf' decpt. fcvtbuf x (int nd) buf = Some (buf', decpt, x < 0) \<and> fixed_digits x nd (buf_text buf') decpt"
  using fcvt_digits_int [OF assms] fcvt_digits_0 [OF assms] fcvt_digits_frac [OF assms] by blast

end
