(* ===== verification/FloatPrintf.thy ===== *)
theory FloatPrintf
  imports Cvt EePrintfCorrect
begin

text \<open>
  The part of \<^verbatim>\<open>sw/coremark/riscinator/ee_printf.c\<close> under \<open>HAS_FLOAT\<close>: the text of a \<open>double\<close>.
  \<open>cvtbuf\<close> and \<open>tmp\<close>, arrays of 80 characters on the stack, begin with what the stack held. Writing
  is to the end of a string; that it fits is tested where the array is used.
\<close>

section \<open>The code\<close>

definition ee_bufcpy :: "string \<Rightarrow> char list \<Rightarrow> int \<Rightarrow> string option" where
  "ee_bufcpy pd ps count = (if 0 \<le> count \<and> count \<le> int (length ps) then Some (pd @ take (nat count) ps) else None)"

text \<open>\<open>while (*digits) { if (pos++ == decpt) *buffer++ = '.'; *buffer++ = *digits++; }\<close>\<close>

primrec point_loop :: "int \<Rightarrow> int \<Rightarrow> string \<Rightarrow> string \<Rightarrow> string" where
  "point_loop pos decpt [] buffer = buffer"
| "point_loop pos decpt (d # dgts) buffer =
     point_loop (pos + 1) decpt dgts ((if pos = decpt then buffer @ ''.'' else buffer) @ [d])"

definition float_e :: "rat \<Rightarrow> int \<Rightarrow> bool \<Rightarrow> char list \<Rightarrow> string option" where
  "float_e value precision capexp cvtbuf =
     Option.bind (ecvtbuf value (precision + 1) cvtbuf) (\<lambda>(dgts, decpt, sign).
     let buffer = (if sign then ''-'' else []) @ [dgts ! 0] @ (if 0 < precision then ''.'' else [])
     in Option.bind (ee_bufcpy buffer (tl dgts) precision) (\<lambda>buffer.
     let buffer = buffer @ (if capexp then ''E'' else ''e'');
         exp = (if decpt = 0 then if value = 0 then 0 else - 1 else decpt - 1);
         (buffer, exp) = (if exp < 0 then (buffer @ ''-'', - exp) else (buffer @ ''+'', exp));
         b2 = byte_char (exp mod 10 + 48); exp = exp div 10;
         b1 = byte_char (exp mod 10 + 48); exp = exp div 10;
         b0 = byte_char (exp mod 10 + 48)
     in Some (buffer @ [b0, b1, b2])))"

definition float_f :: "rat \<Rightarrow> int \<Rightarrow> char list \<Rightarrow> string option" where
  "float_f value precision cvtbuf =
     Option.bind (fcvtbuf value precision cvtbuf) (\<lambda>(dgts, decpt, sign).
     let buffer = (if sign then ''-'' else []); dgts = buf_text dgts
     in Some
       (if dgts \<noteq> []
        then if decpt \<le> 0 then buffer @ ''0.'' @ replicate (nat (- decpt)) (CHR ''0'') @ dgts
             else point_loop 0 decpt dgts buffer
        else if 0 < precision then buffer @ ''0.'' @ replicate (nat precision) (CHR ''0'')
             else buffer @ ''0''))"

text \<open>The text; with another format than \<open>e\<close>, \<open>f\<close>, \<open>g\<close>, \<open>E\<close> or \<open>G\<close> it is empty.\<close>

definition parse_float :: "rat \<Rightarrow> char \<Rightarrow> int \<Rightarrow> char list \<Rightarrow> string option" where
  "parse_float value fmt precision cvtbuf =
     (let (capexp, fmt) =
        (if fmt = CHR ''G'' \<or> fmt = CHR ''E'' then (True, byte_char (of_char fmt + 32)) else (False, fmt))
      in Option.bind
        (if fmt = CHR ''g''
         then Option.bind (ecvtbuf value precision cvtbuf) (\<lambda>(dgts, decpt, sign).
                let magnitude = decpt - 1
                in if magnitude < - 4 \<or> precision - 1 < magnitude then Some (CHR ''e'', precision - 1, dgts)
                   else Some (CHR ''f'', precision - decpt, dgts))
         else Some (fmt, precision, cvtbuf))
        (\<lambda>(fmt, precision, cvtbuf).
          if fmt = CHR ''e'' then float_e value precision capexp cvtbuf
          else if fmt = CHR ''f'' then float_f value precision cvtbuf
          else Some []))"

text \<open>\<open>decimal_point\<close> and \<open>cropzeros\<close> work on the array. \<open>scan\<close> is a loop that moves the pointer on.\<close>

primrec scan :: "(char \<Rightarrow> bool) \<Rightarrow> char list \<Rightarrow> nat" where
  "scan P [] = 0"
| "scan P (c # cs) = (if P c then Suc (scan P cs) else 0)"

primrec shift_loop :: "nat \<Rightarrow> nat \<Rightarrow> char list \<Rightarrow> char list" where
  "shift_loop i 0 tmp = tmp"
| "shift_loop i (Suc n) tmp = shift_loop i n (tmp[i + Suc n + 1 := tmp ! (i + Suc n)])"

definition decimal_point :: "char list \<Rightarrow> char list option" where
  "decimal_point tmp =
     (let i = scan (\<lambda>c. c \<noteq> NUL \<and> c \<noteq> CHR ''.'' \<and> c \<noteq> CHR ''e'' \<and> c \<noteq> CHR ''E'') tmp
      in if length tmp \<le> i then None
         else if tmp ! i = CHR ''.'' then Some tmp
         else if tmp ! i \<noteq> NUL
         then let n = strnlen (drop i tmp) 256
              in if i + n + 1 < length tmp then Some ((shift_loop i n tmp)[i := CHR ''.'']) else None
         else if i + 1 < length tmp then Some (tmp[i := CHR ''.'', i + 1 := NUL]) else None)"

text \<open>\<open>while (*buffer == '0') buffer--\<close>, which ends at the point, and \<open>while (buffer != stop) *++buffer = 0\<close>.\<close>

primrec zeros_loop :: "char list \<Rightarrow> nat \<Rightarrow> nat" where
  "zeros_loop tmp 0 = 0"
| "zeros_loop tmp (Suc b) = (if tmp ! Suc b = CHR ''0'' then zeros_loop tmp b else Suc b)"

primrec clear_loop :: "nat \<Rightarrow> nat \<Rightarrow> char list \<Rightarrow> char list" where
  "clear_loop 0 b tmp = tmp"
| "clear_loop (Suc n) b tmp = clear_loop n (b + 1) (tmp[b := NUL])"

definition cropzeros :: "char list \<Rightarrow> char list option" where
  "cropzeros tmp =
     (let i = scan (\<lambda>c. c \<noteq> NUL \<and> c \<noteq> CHR ''.'') tmp
      in if length tmp \<le> i then None
         else if tmp ! i \<noteq> NUL
         then let stop = i + 1 + scan (\<lambda>c. c \<noteq> NUL \<and> c \<noteq> CHR ''e'' \<and> c \<noteq> CHR ''E'') (drop (i + 1) tmp);
                  b = zeros_loop tmp (stop - 1);
                  first = (if tmp ! b = CHR ''.'' then b else b + 1)
              in if stop < length tmp then Some (clear_loop (stop + 1 - first) first tmp) else None
         else Some tmp)"

definition flt ::
  "string \<Rightarrow> rat \<Rightarrow> int \<Rightarrow> int \<Rightarrow> char \<Rightarrow> u32 \<Rightarrow> char list \<Rightarrow> char list \<Rightarrow> string option" where
  "flt str num sz precision fmt flags tmp cvtbuf =
     (let flags = (if flags AND LEFT \<noteq> 0 then flags AND NOT ZEROPAD else flags);
          c = (if flags AND ZEROPAD \<noteq> 0 then CHR ''0'' else CHR '' '');
          (sign, num, sz) =
            (if flags AND SIGN \<noteq> 0
             then if num < 0 then (CHR ''-'', - num, sz - 1)
                  else if flags AND PLUS \<noteq> 0 then (CHR ''+'', num, sz - 1)
                  else if flags AND SPACE \<noteq> 0 then (CHR '' '', num, sz - 1)
                  else (NUL, num, sz)
             else (NUL, num, sz));
          precision = (if precision < 0 then 6 else precision)
      in Option.bind (parse_float num fmt precision cvtbuf) (\<lambda>t.
         if 80 \<le> length t then None
         else let tmp = t @ NUL # drop (length t + 1) tmp in
         Option.bind (if flags AND HEX_PREP \<noteq> 0 \<and> precision = 0 then decimal_point tmp else Some tmp) (\<lambda>tmp.
         Option.bind (if fmt = CHR ''g'' \<and> flags AND HEX_PREP = 0 then cropzeros tmp else Some tmp) (\<lambda>tmp.
         let n = strnlen tmp 256
         in Option.bind (in_int (sz - int n)) (\<lambda>sz.
            let (sz, str) = (if flags AND (ZEROPAD OR LEFT) = 0 then pad_loop (CHR '' '') sz str else (sz, str));
                str = (if sign \<noteq> NUL then str @ [sign] else str);
                (sz, str) = (if flags AND LEFT = 0 then pad_loop c sz str else (sz, str));
                str = str @ take n tmp;
                (sz, str) = pad_loop (CHR '' '') sz str
            in Some str)))))"

text \<open>The case \<open>'f'\<close> of \<open>ee_vsprintf\<close>, which is the only caller.\<close>

definition ee_float :: "string \<Rightarrow> rat \<Rightarrow> int \<Rightarrow> int \<Rightarrow> u32 \<Rightarrow> char list \<Rightarrow> char list \<Rightarrow> string option" where
  "ee_float str num field_width precision flags tmp cvtbuf =
     flt str num field_width precision CHR ''f'' (flags OR SIGN) tmp cvtbuf"

section \<open>Where it goes wrong\<close>

text \<open>\<open>cropzeros\<close> clears from the last digit it keeps to \<open>stop\<close>, which is the \<open>e\<close> of an exponent, and so
  ends the text there; \<open>decimal_point\<close> moves all but the \<open>e\<close>, puts the point in its place and leaves the
  sign of the exponent twice.\<close>

lemma cropzeros_cuts_exponent:
  "cropzeros (''1.500e+10'' @ replicate 71 NUL) = Some (''1.5'' @ NUL # NUL # NUL # ''+10'' @ replicate 71 NUL)"
  by code_simp

lemma decimal_point_loses_e:
  "decimal_point (''5e+01'' @ replicate 75 NUL) = Some (''5.++01'' @ replicate 74 NUL)"
  by code_simp

text \<open>\<open>%g\<close> with precision 0 and an exponent asks \<open>ee_bufcpy\<close> for -1 characters.\<close>

lemma float_e_precision_0: "float_e x (- 1) capexp cvtbuf = None"
  by (cases "ecvtbuf x 0 cvtbuf") (auto simp: float_e_def ee_bufcpy_def Let_def)

text \<open>The digits of a large number do not fit the buffer, below which they are then stored.\<close>

lemma int_loop_step_large:
  assumes "16 ^ Suc k \<le> fi"
  shows "16 ^ k \<le> snd (dmodf (ddiv fi 10))"
proof -
  define q where "q = fi / 10"
  have p: "(0 :: rat) < 16 ^ k" by simp
  have q: "8 / 5 * 16 ^ k \<le> q" "0 < q" using assms p unfolding q_def power_Suc by linarith+
  have q1: "1 \<le> q" using q(1) one_le_power [of "16 :: rat" k] by linarith
  have e: "2 powi expo q \<le> q" "q < 2 powi (expo q + 1)" using expo_bounds [of q] q(2) by simp_all
  have "0 \<le> expo q + 1"
  proof (rule ccontr)
    assume "\<not> 0 \<le> expo q + 1"
    then have "2 powi (expo q + 1) \<le> (2 :: rat) powi 0" by (intro power_int_increasing) auto
    then show False using e(2) q1 by simp
  qed
  then have "\<bar>rnd q - q\<bar> \<le> 2 powi (expo q + 1 - 54)" using e(2) q(2) by (intro rnd_error) simp_all
  also have "\<dots> \<le> 2 powi (expo q - 3)" by (intro power_int_increasing) auto
  also have "\<dots> = 2 powi expo q / 8" by (simp add: power_int_diff)
  finally have "q - q / 8 \<le> rnd q" using e(1) by linarith
  then have "16 ^ k \<le> rnd q" using q p by linarith
  moreover have "0 \<le> rnd q" using calculation p by linarith
  moreover have "(16 :: int) ^ k \<le> \<lfloor>rnd q\<rfloor>" using calculation(1) by (simp add: le_floor_iff)
  then have "of_int (16 ^ k) \<le> (of_int \<lfloor>rnd q\<rfloor> :: rat)" by (simp only: of_int_le_iff)
  ultimately show ?thesis by (simp add: dmodf_floor ddiv_def flip: q_def)
qed

lemma int_loop_large: "16 ^ p1 \<le> fi \<Longrightarrow> int_loop p1 fi buf r2 = None"
proof (induction p1 arbitrary: fi buf r2)
  case (Suc p1)
  have "(0 :: rat) < 16 ^ Suc p1" by (rule zero_less_power) simp
  then have "fi \<noteq> 0" using Suc.prems by linarith
  then show ?case using Suc.IH int_loop_step_large [OF Suc.prems] by (simp add: split_beta)
qed simp

lemma fcvtbuf_large:
  assumes "2 ^ 320 \<le> \<bar>x\<bar>"
  shows "fcvtbuf x nd buf = None"
proof -
  have x: "(if x < 0 then (True, - x) else (False, x)) = (x < 0, \<bar>x\<bar>)" by simp
  have p: "(16 :: rat) ^ 80 = 2 ^ 320" "(16 :: int) ^ 80 = 2 ^ 320" by simp_all
  have "(2 :: int) ^ 320 \<le> \<lfloor>\<bar>x\<bar>\<rfloor>" using assms by (simp add: le_floor_iff)
  then have "of_int (2 ^ 320) \<le> (of_int \<lfloor>\<bar>x\<bar>\<rfloor> :: rat)" by (simp only: of_int_le_iff)
  then have b: "16 ^ 80 \<le> (of_int \<lfloor>\<bar>x\<bar>\<rfloor> :: rat)" by simp
  moreover have "of_int \<lfloor>\<bar>x\<bar>\<rfloor> \<noteq> (0 :: rat)" using b by (intro notI) simp
  ultimately show ?thesis
    by (simp add: fcvtbuf_def cvt_def x dmodf_floor CVTBUFSIZE_def int_loop_large Let_def del: of_int_eq_0_iff)
qed

section \<open>The text of a number\<close>

text \<open>A number with \<open>p\<close> decimal places: the digits of the rounded multiple of 10^p, at least \<open>p + 1\<close> of
  them, with the point before the last \<open>p\<close>.\<close>

definition fixed_text :: "rat \<Rightarrow> nat \<Rightarrow> string" where
  "fixed_text x p =
     (let t = show_nat (rounded x p); t = replicate (Suc p - length t) (CHR ''0'') @ t
      in take (length t - p) t @ (if p = 0 then [] else CHR ''.'' # drop (length t - p) t))"

lemma dch_digit_char: "d < 10 \<Longrightarrow> digit_char False (of_nat d) = dch d"
proof -
  assume d: "d < 10"
  have "of_char (digit_char False (of_nat d)) = (48 + d :: nat)" using digit_char_small(1) [of d False] d by simp
  also have "\<dots> = of_char (dch d)" using d dch_code [of d] by simp
  finally show ?thesis by (simp only: of_char_eq_iff)
qed

lemma show_nat_dch: "show_nat n = map dch (nat_digits 10 n)"
  using nat_digits_small [of 10 _ n] by (simp add: show_nat_def digits_text_def dch_digit_char)

lemma point_loop_eq:
  "point_loop pos decpt ds buffer = buffer @
     (if pos \<le> decpt \<and> nat (decpt - pos) < length ds
      then take (nat (decpt - pos)) ds @ CHR ''.'' # drop (nat (decpt - pos)) ds else ds)"
proof (induction ds arbitrary: pos buffer)
  case (Cons d ds)
  show ?case
  proof (cases "pos < decpt")
    case True
    then have "nat (decpt - pos) = Suc (nat (decpt - (pos + 1)))" by simp
    then show ?thesis using True by (simp add: Cons.IH)
  next
    case False
    then show ?thesis by (simp add: Cons.IH)
  qed
qed simp

lemma length_show_nat_pos: "0 < length (show_nat n)"
  by (simp add: show_nat_dch)

lemma fixed_text_small:
  assumes "length (show_nat (rounded x p)) \<le> p"
  shows "fixed_text x p = ''0.'' @ replicate (p - length (show_nat (rounded x p))) (CHR ''0'') @ show_nat (rounded x p)"
proof -
  define t where "t = show_nat (rounded x p)"
  have t: "length t \<le> p" "0 < p" using assms length_show_nat_pos [of "rounded x p"] unfolding t_def by linarith+
  then have "replicate (Suc p - length t) (CHR ''0'') @ t = CHR ''0'' # replicate (p - length t) (CHR ''0'') @ t"
    by (simp add: Suc_diff_le)
  then show ?thesis using t by (simp add: fixed_text_def Let_def flip: t_def)
qed

lemma float_f_fixed:
  assumes "p \<le> 60" and "fixed_ok x" and "0 \<le> x" and "length cvtbuf = 80"
  shows "float_f x (int p) cvtbuf = Some (fixed_text x p)"
proof -
  obtain buf' decpt where run: "fcvtbuf x (int p) cvtbuf = Some (buf', decpt, x < 0)"
    and dig: "fixed_digits x p (buf_text buf') decpt"
    using fcvt_digits [OF assms(1,2,4)] by blast
  define t where "t = buf_text buf'"
  have f: "float_f x (int p) cvtbuf = Some
       (if t \<noteq> []
        then if decpt \<le> 0 then ''0.'' @ replicate (nat (- decpt)) (CHR ''0'') @ t else point_loop 0 decpt t []
        else if 0 < p then ''0.'' @ replicate p (CHR ''0'') else ''0'')"
    using assms(3) by (simp add: float_f_def run t_def)
  have z: "show_nat 0 = ''0''" by code_simp
  consider "x = 0" | "x \<noteq> 0" "rounded x p = 0" | "x \<noteq> 0" "rounded x p \<noteq> 0" by blast
  then show ?thesis
  proof cases
    case 1
    then have t: "t = replicate p (CHR ''0'')" "decpt = 0" using dig by (simp_all add: fixed_digits_def t_def)
    have "rounded x p = 0" by (simp add: rounded_def 1)
    then show ?thesis
      unfolding f by (cases p) (simp_all add: t fixed_text_def z replicate_append_same)
  next
    case 2
    then have t: "t = []" using dig by (simp add: fixed_digits_def t_def)
    show ?thesis using 2 unfolding f by (cases p) (simp_all add: t fixed_text_def z replicate_append_same)
  next
    case 3
    then have t: "t = show_nat (rounded x p)" "decpt = int (length t) - int p"
      using dig by (simp_all add: fixed_digits_def t_def show_nat_dch)
    have ne: "t \<noteq> []" using length_show_nat_pos [of "rounded x p"] by (simp add: t(1))
    show ?thesis
    proof (cases "length t \<le> p")
      case True
      then have "decpt \<le> 0" "nat (- decpt) = p - length t" using t(2) by auto
      then show ?thesis using ne fixed_text_small [of x p] True by (simp add: f t(1))
    next
      case False
      then have "\<not> decpt \<le> 0" "nat decpt = length t - p" using t(2) by auto
      moreover have "fixed_text x p = take (length t - p) t @ (if p = 0 then [] else CHR ''.'' # drop (length t - p) t)"
        using False by (simp add: fixed_text_def t(1) Let_def)
      ultimately show ?thesis using ne False by (simp add: f point_loop_eq)
    qed
  qed
qed

text \<open>The text has no NUL and fits the array.\<close>

lemma rounded_bound:
  assumes "fixed_ok x"
  shows "rounded x p < 10 ^ (16 + p)"
proof -
  have "\<bar>x\<bar> < of_int (2 ^ 51)" using assms unfolding fixed_ok_def by (simp only: floor_less_iff)
  then have "\<bar>x\<bar> * 10 ^ p < 2251799813685248 * 10 ^ p" by (intro mult_strict_right_mono) simp_all
  moreover have "(1 :: rat) \<le> 10 ^ p" by simp
  ultimately have "\<bar>x\<bar> * 10 ^ p + 1 / 2 < 10000000000000000 * 10 ^ p" by linarith
  then have "\<bar>x\<bar> * 10 ^ p + 1 / 2 < of_int (10 ^ 16 * 10 ^ p)" by simp
  then have "\<lfloor>\<bar>x\<bar> * 10 ^ p + 1 / 2\<rfloor> < 10 ^ 16 * 10 ^ p" by (simp only: floor_less_iff)
  then show ?thesis by (simp add: rounded_def nat_less_iff power_add)
qed

lemma fixed_text_chars:
  assumes "fixed_ok x" and "p \<le> 60"
  shows "length (fixed_text x p) \<le> 77" and "NUL \<notin> set (fixed_text x p)"
proof -
  define t where "t = show_nat (rounded x p)"
  have l: "length t \<le> 16 + p"
    unfolding t_def show_nat_dch length_map by (intro length_nat_digits rounded_bound assms(1)) simp_all
  define d where "d = replicate (Suc p - length t) (CHR ''0'') @ t"
  have d: "length d \<le> 76" using l assms(2) by (simp add: d_def)
  have f: "fixed_text x p = take (length d - p) d @ (if p = 0 then [] else CHR ''.'' # drop (length d - p) d)"
    unfolding fixed_text_def Let_def by (simp only: d_def t_def)
  have "length (fixed_text x p) \<le> Suc (length (take (length d - p) d @ drop (length d - p) d))"
    unfolding f by (cases "p = 0") simp_all
  then show "length (fixed_text x p) \<le> 77" using d unfolding append_take_drop_id by linarith
  have "NUL \<notin> set t" unfolding t_def show_nat_def by (rule digits_text_no_NUL) simp_all
  then have n: "NUL \<notin> set (replicate k (CHR ''0'') @ t)" for k by simp
  show "NUL \<notin> set (fixed_text x p)"
    using n [of "Suc p - length t"] by (auto simp: fixed_text_def Let_def t_def [symmetric] dest!: in_set_takeD in_set_dropD)
qed

section \<open>The field\<close>

definition flt_sign :: "u32 \<Rightarrow> rat \<Rightarrow> string" where
  "flt_sign flags num = (if num < 0 then ''-'' else if bit flags 2 then ''+'' else if bit flags 3 then '' '' else [])"

definition flt_field :: "u32 \<Rightarrow> int \<Rightarrow> rat \<Rightarrow> string \<Rightarrow> string" where
  "flt_field flags sz num t =
     (let head = flt_sign flags num; pad = replicate (nat sz - length (head @ t))
      in if bit flags 4 then head @ t @ pad (CHR '' '')
         else if bit flags 0 then head @ pad (CHR ''0'') @ t
         else pad (CHR '' '') @ head @ t)"

lemma fixed_text_abs: "fixed_text \<bar>x\<bar> p = fixed_text x p" "fixed_ok \<bar>x\<bar> = fixed_ok x"
  by (simp_all add: fixed_text_def rounded_def fixed_ok_def)

lemma c_str_text: "NUL \<notin> set t \<Longrightarrow> c_str (t @ NUL # s) = t"
  unfolding c_str_def by (subst takeWhile_append2) auto

lemma parse_float_fixed:
  assumes "p \<le> 60" and "fixed_ok x" and "0 \<le> x" and "length cvtbuf = 80"
  shows "parse_float x CHR ''f'' (int p) cvtbuf = Some (fixed_text x p)"
  using float_f_fixed [OF assms] by (simp add: parse_float_def)

text \<open>\<open>#\<close> without decimal places puts a point behind the digits.\<close>

definition alt_text :: "u32 \<Rightarrow> rat \<Rightarrow> nat \<Rightarrow> string" where
  "alt_text flags num p = fixed_text num p @ (if bit flags 5 \<and> p = 0 then ''.'' else [])"

lemma scan_all: "\<forall>c \<in> set t. P c \<Longrightarrow> \<not> P d \<Longrightarrow> scan P (t @ d # s) = length t"
  by (induction t) simp_all

lemma digit_chars: "c \<in> set (show_nat n) \<Longrightarrow> c \<noteq> CHR ''.'' \<and> c \<noteq> CHR ''e'' \<and> c \<noteq> CHR ''E'' \<and> c \<noteq> NUL"
proof -
  assume "c \<in> set (show_nat n)"
  then obtain d where d: "c = dch d" "d < 10"
    using nat_digits_small [of 10 _ n] by (auto simp: show_nat_dch)
  then have "of_char c = 48 + d" by (simp add: dch_code)
  then have "(48 :: nat) \<le> of_char c" "of_char c < (58 :: nat)" using d(2) by simp_all
  then show ?thesis by auto
qed

lemma decimal_point_integer:
  assumes "fixed_ok x" and "length tmp = 80"
  shows "decimal_point (fixed_text x 0 @ NUL # drop (length (fixed_text x 0) + 1) tmp)
    = Some ((fixed_text x 0 @ ''.'') @ NUL # drop (length (fixed_text x 0) + 2) tmp)"
proof -
  define t where "t = fixed_text x 0"
  have "Suc 0 - length (show_nat (rounded x 0)) = 0" using length_show_nat_pos [of "rounded x 0"] by linarith
  then have "t = show_nat (rounded x 0)" by (simp add: t_def fixed_text_def Let_def)
  then have c: "\<forall>c \<in> set t. c \<noteq> NUL \<and> c \<noteq> CHR ''.'' \<and> c \<noteq> CHR ''e'' \<and> c \<noteq> CHR ''E''" using digit_chars by blast
  have l: "length t \<le> 77" unfolding t_def by (rule fixed_text_chars) (simp_all add: assms(1))
  then obtain y ys where y: "drop (length t + 1) tmp = y # ys" using assms(2) by (cases "drop (length t + 1) tmp") simp_all
  then have ys: "drop (length t + 2) tmp = ys" by (metis drop_Suc tl_drop list.sel(3) add_2_eq_Suc' Suc_eq_plus1)
  have sc: "scan (\<lambda>c. c \<noteq> NUL \<and> c \<noteq> CHR ''.'' \<and> c \<noteq> CHR ''e'' \<and> c \<noteq> CHR ''E'') (t @ NUL # y # ys) = length t"
    by (rule scan_all) (use c in simp_all)
  show ?thesis using l unfolding t_def [symmetric] y ys
    by (simp add: decimal_point_def sc nth_append list_update_append)
qed

text \<open>C17: A number below 2^51 that is a multiple of 2^-50 is printed with \<open>f\<close> as a field of its sign and
  its decimal text, which is the number rounded to the precision (6 when none is given) and to the
  nearest, halves away from 0: blanks before it, zeros between sign and digits, or blanks behind it, as
  the flags say, and with \<open>#\<close> the point is there even without decimal places.\<close>

theorem float_prints:
  assumes "fixed_ok num" and "precision \<le> 60"
    and "length tmp = 80" and "length cvtbuf = 80" and "- (2 ^ 31) + 100 \<le> sz" "sz < 2 ^ 31"
  shows "ee_float str num sz precision flags tmp cvtbuf =
    Some (str @ flt_field flags sz num (alt_text flags num (if precision < 0 then 6 else nat precision)))"
proof -
  define p where "p = (if precision < 0 then 6 else nat precision)"
  define flags' where "flags' = flags OR SIGN"
  define f where "f = (if bit flags 4 then flags' AND NOT ZEROPAD else flags')"
  define t0 where "t0 = fixed_text num p"
  define t where "t = alt_text flags num p"
  define head where "head = flt_sign flags num"
  define tmp0 where "tmp0 = t0 @ NUL # drop (length t0 + 1) tmp"
  have p: "(if precision < 0 then 6 else precision) = int p" "p \<le> 60" using assms(2) by (auto simp: p_def)
  have fbits: "bit flags' n \<longleftrightarrow> bit flags n \<or> n = 1" for n by (auto simp: flags'_def SIGN_def bit_simps)
  have bits: "bit f n \<longleftrightarrow> (bit flags n \<or> n = 1) \<and> (n = 0 \<longrightarrow> \<not> bit flags 4)" for n
    by (auto simp: f_def bit_without_zeropad fbits)
  have t0: "length t0 \<le> 77" "NUL \<notin> set t0" unfolding t0_def by (intro fixed_text_chars assms(1) p(2))+
  have t: "length t \<le> 78" "NUL \<notin> set t" "t = t0 @ (if bit flags 5 \<and> p = 0 then ''.'' else [])"
    using t0 by (simp_all add: t_def alt_text_def flip: t0_def)
  have parse: "parse_float \<bar>num\<bar> CHR ''f'' (int p) cvtbuf = Some t0"
    using parse_float_fixed [OF p(2), of "\<bar>num\<bar>" cvtbuf] assms(1,4) by (simp add: fixed_text_abs t0_def)
  obtain s where point: "(if f AND HEX_PREP \<noteq> 0 \<and> int p = 0 then decimal_point tmp0 else Some tmp0) = Some (t @ NUL # s)"
    and s: "length (t @ NUL # s) = 80"
  proof (cases "bit flags 5 \<and> p = 0")
    case True
    then have "decimal_point tmp0 = Some (t @ NUL # drop (length t0 + 2) tmp)"
      using decimal_point_integer [OF assms(1,3)] by (simp add: tmp0_def t(3) t0_def)
    then show ?thesis using True t0(1) t(3) assms(3)
      by (intro that [of "drop (length t0 + 2) tmp"]) (simp_all add: flag_bits bits)
  next
    case False
    then show ?thesis using t0(1) t(3) assms(3)
      by (intro that [of "drop (length t0 + 1) tmp"]) (auto simp: flag_bits bits tmp0_def)
  qed
  have n: "strnlen (t @ NUL # s) 256 = length t"
    using t(2) s by (subst strnlen_eq) (simp_all add: c_str_text)
  have tk: "take (length t) (t @ NUL # s) = t" by simp
  have sign: "(if f AND SIGN \<noteq> 0
      then if num < 0 then (CHR ''-'', - num, sz - 1)
           else if f AND PLUS \<noteq> 0 then (CHR ''+'', num, sz - 1)
           else if f AND SPACE \<noteq> 0 then (CHR '' '', num, sz - 1) else (NUL, num, sz)
      else (NUL, num, sz)) = (if head = [] then NUL else hd head, \<bar>num\<bar>, sz - int (length head))"
    by (simp add: flag_bits bits head_def flt_sign_def)
  have head: "length head \<le> 1" "head \<noteq> [] \<longrightarrow> hd head \<noteq> NUL \<and> head = [hd head]" by (simp_all add: head_def flt_sign_def)
  define w where "w = sz - int (length head) - int (length t)"
  have nw: "nat w = nat sz - length (head @ t)" by (simp add: w_def)
  have w: "in_int w = Some w" using head(1) t(1) assms(5,6) by (simp add: in_int_def w_def)
  have put: "(if (if head = [] then NUL else hd head) \<noteq> NUL then s @ [if head = [] then NUL else hd head] else s)
      = s @ head" for s using head(2) by (cases "head = []") auto
  have small: "80 \<le> length t0 \<longleftrightarrow> False" "CHR ''f'' = CHR ''g'' \<and> b \<longleftrightarrow> False"
    "(if False then x else y) = y" for b and x y :: "'z" using t0(1) by simp_all
  have flags: "(if flags' AND LEFT \<noteq> 0 then flags' AND NOT ZEROPAD else flags') = f"
    by (simp add: f_def flag_bits fbits)
  have "ee_float str num sz precision flags tmp cvtbuf =
    (let (sz, str) = (if f AND (ZEROPAD OR LEFT) = 0 then pad_loop (CHR '' '') w str else (w, str));
         str = str @ head;
         (sz, str) = (if f AND LEFT = 0 then pad_loop (if f AND ZEROPAD \<noteq> 0 then CHR ''0'' else CHR '' '') sz str else (sz, str))
     in Some (snd (pad_loop CHR '' '' sz (str @ t))))"
    by (simp only: ee_float_def flags'_def [symmetric] flt_def Let_def flags sign p(1) split_conv parse Option.bind.simps
        tmp0_def [symmetric] point n tk w_def [symmetric] w put small fst_conv snd_conv split_beta)
  also have "\<dots> = Some (str @ flt_field flags sz num t)"
    by (simp add: flt_field_def pad_loop_eq flag_bits pad_bits bits nw Let_def flip: head_def)
  finally show ?thesis unfolding t_def p_def .
qed

text \<open>\<open>%08.2f\<close> of -9.125: the last place is a half and goes away from 0.\<close>

theorem float_prints_witness:
  "ee_float [] (- 9 - 1 / 8) 8 2 ZEROPAD (replicate 80 NUL) (replicate 80 NUL) = Some ''-0009.13''"
proof -
  have r: "rounded (- 9 - 1 / 8) 2 = 913" by (simp add: rounded_def)
  have x: "fixed_text (- 9 - 1 / 8) 2 = ''9.13''" unfolding fixed_text_def r by code_simp
  have x': "alt_text ZEROPAD (- 9 - 1 / 8) 2 = ''9.13''" by (simp only: alt_text_def x) simp
  have f: "flt_field ZEROPAD 8 (- 9 - 1 / 8) ''9.13'' = ''-0009.13''"
    by (simp add: flt_field_def flt_sign_def ZEROPAD_def bit_simps numeral_eq_Suc)
  have "\<lfloor>73 / 8 :: rat\<rfloor> = 9" by (simp add: floor_eq_iff)
  then have "frac \<bar>- 9 - 1 / 8 :: rat\<bar> = of_nat (2 ^ 47) / 2 ^ 50" by (simp add: frac_def)
  moreover have "\<lfloor>\<bar>- 9 - 1 / 8 :: rat\<bar>\<rfloor> < 2 ^ 51" "frac \<bar>- 9 - 1 / 8 :: rat\<bar> < 1"
    by (simp_all add: floor_less_iff frac_lt_1)
  ultimately have ok: "fixed_ok (- 9 - 1 / 8)" unfolding fixed_ok_def grid_def by blast
  have two: "(if (2 :: int) < 0 then 6 else nat 2) = 2" by simp
  have "ee_float [] (- 9 - 1 / 8) 8 2 ZEROPAD (replicate 80 NUL) (replicate 80 NUL) =
      Some ([] @ flt_field ZEROPAD 8 (- 9 - 1 / 8) (alt_text ZEROPAD (- 9 - 1 / 8) (if (2 :: int) < 0 then 6 else nat 2)))"
    by (rule float_prints [OF ok]) simp_all
  then show ?thesis by (simp only: two x' f append_Nil)
qed

end
