(* ===== verification/CoreOptions.thy ===== *)
theory CoreOptions
  imports CoreReportCorrect
begin

text \<open>
  What other builds of CoreMark compile: the printing of matrices in \<^verbatim>\<open>sw/coremark/core_matrix.c\<close> under
  \<open>CORE_DEBUG\<close>, as the calls of \<open>ee_printf\<close> it makes, and the seeds of \<^verbatim>\<open>core_util.c\<close> under \<open>SEED_FUNC\<close>.
\<close>

section \<open>The code\<close>

text \<open>\<open>portme_sys1\<close> to \<open>portme_sys5\<close> are functions of the port, on any state.\<close>

definition get_seed_func :: "('s \<Rightarrow> s32 \<times> 's) \<Rightarrow> ('s \<Rightarrow> s32 \<times> 's) \<Rightarrow> ('s \<Rightarrow> s32 \<times> 's) \<Rightarrow> ('s \<Rightarrow> s32 \<times> 's)
    \<Rightarrow> ('s \<Rightarrow> s32 \<times> 's) \<Rightarrow> s32 \<Rightarrow> 's \<Rightarrow> s32 \<times> 's" where
  "get_seed_func portme_sys1 portme_sys2 portme_sys3 portme_sys4 portme_sys5 i s =
     (if i = 1 then portme_sys1 s else if i = 2 then portme_sys2 s else if i = 3 then portme_sys3 s
      else if i = 4 then portme_sys4 s else if i = 5 then portme_sys5 s else (0, s))"

definition mat_calls :: "u32 \<Rightarrow> string \<Rightarrow> (u32 \<Rightarrow> u32) \<Rightarrow> printf_call list" where
  "mat_calls N name entry =
     for_to N (\<lambda>i out.
       for_to N (\<lambda>j out. (if j \<noteq> 0 then out @ [('','', [])] else out) @ [(''%d'', [A32 (entry (i * N + j))])]) out
       @ [(nl, [])])
     [(''Matrix %s [%dx%d]:'' @ nl, [AStr name, A32 N, A32 N])]"

definition printmat :: "(u32 \<Rightarrow> s16) \<Rightarrow> u32 \<Rightarrow> string \<Rightarrow> printf_call list" where
  "printmat A N name = mat_calls N name (\<lambda>k. scast (A k))"

definition printmatC :: "(u32 \<Rightarrow> s32) \<Rightarrow> u32 \<Rightarrow> string \<Rightarrow> printf_call list" where
  "printmatC C N name = mat_calls N name C"

text \<open>Functions that return the volatile seeds give the run of the port.\<close>

lemma get_seed_func_volatile:
  "get_seed_func (Pair (seed1_volatile v)) (Pair (seed2_volatile v)) (Pair (seed3_volatile v))
    (Pair (seed4_volatile v)) (Pair (seed5_volatile v)) i s = (get_seed_32 v i, s)"
  by (simp add: get_seed_func_def get_seed_32_def)

section \<open>The text\<close>

primrec comma_text :: "string list \<Rightarrow> string" where
  "comma_text [] = []"
| "comma_text (t # ts) = t @ concat (map (\<lambda>t. CHR '','' # t) ts)"

definition mat_text :: "u32 \<Rightarrow> string \<Rightarrow> (nat \<Rightarrow> nat \<Rightarrow> int) \<Rightarrow> string" where
  "mat_text N name entry =
     ''Matrix '' @ name @ '' ['' @ show_int (sint N) @ ''x'' @ show_int (sint N) @ '']:'' @ nl
     @ concat (map (\<lambda>i. comma_text (map (\<lambda>j. show_int (entry i j)) [0..<unat N]) @ nl) [0..<unat N])"

lemma comma_text_snoc: "comma_text (ts @ [t]) = comma_text ts @ (if ts = [] then [] else '','') @ t"
  by (cases ts) simp_all

text \<open>Calls that print a text.\<close>

definition emits :: "printf_call list \<Rightarrow> string \<Rightarrow> bool" where
  "emits calls t \<longleftrightarrow> (\<exists>ts. list_all2 prints calls ts \<and> t = concat ts)"

lemma emits_append: "emits xs a \<Longrightarrow> emits ys b \<Longrightarrow> emits (xs @ ys) (a @ b)"
  unfolding emits_def by (metis concat_append list_all2_appendI)

lemma emits_single: "prints c t \<Longrightarrow> emits [c] t"
  unfolding emits_def by (intro exI [of _ "[t]"]) simp

lemma prints_cell: "prints (''%d'', [A32 x]) (show_int (sint x))"
  using length_show_int [of x] by (simp add: print_simps)

lemma emits_print_all: "emits calls t \<Longrightarrow> print_all send calls s = Some (foldl send s t)"
  unfolding emits_def by (elim exE conjE) (simp only: print_all_prints)

lemma prints_comma: "prints ('','', []) '',''"
  by (rule prints_literal) simp_all

lemma prints_head:
  assumes "length name < 900" and "NUL \<notin> set name"
  shows "prints (''Matrix %s [%dx%d]:'' @ nl, [AStr name, A32 N, A32 N])
    (''Matrix '' @ name @ '' ['' @ show_int (sint N) @ ''x'' @ show_int (sint N) @ '']:'' @ nl)"
  using assms length_show_int [of N] by (simp add: print_simps c_str_id)

lemma of_nat_less_zero: "j < unat (N :: u32) \<Longrightarrow> of_nat j = (0 :: u32) \<longleftrightarrow> j = 0"
  using unsigned_less [of N, where ?'a = nat] by (simp add: word_unat_eq_iff unat_of_nat)

lemma row_emits:
  assumes "emits out t" and "n \<le> unat (N :: u32)"
  shows "emits (fold (\<lambda>j out. (if of_nat j \<noteq> (0 :: u32) then out @ [('','', [])] else out) @ [(''%d'', [A32 (f j)])]) [0..<n] out)
    (t @ comma_text (map (\<lambda>j. show_int (sint (f j))) [0..<n]))"
  using assms(2)
proof (induction n)
  case (Suc n)
  let ?c = "if of_nat n \<noteq> (0 :: u32) then [('','', [])] else [] :: printf_call list"
  have "emits ?c (if n = 0 then [] else '','')"
    using of_nat_less_zero [of n N] Suc.prems emits_single [OF prints_comma] by (simp add: emits_def)
  then have "emits (?c @ [(''%d'', [A32 (f n)])]) ((if n = 0 then [] else '','') @ show_int (sint (f n)))"
    by (intro emits_append emits_single prints_cell)
  from emits_append [OF Suc.IH this] show ?case
    using Suc.prems of_nat_less_zero [of n N] by (cases "n = 0") (simp_all add: comma_text_snoc)
qed (simp add: assms(1))

lemma mat_emits:
  assumes "length name < 900" and "NUL \<notin> set name"
  shows "emits (mat_calls N name entry) (mat_text N name (\<lambda>i j. sint (entry (of_nat i * N + of_nat j))))"
proof -
  define row where "row = (\<lambda>i. comma_text (map (\<lambda>j. show_int (sint (entry (of_nat i * N + of_nat j)))) [0..<unat N]) @ nl)"
  define turn where "turn = (\<lambda>i :: nat. \<lambda>out. for_to N (\<lambda>j out. (if j \<noteq> 0 then out @ [('','', [])] else out)
      @ [(''%d'', [A32 (entry (of_nat i * N + j))])]) out @ [(nl, [])])"
  have turn: "emits out t \<Longrightarrow> emits (turn i out) (t @ row i)" for i out t
    using emits_append [OF row_emits [of out t "unat N" N "\<lambda>j. entry (of_nat i * N + of_nat j)"]
        emits_single [OF prints_literal [of nl]]]
    by (simp add: turn_def row_def for_to_def nl_def)
  have "emits (fold turn is out) (t @ concat (map row is))" if "emits out t" for "is" out t
    using that by (induction "is" arbitrary: out t) (simp, use turn in fastforce)
  from this [OF emits_single [OF prints_head [OF assms]], of "[0..<unat N]"] show ?thesis
    by (simp add: mat_calls_def mat_text_def for_to_def [of N] turn_def row_def)
qed

text \<open>A matrix is printed as a line with its name and size and one line for each row, the cells in
  decimal with commas between them.\<close>

theorem printmat_prints:
  assumes "length name < 900" and "NUL \<notin> set name"
  shows "print_all send (printmat A N name) s
      = Some (foldl send s (mat_text N name (\<lambda>i j. sint (A (of_nat i * N + of_nat j)))))
    \<and> print_all send (printmatC C N name) s
      = Some (foldl send s (mat_text N name (\<lambda>i j. sint (C (of_nat i * N + of_nat j)))))"
  using mat_emits [OF assms, THEN emits_print_all, of send N "\<lambda>k. scast (A k)" s]
    mat_emits [OF assms, THEN emits_print_all, of send N C s]
  by (simp add: printmat_def printmatC_def sint_up_scast is_up)

end
