(* ===== verification/Rv32i.thy ===== *)
theory Rv32i
  imports Memory
begin

text \<open>
  The instruction set the processor is built for, RV32I with the machine-level instructions the programs
  use, as the specification of the core: what an instruction means, one at a time, without a pipeline.
  The data memory is outside: an instruction has at most one access to it, and a load is given the
  aligned word that was read.
\<close>

section \<open>Instructions\<close>

type_synonym reg = "5 word"

datatype cond = C_eq | C_ne | C_lt | C_ge | C_ltu | C_geu
datatype width = W_b | W_h | W_w | W_bu | W_hu
datatype arith = A_add | A_sub | A_sll | A_slt | A_sltu | A_xor | A_srl | A_sra | A_or | A_and
datatype csr_op = Csr_write | Csr_set | Csr_clear

text \<open>Destination, sources, immediate.\<close>

datatype instr = Lui reg u32 | Auipc reg u32 | Jal reg u32 | Jalr reg reg u32
  | Branch cond reg reg u32 | Load width reg reg u32 | Store width reg reg u32
  | Op_imm arith reg reg u32 | Op arith reg reg reg | Fence
  | Csr csr_op reg reg "12 word" | Csri csr_op reg "5 word" "12 word" | Ecall | Ebreak | Mret

section \<open>Encoding\<close>

definition opcode :: "u32 \<Rightarrow> u32" where "opcode w = take_bit 7 w"
definition funct3 :: "u32 \<Rightarrow> u32" where "funct3 w = take_bit 3 (drop_bit 12 w)"
definition funct7 :: "u32 \<Rightarrow> u32" where "funct7 w = drop_bit 25 w"
definition f_rd :: "u32 \<Rightarrow> reg" where "f_rd w = ucast (drop_bit 7 w)"
definition f_rs1 :: "u32 \<Rightarrow> reg" where "f_rs1 w = ucast (drop_bit 15 w)"
definition f_rs2 :: "u32 \<Rightarrow> reg" where "f_rs2 w = ucast (drop_bit 20 w)"
definition f_csr :: "u32 \<Rightarrow> 12 word" where "f_csr w = ucast (drop_bit 20 w)"

definition imm_i :: "u32 \<Rightarrow> u32" where
  "imm_i w = signed_drop_bit 20 w"

definition imm_s :: "u32 \<Rightarrow> u32" where
  "imm_s w = push_bit 5 (signed_drop_bit 25 w) OR take_bit 5 (drop_bit 7 w)"

definition imm_b :: "u32 \<Rightarrow> u32" where
  "imm_b w = push_bit 12 (signed_drop_bit 31 w) OR push_bit 11 (take_bit 1 (drop_bit 7 w))
     OR push_bit 5 (take_bit 6 (drop_bit 25 w)) OR push_bit 1 (take_bit 4 (drop_bit 8 w))"

definition imm_u :: "u32 \<Rightarrow> u32" where
  "imm_u w = w AND 0xfffff000"

definition imm_j :: "u32 \<Rightarrow> u32" where
  "imm_j w = push_bit 20 (signed_drop_bit 31 w) OR push_bit 12 (take_bit 8 (drop_bit 12 w))
     OR push_bit 11 (take_bit 1 (drop_bit 20 w)) OR push_bit 1 (take_bit 10 (drop_bit 21 w))"

definition branch_cond :: "u32 \<Rightarrow> cond option" where
  "branch_cond f3 =
     (if f3 = 0 then Some C_eq else if f3 = 1 then Some C_ne else if f3 = 4 then Some C_lt
      else if f3 = 5 then Some C_ge else if f3 = 6 then Some C_ltu else if f3 = 7 then Some C_geu else None)"

definition load_width :: "u32 \<Rightarrow> width option" where
  "load_width f3 =
     (if f3 = 0 then Some W_b else if f3 = 1 then Some W_h else if f3 = 2 then Some W_w
      else if f3 = 4 then Some W_bu else if f3 = 5 then Some W_hu else None)"

definition store_width :: "u32 \<Rightarrow> width option" where
  "store_width f3 = (if f3 = 0 then Some W_b else if f3 = 1 then Some W_h else if f3 = 2 then Some W_w else None)"

text \<open>\<open>alt\<close> is what \<open>funct7\<close> must be: 0, or 32 for the second operation of a code.\<close>

definition op_arith :: "u32 \<Rightarrow> u32 \<Rightarrow> arith option" where
  "op_arith f3 f7 =
     (if f7 = 0
      then Some (if f3 = 0 then A_add else if f3 = 1 then A_sll else if f3 = 2 then A_slt else if f3 = 3 then A_sltu
        else if f3 = 4 then A_xor else if f3 = 5 then A_srl else if f3 = 6 then A_or else A_and)
      else if f7 = 32 then if f3 = 0 then Some A_sub else if f3 = 5 then Some A_sra else None
      else None)"

definition imm_arith :: "u32 \<Rightarrow> u32 \<Rightarrow> arith option" where
  "imm_arith f3 f7 = (if f3 = 1 \<or> f3 = 5 then op_arith f3 f7 else op_arith f3 0)"

definition csr_fun :: "u32 \<Rightarrow> csr_op option" where
  "csr_fun f3 = (if f3 = 1 then Some Csr_write else if f3 = 2 then Some Csr_set else if f3 = 3 then Some Csr_clear else None)"

definition decode :: "u32 \<Rightarrow> instr option" where
  "decode w =
     (let rd = f_rd w; rs1 = f_rs1 w; rs2 = f_rs2 w; f3 = funct3 w; f7 = funct7 w; c = opcode w
      in if c = 0x37 then Some (Lui rd (imm_u w))
         else if c = 0x17 then Some (Auipc rd (imm_u w))
         else if c = 0x6f then Some (Jal rd (imm_j w))
         else if c = 0x67 then if f3 = 0 then Some (Jalr rd rs1 (imm_i w)) else None
         else if c = 0x63 then map_option (\<lambda>k. Branch k rs1 rs2 (imm_b w)) (branch_cond f3)
         else if c = 0x03 then map_option (\<lambda>k. Load k rd rs1 (imm_i w)) (load_width f3)
         else if c = 0x23 then map_option (\<lambda>k. Store k rs1 rs2 (imm_s w)) (store_width f3)
         else if c = 0x13 then map_option (\<lambda>k. Op_imm k rd rs1 (imm_i w)) (imm_arith f3 f7)
         else if c = 0x33 then map_option (\<lambda>k. Op k rd rs1 rs2) (op_arith f3 f7)
         else if w AND 0xf00fffff = 0x0000000f \<or> w = 0x0000100f then Some Fence
         else if w = 0x00000073 then Some Ecall
         else if w = 0x00100073 then Some Ebreak
         else if w = 0x30200073 then Some Mret
         else if c = 0x73 \<and> f3 < 4 then map_option (\<lambda>k. Csr k rd rs1 (f_csr w)) (csr_fun f3)
         else if c = 0x73 then map_option (\<lambda>k. Csri k rd rs1 (f_csr w)) (csr_fun (f3 - 4))
         else None)"

section \<open>Execution\<close>

text \<open>The state of a hart that stays in machine mode: the program counter, the integer registers, and
  the machine-level registers.\<close>

record arch =
  ar_pc :: u32
  ar_x :: "reg \<Rightarrow> u32"
  ar_mtvec :: u32
  ar_mepc :: u32
  ar_mcause :: u32
  ar_mscratch :: u32
  ar_mpp :: "2 word"
  ar_mpie :: bool
  ar_mie :: bool

definition get_x :: "arch \<Rightarrow> reg \<Rightarrow> u32" where
  "get_x a r = (if r = 0 then 0 else ar_x a r)"

definition set_x :: "reg \<Rightarrow> u32 \<Rightarrow> arch \<Rightarrow> arch" where
  "set_x r v a = (if r = 0 then a else a\<lparr>ar_x := (ar_x a)(r := v)\<rparr>)"

fun arith_val :: "arith \<Rightarrow> u32 \<Rightarrow> u32 \<Rightarrow> u32" where
  "arith_val A_add a b = a + b"
| "arith_val A_sub a b = a - b"
| "arith_val A_sll a b = push_bit (unat (take_bit 5 b)) a"
| "arith_val A_slt a b = (if a <s b then 1 else 0)"
| "arith_val A_sltu a b = (if a < b then 1 else 0)"
| "arith_val A_xor a b = a XOR b"
| "arith_val A_srl a b = drop_bit (unat (take_bit 5 b)) a"
| "arith_val A_sra a b = signed_drop_bit (unat (take_bit 5 b)) a"
| "arith_val A_or a b = a OR b"
| "arith_val A_and a b = a AND b"

fun cond_val :: "cond \<Rightarrow> u32 \<Rightarrow> u32 \<Rightarrow> bool" where
  "cond_val C_eq a b = (a = b)"
| "cond_val C_ne a b = (a \<noteq> b)"
| "cond_val C_lt a b = (a <s b)"
| "cond_val C_ge a b = (b \<le>s a)"
| "cond_val C_ltu a b = (a < b)"
| "cond_val C_geu a b = (b \<le> a)"

fun width_bytes :: "width \<Rightarrow> nat" where
  "width_bytes W_b = 1" | "width_bytes W_bu = 1" | "width_bytes W_h = 2" | "width_bytes W_hu = 2" | "width_bytes W_w = 4"

text \<open>What a load makes of the bytes it reads, the lowest first in \<open>v\<close>.\<close>

fun extend :: "width \<Rightarrow> u32 \<Rightarrow> u32" where
  "extend W_b v = signed_take_bit 7 v"
| "extend W_h v = signed_take_bit 15 v"
| "extend W_w v = v"
| "extend W_bu v = take_bit 8 v"
| "extend W_hu v = take_bit 16 v"

definition byte_off :: "u32 \<Rightarrow> nat" where
  "byte_off a = unat (take_bit 2 a)"

definition load_val :: "width \<Rightarrow> u32 \<Rightarrow> u32 \<Rightarrow> u32" where
  "load_val k addr word = extend k (drop_bit (8 * byte_off addr) word)"

definition csr_get :: "12 word \<Rightarrow> arch \<Rightarrow> u32 option" where
  "csr_get n a =
     (if n = 0x300 then Some (push_bit 11 (ucast (ar_mpp a)) OR push_bit 7 (of_bool (ar_mpie a)) OR push_bit 3 (of_bool (ar_mie a)))
      else if n = 0x305 then Some (ar_mtvec a) else if n = 0x340 then Some (ar_mscratch a)
      else if n = 0x341 then Some (ar_mepc a) else if n = 0x342 then Some (ar_mcause a) else None)"

definition csr_put :: "12 word \<Rightarrow> u32 \<Rightarrow> arch \<Rightarrow> arch" where
  "csr_put n v a =
     (if n = 0x300 then a\<lparr>ar_mpp := ucast (drop_bit 11 v), ar_mpie := bit v 7, ar_mie := bit v 3\<rparr>
      else if n = 0x305 then a\<lparr>ar_mtvec := v\<rparr> else if n = 0x340 then a\<lparr>ar_mscratch := v\<rparr>
      else if n = 0x341 then a\<lparr>ar_mepc := v AND NOT 3\<rparr> else if n = 0x342 then a\<lparr>ar_mcause := v\<rparr> else a)"

fun csr_val :: "csr_op \<Rightarrow> u32 \<Rightarrow> u32 \<Rightarrow> u32" where
  "csr_val Csr_write old v = v"
| "csr_val Csr_set old v = old OR v"
| "csr_val Csr_clear old v = old AND NOT v"

definition trap :: "u32 \<Rightarrow> arch \<Rightarrow> arch" where
  "trap cause a = a\<lparr>ar_pc := ar_mtvec a, ar_mepc := ar_pc a, ar_mcause := cause,
     ar_mpp := 3, ar_mpie := ar_mie a, ar_mie := False\<rparr>"

definition advance :: "arch \<Rightarrow> arch" where
  "advance a = a\<lparr>ar_pc := ar_pc a + 4\<rparr>"

text \<open>The old value goes to \<open>rd\<close>; setting and clearing with \<open>x0\<close> or 0 does not write.\<close>

definition csr_exec :: "csr_op \<Rightarrow> reg \<Rightarrow> bool \<Rightarrow> u32 \<Rightarrow> 12 word \<Rightarrow> arch \<Rightarrow> arch" where
  "csr_exec k rd zero v n a =
     (let old = the (csr_get n a)
      in set_x rd old (if k \<noteq> Csr_write \<and> zero then a else csr_put n (csr_val k old v) a))"

text \<open>\<open>word\<close> is the aligned word a load reads.\<close>

fun exec :: "u32 \<Rightarrow> instr \<Rightarrow> arch \<Rightarrow> arch" where
  "exec word (Lui rd imm) a = advance (set_x rd imm a)"
| "exec word (Auipc rd imm) a = advance (set_x rd (ar_pc a + imm) a)"
| "exec word (Jal rd imm) a = (set_x rd (ar_pc a + 4) a)\<lparr>ar_pc := ar_pc a + imm\<rparr>"
| "exec word (Jalr rd rs1 imm) a = (set_x rd (ar_pc a + 4) a)\<lparr>ar_pc := (get_x a rs1 + imm) AND NOT 1\<rparr>"
| "exec word (Branch k rs1 rs2 imm) a =
     (if cond_val k (get_x a rs1) (get_x a rs2) then a\<lparr>ar_pc := ar_pc a + imm\<rparr> else advance a)"
| "exec word (Load k rd rs1 imm) a = advance (set_x rd (load_val k (get_x a rs1 + imm) word) a)"
| "exec word (Store k rs1 rs2 imm) a = advance a"
| "exec word (Op_imm k rd rs1 imm) a = advance (set_x rd (arith_val k (get_x a rs1) imm) a)"
| "exec word (Op k rd rs1 rs2) a = advance (set_x rd (arith_val k (get_x a rs1) (get_x a rs2)) a)"
| "exec word Fence a = advance a"
| "exec word (Csr k rd rs1 n) a = advance (csr_exec k rd (rs1 = 0) (get_x a rs1) n a)"
| "exec word (Csri k rd u n) a = advance (csr_exec k rd (u = 0) (ucast u) n a)"
| "exec word Ecall a = trap 11 a"
| "exec word Ebreak a = trap 3 a"
| "exec word Mret a = a\<lparr>ar_pc := ar_mepc a, ar_mie := ar_mpie a, ar_mpie := True, ar_mpp := 0\<rparr>"

text \<open>The access to the data memory.\<close>

datatype access = No_data | Read_word u32 | Write_bytes width u32 u32

fun access_of :: "instr \<Rightarrow> arch \<Rightarrow> access" where
  "access_of (Load k rd rs1 imm) a = Read_word (get_x a rs1 + imm)"
| "access_of (Store k rs1 rs2 imm) a = Write_bytes k (get_x a rs1 + imm) (get_x a rs2)"
| "access_of i a = No_data"

definition aligned :: "nat \<Rightarrow> u32 \<Rightarrow> bool" where
  "aligned n a \<longleftrightarrow> n dvd unat a"

text \<open>What the program may do for the theorems on the core: accesses and jumps are aligned, the CSR is
  one of those above and is not accessed with an immediate, \<open>mtvec\<close> has the direct mode, \<open>mret\<close> returns to
  machine mode.\<close>

fun allowed :: "instr \<Rightarrow> arch \<Rightarrow> bool" where
  "allowed (Jal rd imm) a = aligned 4 (ar_pc a + imm)"
| "allowed (Jalr rd rs1 imm) a = aligned 4 ((get_x a rs1 + imm) AND NOT 1)"
| "allowed (Branch k rs1 rs2 imm) a =
     (cond_val k (get_x a rs1) (get_x a rs2) \<longrightarrow> aligned 4 (ar_pc a + imm))"
| "allowed (Load k rd rs1 imm) a = aligned (width_bytes k) (get_x a rs1 + imm)"
| "allowed (Store k rs1 rs2 imm) a = aligned (width_bytes k) (get_x a rs1 + imm)"
| "allowed (Csr k rd rs1 n) a = (csr_get n a \<noteq> None)"
| "allowed (Csri k rd u n) a = False"
| "allowed Ecall a = aligned 4 (ar_mtvec a)"
| "allowed Ebreak a = aligned 4 (ar_mtvec a)"
| "allowed Mret a = (ar_mpp a = 3)"
| "allowed i a = True"

section \<open>Programs in memory\<close>

text \<open>The aligned word an access reads, and what it writes, in the byte-addressed store.\<close>

fun read_access :: "access \<Rightarrow> mem \<Rightarrow> u32" where
  "read_access (Read_word addr) m = get32 m (addr AND NOT 3)"
| "read_access acc m = 0"

fun write_access :: "access \<Rightarrow> mem \<Rightarrow> mem" where
  "write_access (Write_bytes W_w addr v) m = put32 m addr v"
| "write_access (Write_bytes W_h addr v) m = put8 (put8 m addr (ucast v)) (addr + 1) (ucast (drop_bit 8 v))"
| "write_access (Write_bytes W_b addr v) m = put8 m addr (ucast v)"
| "write_access acc m = m"

text \<open>What is not in the memory is in a device: \<open>env\<close> has what each device answers in each clock, as whether there is
  an answer, whether it is an error, and the word. An access is answered in the clock after its instruction.\<close>

type_synonym env = "nat \<Rightarrow> nat \<Rightarrow> bool \<times> bool \<times> u32"

fun device_of :: "(u32 \<Rightarrow> bool) \<Rightarrow> (u32 \<Rightarrow> nat) \<Rightarrow> access \<Rightarrow> nat option" where
  "device_of ram dev No_data = None"
| "device_of ram dev (Read_word addr) = (if ram addr then None else Some (dev (addr AND NOT 3)))"
| "device_of ram dev (Write_bytes k addr v) = (if ram addr then None else Some (dev (addr AND NOT 3)))"

text \<open>A store does not change the two instructions that follow, which may have been fetched, and the device exists
  and does not answer with an error.\<close>

fun keeps_code :: "u32 \<Rightarrow> access \<Rightarrow> bool" where
  "keeps_code pc (Write_bytes k addr v) = (addr AND NOT 3 \<noteq> pc + 4 \<and> addr AND NOT 3 \<noteq> pc + 8)"
| "keeps_code pc acc = True"

definition access_ok :: "(u32 \<Rightarrow> bool) \<Rightarrow> (u32 \<Rightarrow> nat) \<Rightarrow> env \<Rightarrow> nat \<Rightarrow> u32 \<Rightarrow> access \<Rightarrow> bool" where
  "access_ok ram dev env now pc acc \<longleftrightarrow> keeps_code pc acc
     \<and> (case device_of ram dev acc of None \<Rightarrow> True
        | Some d \<Rightarrow> d \<in> {1, 2, 3} \<and> \<not> (fst (env (now + 1) d) \<and> fst (snd (env (now + 1) d))))"

definition answer :: "(u32 \<Rightarrow> bool) \<Rightarrow> (u32 \<Rightarrow> nat) \<Rightarrow> env \<Rightarrow> nat \<Rightarrow> mem \<Rightarrow> access \<Rightarrow> u32" where
  "answer ram dev env now m acc =
     (case device_of ram dev acc of None \<Rightarrow> read_access acc m | Some d \<Rightarrow> snd (snd (env (now + 1) d)))"

definition mem_after :: "(u32 \<Rightarrow> bool) \<Rightarrow> (u32 \<Rightarrow> nat) \<Rightarrow> mem \<Rightarrow> access \<Rightarrow> mem" where
  "mem_after ram dev m acc = (case device_of ram dev acc of None \<Rightarrow> write_access acc m | Some d \<Rightarrow> m)"

text \<open>Clock, device and access.\<close>

definition event_of :: "(u32 \<Rightarrow> bool) \<Rightarrow> (u32 \<Rightarrow> nat) \<Rightarrow> nat \<Rightarrow> access \<Rightarrow> (nat \<times> nat \<times> access) list" where
  "event_of ram dev now acc = (case device_of ram dev acc of None \<Rightarrow> [] | Some d \<Rightarrow> [(now, d, acc)])"

text \<open>The number of clocks the processor needs.\<close>

fun clocks :: "instr \<Rightarrow> arch \<Rightarrow> nat" where
  "clocks (Branch k rs1 rs2 imm) a = (if cond_val k (get_x a rs1) (get_x a rs2) then 2 else 1)"
| "clocks (Jal rd imm) a = 2"
| "clocks (Jalr rd rs1 imm) a = 2"
| "clocks (Load k rd rs1 imm) a = 2"
| "clocks (Csr k rd rs1 n) a = 2"
| "clocks (Csri k rd u n) a = 2"
| "clocks Ecall a = 3"
| "clocks Ebreak a = 3"
| "clocks Mret a = 3"
| "clocks i a = 1"

text \<open>The registers, the memory, the number of clocks so far, and the accesses to devices so far.\<close>

type_synonym isa = "arch \<times> mem \<times> nat \<times> (nat \<times> nat \<times> access) list"

text \<open>One instruction, given its word, and a number of them from memory, with the clocks they take; \<open>None\<close> where the
  program does what is excluded above.\<close>

definition isa_next :: "(u32 \<Rightarrow> bool) \<Rightarrow> (u32 \<Rightarrow> nat) \<Rightarrow> env \<Rightarrow> u32 \<Rightarrow> isa \<Rightarrow> (isa \<times> nat) option" where
  "isa_next ram dev env w x =
     (case x of (a, m, now, log) \<Rightarrow>
      case decode w of None \<Rightarrow> None
      | Some i \<Rightarrow> let acc = access_of i a
                in if ram (ar_pc a) \<and> allowed i a \<and> access_ok ram dev env now (ar_pc a) acc
                   then Some ((exec (answer ram dev env now m acc) i a, mem_after ram dev m acc, now + clocks i a,
                               log @ event_of ram dev now acc), clocks i a) else None)"

fun timed_steps :: "('a \<Rightarrow> ('a \<times> nat) option) \<Rightarrow> nat \<Rightarrow> 'a \<Rightarrow> ('a \<times> nat) option" where
  "timed_steps step 0 x = Some (x, 0)"
| "timed_steps step (Suc n) x =
     (case step x of None \<Rightarrow> None
      | Some (y, t) \<Rightarrow> (case timed_steps step n y of None \<Rightarrow> None | Some (z, t') \<Rightarrow> Some (z, t + t')))"

definition isa_step :: "(u32 \<Rightarrow> bool) \<Rightarrow> (u32 \<Rightarrow> nat) \<Rightarrow> env \<Rightarrow> isa \<Rightarrow> (isa \<times> nat) option" where
  "isa_step ram dev env x = isa_next ram dev env (get32 (fst (snd x)) (ar_pc (fst x))) x"

definition isa_run :: "(u32 \<Rightarrow> bool) \<Rightarrow> (u32 \<Rightarrow> nat) \<Rightarrow> env \<Rightarrow> nat \<Rightarrow> isa \<Rightarrow> (isa \<times> nat) option" where
  "isa_run ram dev env = timed_steps (isa_step ram dev env)"

end
