(* ===== verification/CpuDecode.thy ===== *)
theory CpuDecode
  imports Rv32i
begin

text \<open>
  The combinational parts of the processor in \<^verbatim>\<open>src/main/scala/core\<close>: the patterns of \<^verbatim>\<open>Instructions.scala\<close>, the
  control table of \<^verbatim>\<open>Control.scala\<close>, and the units of \<^verbatim>\<open>Alu.scala\<close>, \<^verbatim>\<open>Branch.scala\<close> and \<^verbatim>\<open>Execute.scala\<close>. A wire of
  \<open>n\<close> bits is an \<open>n word\<close>, or a word of 32 bits below 2^n; \<open>DontCare\<close> is 0.
\<close>

section \<open>The hardware: control signals\<close>

datatype pc_sel = Pc_plus4 | Pc_alu | Pc_plus0 | Pc_epc
datatype a_sel = Asel_none | Asel_pc | Asel_rs1
datatype b_sel = Bsel_none | Bsel_imm | Bsel_rs2
datatype imm_sel = Imm_x | Imm_i | Imm_s | Imm_u | Imm_j | Imm_b | Imm_z
datatype alu_op = Alu_add | Alu_sub | Alu_and | Alu_or | Alu_xor | Alu_slt | Alu_sll | Alu_sltu | Alu_srl
  | Alu_sra | Alu_copyA | Alu_copyB | Alu_none
datatype br_type = Br_none | Br_ltu | Br_lt | Br_eq | Br_geu | Br_ge | Br_ne
datatype st_type = St_none | St_sw | St_sh | St_sb
datatype ld_type = Ld_none | Ld_lw | Ld_lh | Ld_lb | Ld_lhu | Ld_lbu
datatype wb_sel = Wb_alu | Wb_mem | Wb_pc4 | Wb_csr
datatype csr_type = Cs_n | Cs_w | Cs_s | Cs_c | Cs_ec | Cs_eb | Cs_er

record signals =
  s_pc_sel :: pc_sel
  s_a_sel :: a_sel
  s_b_sel :: b_sel
  s_imm_sel :: imm_sel
  s_alu_op :: alu_op
  s_br_type :: br_type
  s_inst_kill :: bool
  s_st_type :: st_type
  s_ld_type :: ld_type
  s_wb_sel :: wb_sel
  s_wb_en :: bool
  s_illegal :: bool
  s_csr_type :: csr_type

definition B where
  "B pc a b imm alu br kill st ld wb en illegal csr =
     \<lparr>s_pc_sel = pc, s_a_sel = a, s_b_sel = b, s_imm_sel = imm, s_alu_op = alu, s_br_type = br, s_inst_kill = kill,
      s_st_type = st, s_ld_type = ld, s_wb_sel = wb, s_wb_en = en, s_illegal = illegal, s_csr_type = csr\<rparr>"

text \<open>A \<open>BitPat\<close>, as the mask of the bits that count and their values.\<close>

definition bitpat :: "string \<Rightarrow> u32 \<times> u32" where
  "bitpat s = fold (\<lambda>c (m, v). if c = CHR ''?'' then (2 * m, 2 * v) else (2 * m + 1, 2 * v + (if c = CHR ''1'' then 1 else 0)))
     s (0, 0)"

definition matches :: "u32 \<times> u32 \<Rightarrow> u32 \<Rightarrow> bool" where
  "matches p inst \<longleftrightarrow> inst AND fst p = snd p"

definition iLB :: "u32 \<times> u32" where "iLB = bitpat ''?????????????????000?????0000011''"
definition iLH :: "u32 \<times> u32" where "iLH = bitpat ''?????????????????001?????0000011''"
definition iLW :: "u32 \<times> u32" where "iLW = bitpat ''?????????????????010?????0000011''"
definition iLBU :: "u32 \<times> u32" where "iLBU = bitpat ''?????????????????100?????0000011''"
definition iLHU :: "u32 \<times> u32" where "iLHU = bitpat ''?????????????????101?????0000011''"
definition iSB :: "u32 \<times> u32" where "iSB = bitpat ''?????????????????000?????0100011''"
definition iSH :: "u32 \<times> u32" where "iSH = bitpat ''?????????????????001?????0100011''"
definition iSW :: "u32 \<times> u32" where "iSW = bitpat ''?????????????????010?????0100011''"
definition iSLL :: "u32 \<times> u32" where "iSLL = bitpat ''0000000??????????001?????0110011''"
definition iSLLI :: "u32 \<times> u32" where "iSLLI = bitpat ''0000000??????????001?????0010011''"
definition iSRL :: "u32 \<times> u32" where "iSRL = bitpat ''0000000??????????101?????0110011''"
definition iSRLI :: "u32 \<times> u32" where "iSRLI = bitpat ''0000000??????????101?????0010011''"
definition iSRA :: "u32 \<times> u32" where "iSRA = bitpat ''0100000??????????101?????0110011''"
definition iSRAI :: "u32 \<times> u32" where "iSRAI = bitpat ''0100000??????????101?????0010011''"
definition iADD :: "u32 \<times> u32" where "iADD = bitpat ''0000000??????????000?????0110011''"
definition iADDI :: "u32 \<times> u32" where "iADDI = bitpat ''?????????????????000?????0010011''"
definition iSUB :: "u32 \<times> u32" where "iSUB = bitpat ''0100000??????????000?????0110011''"
definition iLUI :: "u32 \<times> u32" where "iLUI = bitpat ''?????????????????????????0110111''"
definition iAUIPC :: "u32 \<times> u32" where "iAUIPC = bitpat ''?????????????????????????0010111''"
definition iXOR :: "u32 \<times> u32" where "iXOR = bitpat ''0000000??????????100?????0110011''"
definition iXORI :: "u32 \<times> u32" where "iXORI = bitpat ''?????????????????100?????0010011''"
definition iOR :: "u32 \<times> u32" where "iOR = bitpat ''0000000??????????110?????0110011''"
definition iORI :: "u32 \<times> u32" where "iORI = bitpat ''?????????????????110?????0010011''"
definition iAND :: "u32 \<times> u32" where "iAND = bitpat ''0000000??????????111?????0110011''"
definition iANDI :: "u32 \<times> u32" where "iANDI = bitpat ''?????????????????111?????0010011''"
definition iSLT :: "u32 \<times> u32" where "iSLT = bitpat ''0000000??????????010?????0110011''"
definition iSLTI :: "u32 \<times> u32" where "iSLTI = bitpat ''?????????????????010?????0010011''"
definition iSLTU :: "u32 \<times> u32" where "iSLTU = bitpat ''0000000??????????011?????0110011''"
definition iSLTIU :: "u32 \<times> u32" where "iSLTIU = bitpat ''?????????????????011?????0010011''"
definition iBEQ :: "u32 \<times> u32" where "iBEQ = bitpat ''?????????????????000?????1100011''"
definition iBNE :: "u32 \<times> u32" where "iBNE = bitpat ''?????????????????001?????1100011''"
definition iBLT :: "u32 \<times> u32" where "iBLT = bitpat ''?????????????????100?????1100011''"
definition iBGE :: "u32 \<times> u32" where "iBGE = bitpat ''?????????????????101?????1100011''"
definition iBLTU :: "u32 \<times> u32" where "iBLTU = bitpat ''?????????????????110?????1100011''"
definition iBGEU :: "u32 \<times> u32" where "iBGEU = bitpat ''?????????????????111?????1100011''"
definition iJAL :: "u32 \<times> u32" where "iJAL = bitpat ''?????????????????????????1101111''"
definition iJALR :: "u32 \<times> u32" where "iJALR = bitpat ''?????????????????000?????1100111''"
definition iFENCE :: "u32 \<times> u32" where "iFENCE = bitpat ''0000????????00000000000000001111''"
definition iFENCEI :: "u32 \<times> u32" where "iFENCEI = bitpat ''00000000000000000001000000001111''"
definition iCSRRW :: "u32 \<times> u32" where "iCSRRW = bitpat ''?????????????????001?????1110011''"
definition iCSRRS :: "u32 \<times> u32" where "iCSRRS = bitpat ''?????????????????010?????1110011''"
definition iCSRRC :: "u32 \<times> u32" where "iCSRRC = bitpat ''?????????????????011?????1110011''"
definition iCSRRWI :: "u32 \<times> u32" where "iCSRRWI = bitpat ''?????????????????101?????1110011''"
definition iCSRRSI :: "u32 \<times> u32" where "iCSRRSI = bitpat ''?????????????????110?????1110011''"
definition iCSRRCI :: "u32 \<times> u32" where "iCSRRCI = bitpat ''?????????????????111?????1110011''"
definition iECALL :: "u32 \<times> u32" where "iECALL = bitpat ''00000000000000000000000001110011''"
definition iEBREAK :: "u32 \<times> u32" where "iEBREAK = bitpat ''00000000000100000000000001110011''"
definition iERET :: "u32 \<times> u32" where "iERET = bitpat ''00??0000001000000000000001110011''"
definition iWFI :: "u32 \<times> u32" where "iWFI = bitpat ''00010000001000000000000001110011''"

definition default_signals :: signals where
  "default_signals = B Pc_plus4 Asel_none Bsel_none Imm_x Alu_none Br_none False St_none Ld_none Wb_alu False True Cs_n"

definition insts :: "((u32 \<times> u32) \<times> signals) list" where
  "insts =
    [(iLUI, B Pc_plus4 Asel_pc Bsel_imm Imm_u Alu_copyB Br_none False St_none Ld_none Wb_alu True False Cs_n),
     (iAUIPC, B Pc_plus4 Asel_pc Bsel_imm Imm_u Alu_add Br_none False St_none Ld_none Wb_alu True False Cs_n),
     (iJAL, B Pc_alu Asel_pc Bsel_imm Imm_j Alu_add Br_none True St_none Ld_none Wb_pc4 True False Cs_n),
     (iJALR, B Pc_alu Asel_rs1 Bsel_imm Imm_i Alu_add Br_none True St_none Ld_none Wb_pc4 True False Cs_n),
     (iBEQ, B Pc_plus4 Asel_pc Bsel_imm Imm_b Alu_add Br_eq False St_none Ld_none Wb_alu False False Cs_n),
     (iBNE, B Pc_plus4 Asel_pc Bsel_imm Imm_b Alu_add Br_ne False St_none Ld_none Wb_alu False False Cs_n),
     (iBLT, B Pc_plus4 Asel_pc Bsel_imm Imm_b Alu_add Br_lt False St_none Ld_none Wb_alu False False Cs_n),
     (iBGE, B Pc_plus4 Asel_pc Bsel_imm Imm_b Alu_add Br_ge False St_none Ld_none Wb_alu False False Cs_n),
     (iBLTU, B Pc_plus4 Asel_pc Bsel_imm Imm_b Alu_add Br_ltu False St_none Ld_none Wb_alu False False Cs_n),
     (iBGEU, B Pc_plus4 Asel_pc Bsel_imm Imm_b Alu_add Br_geu False St_none Ld_none Wb_alu False False Cs_n),
     (iLB, B Pc_plus0 Asel_rs1 Bsel_imm Imm_i Alu_add Br_none True St_none Ld_lb Wb_mem True False Cs_n),
     (iLH, B Pc_plus0 Asel_rs1 Bsel_imm Imm_i Alu_add Br_none True St_none Ld_lh Wb_mem True False Cs_n),
     (iLW, B Pc_plus0 Asel_rs1 Bsel_imm Imm_i Alu_add Br_none True St_none Ld_lw Wb_mem True False Cs_n),
     (iLBU, B Pc_plus0 Asel_rs1 Bsel_imm Imm_i Alu_add Br_none True St_none Ld_lbu Wb_mem True False Cs_n),
     (iLHU, B Pc_plus0 Asel_rs1 Bsel_imm Imm_i Alu_add Br_none True St_none Ld_lhu Wb_mem True False Cs_n),
     (iSB, B Pc_plus4 Asel_rs1 Bsel_imm Imm_s Alu_add Br_none False St_sb Ld_none Wb_alu False False Cs_n),
     (iSH, B Pc_plus4 Asel_rs1 Bsel_imm Imm_s Alu_add Br_none False St_sh Ld_none Wb_alu False False Cs_n),
     (iSW, B Pc_plus4 Asel_rs1 Bsel_imm Imm_s Alu_add Br_none False St_sw Ld_none Wb_alu False False Cs_n),
     (iADDI, B Pc_plus4 Asel_rs1 Bsel_imm Imm_i Alu_add Br_none False St_none Ld_none Wb_alu True False Cs_n),
     (iSLTI, B Pc_plus4 Asel_rs1 Bsel_imm Imm_i Alu_slt Br_none False St_none Ld_none Wb_alu True False Cs_n),
     (iSLTIU, B Pc_plus4 Asel_rs1 Bsel_imm Imm_i Alu_sltu Br_none False St_none Ld_none Wb_alu True False Cs_n),
     (iXORI, B Pc_plus4 Asel_rs1 Bsel_imm Imm_i Alu_xor Br_none False St_none Ld_none Wb_alu True False Cs_n),
     (iORI, B Pc_plus4 Asel_rs1 Bsel_imm Imm_i Alu_or Br_none False St_none Ld_none Wb_alu True False Cs_n),
     (iANDI, B Pc_plus4 Asel_rs1 Bsel_imm Imm_i Alu_and Br_none False St_none Ld_none Wb_alu True False Cs_n),
     (iSLLI, B Pc_plus4 Asel_rs1 Bsel_imm Imm_i Alu_sll Br_none False St_none Ld_none Wb_alu True False Cs_n),
     (iSRLI, B Pc_plus4 Asel_rs1 Bsel_imm Imm_i Alu_srl Br_none False St_none Ld_none Wb_alu True False Cs_n),
     (iSRAI, B Pc_plus4 Asel_rs1 Bsel_imm Imm_i Alu_sra Br_none False St_none Ld_none Wb_alu True False Cs_n),
     (iADD, B Pc_plus4 Asel_rs1 Bsel_rs2 Imm_x Alu_add Br_none False St_none Ld_none Wb_alu True False Cs_n),
     (iSUB, B Pc_plus4 Asel_rs1 Bsel_rs2 Imm_x Alu_sub Br_none False St_none Ld_none Wb_alu True False Cs_n),
     (iSLL, B Pc_plus4 Asel_rs1 Bsel_rs2 Imm_x Alu_sll Br_none False St_none Ld_none Wb_alu True False Cs_n),
     (iSLT, B Pc_plus4 Asel_rs1 Bsel_rs2 Imm_x Alu_slt Br_none False St_none Ld_none Wb_alu True False Cs_n),
     (iSLTU, B Pc_plus4 Asel_rs1 Bsel_rs2 Imm_x Alu_sltu Br_none False St_none Ld_none Wb_alu True False Cs_n),
     (iXOR, B Pc_plus4 Asel_rs1 Bsel_rs2 Imm_x Alu_xor Br_none False St_none Ld_none Wb_alu True False Cs_n),
     (iSRL, B Pc_plus4 Asel_rs1 Bsel_rs2 Imm_x Alu_srl Br_none False St_none Ld_none Wb_alu True False Cs_n),
     (iSRA, B Pc_plus4 Asel_rs1 Bsel_rs2 Imm_x Alu_sra Br_none False St_none Ld_none Wb_alu True False Cs_n),
     (iOR, B Pc_plus4 Asel_rs1 Bsel_rs2 Imm_x Alu_or Br_none False St_none Ld_none Wb_alu True False Cs_n),
     (iAND, B Pc_plus4 Asel_rs1 Bsel_rs2 Imm_x Alu_and Br_none False St_none Ld_none Wb_alu True False Cs_n),
     (iFENCE, B Pc_plus4 Asel_none Bsel_none Imm_x Alu_none Br_none False St_none Ld_none Wb_alu False False Cs_n),
     (iFENCEI, B Pc_plus4 Asel_none Bsel_none Imm_x Alu_none Br_none False St_none Ld_none Wb_alu False False Cs_n),
     (iCSRRW, B Pc_plus0 Asel_rs1 Bsel_none Imm_x Alu_copyA Br_none True St_none Ld_none Wb_csr True False Cs_w),
     (iCSRRS, B Pc_plus0 Asel_rs1 Bsel_none Imm_x Alu_copyA Br_none True St_none Ld_none Wb_csr True False Cs_s),
     (iCSRRC, B Pc_plus0 Asel_rs1 Bsel_none Imm_x Alu_copyA Br_none True St_none Ld_none Wb_csr True False Cs_c),
     (iCSRRWI, B Pc_plus0 Asel_none Bsel_none Imm_z Alu_none Br_none True St_none Ld_none Wb_csr True False Cs_w),
     (iCSRRSI, B Pc_plus0 Asel_none Bsel_none Imm_z Alu_none Br_none True St_none Ld_none Wb_csr True False Cs_s),
     (iCSRRCI, B Pc_plus0 Asel_none Bsel_none Imm_z Alu_none Br_none True St_none Ld_none Wb_csr True False Cs_c),
     (iECALL, B Pc_plus0 Asel_none Bsel_none Imm_x Alu_none Br_none True St_none Ld_none Wb_csr False False Cs_ec),
     (iEBREAK, B Pc_plus0 Asel_none Bsel_none Imm_x Alu_none Br_none True St_none Ld_none Wb_csr False False Cs_eb),
     (iERET, B Pc_epc Asel_none Bsel_none Imm_x Alu_none Br_none True St_none Ld_none Wb_csr False False Cs_er),
     (iWFI, B Pc_plus0 Asel_none Bsel_none Imm_x Alu_none Br_none True St_none Ld_none Wb_alu False False Cs_n)]"

text \<open>The first row that matches. The patterns of \<open>ERET\<close> and \<open>WFI\<close> are the only ones that overlap, in one word
  (\<open>sret\<close>), for which the truth table of the source leaves the choice to the minimiser of the logic.\<close>

definition control :: "u32 \<Rightarrow> signals" where
  "control inst = (case find (\<lambda>(p, s). matches p inst) insts of Some (p, s) \<Rightarrow> s | None \<Rightarrow> default_signals)"

section \<open>The hardware: units\<close>

definition alu :: "alu_op \<Rightarrow> u32 \<Rightarrow> u32 \<Rightarrow> u32" where
  "alu op a b =
     (let shamt = unat (take_bit 5 b); sum = a + (if op = Alu_sub then - b else b)
      in case op of
           Alu_add \<Rightarrow> sum | Alu_sub \<Rightarrow> sum | Alu_and \<Rightarrow> a AND b | Alu_or \<Rightarrow> a OR b | Alu_xor \<Rightarrow> a XOR b
         | Alu_slt \<Rightarrow> of_bool (a <s b) | Alu_sll \<Rightarrow> push_bit shamt a | Alu_sltu \<Rightarrow> of_bool (a < b)
         | Alu_srl \<Rightarrow> drop_bit shamt a | Alu_sra \<Rightarrow> signed_drop_bit shamt a | Alu_copyB \<Rightarrow> b | _ \<Rightarrow> a)"

definition br_taken :: "br_type \<Rightarrow> u32 \<Rightarrow> u32 \<Rightarrow> bool" where
  "br_taken t rs1 rs2 =
     (let eq = (rs1 = rs2); lt = (rs1 <s rs2); ltu = (rs1 < rs2)
      in case t of Br_eq \<Rightarrow> eq | Br_ne \<Rightarrow> \<not> eq | Br_lt \<Rightarrow> lt | Br_ge \<Rightarrow> \<not> lt | Br_ltu \<Rightarrow> ltu | Br_geu \<Rightarrow> \<not> ltu
           | Br_none \<Rightarrow> False)"

text \<open>\<open>inst(hi, lo)\<close> and \<open>Cat\<close>, of parts with their widths.\<close>

definition bits :: "u32 \<Rightarrow> nat \<Rightarrow> nat \<Rightarrow> nat \<times> u32" where
  "bits inst hi lo = (hi + 1 - lo, take_bit (hi + 1 - lo) (drop_bit lo inst))"

definition cat :: "(nat \<times> u32) list \<Rightarrow> u32" where
  "cat ps = fold (\<lambda>(n, v) acc. push_bit n acc OR v) ps 0"

definition imm :: "imm_sel \<Rightarrow> u32 \<Rightarrow> u32" where
  "imm sel inst =
     (case sel of
        Imm_i \<Rightarrow> signed_take_bit 11 (cat [bits inst 31 20])
      | Imm_s \<Rightarrow> signed_take_bit 11 (cat [bits inst 31 25, bits inst 11 7])
      | Imm_b \<Rightarrow> signed_take_bit 12 (cat [bits inst 31 31, bits inst 7 7, bits inst 30 25, bits inst 11 8, (1, 0)])
      | Imm_u \<Rightarrow> cat [bits inst 31 12, (12, 0)]
      | Imm_j \<Rightarrow> signed_take_bit 20
          (cat [bits inst 31 31, bits inst 19 12, bits inst 20 20, bits inst 30 25, bits inst 24 21, (1, 0)])
      | Imm_z \<Rightarrow> cat [bits inst 19 15]
      | Imm_x \<Rightarrow> 0)"

record dmem_req =
  dm_req :: bool
  dm_we :: bool
  dm_addr :: u32
  dm_be :: "4 word"
  dm_wdata :: u32

text \<open>The bits by which the byte at an address is shifted in its word.\<close>

definition byte_shift :: "u32 \<Rightarrow> 5 word" where
  "byte_shift out = push_bit 4 (of_bool (bit out 1)) OR push_bit 3 (of_bool (bit out 0))"

definition execute :: "signals \<Rightarrow> u32 \<Rightarrow> u32 \<Rightarrow> u32 \<Rightarrow> u32 \<Rightarrow> u32 \<times> bool \<times> dmem_req" where
  "execute ctrl inst pc rs1r rs2r =
     (let a = (if s_a_sel ctrl = Asel_rs1 then rs1r else pc);
          b = (if s_b_sel ctrl = Bsel_rs2 then rs2r else imm (s_imm_sel ctrl) inst);
          out = alu (s_alu_op ctrl) a b;
          be = (case s_st_type ctrl of
                  St_sh \<Rightarrow> push_bit (unat (take_bit 2 out)) 3 | St_sb \<Rightarrow> push_bit (unat (take_bit 2 out)) 1 | _ \<Rightarrow> 15)
      in (out, br_taken (s_br_type ctrl) rs1r rs2r,
          \<lparr>dm_req = s_ld_type ctrl \<noteq> Ld_none \<or> s_st_type ctrl \<noteq> St_none, dm_we = s_st_type ctrl \<noteq> St_none,
           dm_addr = out AND NOT 3, dm_be = be, dm_wdata = push_bit (unat (byte_shift out)) rs2r\<rparr>))"

section \<open>Patterns and fields\<close>

lemma and_or_eq: "w AND (a OR b) = v AND (a OR b) \<longleftrightarrow> w AND a = v AND a \<and> w AND b = v AND b" for w :: u32
  by (auto simp: bit_eq_iff bit_simps)

lemma and_field_eq:
  "w AND push_bit k (mask n) = v AND push_bit k (mask n) \<longleftrightarrow> take_bit n (drop_bit k w) = take_bit n (drop_bit k v)"
  for w :: u32
proof -
  have p: "x AND push_bit k (mask n) = push_bit k (take_bit n (drop_bit k x))" for x :: u32
    by (rule bit_eqI) (auto simp: bit_simps)
  have d: "drop_bit k (push_bit k (take_bit n (drop_bit k x))) = take_bit n (drop_bit k x)" for x :: u32
    by (rule bit_eqI) (auto simp: bit_simps dest: bit_imp_le_length)
  show ?thesis unfolding p using d by metis
qed

lemma field_masks:
  "v AND 0x7f = v \<Longrightarrow> w AND 0x7f = v \<longleftrightarrow> opcode w = opcode v"
  "v AND 0x707f = v \<Longrightarrow> w AND 0x707f = v \<longleftrightarrow> opcode w = opcode v \<and> funct3 w = funct3 v"
  "v AND 0xfe00707f = v \<Longrightarrow>
    w AND 0xfe00707f = v \<longleftrightarrow> opcode w = opcode v \<and> funct3 w = funct3 v \<and> funct7 w = funct7 v"
proof -
  have m: "0x7f = push_bit 0 (mask 7 :: u32)" "0x707f = push_bit 0 (mask 7) OR push_bit 12 (mask 3 :: u32)"
    "0xfe00707f = push_bit 0 (mask 7) OR push_bit 12 (mask 3) OR push_bit 25 (mask 7 :: u32)"
    by code_simp+
  have f: "take_bit 7 (drop_bit 25 x) = drop_bit 25 x" for x :: u32
    by (rule bit_eqI) (auto simp: bit_simps dest: bit_imp_le_length)
  have "w AND 0x7f = v AND 0x7f \<longleftrightarrow> opcode w = opcode v"
    unfolding m(1) and_field_eq opcode_def by simp
  moreover have "w AND 0x707f = v AND 0x707f \<longleftrightarrow> opcode w = opcode v \<and> funct3 w = funct3 v"
    unfolding m(2) and_or_eq and_field_eq opcode_def funct3_def by simp
  moreover have "w AND 0xfe00707f = v AND 0xfe00707f \<longleftrightarrow> opcode w = opcode v \<and> funct3 w = funct3 v \<and> funct7 w = funct7 v"
    unfolding m(3) and_or_eq and_field_eq opcode_def funct3_def funct7_def f by simp
  ultimately show "v AND 0x7f = v \<Longrightarrow> w AND 0x7f = v \<longleftrightarrow> opcode w = opcode v"
    "v AND 0x707f = v \<Longrightarrow> w AND 0x707f = v \<longleftrightarrow> opcode w = opcode v \<and> funct3 w = funct3 v"
    "v AND 0xfe00707f = v \<Longrightarrow>
      w AND 0xfe00707f = v \<longleftrightarrow> opcode w = opcode v \<and> funct3 w = funct3 v \<and> funct7 w = funct7 v"
    by metis+
qed

lemma pattern_values:
  "iLB = (0x707f, 0x3)"
  "iLH = (0x707f, 0x1003)"
  "iLW = (0x707f, 0x2003)"
  "iLBU = (0x707f, 0x4003)"
  "iLHU = (0x707f, 0x5003)"
  "iSB = (0x707f, 0x23)"
  "iSH = (0x707f, 0x1023)"
  "iSW = (0x707f, 0x2023)"
  "iSLL = (0xfe00707f, 0x1033)"
  "iSLLI = (0xfe00707f, 0x1013)"
  "iSRL = (0xfe00707f, 0x5033)"
  "iSRLI = (0xfe00707f, 0x5013)"
  "iSRA = (0xfe00707f, 0x40005033)"
  "iSRAI = (0xfe00707f, 0x40005013)"
  "iADD = (0xfe00707f, 0x33)"
  "iADDI = (0x707f, 0x13)"
  "iSUB = (0xfe00707f, 0x40000033)"
  "iLUI = (0x7f, 0x37)"
  "iAUIPC = (0x7f, 0x17)"
  "iXOR = (0xfe00707f, 0x4033)"
  "iXORI = (0x707f, 0x4013)"
  "iOR = (0xfe00707f, 0x6033)"
  "iORI = (0x707f, 0x6013)"
  "iAND = (0xfe00707f, 0x7033)"
  "iANDI = (0x707f, 0x7013)"
  "iSLT = (0xfe00707f, 0x2033)"
  "iSLTI = (0x707f, 0x2013)"
  "iSLTU = (0xfe00707f, 0x3033)"
  "iSLTIU = (0x707f, 0x3013)"
  "iBEQ = (0x707f, 0x63)"
  "iBNE = (0x707f, 0x1063)"
  "iBLT = (0x707f, 0x4063)"
  "iBGE = (0x707f, 0x5063)"
  "iBLTU = (0x707f, 0x6063)"
  "iBGEU = (0x707f, 0x7063)"
  "iJAL = (0x7f, 0x6f)"
  "iJALR = (0x707f, 0x67)"
  "iFENCE = (0xf00fffff, 0xf)"
  "iFENCEI = (0xffffffff, 0x100f)"
  "iCSRRW = (0x707f, 0x1073)"
  "iCSRRS = (0x707f, 0x2073)"
  "iCSRRC = (0x707f, 0x3073)"
  "iCSRRWI = (0x707f, 0x5073)"
  "iCSRRSI = (0x707f, 0x6073)"
  "iCSRRCI = (0x707f, 0x7073)"
  "iECALL = (0xffffffff, 0x73)"
  "iEBREAK = (0xffffffff, 0x100073)"
  "iERET = (0xcfffffff, 0x200073)"
  "iWFI = (0xffffffff, 0x10200073)"
  by code_simp+

lemma matches_fields:
  "matches iLB w \<longleftrightarrow> opcode w = 0x3 \<and> funct3 w = 0"
  "matches iLH w \<longleftrightarrow> opcode w = 0x3 \<and> funct3 w = 1"
  "matches iLW w \<longleftrightarrow> opcode w = 0x3 \<and> funct3 w = 2"
  "matches iLBU w \<longleftrightarrow> opcode w = 0x3 \<and> funct3 w = 4"
  "matches iLHU w \<longleftrightarrow> opcode w = 0x3 \<and> funct3 w = 5"
  "matches iSB w \<longleftrightarrow> opcode w = 0x23 \<and> funct3 w = 0"
  "matches iSH w \<longleftrightarrow> opcode w = 0x23 \<and> funct3 w = 1"
  "matches iSW w \<longleftrightarrow> opcode w = 0x23 \<and> funct3 w = 2"
  "matches iSLL w \<longleftrightarrow> opcode w = 0x33 \<and> funct3 w = 1 \<and> funct7 w = 0"
  "matches iSLLI w \<longleftrightarrow> opcode w = 0x13 \<and> funct3 w = 1 \<and> funct7 w = 0"
  "matches iSRL w \<longleftrightarrow> opcode w = 0x33 \<and> funct3 w = 5 \<and> funct7 w = 0"
  "matches iSRLI w \<longleftrightarrow> opcode w = 0x13 \<and> funct3 w = 5 \<and> funct7 w = 0"
  "matches iSRA w \<longleftrightarrow> opcode w = 0x33 \<and> funct3 w = 5 \<and> funct7 w = 32"
  "matches iSRAI w \<longleftrightarrow> opcode w = 0x13 \<and> funct3 w = 5 \<and> funct7 w = 32"
  "matches iADD w \<longleftrightarrow> opcode w = 0x33 \<and> funct3 w = 0 \<and> funct7 w = 0"
  "matches iADDI w \<longleftrightarrow> opcode w = 0x13 \<and> funct3 w = 0"
  "matches iSUB w \<longleftrightarrow> opcode w = 0x33 \<and> funct3 w = 0 \<and> funct7 w = 32"
  "matches iLUI w \<longleftrightarrow> opcode w = 0x37"
  "matches iAUIPC w \<longleftrightarrow> opcode w = 0x17"
  "matches iXOR w \<longleftrightarrow> opcode w = 0x33 \<and> funct3 w = 4 \<and> funct7 w = 0"
  "matches iXORI w \<longleftrightarrow> opcode w = 0x13 \<and> funct3 w = 4"
  "matches iOR w \<longleftrightarrow> opcode w = 0x33 \<and> funct3 w = 6 \<and> funct7 w = 0"
  "matches iORI w \<longleftrightarrow> opcode w = 0x13 \<and> funct3 w = 6"
  "matches iAND w \<longleftrightarrow> opcode w = 0x33 \<and> funct3 w = 7 \<and> funct7 w = 0"
  "matches iANDI w \<longleftrightarrow> opcode w = 0x13 \<and> funct3 w = 7"
  "matches iSLT w \<longleftrightarrow> opcode w = 0x33 \<and> funct3 w = 2 \<and> funct7 w = 0"
  "matches iSLTI w \<longleftrightarrow> opcode w = 0x13 \<and> funct3 w = 2"
  "matches iSLTU w \<longleftrightarrow> opcode w = 0x33 \<and> funct3 w = 3 \<and> funct7 w = 0"
  "matches iSLTIU w \<longleftrightarrow> opcode w = 0x13 \<and> funct3 w = 3"
  "matches iBEQ w \<longleftrightarrow> opcode w = 0x63 \<and> funct3 w = 0"
  "matches iBNE w \<longleftrightarrow> opcode w = 0x63 \<and> funct3 w = 1"
  "matches iBLT w \<longleftrightarrow> opcode w = 0x63 \<and> funct3 w = 4"
  "matches iBGE w \<longleftrightarrow> opcode w = 0x63 \<and> funct3 w = 5"
  "matches iBLTU w \<longleftrightarrow> opcode w = 0x63 \<and> funct3 w = 6"
  "matches iBGEU w \<longleftrightarrow> opcode w = 0x63 \<and> funct3 w = 7"
  "matches iJAL w \<longleftrightarrow> opcode w = 0x6f"
  "matches iJALR w \<longleftrightarrow> opcode w = 0x67 \<and> funct3 w = 0"
  "matches iCSRRW w \<longleftrightarrow> opcode w = 0x73 \<and> funct3 w = 1"
  "matches iCSRRS w \<longleftrightarrow> opcode w = 0x73 \<and> funct3 w = 2"
  "matches iCSRRC w \<longleftrightarrow> opcode w = 0x73 \<and> funct3 w = 3"
  "matches iCSRRWI w \<longleftrightarrow> opcode w = 0x73 \<and> funct3 w = 5"
  "matches iCSRRSI w \<longleftrightarrow> opcode w = 0x73 \<and> funct3 w = 6"
  "matches iCSRRCI w \<longleftrightarrow> opcode w = 0x73 \<and> funct3 w = 7"
  by (simp_all add: matches_def pattern_values field_masks opcode_def funct3_def funct7_def)

end
