(* ===== verification/CpuControl.thy ===== *)
theory CpuControl
  imports CpuDecode
begin

text \<open>
  The decoder of the processor against the encoding of the instruction set: immediates, and the row of the
  control table of every instruction.
\<close>

section \<open>Immediates\<close>

lemma word32_eqI:
  fixes v w :: u32
  assumes "list_all (\<lambda>n. bit v n = bit w n)
    [0, 1, 2, 3, 4, 5, 6, 7, 8, 9, 10, 11, 12, 13, 14, 15, 16, 17, 18, 19, 20, 21, 22, 23, 24, 25, 26, 27, 28, 29, 30, 31]"
  shows "v = w"
proof (rule bit_word_eqI)
  fix n assume n: "n < LENGTH(32)"
  have "[0, 1, 2, 3, 4, 5, 6, 7, 8, 9, 10, 11, 12, 13, 14, 15, 16, 17, 18, 19, 20, 21, 22, 23, 24, 25, 26, 27, 28, 29, 30, 31] = [0..<32]"
    by (simp add: upt_rec)
  with assms have "list_all (\<lambda>n. bit v n = bit w n) [0..<32]" by (simp only:)
  with n show "bit v n = bit w n" by (simp add: list_all_iff)
qed

lemma imm_eqs:
  "imm Imm_i w = imm_i w"
  "imm Imm_s w = imm_s w"
  "imm Imm_b w = imm_b w"
  "imm Imm_u w = imm_u w"
  "imm Imm_j w = imm_j w"
  by (rule word32_eqI, simp add: imm_def imm_i_def imm_s_def imm_b_def imm_u_def imm_j_def cat_def bits_def bit_simps
    del: push_bit_Suc take_bit_Suc_0 push_bit_or)+

section \<open>Control signals\<close>

fun alu_of :: "arith \<Rightarrow> alu_op" where
  "alu_of A_add = Alu_add" | "alu_of A_sub = Alu_sub" | "alu_of A_sll = Alu_sll" | "alu_of A_slt = Alu_slt"
| "alu_of A_sltu = Alu_sltu" | "alu_of A_xor = Alu_xor" | "alu_of A_srl = Alu_srl" | "alu_of A_sra = Alu_sra"
| "alu_of A_or = Alu_or" | "alu_of A_and = Alu_and"

fun br_of :: "cond \<Rightarrow> br_type" where
  "br_of C_eq = Br_eq" | "br_of C_ne = Br_ne" | "br_of C_lt = Br_lt" | "br_of C_ge = Br_ge"
| "br_of C_ltu = Br_ltu" | "br_of C_geu = Br_geu"

fun ld_of :: "width \<Rightarrow> ld_type" where
  "ld_of W_b = Ld_lb" | "ld_of W_h = Ld_lh" | "ld_of W_w = Ld_lw" | "ld_of W_bu = Ld_lbu" | "ld_of W_hu = Ld_lhu"

fun st_of :: "width \<Rightarrow> st_type" where
  "st_of W_b = St_sb" | "st_of W_h = St_sh" | "st_of W_w = St_sw" | "st_of W_bu = St_sb" | "st_of W_hu = St_sh"

fun cs_of :: "csr_op \<Rightarrow> csr_type" where
  "cs_of Csr_write = Cs_w" | "cs_of Csr_set = Cs_s" | "cs_of Csr_clear = Cs_c"

text \<open>The row of the control table an instruction must have.\<close>

fun sig_of :: "instr \<Rightarrow> signals" where
  "sig_of (Lui rd v) = B Pc_plus4 Asel_pc Bsel_imm Imm_u Alu_copyB Br_none False St_none Ld_none Wb_alu True False Cs_n"
| "sig_of (Auipc rd v) = B Pc_plus4 Asel_pc Bsel_imm Imm_u Alu_add Br_none False St_none Ld_none Wb_alu True False Cs_n"
| "sig_of (Jal rd v) = B Pc_alu Asel_pc Bsel_imm Imm_j Alu_add Br_none True St_none Ld_none Wb_pc4 True False Cs_n"
| "sig_of (Jalr rd r v) = B Pc_alu Asel_rs1 Bsel_imm Imm_i Alu_add Br_none True St_none Ld_none Wb_pc4 True False Cs_n"
| "sig_of (Branch k r s v) = B Pc_plus4 Asel_pc Bsel_imm Imm_b Alu_add (br_of k) False St_none Ld_none Wb_alu False False Cs_n"
| "sig_of (Load k rd r v) = B Pc_plus0 Asel_rs1 Bsel_imm Imm_i Alu_add Br_none True St_none (ld_of k) Wb_mem True False Cs_n"
| "sig_of (Store k r s v) = B Pc_plus4 Asel_rs1 Bsel_imm Imm_s Alu_add Br_none False (st_of k) Ld_none Wb_alu False False Cs_n"
| "sig_of (Op_imm k rd r v) = B Pc_plus4 Asel_rs1 Bsel_imm Imm_i (alu_of k) Br_none False St_none Ld_none Wb_alu True False Cs_n"
| "sig_of (Op k rd r s) = B Pc_plus4 Asel_rs1 Bsel_rs2 Imm_x (alu_of k) Br_none False St_none Ld_none Wb_alu True False Cs_n"
| "sig_of Fence = B Pc_plus4 Asel_none Bsel_none Imm_x Alu_none Br_none False St_none Ld_none Wb_alu False False Cs_n"
| "sig_of (Csr k rd r n) = B Pc_plus0 Asel_rs1 Bsel_none Imm_x Alu_copyA Br_none True St_none Ld_none Wb_csr True False (cs_of k)"
| "sig_of (Csri k rd u n) = B Pc_plus0 Asel_none Bsel_none Imm_z Alu_none Br_none True St_none Ld_none Wb_csr True False (cs_of k)"
| "sig_of Ecall = B Pc_plus0 Asel_none Bsel_none Imm_x Alu_none Br_none True St_none Ld_none Wb_csr False False Cs_ec"
| "sig_of Ebreak = B Pc_plus0 Asel_none Bsel_none Imm_x Alu_none Br_none True St_none Ld_none Wb_csr False False Cs_eb"
| "sig_of Mret = B Pc_epc Asel_none Bsel_none Imm_x Alu_none Br_none True St_none Ld_none Wb_csr False False Cs_er"

lemma control_fixed: "control 0x73 = sig_of Ecall" "control 0x100073 = sig_of Ebreak" "control 0x30200073 = sig_of Mret"
  by (code_simp, code_simp, code_simp)

lemma opcode_of_and: "w AND m = v \<Longrightarrow> m AND 0x7f = 0x7f \<Longrightarrow> opcode w = v AND 0x7f"
proof -
  assume a: "w AND m = v" "m AND 0x7f = 0x7f"
  have "opcode w = w AND 0x7f"
    by (simp add: opcode_def take_bit_eq_mask mask_eq_exp_minus_1)
  then show ?thesis using a by (metis and.assoc and.commute)
qed

lemma matches_opcode:
  "opcode w \<noteq> 0xf \<Longrightarrow> \<not> matches iFENCE w" "opcode w \<noteq> 0xf \<Longrightarrow> \<not> matches iFENCEI w"
  "opcode w \<noteq> 0x73 \<Longrightarrow> \<not> matches iECALL w" "opcode w \<noteq> 0x73 \<Longrightarrow> \<not> matches iEBREAK w"
  "opcode w \<noteq> 0x73 \<Longrightarrow> \<not> matches iERET w" "opcode w \<noteq> 0x73 \<Longrightarrow> \<not> matches iWFI w"
  by (auto simp: matches_def pattern_values dest!: opcode_of_and)

lemma funct3_cases: "funct3 w \<in> {0, 1, 2, 3, 4, 5, 6, 7}"
proof -
  have "unat (funct3 w) < 8"
    by (simp add: funct3_def take_bit_eq_mod unat_mod_distrib)
  then have "unat (funct3 w) \<in> {0, 1, 2, 3, 4, 5, 6, 7}" by auto
  then have "funct3 w \<in> of_nat ` {0, 1, 2, 3, 4, 5, 6, 7}"
    by (metis imageI of_nat_unat)
  then show ?thesis by simp
qed

lemmas control_simps = control_def insts_def matches_fields matches_opcode

lemma control_op: "opcode w = 0x33 \<Longrightarrow> op_arith (funct3 w) (funct7 w) = Some k \<Longrightarrow> control w = sig_of (Op k rd r s)"
  using funct3_cases [of w] by (auto simp: op_arith_def control_simps split: if_splits)

lemma control_op_imm:
  "opcode w = 0x13 \<Longrightarrow> imm_arith (funct3 w) (funct7 w) = Some k \<Longrightarrow> control w = sig_of (Op_imm k rd r v)"
  using funct3_cases [of w] by (auto simp: op_arith_def imm_arith_def control_simps split: if_splits)

lemma control_branch: "opcode w = 0x63 \<Longrightarrow> branch_cond (funct3 w) = Some k \<Longrightarrow> control w = sig_of (Branch k r s v)"
  by (auto simp: branch_cond_def control_simps split: if_splits)

lemma control_load: "opcode w = 0x3 \<Longrightarrow> load_width (funct3 w) = Some k \<Longrightarrow> control w = sig_of (Load k rd r v)"
  by (auto simp: load_width_def control_simps split: if_splits)

lemma control_store: "opcode w = 0x23 \<Longrightarrow> store_width (funct3 w) = Some k \<Longrightarrow> control w = sig_of (Store k r s v)"
  by (auto simp: store_width_def control_simps split: if_splits)

lemma control_jump:
  "opcode w = 0x37 \<Longrightarrow> control w = sig_of (Lui rd v)"
  "opcode w = 0x17 \<Longrightarrow> control w = sig_of (Auipc rd v)"
  "opcode w = 0x6f \<Longrightarrow> control w = sig_of (Jal rd v)"
  "opcode w = 0x67 \<Longrightarrow> funct3 w = 0 \<Longrightarrow> control w = sig_of (Jalr rd r v)"
  by (simp_all add: control_simps)

lemma control_csr:
  "opcode w = 0x73 \<Longrightarrow> csr_fun (funct3 w) = Some k \<Longrightarrow> control w = sig_of (Csr k rd r n)"
  "opcode w = 0x73 \<Longrightarrow> \<not> funct3 w < 4 \<Longrightarrow> csr_fun (funct3 w - 4) = Some k \<Longrightarrow> control w = sig_of (Csri k rd u n)"
  using funct3_cases [of w] by (auto simp: csr_fun_def control_simps split: if_splits)

lemma control_fence: "w AND 0xf00fffff = 0xf \<or> w = 0x100f \<Longrightarrow> control w = sig_of Fence"
proof -
  assume a: "w AND 0xf00fffff = 0xf \<or> w = 0x100f"
  have "opcode w = 0xf" using a by (auto simp: opcode_def dest: opcode_of_and [unfolded opcode_def])
  moreover have "matches iFENCE w \<or> matches iFENCEI w"
    using a by (auto simp: matches_def pattern_values)
  ultimately show ?thesis by (auto simp: control_simps)
qed

text \<open>The table gives every instruction its row.\<close>

lemma control_sig: "decode w = Some i \<Longrightarrow> control w = sig_of i"
  by (auto simp: decode_def Let_def control_op control_op_imm control_branch control_load control_store control_jump
      control_csr control_fence control_fixed split: if_splits simp del: sig_of.simps)

lemma sig_of_legal: "\<not> s_illegal (sig_of i)"
  by (cases i) (simp_all add: B_def)

lemma legal_matches: "\<not> s_illegal (control w) \<Longrightarrow> \<exists>p \<in> fst ` set insts. matches p w"
proof (rule ccontr)
  assume legal: "\<not> s_illegal (control w)" and no: "\<not> (\<exists>p \<in> fst ` set insts. matches p w)"
  then have "find (\<lambda>(p, s). matches p w) insts = None"
    by (auto simp: find_None_iff simp del: insts_def)
  with legal show False
    by (simp add: control_def default_signals_def B_def)
qed

lemma matches_eret: "matches iERET w \<Longrightarrow> w \<in> {0x200073, 0x10200073, 0x20200073, 0x30200073}"
proof -
  assume "matches iERET w"
  then have m: "w AND 0xcfffffff = 0x200073" by (simp add: matches_def pattern_values)
  have "w = w AND 0xcfffffff OR w AND (push_bit 28 3)"
    by (rule word32_eqI) (simp add: bit_simps)
  also have "w AND push_bit 28 3 = push_bit 28 (take_bit 2 (drop_bit 28 w))"
    by (rule word32_eqI) (simp add: bit_simps)
  finally have w: "w = 0x200073 OR push_bit 28 (take_bit 2 (drop_bit 28 w))" by (simp add: m)
  have "unat (take_bit 2 (drop_bit 28 w)) < 4"
    by (simp add: take_bit_eq_mod unat_mod_distrib)
  then have "unat (take_bit 2 (drop_bit 28 w)) \<in> {0, 1, 2, 3}" by auto
  then have "take_bit 2 (drop_bit 28 w) \<in> of_nat ` {0, 1, 2, 3}" by (metis imageI of_nat_unat)
  then have "take_bit 2 (drop_bit 28 w) \<in> {0, 1, 2, 3}" by simp
  then show ?thesis using w by (elim insertE emptyE) (simp_all add: push_bit_eq_mult)
qed

lemmas decode_simps = decode_def Let_def matches_fields op_arith_def imm_arith_def branch_cond_def load_width_def
  store_width_def csr_fun_def

lemma and_ones: "w AND 0xffffffff = w" for w :: u32
  by (rule word32_eqI) (simp add: bit_simps)

lemma matches_fence_decode:
  "matches iFENCE w \<Longrightarrow> decode w \<noteq> None" "matches iFENCEI w \<Longrightarrow> decode w \<noteq> None"
  by (auto simp: matches_def pattern_values and_ones decode_def Let_def opcode_def
      dest: opcode_of_and [unfolded opcode_def])

lemma matches_system_decode:
  "matches iECALL w \<Longrightarrow> decode w \<noteq> None" "matches iEBREAK w \<Longrightarrow> decode w \<noteq> None"
  "matches iERET w \<Longrightarrow> decode w \<noteq> None \<or> w \<in> {0x200073, 0x10200073, 0x20200073}"
  "matches iWFI w \<Longrightarrow> decode w \<noteq> None \<or> w \<in> {0x200073, 0x10200073, 0x20200073}"
  using matches_eret [of w] by (auto simp: matches_def pattern_values and_ones decode_def Let_def opcode_def)

lemma matches_decode:
  assumes "p \<in> fst ` set insts" "matches p w"
  shows "decode w \<noteq> None \<or> w \<in> {0x200073, 0x10200073, 0x20200073}"
proof -
  have "list_all (\<lambda>p. matches p w \<longrightarrow> decode w \<noteq> None \<or> w \<in> {0x200073, 0x10200073, 0x20200073}) (map fst insts)"
    unfolding insts_def list.map fst_conv list.pred_inject
    by (intro conjI TrueI impI;
        (erule matches_system_decode matches_fence_decode [THEN disjI1] matches_system_decode [THEN disjI1]
         | rule disjI1, simp add: decode_simps | rule list.pred_inject(1)))
  then show ?thesis using assms by (auto simp: list_all_iff)
qed

lemma control_returns:
  "\<not> s_illegal (control 0x200073)" "\<not> s_illegal (control 0x10200073)" "\<not> s_illegal (control 0x20200073)"
  by (code_simp, code_simp, code_simp)

text \<open>C7: the decoder accepts exactly the instructions of the instruction set and, besides, the three words
  that are \<open>uret\<close>, \<open>sret\<close> and \<open>hret\<close>; every instruction has the control signals it needs.\<close>

theorem control_decodes:
  "case decode w of Some i \<Rightarrow> control w = sig_of i
   | None \<Rightarrow> s_illegal (control w) = (w \<notin> {0x200073, 0x10200073, 0x20200073})"
proof (cases "decode w")
  case None
  show ?thesis
  proof (cases "w \<in> {0x200073, 0x10200073, 0x20200073}")
    case True
    with None control_returns show ?thesis by auto
  next
    case False
    have "s_illegal (control w)"
    proof (rule ccontr)
      assume "\<not> s_illegal (control w)"
      then obtain p where "p \<in> fst ` set insts" "matches p w" using legal_matches by blast
      then show False using matches_decode None False by blast
    qed
    with None False show ?thesis by simp
  qed
qed (simp add: control_sig)

end
