(* ===== verification/CpuPipeline.thy ===== *)
theory CpuPipeline
  imports CpuDecode
begin

text \<open>
  The clocked parts of the processor: the control and status registers of \<^verbatim>\<open>Csr.scala\<close>, the units of
  \<^verbatim>\<open>Writeback.scala\<close>, \<^verbatim>\<open>RegFile.scala\<close> and \<^verbatim>\<open>Fetch.scala\<close>, and \<^verbatim>\<open>Core.scala\<close>, which connects them to a pipeline
  of three stages. \<open>core_cycle\<close> is one clock without reset, \<open>core_clock\<close> one with the reset line. Registers
  that are written and never read (\<open>prev_imem_rd_req\<close> and its two neighbours) are left out, and so are the
  inputs \<open>gnt\<close>, which the core does not read.
\<close>

section \<open>The control and status registers\<close>

record csr_regs =
  cr_mei_p :: bool
  cr_mei_e :: bool
  cr_mti_p :: bool
  cr_mti_e :: bool
  cr_msi_p :: bool
  cr_msi_e :: bool
  cr_mpp :: "2 word"
  cr_mpie :: bool
  cr_mie :: bool
  cr_priv :: "2 word"
  cr_cycle :: u32
  cr_time :: u32
  cr_instret :: u32
  cr_cycleh :: u32
  cr_timeh :: u32
  cr_instreth :: u32
  cr_mtvec :: u32
  cr_mscratch :: u32
  cr_mepc :: u32
  cr_mcause :: u32
  cr_mtval :: u32

definition csr_reset :: "u32 \<Rightarrow> csr_regs" where
  "csr_reset boot =
     \<lparr>cr_mei_p = False, cr_mei_e = False, cr_mti_p = False, cr_mti_e = False, cr_msi_p = False, cr_msi_e = False,
      cr_mpp = 3, cr_mpie = False, cr_mie = False, cr_priv = 3,
      cr_cycle = 0, cr_time = 0, cr_instret = 0, cr_cycleh = 0, cr_timeh = 0, cr_instreth = 0,
      cr_mtvec = boot, cr_mscratch = 0, cr_mepc = 0, cr_mcause = 0, cr_mtval = 0\<rparr>"

text \<open>The map \<open>regs\<close>, as far as it is read; every other address reads 0.\<close>

definition csr_rdata :: "csr_regs \<Rightarrow> 12 word \<Rightarrow> u32" where
  "csr_rdata k n =
     (if n = 0xc00 then cr_cycle k else if n = 0xc01 then cr_time k else if n = 0xc02 then cr_instret k
      else if n = 0xc80 then cr_cycleh k else if n = 0xc81 then cr_timeh k else if n = 0xc82 then cr_instreth k
      else if n = 0xf13 then 5000
      else if n = 0x300 then cat [(19, 0), (2, ucast (cr_mpp k)), (3, 0), (1, of_bool (cr_mpie k)), (3, 0), (1, of_bool (cr_mie k)), (3, 0)]
      else if n = 0x301 then cat [(2, 1), (4, 0), (26, push_bit 8 1 OR push_bit 20 1)]
      else if n = 0x344 then cat [(20, 0), (1, of_bool (cr_mei_p k)), (3, 0), (1, of_bool (cr_mti_p k)), (3, 0), (1, of_bool (cr_msi_p k)), (3, 0)]
      else if n = 0x304 then cat [(20, 0), (1, of_bool (cr_mei_e k)), (3, 0), (1, of_bool (cr_mti_e k)), (3, 0), (1, of_bool (cr_msi_e k)), (3, 0)]
      else if n = 0x305 then cr_mtvec k else if n = 0x340 then cr_mscratch k else if n = 0x341 then cr_mepc k
      else if n = 0x342 then cr_mcause k else if n = 0x343 then cr_mtval k else 0)"

definition csr_count :: "csr_regs \<Rightarrow> csr_regs" where
  "csr_count k = k\<lparr>cr_time := cr_time k + 1, cr_timeh := (if cr_time k = - 1 then cr_timeh k + 1 else cr_timeh k),
     cr_cycle := cr_cycle k + 1, cr_cycleh := (if cr_cycle k = - 1 then cr_cycleh k + 1 else cr_cycleh k)\<rparr>"

text \<open>What the unit is given: the signals of the instruction in the last stage, the request its fetch made,
  and the answers of the two memories.\<close>

record csr_in =
  ci_type :: csr_type
  ci_illegal :: bool
  ci_imem_req :: bool
  ci_imem_addr :: u32
  ci_imem_rvalid :: bool
  ci_imem_err :: bool
  ci_dmem_req :: bool
  ci_dmem_addr :: u32
  ci_dmem_rvalid :: bool
  ci_dmem_err :: bool
  ci_pc :: u32
  ci_csr :: "12 word"
  ci_rs1 :: "5 word"
  ci_wdata :: u32

definition ifault :: "csr_in \<Rightarrow> bool" where
  "ifault i \<longleftrightarrow> ci_imem_err i \<and> ci_imem_rvalid i"

definition dfault :: "csr_in \<Rightarrow> bool" where
  "dfault i \<longleftrightarrow> ci_dmem_err i \<and> ci_dmem_rvalid i"

definition imisalign :: "csr_in \<Rightarrow> bool" where
  "imisalign i \<longleftrightarrow> ci_imem_req i \<and> take_bit 2 (ci_imem_addr i) \<noteq> 0"

definition dmisalign :: "csr_in \<Rightarrow> bool" where
  "dmisalign i \<longleftrightarrow> ci_dmem_req i \<and> take_bit 2 (ci_dmem_addr i) \<noteq> 0"

definition illegal_priv :: "csr_in \<Rightarrow> csr_regs \<Rightarrow> bool" where
  "illegal_priv i k \<longleftrightarrow> cr_priv k \<noteq> 3 \<and> ci_type i \<notin> {Cs_ec, Cs_eb, Cs_er}"

definition csr_exception :: "csr_in \<Rightarrow> csr_regs \<Rightarrow> bool" where
  "csr_exception i k \<longleftrightarrow> ci_type i = Cs_ec \<or> ci_type i = Cs_eb \<or> ci_illegal i \<or> illegal_priv i k \<or> ifault i \<or> dfault i
     \<or> imisalign i \<or> dmisalign i"

definition csr_cause :: "csr_in \<Rightarrow> csr_regs \<Rightarrow> u32" where
  "csr_cause i k =
     (if ifault i then 1 else if dfault i then 5 else if imisalign i then 0 else if dmisalign i then 4
      else if ci_type i = Cs_ec \<and> cr_priv k = 3 then 11 else if ci_type i = Cs_ec \<and> cr_priv k = 0 then 8
      else if ci_type i = Cs_eb then 3 else if ci_illegal i then 2 else if illegal_priv i k then 2 else 0)"

definition csr_wdata :: "csr_in \<Rightarrow> csr_regs \<Rightarrow> u32" where
  "csr_wdata i k =
     (case ci_type i of Cs_w \<Rightarrow> ci_wdata i | Cs_s \<Rightarrow> csr_rdata k (ci_csr i) OR ci_wdata i
      | Cs_c \<Rightarrow> csr_rdata k (ci_csr i) AND NOT (ci_wdata i) | _ \<Rightarrow> 0)"

definition csr_write :: "12 word \<Rightarrow> u32 \<Rightarrow> csr_regs \<Rightarrow> csr_regs" where
  "csr_write n v k =
     (if n = 0x300 then k\<lparr>cr_mpp := ucast (drop_bit 11 v), cr_mpie := bit v 7, cr_mie := bit v 3\<rparr>
      else if n = 0x344 then k\<lparr>cr_mei_p := bit v 11, cr_mti_p := bit v 7, cr_msi_p := bit v 3\<rparr>
      else if n = 0x304 then k\<lparr>cr_mei_e := bit v 11, cr_mti_e := bit v 7, cr_msi_e := bit v 3\<rparr>
      else if n = 0x340 then k\<lparr>cr_mscratch := v\<rparr> else if n = 0x305 then k\<lparr>cr_mtvec := v\<rparr>
      else if n = 0x341 then k\<lparr>cr_mepc := push_bit 2 (drop_bit 2 v)\<rparr> else if n = 0x342 then k\<lparr>cr_mcause := v\<rparr> else k)"

text \<open>The target of a trap or return, if any, and the registers after the clock.\<close>

definition csr_unit :: "csr_in \<Rightarrow> csr_regs \<Rightarrow> u32 option \<times> csr_regs" where
  "csr_unit i k =
     (let k' = csr_count k
      in if csr_exception i k
         then (Some (cr_mtvec k),
               k'\<lparr>cr_mepc := push_bit 2 (drop_bit 2 (ci_pc i)), cr_mcause := csr_cause i k, cr_priv := 3,
                  cr_mie := False, cr_mpie := cr_mie k, cr_mpp := cr_priv k\<rparr>)
         else if ci_type i = Cs_er
         then (Some (cr_mepc k), k'\<lparr>cr_priv := cr_mpp k, cr_mie := cr_mpie k, cr_mpp := 0, cr_mpie := True\<rparr>)
         else if ci_type i = Cs_w \<or> ci_type i = Cs_s \<or> ci_type i = Cs_c \<and> ci_rs1 i \<noteq> 0
         then (None, csr_write (ci_csr i) (csr_wdata i k) k')
         else (None, k'))"

section \<open>Write-back, register file, fetch\<close>

definition load_result :: "ld_type \<Rightarrow> u32 \<Rightarrow> u32 \<Rightarrow> u32" where
  "load_result t ld alu_out =
     (let ldshift = drop_bit (unat (byte_shift alu_out)) ld
      in case t of Ld_lh \<Rightarrow> signed_take_bit 15 (snd (bits ldshift 15 0)) | Ld_lb \<Rightarrow> signed_take_bit 7 (snd (bits ldshift 7 0))
         | Ld_lhu \<Rightarrow> snd (bits ldshift 15 0) | Ld_lbu \<Rightarrow> snd (bits ldshift 7 0) | _ \<Rightarrow> ld)"

definition writeback :: "wb_sel \<Rightarrow> ld_type \<Rightarrow> u32 \<Rightarrow> u32 \<Rightarrow> u32 \<Rightarrow> u32 \<Rightarrow> u32" where
  "writeback sel ldt ld pc alu_out csr_rd =
     (case sel of Wb_alu \<Rightarrow> alu_out | Wb_mem \<Rightarrow> load_result ldt ld alu_out | Wb_pc4 \<Rightarrow> pc + 4 | Wb_csr \<Rightarrow> csr_rd)"

type_synonym regfile = "5 word \<Rightarrow> u32"

definition rf_write :: "bool \<Rightarrow> 5 word \<Rightarrow> u32 \<Rightarrow> regfile \<Rightarrow> regfile" where
  "rf_write wen waddr wdata rf = (if wen \<and> waddr \<noteq> 0 then rf(waddr := wdata) else rf)"

definition fetch_next :: "u32 option \<Rightarrow> bool \<Rightarrow> pc_sel \<Rightarrow> bool \<Rightarrow> u32 \<Rightarrow> u32 \<Rightarrow> u32" where
  "fetch_next epc stall sel taken alu_out pc =
     (case epc of Some t \<Rightarrow> t
      | None \<Rightarrow> if stall \<or> sel = Pc_plus0 then pc else if sel = Pc_alu \<or> taken then alu_out AND NOT 1 else pc + 4)"

section \<open>The pipeline\<close>

definition NOP :: u32 where "NOP = snd (bitpat ''00000000000000000000000000010011'')"

record cpu =
  c_started :: bool
  c_pc :: u32
  c_rf :: regfile
  c_csr :: csr_regs
  fe_pc :: u32
  fe_inst :: u32
  fe_imem_req :: bool
  fe_imem_addr :: u32
  ew_dmem_req :: bool
  ew_dmem_addr :: u32
  ew_imem_req :: bool
  ew_imem_addr :: u32
  ew_imem_rvalid :: bool
  ew_imem_err :: bool
  ew_wb_sel :: wb_sel
  ew_wb_en :: bool
  ew_ld_type :: ld_type
  ew_csr_type :: csr_type
  ew_illegal :: bool
  ew_rd :: "5 word"
  ew_pc :: u32
  ew_alu_out :: u32
  ew_csr :: "12 word"
  ew_rs1 :: "5 word"
  ew_rs1r :: u32

text \<open>The answers of the two memories to the requests of the cycle before.\<close>

record core_in =
  im_rvalid :: bool
  im_err :: bool
  im_rdata :: u32
  dm_rvalid :: bool
  dm_err :: bool
  dm_rdata :: u32

text \<open>A source register as the second stage sees it: from the register file or, if the instruction before
  is writing it from the ALU, from there.\<close>

definition rs_value :: "cpu \<Rightarrow> 5 word \<Rightarrow> u32" where
  "rs_value c r =
     (if ew_wb_en c \<and> ew_wb_sel c = Wb_alu \<and> r \<noteq> 0 \<and> r = ew_rd c then ew_alu_out c else c_rf c r)"

definition core_csr_in :: "core_in \<Rightarrow> cpu \<Rightarrow> csr_in" where
  "core_csr_in i c =
     \<lparr>ci_type = ew_csr_type c, ci_illegal = ew_illegal c, ci_imem_req = ew_imem_req c, ci_imem_addr = ew_imem_addr c,
      ci_imem_rvalid = ew_imem_rvalid c, ci_imem_err = ew_imem_err c, ci_dmem_req = ew_dmem_req c,
      ci_dmem_addr = ew_dmem_addr c, ci_dmem_rvalid = dm_rvalid i, ci_dmem_err = dm_err i, ci_pc = ew_pc c,
      ci_csr = ew_csr c, ci_rs1 = ew_rs1 c, ci_wdata = ew_rs1r c\<rparr>"

definition core_rf :: "core_in \<Rightarrow> cpu \<Rightarrow> regfile" where
  "core_rf i c = rf_write (ew_wb_en c) (ew_rd c)
     (writeback (ew_wb_sel c) (ew_ld_type c) (dm_rdata i) (ew_pc c) (ew_alu_out c) (csr_rdata (c_csr c) (ew_csr c))) (c_rf c)"

definition core_execute :: "cpu \<Rightarrow> u32 \<times> bool \<times> dmem_req" where
  "core_execute c = execute (control (fe_inst c)) (fe_inst c) (fe_pc c)
     (rs_value c (ucast (drop_bit 15 (fe_inst c)))) (rs_value c (ucast (drop_bit 20 (fe_inst c))))"

text \<open>One clock: the address of the next fetch, the request to the data memory, and the registers after it.\<close>

definition core_cycle :: "core_in \<Rightarrow> cpu \<Rightarrow> u32 \<times> dmem_req \<times> cpu" where
  "core_cycle i c =
     (let sig = control (fe_inst c); rs1 = ucast (drop_bit 15 (fe_inst c)); stall = c_started c;
          (out, taken, dreq) = core_execute c;
          (epc, csr') = csr_unit (core_csr_in i c) (c_csr c);
          pc' = fetch_next epc stall (s_pc_sel sig) taken out (c_pc c);
          flush = s_inst_kill sig \<or> taken \<or> epc \<noteq> None \<or> c_started c;
          c1 = c\<lparr>c_started := False, c_pc := pc', c_rf := core_rf i c, c_csr := csr'\<rparr>;
          c2 = (if stall then c1 else
            c1\<lparr>fe_pc := c_pc c, fe_inst := if flush then NOP else im_rdata i, fe_imem_req := True, fe_imem_addr := pc',
               ew_dmem_req := dm_req dreq, ew_dmem_addr := dm_addr dreq, ew_imem_req := fe_imem_req c,
               ew_imem_addr := fe_imem_addr c, ew_imem_rvalid := im_rvalid i, ew_imem_err := im_err i,
               ew_wb_sel := s_wb_sel sig, ew_wb_en := s_wb_en sig, ew_ld_type := s_ld_type sig,
               ew_csr_type := s_csr_type sig, ew_illegal := s_illegal sig,
               ew_rd := ucast (drop_bit 7 (fe_inst c)), ew_pc := fe_pc c, ew_alu_out := out,
               ew_csr := ucast (drop_bit 20 (fe_inst c)), ew_rs1 := rs1, ew_rs1r := rs_value c rs1\<rparr>)
      in (pc', dreq, c2))"

text \<open>With the reset line up the registers that have an initial value take it, whatever they are connected
  to, \<open>started\<close> too.\<close>

definition core_reset :: "u32 \<Rightarrow> cpu \<Rightarrow> cpu" where
  "core_reset boot c = c\<lparr>c_started := False, c_pc := boot, c_csr := csr_reset boot, fe_inst := NOP, fe_imem_req := False,
     ew_dmem_req := False, ew_imem_req := False, ew_imem_rvalid := False, ew_imem_err := False, ew_wb_sel := Wb_alu,
     ew_wb_en := False, ew_ld_type := Ld_none, ew_csr_type := Cs_n, ew_illegal := False\<rparr>"

definition core_clock :: "u32 \<Rightarrow> bool \<Rightarrow> core_in \<Rightarrow> cpu \<Rightarrow> u32 \<times> dmem_req \<times> cpu" where
  "core_clock boot rst i c =
     (case core_cycle i c of (addr, dreq, c') \<Rightarrow> (addr, dreq, if rst then core_reset boot c' else c'))"

end
