(* ===== verification/CpuStep.thy ===== *)
theory CpuStep
  imports CpuControl CpuPipeline
begin

text \<open>
  What the second stage of the processor computes for each instruction, and what is written back: the operations
  of the instruction set.
\<close>

section \<open>Operands\<close>

fun fields_ok :: "u32 \<Rightarrow> instr \<Rightarrow> bool" where
  "fields_ok w (Lui rd v) = (rd = f_rd w \<and> v = imm_u w)"
| "fields_ok w (Auipc rd v) = (rd = f_rd w \<and> v = imm_u w)"
| "fields_ok w (Jal rd v) = (rd = f_rd w \<and> v = imm_j w)"
| "fields_ok w (Jalr rd r v) = (rd = f_rd w \<and> r = f_rs1 w \<and> v = imm_i w)"
| "fields_ok w (Branch k r s v) = (r = f_rs1 w \<and> s = f_rs2 w \<and> v = imm_b w)"
| "fields_ok w (Load k rd r v) = (rd = f_rd w \<and> r = f_rs1 w \<and> v = imm_i w)"
| "fields_ok w (Store k r s v) = (k \<notin> {W_bu, W_hu} \<and> r = f_rs1 w \<and> s = f_rs2 w \<and> v = imm_s w)"
| "fields_ok w (Op_imm k rd r v) = (rd = f_rd w \<and> r = f_rs1 w \<and> v = imm_i w)"
| "fields_ok w (Op k rd r s) = (rd = f_rd w \<and> r = f_rs1 w \<and> s = f_rs2 w)"
| "fields_ok w (Csr k rd r n) = (rd = f_rd w \<and> r = f_rs1 w \<and> n = f_csr w)"
| "fields_ok w (Csri k rd u n) = (rd = f_rd w \<and> u = f_rs1 w \<and> n = f_csr w)"
| "fields_ok w i = True"

lemma decode_fields_ok: "decode w = Some i \<Longrightarrow> fields_ok w i"
  by (auto simp: decode_def Let_def store_width_def split: if_splits)

section \<open>The second stage\<close>

text \<open>Output of the ALU, whether a branch is taken, access to the data memory.\<close>

fun ex_out :: "instr \<Rightarrow> u32 \<Rightarrow> (reg \<Rightarrow> u32) \<Rightarrow> u32" where
  "ex_out (Lui rd v) pc x = v"
| "ex_out (Auipc rd v) pc x = pc + v"
| "ex_out (Jal rd v) pc x = pc + v"
| "ex_out (Jalr rd r v) pc x = x r + v"
| "ex_out (Branch k r s v) pc x = pc + v"
| "ex_out (Load k rd r v) pc x = x r + v"
| "ex_out (Store k r s v) pc x = x r + v"
| "ex_out (Op_imm k rd r v) pc x = arith_val k (x r) v"
| "ex_out (Op k rd r s) pc x = arith_val k (x r) (x s)"
| "ex_out (Csr k rd r n) pc x = x r"
| "ex_out i pc x = pc"

fun ex_taken :: "instr \<Rightarrow> (reg \<Rightarrow> u32) \<Rightarrow> bool" where
  "ex_taken (Branch k r s v) x = cond_val k (x r) (x s)"
| "ex_taken i x = False"

fun byte_mask :: "width \<Rightarrow> u32 \<Rightarrow> 4 word" where
  "byte_mask W_w addr = 15"
| "byte_mask W_h addr = push_bit (byte_off addr) 3"
| "byte_mask W_hu addr = push_bit (byte_off addr) 3"
| "byte_mask W_b addr = push_bit (byte_off addr) 1"
| "byte_mask W_bu addr = push_bit (byte_off addr) 1"

text \<open>The request that carries out an access.\<close>

fun serves :: "dmem_req \<Rightarrow> access \<Rightarrow> bool" where
  "serves r No_data = (\<not> dm_req r)"
| "serves r (Read_word addr) = (dm_req r \<and> \<not> dm_we r \<and> dm_addr r = addr AND NOT 3)"
| "serves r (Write_bytes k addr v) =
     (dm_req r \<and> dm_we r \<and> dm_addr r = addr AND NOT 3 \<and> dm_be r = byte_mask k addr
      \<and> dm_wdata r = push_bit (8 * byte_off addr) v)"

lemma alu_arith: "alu (alu_of k) a b = arith_val k a b"
  by (cases k) (simp_all add: alu_def Let_def)

lemma br_cond: "br_taken (br_of k) a b = cond_val k a b"
  by (cases k) (auto simp: br_taken_def Let_def not_less word_sless_alt word_sle_eq)

lemma byte_shift_off: "unat (byte_shift v) = 8 * byte_off v"
proof -
  have "take_bit 2 v = of_bool (bit v 0) OR push_bit 1 (of_bool (bit v 1))"
    by (rule word32_eqI) (simp add: bit_simps)
  then show ?thesis
    by (cases "bit v 0"; cases "bit v 1") (simp_all add: byte_off_def byte_shift_def)
qed

lemma br_none: "\<not> br_taken Br_none a b"
  by (simp add: br_taken_def)

lemma alu_copies: "alu Alu_none a b = a" "alu Alu_copyA a b = a" "alu Alu_copyB a b = b" "alu Alu_add a b = a + b"
  by (simp_all add: alu_def)

lemma execute_eq:
  assumes "decode w = Some i"
  shows "execute (control w) w pc (x (f_rs1 w)) (x (f_rs2 w)) =
    (ex_out i pc x, ex_taken i x, snd (snd (execute (control w) w pc (x (f_rs1 w)) (x (f_rs2 w)))))"
  using decode_fields_ok [OF assms]
  by (cases i) (simp_all add: control_sig [OF assms] B_def execute_def Let_def imm_eqs alu_arith alu_copies br_cond br_none)

lemma execute_serves:
  assumes "decode w = Some i" "\<And>q. get_x a q = x q"
  shows "serves (snd (snd (execute (control w) w pc (x (f_rs1 w)) (x (f_rs2 w))))) (access_of i a)"
  using decode_fields_ok [OF assms(1)]
proof (cases i)
  case (Store k r s v)
  then show ?thesis using decode_fields_ok [OF assms(1)]
    by (cases k) (simp_all add: assms control_sig [OF assms(1)] B_def execute_def Let_def imm_eqs alu_copies br_none
        byte_shift_off byte_off_def)
next
  case (Load k r s v)
  then show ?thesis using decode_fields_ok [OF assms(1)]
    by (cases k) (simp_all add: assms control_sig [OF assms(1)] B_def execute_def Let_def imm_eqs alu_copies)
qed (simp_all add: control_sig [OF assms(1)] B_def execute_def Let_def)

lemma clear_low: "take_bit 2 (v AND NOT 3) = 0" for v :: u32
  by (rule word32_eqI) (simp add: bit_simps)

lemma execute_addr: "take_bit 2 (dm_addr (snd (snd (execute sig w pc a b)))) = 0"
  unfolding execute_def Let_def snd_conv dmem_req.simps by (rule clear_low)

section \<open>Write-back\<close>

lemma byte_off_mod: "byte_off a = unat a mod 4"
  by (simp add: byte_off_def take_bit_eq_mod unat_mod_distrib)

lemma aligned4_iff: "aligned 4 a \<longleftrightarrow> take_bit 2 a = 0"
proof -
  have "take_bit 2 a = 0 \<longleftrightarrow> unat (take_bit 2 a) = 0" by (simp add: unat_eq_0)
  then show ?thesis by (simp add: aligned_def byte_off_mod [unfolded byte_off_def] dvd_eq_mod_eq_0)
qed

lemma load_result_val: "aligned (width_bytes k) addr \<Longrightarrow> load_result (ld_of k) word addr = load_val k addr word"
  by (cases k) (simp_all add: load_result_def load_val_def bits_def byte_shift_off signed_take_bit_take_bit
      aligned4_iff byte_off_def)

text \<open>The value an instruction writes to its register, when the last stage has it: \<open>out\<close> is the output of the
  ALU, \<open>word\<close> the answer of the data memory, \<open>old\<close> the control register.\<close>

fun wb_value :: "instr \<Rightarrow> u32 \<Rightarrow> u32 \<Rightarrow> u32 \<Rightarrow> u32 \<Rightarrow> u32" where
  "wb_value (Jal rd v) pc out word old = pc + 4"
| "wb_value (Jalr rd r v) pc out word old = pc + 4"
| "wb_value (Load k rd r v) pc out word old = load_val k out word"
| "wb_value (Csr k rd r n) pc out word old = old"
| "wb_value (Csri k rd r n) pc out word old = old"
| "wb_value i pc out word old = out"

lemma writeback_eq:
  "s_wb_en (sig_of i) \<Longrightarrow> (\<And>k rd r v. i = Load k rd r v \<Longrightarrow> aligned (width_bytes k) out) \<Longrightarrow>
    writeback (s_wb_sel (sig_of i)) (s_ld_type (sig_of i)) word pc out old = wb_value i pc out word old"
  by (cases i) (simp_all add: B_def writeback_def load_result_val)

end
