(* ===== verification/CpuRefines.thy ===== *)
theory CpuRefines
  imports CpuStep
begin

text \<open>
  The pipeline carries out the instruction set. The state of the instruction set that a state of the pipeline stands
  for is the one before the instruction in the second stage, with the write-back and the control register operation
  of the last stage done. Three situations occur: an instruction in the second stage (\<open>Ready\<close>), a bubble
  there after a load, a jump or a control register instruction (\<open>Refill\<close>), and a bubble while the last stage
  redirects the fetch, for a trap or a return from one (\<open>Redirect\<close>).
\<close>

section \<open>State of the instruction set\<close>

definition mk_arch :: "u32 \<Rightarrow> regfile \<Rightarrow> csr_regs \<Rightarrow> arch" where
  "mk_arch pc rf k = \<lparr>ar_pc = pc, ar_x = rf, ar_mtvec = cr_mtvec k, ar_mepc = cr_mepc k, ar_mcause = cr_mcause k,
     ar_mscratch = cr_mscratch k, ar_mpp = cr_mpp k, ar_mpie = cr_mpie k, ar_mie = cr_mie k\<rparr>"

definition core_epc :: "core_in \<Rightarrow> cpu \<Rightarrow> u32 option" where
  "core_epc i c = fst (csr_unit (core_csr_in i c) (c_csr c))"

definition core_csrs :: "core_in \<Rightarrow> cpu \<Rightarrow> csr_regs" where
  "core_csrs i c = snd (csr_unit (core_csr_in i c) (c_csr c))"

definition arch_of :: "u32 \<Rightarrow> core_in \<Rightarrow> cpu \<Rightarrow> arch" where
  "arch_of pc i c = mk_arch pc (core_rf i c) (core_csrs i c)"

lemma mk_arch_simps [simp]:
  "ar_pc (mk_arch pc rf k) = pc" "ar_x (mk_arch pc rf k) = rf" "ar_mtvec (mk_arch pc rf k) = cr_mtvec k"
  "ar_mepc (mk_arch pc rf k) = cr_mepc k" "ar_mcause (mk_arch pc rf k) = cr_mcause k"
  "ar_mscratch (mk_arch pc rf k) = cr_mscratch k" "ar_mpp (mk_arch pc rf k) = cr_mpp k"
  "ar_mpie (mk_arch pc rf k) = cr_mpie k" "ar_mie (mk_arch pc rf k) = cr_mie k"
  "(mk_arch pc rf k)\<lparr>ar_pc := pc'\<rparr> = mk_arch pc' rf k"
  "mk_arch pc rf (csr_count k) = mk_arch pc rf k"
  by (simp_all add: mk_arch_def csr_count_def)

lemma set_x_mk [simp]: "set_x r v (mk_arch pc rf k) = mk_arch pc (rf_write True r v rf) k"
  by (simp add: set_x_def rf_write_def mk_arch_def)

lemma get_x_mk: "rf 0 = 0 \<Longrightarrow> get_x (mk_arch pc rf k) r = rf r"
  by (simp add: get_x_def)

lemma advance_mk [simp]: "advance (mk_arch pc rf k) = mk_arch (pc + 4) rf k"
  by (simp add: advance_def)

lemma csr_get_dom: "csr_get n a \<noteq> None \<Longrightarrow> n \<in> {0x300, 0x305, 0x340, 0x341, 0x342}"
  unfolding csr_get_def by (rule ccontr) simp

lemma mstatus_read:
  "csr_rdata k 0x300 = push_bit 11 (ucast (cr_mpp k)) OR push_bit 7 (of_bool (cr_mpie k)) OR push_bit 3 (of_bool (cr_mie k))"
proof -
  have "cat [(19, 0), (2, ucast p), (3, 0), (1, of_bool x), (3, 0), (1, of_bool y), (3, 0)] =
      push_bit 11 (ucast p) OR push_bit 7 (of_bool x) OR push_bit 3 (of_bool y)" for p :: "2 word" and x y
    by (rule word32_eqI) (simp add: cat_def bit_simps del: push_bit_Suc take_bit_Suc_0 push_bit_or)
  from this [of "cr_mpp k" "cr_mpie k" "cr_mie k"] show ?thesis
    unfolding csr_rdata_def by simp
qed

lemma csr_get_mk:
  assumes "csr_get n (mk_arch pc rf k) = Some v"
  shows "csr_rdata k n = v"
proof -
  have "n \<in> {0x300, 0x305, 0x340, 0x341, 0x342}" using assms csr_get_dom by blast
  then show ?thesis
  proof (elim insertE emptyE)
    assume "n = 0x300"
    with assms show ?thesis by (simp add: csr_get_def mstatus_read)
  qed (use assms in \<open>simp_all add: csr_get_def csr_rdata_def\<close>)
qed

lemma clear_two: "push_bit 2 (drop_bit 2 v) = v AND NOT 3" for v :: u32
  by (rule word32_eqI) (simp add: bit_simps; simp add: numeral_2_eq_2 numeral_3_eq_3)

lemma csr_put_mk:
  "csr_get n a \<noteq> None \<Longrightarrow> csr_put n v (mk_arch pc rf k) = mk_arch pc rf (csr_write n v k)"
  by (drule csr_get_dom, elim insertE emptyE) (simp_all add: csr_put_def csr_write_def mk_arch_def clear_two)


section \<open>One clock\<close>

definition core_next :: "core_in \<Rightarrow> cpu \<Rightarrow> cpu" where
  "core_next i c = snd (snd (core_cycle i c))"

definition core_iaddr :: "core_in \<Rightarrow> cpu \<Rightarrow> u32" where
  "core_iaddr i c = fst (core_cycle i c)"

definition core_dreq :: "core_in \<Rightarrow> cpu \<Rightarrow> dmem_req" where
  "core_dreq i c = fst (snd (core_cycle i c))"

definition core_flush :: "core_in \<Rightarrow> cpu \<Rightarrow> bool" where
  "core_flush i c \<longleftrightarrow> s_inst_kill (control (fe_inst c)) \<or> fst (snd (core_execute c)) \<or> core_epc i c \<noteq> None"

lemma core_iaddr: "\<not> c_started c \<Longrightarrow> core_iaddr i c =
    fetch_next (core_epc i c) False (s_pc_sel (control (fe_inst c))) (fst (snd (core_execute c))) (fst (core_execute c)) (c_pc c)"
  by (simp add: core_iaddr_def core_cycle_def core_epc_def Let_def split_beta)

lemma core_dreq: "core_dreq i c = snd (snd (core_execute c))"
  by (simp add: core_dreq_def core_cycle_def Let_def split_beta)

lemma core_next_eq:
  "\<not> c_started c \<Longrightarrow> core_next i c = c\<lparr>c_started := False, c_pc := core_iaddr i c, c_rf := core_rf i c,
     c_csr := core_csrs i c, fe_pc := c_pc c, fe_inst := if core_flush i c then NOP else im_rdata i, fe_imem_req := True,
     fe_imem_addr := core_iaddr i c, ew_dmem_req := dm_req (core_dreq i c), ew_dmem_addr := dm_addr (core_dreq i c),
     ew_imem_req := fe_imem_req c, ew_imem_addr := fe_imem_addr c, ew_imem_rvalid := im_rvalid i,
     ew_imem_err := im_err i, ew_wb_sel := s_wb_sel (control (fe_inst c)), ew_wb_en := s_wb_en (control (fe_inst c)),
     ew_ld_type := s_ld_type (control (fe_inst c)), ew_csr_type := s_csr_type (control (fe_inst c)),
     ew_illegal := s_illegal (control (fe_inst c)), ew_rd := f_rd (fe_inst c), ew_pc := fe_pc c,
     ew_alu_out := fst (core_execute c), ew_csr := f_csr (fe_inst c), ew_rs1 := f_rs1 (fe_inst c),
     ew_rs1r := rs_value c (f_rs1 (fe_inst c))\<rparr>"
  by (simp add: core_next_def core_cycle_def core_flush_def core_iaddr_def core_dreq_def core_epc_def
      core_csrs_def f_rd_def f_rs1_def f_csr_def Let_def split_beta)

lemma core_next_fields:
  assumes "\<not> c_started c"
  shows "c_started (core_next i c) = False"
    "c_pc (core_next i c) = core_iaddr i c"
    "c_rf (core_next i c) = core_rf i c"
    "c_csr (core_next i c) = core_csrs i c"
    "fe_pc (core_next i c) = c_pc c"
    "fe_inst (core_next i c) = (if core_flush i c then NOP else im_rdata i)"
    "fe_imem_req (core_next i c) = True"
    "fe_imem_addr (core_next i c) = core_iaddr i c"
    "ew_dmem_req (core_next i c) = dm_req (core_dreq i c)"
    "ew_dmem_addr (core_next i c) = dm_addr (core_dreq i c)"
    "ew_imem_req (core_next i c) = fe_imem_req c"
    "ew_imem_addr (core_next i c) = fe_imem_addr c"
    "ew_imem_rvalid (core_next i c) = im_rvalid i"
    "ew_imem_err (core_next i c) = im_err i"
    "ew_wb_sel (core_next i c) = s_wb_sel (control (fe_inst c))"
    "ew_wb_en (core_next i c) = s_wb_en (control (fe_inst c))"
    "ew_ld_type (core_next i c) = s_ld_type (control (fe_inst c))"
    "ew_csr_type (core_next i c) = s_csr_type (control (fe_inst c))"
    "ew_illegal (core_next i c) = s_illegal (control (fe_inst c))"
    "ew_rd (core_next i c) = f_rd (fe_inst c)"
    "ew_pc (core_next i c) = fe_pc c"
    "ew_alu_out (core_next i c) = fst (core_execute c)"
    "ew_csr (core_next i c) = f_csr (fe_inst c)"
    "ew_rs1 (core_next i c) = f_rs1 (fe_inst c)"
    "ew_rs1r (core_next i c) = rs_value c (f_rs1 (fe_inst c))"
  by (simp_all only: core_next_eq [OF assms], simp_all)

text \<open>What holds besides the correspondence: machine mode, no error from the memories, fetches from aligned
  addresses.\<close>

definition cpu_wf_base :: "core_in \<Rightarrow> cpu \<Rightarrow> bool" where
  "cpu_wf_base i c \<longleftrightarrow> \<not> c_started c \<and> \<not> im_err i \<and> \<not> ew_imem_err c
     \<and> (fe_imem_req c \<longrightarrow> aligned 4 (fe_imem_addr c)) \<and> (ew_imem_req c \<longrightarrow> aligned 4 (ew_imem_addr c))
     \<and> (ew_dmem_req c \<longrightarrow> aligned 4 (ew_dmem_addr c)) \<and> aligned 4 (c_pc c) \<and> c_rf c 0 = 0 \<and> cr_priv (c_csr c) = 3"

definition cpu_wf :: "core_in \<Rightarrow> cpu \<Rightarrow> bool" where
  "cpu_wf i c \<longleftrightarrow> cpu_wf_base i c \<and> cr_priv (core_csrs i c) = 3 \<and> aligned 4 (cr_mepc (core_csrs i c))"

text \<open>The data memory answers with an error.\<close>

definition bus_fault :: "core_in \<Rightarrow> bool" where
  "bus_fault i \<longleftrightarrow> dm_err i \<and> dm_rvalid i"

lemma cpu_wf_exception: "cpu_wf_base i c \<Longrightarrow>
  csr_exception (core_csr_in i c) (c_csr c) \<longleftrightarrow> ew_csr_type c \<in> {Cs_ec, Cs_eb} \<or> ew_illegal c \<or> bus_fault i"
  by (auto simp: bus_fault_def cpu_wf_base_def csr_exception_def illegal_priv_def ifault_def dfault_def imisalign_def dmisalign_def
      core_csr_in_def aligned4_iff)

lemma core_csr_in_simps [simp]:
  "ci_type (core_csr_in i c) = ew_csr_type c" "ci_illegal (core_csr_in i c) = ew_illegal c"
  "ci_pc (core_csr_in i c) = ew_pc c" "ci_csr (core_csr_in i c) = ew_csr c" "ci_rs1 (core_csr_in i c) = ew_rs1 c"
  "ci_wdata (core_csr_in i c) = ew_rs1r c"
  by (simp_all add: core_csr_in_def)

lemma csr_unit_plain:
  "\<not> csr_exception i k \<Longrightarrow> ci_type i = Cs_n \<Longrightarrow> csr_unit i k = (None, csr_count k)"
  "\<not> csr_exception i k \<Longrightarrow> ci_type i \<in> {Cs_w, Cs_s, Cs_c} \<Longrightarrow>
    csr_unit i k = (None, if ci_type i = Cs_c \<and> ci_rs1 i = 0 then csr_count k
                          else csr_write (ci_csr i) (csr_wdata i k) (csr_count k))"
  by (auto simp: csr_unit_def Let_def)

lemma cpu_wf_cause: "cpu_wf_base i c \<Longrightarrow> csr_cause (core_csr_in i c) (c_csr c) =
    (if bus_fault i then 5 else if ew_csr_type c = Cs_ec then 11 else if ew_csr_type c = Cs_eb then 3
     else if ew_illegal c then 2 else 0)"
  by (auto simp: bus_fault_def cpu_wf_base_def csr_cause_def illegal_priv_def ifault_def dfault_def imisalign_def dmisalign_def
      core_csr_in_def aligned4_iff)

lemma cpu_wf_csrs:
  assumes "cpu_wf_base i c" "\<not> bus_fault i" "\<not> ew_illegal c"
  shows "ew_csr_type c = Cs_n \<Longrightarrow> core_epc i c = None"
    "ew_csr_type c = Cs_n \<Longrightarrow> core_csrs i c = csr_count (c_csr c)"
    "ew_csr_type c \<in> {Cs_w, Cs_s, Cs_c} \<Longrightarrow> core_epc i c = None"
proof -
  note e = cpu_wf_exception [OF assms(1)] assms(2,3)
  show "ew_csr_type c = Cs_n \<Longrightarrow> core_epc i c = None" "ew_csr_type c = Cs_n \<Longrightarrow> core_csrs i c = csr_count (c_csr c)"
    using e by (simp_all add: core_epc_def core_csrs_def csr_unit_plain(1))
  show "ew_csr_type c \<in> {Cs_w, Cs_s, Cs_c} \<Longrightarrow> core_epc i c = None"
    using e by (auto simp: core_epc_def csr_unit_plain(2))
qed

text \<open>Forwarding: what the second stage reads is what the register file holds once the last stage is done.\<close>

lemma forwarding:
  assumes "ew_wb_en c \<longrightarrow> ew_wb_sel c = Wb_alu"
  shows "rs_value c r = core_rf i c r"
  using assms by (auto simp: rs_value_def core_rf_def rf_write_def writeback_def)

lemma core_rf_0: "c_rf c 0 = 0 \<Longrightarrow> core_rf i c 0 = 0"
  by (simp add: core_rf_def rf_write_def)


lemma cpu_wf_base_next:
  assumes "cpu_wf i c" "\<not> im_err i'" "aligned 4 (core_iaddr i c)"
  shows "cpu_wf_base i' (core_next i c)"
proof -
  have "\<not> c_started c" using assms by (simp add: cpu_wf_def cpu_wf_base_def)
  note f = core_next_fields [OF this]
  have "aligned 4 (dm_addr (core_dreq i c))"
    by (simp add: aligned4_iff core_dreq core_execute_def execute_addr)
  then show ?thesis using assms by (simp add: cpu_wf_def cpu_wf_base_def f core_rf_0)
qed

section \<open>The three situations\<close>

definition ready :: "core_in \<Rightarrow> cpu \<Rightarrow> arch \<Rightarrow> bool" where
  "ready i c a \<longleftrightarrow> cpu_wf i c \<and> a = arch_of (ar_pc a) i c \<and> core_epc i c = None \<and> (ew_wb_en c \<longrightarrow> ew_wb_sel c = Wb_alu)
     \<and> fe_pc c = ar_pc a \<and> c_pc c = ar_pc a + 4"

definition refill :: "core_in \<Rightarrow> cpu \<Rightarrow> arch \<Rightarrow> bool" where
  "refill i c a \<longleftrightarrow> cpu_wf i c \<and> a = arch_of (ar_pc a) i c \<and> core_epc i c = None \<and> fe_inst c = NOP \<and> c_pc c = ar_pc a"

definition redirect :: "core_in \<Rightarrow> cpu \<Rightarrow> arch \<Rightarrow> bool" where
  "redirect i c a \<longleftrightarrow> cpu_wf i c \<and> a = arch_of (ar_pc a) i c \<and> core_epc i c = Some (ar_pc a) \<and> fe_inst c = NOP
     \<and> aligned 4 (ar_pc a)"

text \<open>The bubble.\<close>

lemma control_NOP: "control NOP = B Pc_plus4 Asel_rs1 Bsel_imm Imm_i Alu_add Br_none False St_none Ld_none Wb_alu True False Cs_n"
  by code_simp

lemma NOP_fields: "f_rs1 NOP = 0" "f_rd NOP = 0" "imm Imm_i NOP = 0"
  by code_simp+

lemma bubble_execute:
  assumes "cpu_wf i c" "fe_inst c = NOP"
  shows "fst (snd (core_execute c)) = False" "\<not> dm_req (core_dreq i c)"
    "core_flush i c = (core_epc i c \<noteq> None)" "core_rf i' (core_next i c) = core_rf i c"
proof -
  have "\<not> c_started c" using assms by (simp add: cpu_wf_def cpu_wf_base_def)
  note f = core_next_fields [OF this]
  show t: "fst (snd (core_execute c)) = False" "\<not> dm_req (core_dreq i c)"
    using assms by (simp_all add: core_execute_def core_dreq control_NOP B_def execute_def Let_def br_none)
  show "core_flush i c = (core_epc i c \<noteq> None)"
    using assms t by (simp add: core_flush_def control_NOP B_def)
  show "core_rf i' (core_next i c) = core_rf i c"
    using assms by (simp add: core_rf_def [of i'] f control_NOP B_def NOP_fields rf_write_def)
qed

lemma bubble_next:
  assumes "cpu_wf i c" "fe_inst c = NOP" "\<not> im_err i'" "\<not> bus_fault i'" "aligned 4 (core_iaddr i c)"
  shows "cpu_wf i' (core_next i c)" "core_epc i' (core_next i c) = None" "arch_of pc i' (core_next i c) = arch_of pc i c"
proof -
  have "\<not> c_started c" using assms by (simp add: cpu_wf_def cpu_wf_base_def)
  note f = core_next_fields [OF this]
  have b: "cpu_wf_base i' (core_next i c)"
    using cpu_wf_base_next assms by blast
  have n: "ew_csr_type (core_next i c) = Cs_n"
    using assms by (simp add: f control_NOP B_def)
  have l: "\<not> ew_illegal (core_next i c)"
    using assms by (simp add: f control_NOP B_def)
  show "core_epc i' (core_next i c) = None" using cpu_wf_csrs(1) [OF b assms(4) l n] .
  have k: "core_csrs i' (core_next i c) = csr_count (core_csrs i c)"
    using cpu_wf_csrs(2) [OF b assms(4) l n] by (simp add: f)
  show "cpu_wf i' (core_next i c)" using b assms(1) by (simp add: cpu_wf_def k csr_count_def)
  show "arch_of pc i' (core_next i c) = arch_of pc i c"
    by (simp add: arch_of_def k bubble_execute(4) [OF assms(1,2)])
qed

lemma aligned_plus4: "aligned 4 (v + 4) \<longleftrightarrow> aligned 4 v"
  by (simp add: aligned_def unat_word_ariths dvd_mod_iff)

lemma refill_step:
  assumes "refill i c a" "\<not> im_err i'" "\<not> bus_fault i'"
  shows "ready i' (core_next i c) a" "fe_inst (core_next i c) = im_rdata i" "core_iaddr i c = ar_pc a + 4"
    "\<not> dm_req (core_dreq i c)"
proof -
  have w: "cpu_wf i c" "fe_inst c = NOP" "core_epc i c = None" "c_pc c = ar_pc a" "a = arch_of (ar_pc a) i c"
    using assms(1) by (auto simp: refill_def)
  then have s: "\<not> c_started c" and al: "aligned 4 (c_pc c)" by (simp_all add: cpu_wf_def cpu_wf_base_def)
  note f = core_next_fields [OF s]
  show addr: "core_iaddr i c = ar_pc a + 4"
    using w s by (simp add: core_iaddr fetch_next_def control_NOP B_def bubble_execute(1))
  show "\<not> dm_req (core_dreq i c)" using bubble_execute w by blast
  show "fe_inst (core_next i c) = im_rdata i" using w by (simp add: f bubble_execute)
  have "aligned 4 (core_iaddr i c)" using addr al w by (simp add: aligned_plus4)
  note b = bubble_next [OF w(1,2) assms(2,3) this]
  show "ready i' (core_next i c) a"
    unfolding ready_def using b w by (simp add: f control_NOP B_def addr)
qed

lemma redirect_step:
  assumes "redirect i c a" "\<not> im_err i'" "\<not> bus_fault i'"
  shows "refill i' (core_next i c) a" "core_iaddr i c = ar_pc a" "\<not> dm_req (core_dreq i c)"
proof -
  have w: "cpu_wf i c" "fe_inst c = NOP" "core_epc i c = Some (ar_pc a)" "aligned 4 (ar_pc a)" "a = arch_of (ar_pc a) i c"
    using assms(1) by (auto simp: redirect_def)
  then have s: "\<not> c_started c" by (simp add: cpu_wf_def cpu_wf_base_def)
  note f = core_next_fields [OF s]
  show addr: "core_iaddr i c = ar_pc a"
    using w s by (simp add: core_iaddr fetch_next_def)
  show "\<not> dm_req (core_dreq i c)" using bubble_execute w by blast
  have "aligned 4 (core_iaddr i c)" using addr w by simp
  note b = bubble_next [OF w(1,2) assms(2,3) this]
  show "refill i' (core_next i c) a"
    unfolding refill_def using b w by (simp add: f addr bubble_execute)
qed


section \<open>An instruction\<close>

lemma ready_a:
  assumes "ready i c a"
  shows "a = mk_arch (ar_pc a) (core_rf i c) (core_csrs i c)" "cpu_wf i c" "\<not> c_started c" "core_rf i c 0 = 0"
    "core_epc i c = None" "fe_pc c = ar_pc a" "c_pc c = ar_pc a + 4" "get_x a = core_rf i c" "rs_value c = core_rf i c"
    "aligned 4 (ar_pc a)"
proof -
  have w: "cpu_wf i c" "c_pc c = ar_pc a + 4" using assms by (auto simp: ready_def)
  then show "cpu_wf i c" "c_pc c = ar_pc a + 4" by blast+
  from w(1) show r0: "core_rf i c 0 = 0" and "\<not> c_started c" by (simp_all add: cpu_wf_def cpu_wf_base_def core_rf_0)
  have "aligned 4 (ar_pc a + 4)" using w by (simp add: cpu_wf_def cpu_wf_base_def)
  then show "aligned 4 (ar_pc a)" by (simp add: aligned_plus4)
  show a: "a = mk_arch (ar_pc a) (core_rf i c) (core_csrs i c)" using assms unfolding ready_def arch_of_def by blast
  show "core_epc i c = None" "fe_pc c = ar_pc a" using assms by (auto simp: ready_def)
  have "get_x (mk_arch (ar_pc a) (core_rf i c) (core_csrs i c)) = core_rf i c" by (auto simp: get_x_mk r0)
  with a show "get_x a = core_rf i c" by metis
  show "rs_value c = core_rf i c" using assms forwarding by (auto simp: ready_def)
qed

lemma ready_execute:
  assumes "ready i c a" "decode (fe_inst c) = Some inst"
  shows "fst (core_execute c) = ex_out inst (ar_pc a) (get_x a)"
    "fst (snd (core_execute c)) = ex_taken inst (get_x a)"
    "serves (core_dreq i c) (access_of inst a)"
proof -
  have "core_execute c = execute (control (fe_inst c)) (fe_inst c) (ar_pc a) (get_x a (f_rs1 (fe_inst c))) (get_x a (f_rs2 (fe_inst c)))"
    using ready_a(2-) [OF assms(1)] by (simp add: core_execute_def f_rs1_def f_rs2_def)
  with execute_eq [OF assms(2), of "ar_pc a" "get_x a"] execute_serves [OF assms(2), of a "get_x a" "ar_pc a"]
  show "fst (core_execute c) = ex_out inst (ar_pc a) (get_x a)"
    "fst (snd (core_execute c)) = ex_taken inst (get_x a)"
    "serves (core_dreq i c) (access_of inst a)"
    unfolding core_dreq by (metis fst_conv snd_conv)+
qed

fun load_ok :: "instr \<Rightarrow> arch \<Rightarrow> bool" where
  "load_ok (Load k rd q v) a = aligned (width_bytes k) (get_x a q + v)"
| "load_ok i a = True"

lemma allowed_load_ok: "allowed inst a \<Longrightarrow> load_ok inst a"
  by (cases inst) simp_all

lemma ready_write_back:
  assumes "ready i c a" "decode (fe_inst c) = Some inst" "load_ok inst a"
  shows "core_rf i' (core_next i c) = rf_write (s_wb_en (sig_of inst)) (f_rd (fe_inst c))
    (wb_value inst (ar_pc a) (ex_out inst (ar_pc a) (get_x a)) (dm_rdata i') (csr_rdata (core_csrs i c) (f_csr (fe_inst c))))
    (core_rf i c)"
proof -
  note r = ready_a [OF assms(1)]
  note f = core_next_fields [OF r(3)]
  have al: "aligned (width_bytes k) (ex_out inst (ar_pc a) (get_x a))" if "inst = Load k rd q v" for k rd q v
    using that assms(3) by simp
  show ?thesis
  proof (cases "s_wb_en (sig_of inst)")
    case True
    then show ?thesis
      using writeback_eq [OF True al]
      by (simp add: core_rf_def [of i'] f control_sig [OF assms(2)] ready_execute(1) [OF assms(1,2)] r(2-))
  next
    case False
    then show ?thesis
      by (simp add: core_rf_def [of i'] f control_sig [OF assms(2)] rf_write_def)
  qed
qed

text \<open>An instruction that does not touch the control registers.\<close>

lemma plain_step:
  assumes "ready i c a" "decode (fe_inst c) = Some inst" "allowed inst a" "\<not> im_err i'" "\<not> bus_fault i'"
    and "s_csr_type (sig_of inst) = Cs_n" "aligned 4 (core_iaddr i c)"
  shows "cpu_wf i' (core_next i c)" "core_epc i' (core_next i c) = None"
    "arch_of pc i' (core_next i c) = mk_arch pc (rf_write (s_wb_en (sig_of inst)) (f_rd (fe_inst c))
      (wb_value inst (ar_pc a) (ex_out inst (ar_pc a) (get_x a)) (dm_rdata i') (csr_rdata (core_csrs i c) (f_csr (fe_inst c))))
      (core_rf i c)) (core_csrs i c)"
proof -
  note r = ready_a [OF assms(1)]
  note f = core_next_fields [OF r(3)]
  note sig = control_sig [OF assms(2)]
  have b: "cpu_wf_base i' (core_next i c)"
    using cpu_wf_base_next [OF r(2) assms(4,7)] .
  have l: "\<not> ew_illegal (core_next i c)" by (simp add: f sig sig_of_legal)
  have n: "ew_csr_type (core_next i c) = Cs_n"
    using assms(6) by (simp add: f sig)
  show "core_epc i' (core_next i c) = None" using cpu_wf_csrs(1) [OF b assms(5) l n] .
  have k: "core_csrs i' (core_next i c) = csr_count (core_csrs i c)"
    using cpu_wf_csrs(2) [OF b assms(5) l n] by (simp add: f)
  show "cpu_wf i' (core_next i c)" using b r(2) by (simp add: cpu_wf_def k csr_count_def)
  show "arch_of pc i' (core_next i c) = mk_arch pc (rf_write (s_wb_en (sig_of inst)) (f_rd (fe_inst c))
      (wb_value inst (ar_pc a) (ex_out inst (ar_pc a) (get_x a)) (dm_rdata i') (csr_rdata (core_csrs i c) (f_csr (fe_inst c))))
      (core_rf i c)) (core_csrs i c)"
    by (simp add: arch_of_def k ready_write_back [OF assms(1,2) allowed_load_ok [OF assms(3)]])
qed

lemma ready_iaddr:
  assumes "ready i c a" "decode (fe_inst c) = Some inst"
  shows "core_iaddr i c =
    (if s_pc_sel (sig_of inst) = Pc_plus0 then ar_pc a + 4
     else if s_pc_sel (sig_of inst) = Pc_alu \<or> ex_taken inst (get_x a) then ex_out inst (ar_pc a) (get_x a) AND NOT 1
     else ar_pc a + 8)"
  using ready_a(2-) [OF assms(1)] ready_execute [OF assms] control_sig [OF assms(2)]
  by (simp add: core_iaddr fetch_next_def)

lemma ready_flush:
  assumes "ready i c a" "decode (fe_inst c) = Some inst"
  shows "core_flush i c = (s_inst_kill (sig_of inst) \<or> ex_taken inst (get_x a))"
  using ready_a(2-) [OF assms(1)] ready_execute [OF assms] control_sig [OF assms(2)]
  by (simp add: core_flush_def)

text \<open>The next instruction is the following one and is in the pipeline already; or the last stage redirects the
  fetch.\<close>

fun straight :: "instr \<Rightarrow> arch \<Rightarrow> bool" where
  "straight (Lui rd v) a = True"
| "straight (Auipc rd v) a = True"
| "straight (Branch k r s v) a = (\<not> cond_val k (get_x a r) (get_x a s))"
| "straight (Store k r s v) a = True"
| "straight (Op_imm k rd r v) a = True"
| "straight (Op k rd r s) a = True"
| "straight Fence a = True"
| "straight i a = False"

fun trapping :: "instr \<Rightarrow> bool" where
  "trapping Ecall = True" | "trapping Ebreak = True" | "trapping Mret = True" | "trapping i = False"

lemma cs_of_n [simp]: "cs_of k \<noteq> Cs_n"
  by (cases k) simp_all

lemma plain_exec:
  assumes "rf 0 = 0" "fields_ok w inst" "s_csr_type (sig_of inst) = Cs_n"
  shows "mk_arch (ar_pc (exec word inst (mk_arch pc rf k)))
    (rf_write (s_wb_en (sig_of inst)) (f_rd w) (wb_value inst pc (ex_out inst pc rf) word old) rf) k
    = exec word inst (mk_arch pc rf k)"
  using assms by (cases inst) (simp_all add: B_def get_x_mk rf_write_def)

lemma straight_pc: "straight inst a \<Longrightarrow> ar_pc (exec word inst a) = ar_pc a + 4"
  by (cases inst) (auto simp: advance_def set_x_def)

lemma straight_sig:
  "straight inst a \<Longrightarrow> s_csr_type (sig_of inst) = Cs_n \<and> s_pc_sel (sig_of inst) = Pc_plus4 \<and> \<not> s_inst_kill (sig_of inst)
    \<and> \<not> ex_taken inst (get_x a) \<and> s_wb_sel (sig_of inst) = Wb_alu"
  by (cases inst) (simp_all add: B_def)

lemma straight_step:
  assumes "ready i c a" "decode (fe_inst c) = Some inst" "allowed inst a" "\<not> im_err i'" "\<not> bus_fault i'" "straight inst a"
  shows "ready i' (core_next i c) (exec (dm_rdata i') inst a)" "fe_inst (core_next i c) = im_rdata i"
    "core_iaddr i c = ar_pc a + 8"
proof -
  note r = ready_a [OF assms(1)] and s = straight_sig [OF assms(6)]
  note f = core_next_fields [OF r(3)]
  show addr: "core_iaddr i c = ar_pc a + 8" using ready_iaddr [OF assms(1,2)] s by simp
  have "aligned 4 (ar_pc a + 4 + 4)" using r(10) by (simp only: aligned_plus4)
  then have al: "aligned 4 (core_iaddr i c)" by (simp add: addr add.commute)
  note p = plain_step [OF assms(1-5) _ al]
  show "fe_inst (core_next i c) = im_rdata i" using ready_flush [OF assms(1,2)] s by (simp add: f)
  have "exec (dm_rdata i') inst a = arch_of (ar_pc (exec (dm_rdata i') inst a)) i' (core_next i c)"
    using plain_exec [of "core_rf i c", OF r(4) decode_fields_ok [OF assms(2)]] s p(3) r(1,8) by metis
  then show "ready i' (core_next i c) (exec (dm_rdata i') inst a)"
    unfolding ready_def using p s straight_pc [OF assms(6)] r addr
    by (simp add: f control_sig [OF assms(2)])
qed

text \<open>Loads, jumps and taken branches.\<close>

lemma aligned_clear: "aligned 4 v \<Longrightarrow> v AND - 2 = v"
proof -
  assume "aligned 4 v"
  then have "\<not> bit (take_bit 2 v) 0" by (simp add: aligned4_iff)
  then have "\<not> bit v 0" by (simp add: bit_simps)
  then have "v AND NOT 1 = v" by (intro bit_eqI) (auto simp: bit_simps intro: gr0I)
  then show ?thesis by simp
qed

lemma slow_cases:
  assumes "\<not> straight inst a" "s_csr_type (sig_of inst) = Cs_n"
  obtains rd v where "inst = Jal rd v" | rd r v where "inst = Jalr rd r v" | k rd r v where "inst = Load k rd r v"
    | k r s v where "inst = Branch k r s v" "cond_val k (get_x a r) (get_x a s)"
  using assms by (cases inst) (simp_all add: B_def)

lemma set_x_pc [simp]: "ar_pc (set_x r v a) = ar_pc a"
  by (simp add: set_x_def)

lemma slow_pc:
  assumes "allowed inst a" "\<not> straight inst a" "s_csr_type (sig_of inst) = Cs_n" "aligned 4 (ar_pc a)"
  shows "ar_pc (exec word inst a) =
      (if s_pc_sel (sig_of inst) = Pc_plus0 then ar_pc a + 4
       else if s_pc_sel (sig_of inst) = Pc_alu \<or> ex_taken inst (get_x a) then ex_out inst (ar_pc a) (get_x a) AND NOT 1
       else ar_pc a + 8)
    \<and> aligned 4 (ar_pc (exec word inst a)) \<and> (s_inst_kill (sig_of inst) \<or> ex_taken inst (get_x a))"
  using slow_cases [OF assms(2,3)]
proof cases
  case 1
  then show ?thesis using assms(1) by (simp add: B_def aligned_clear)
next
  case 2
  then show ?thesis using assms(1) by (simp add: B_def)
next
  case 3
  then show ?thesis using assms(4) by (simp add: B_def advance_def aligned_plus4)
next
  case 4
  then show ?thesis using assms(1) by (simp add: B_def aligned_clear)
qed

lemma slow_step:
  assumes "ready i c a" "decode (fe_inst c) = Some inst" "allowed inst a" "\<not> im_err i'" "\<not> bus_fault i'"
    and "\<not> straight inst a" "s_csr_type (sig_of inst) = Cs_n"
  shows "refill i' (core_next i c) (exec (dm_rdata i') inst a)" "core_iaddr i c = ar_pc (exec (dm_rdata i') inst a)"
proof -
  note r = ready_a [OF assms(1)] and s = slow_pc [OF assms(3,6,7)]
  note f = core_next_fields [OF r(3)]
  show addr: "core_iaddr i c = ar_pc (exec (dm_rdata i') inst a)"
    using ready_iaddr [OF assms(1,2)] s [OF r(10)] by simp
  have al: "aligned 4 (core_iaddr i c)" unfolding addr using s [OF r(10)] by blast
  note p = plain_step [OF assms(1-5) assms(7) al]
  have "exec (dm_rdata i') inst a = arch_of (ar_pc (exec (dm_rdata i') inst a)) i' (core_next i c)"
    using plain_exec [of "core_rf i c", OF r(4) decode_fields_ok [OF assms(2)] assms(7)] p(3) r(1,8) by metis
  then show "refill i' (core_next i c) (exec (dm_rdata i') inst a)"
    unfolding refill_def using p s [OF r(10)] ready_flush [OF assms(1,2)] by (simp add: f addr)
qed


text \<open>Control register instructions.\<close>

lemma clear_aligned: "aligned 4 v \<Longrightarrow> v AND NOT 3 = v" "aligned 4 (v AND NOT 3)" for v :: u32
proof -
  show "aligned 4 (v AND NOT 3)" by (simp only: aligned4_iff clear_low)
  assume "aligned 4 v"
  then have "\<not> bit (take_bit 2 v) 0" "\<not> bit (take_bit 2 v) 1" by (simp_all add: aligned4_iff)
  then have "\<not> bit v 0" "\<not> bit v 1" by (simp_all add: bit_simps)
  moreover have "n \<noteq> 0 \<Longrightarrow> n \<noteq> 1 \<Longrightarrow> \<not> bit (3 :: u32) n" for n
  proof -
    assume "n \<noteq> 0" "n \<noteq> 1"
    then obtain k where "n = Suc (Suc k)" by (metis One_nat_def not0_implies_Suc)
    then show ?thesis by (simp add: bit_Suc)
  qed
  ultimately show "v AND NOT 3 = v" by (intro bit_eqI) (metis bit_and_iff bit_not_iff)
qed

lemma csr_put_same:
  assumes "csr_get n a = Some old" "aligned 4 (ar_mepc a)"
  shows "csr_put n old a = a"
proof -
  have n: "n \<in> {0x300, 0x305, 0x340, 0x341, 0x342}" using assms csr_get_dom by blast
  then show ?thesis
  proof (elim insertE emptyE)
    assume 0: "n = 0x300"
    have old: "old = push_bit 11 (ucast (ar_mpp a)) OR push_bit 7 (of_bool (ar_mpie a)) OR push_bit 3 (of_bool (ar_mie a))"
      using assms(1) 0 by (simp add: csr_get_def)
    have "ucast (drop_bit 11 old) = ar_mpp a" unfolding old
      by (rule bit_word_eqI) (auto simp: bit_simps)
    moreover have "bit old 7 = ar_mpie a" "bit old 3 = ar_mie a" unfolding old
      by (simp_all add: bit_simps)
    ultimately show ?thesis using 0 by (simp add: csr_put_def)
  qed (use assms clear_aligned(1) in \<open>simp_all add: csr_get_def csr_put_def\<close>)
qed

lemma csr_write_priv [simp]: "cr_priv (csr_write n v k) = cr_priv k"
  by (simp add: csr_write_def)

lemma csr_count_simps [simp]: "cr_priv (csr_count k) = cr_priv k" "cr_mepc (csr_count k) = cr_mepc k"
  by (simp_all add: csr_count_def)

lemma csr_write_mepc: "aligned 4 (cr_mepc k) \<Longrightarrow> aligned 4 (cr_mepc (csr_write n v k))"
  by (simp add: csr_write_def clear_two clear_aligned(2) [simplified])

lemma csr_wdata_val:
  assumes "ci_type j = cs_of op"
  shows "csr_wdata j k = csr_val op (csr_rdata k (ci_csr j)) (ci_wdata j)"
  using assms by (cases op) (simp_all add: csr_wdata_def)

lemma csr_inst_step:
  assumes "ready i c a" "decode (fe_inst c) = Some inst" "inst = Csr op rd q n \<or> inst = Csri op rd q n"
    and "\<not> im_err i'" "\<not> bus_fault i'" "csr_get n a \<noteq> None"
  shows "refill i' (core_next i c) (advance (csr_exec op rd (q = 0) (get_x a q) n a))"
    "core_iaddr i c = ar_pc a + 4"
proof -
  let ?K = "core_csrs i c" and ?c = "core_next i c"
  have lo: "load_ok inst a" using assms(3) by auto
  note r = ready_a [OF assms(1)] and wb = ready_write_back [OF assms(1,2) lo]
  note f = core_next_fields [OF r(3)] and sig = control_sig [OF assms(2)]
  have fields: "rd = f_rd (fe_inst c)" "q = f_rs1 (fe_inst c)" "n = f_csr (fe_inst c)"
    using decode_fields_ok [OF assms(2)] assms(3) by auto
  have si: "s_pc_sel (sig_of inst) = Pc_plus0" "s_wb_en (sig_of inst)" "s_csr_type (sig_of inst) = cs_of op"
    "s_inst_kill (sig_of inst)" "wb_value inst pc out word old = old" for pc out word old
    using assms(3) by (auto simp: B_def)
  show addr: "core_iaddr i c = ar_pc a + 4" using ready_iaddr [OF assms(1,2)] si by simp
  have b: "cpu_wf_base i' ?c"
    using cpu_wf_base_next [OF r(2) assms(4)] r(10) by (simp add: addr aligned_plus4)
  have l: "\<not> ew_illegal ?c" by (simp add: f sig sig_of_legal)
  obtain old where old: "csr_get n a = Some old" using assms(6) by auto
  then have rd: "csr_rdata ?K n = old" using csr_get_mk r(1) by metis
  have t: "ew_csr_type ?c = cs_of op" by (simp add: f sig si)
  then have t3: "ew_csr_type ?c \<in> {Cs_w, Cs_s, Cs_c}" by (cases op) simp_all
  have ne: "\<not> csr_exception (core_csr_in i' ?c) (c_csr ?c)" using cpu_wf_exception [OF b] assms(5) l t3 by auto
  have K: "core_csrs i' ?c = (if op = Csr_clear \<and> q = 0 then csr_count ?K else csr_write n (csr_val op old (get_x a q)) (csr_count ?K))"
    using csr_unit_plain(2) [OF ne] t t3 csr_wdata_val [of "core_csr_in i' ?c" op ?K]
    by (cases op) (simp_all add: core_csrs_def [of i'] f fields [symmetric] rd r(8,9))
  have epc: "core_epc i' ?c = None" using cpu_wf_csrs(3) [OF b assms(5) l t3] .
  have wfK: "cpu_wf i' ?c" using b r(2) by (simp add: cpu_wf_def K csr_write_mepc)
  let ?a = "if op \<noteq> Csr_write \<and> q = 0 then a else csr_put n (csr_val op old (get_x a q)) a"
  have put: "mk_arch pc rf (csr_write n v (csr_count ?K)) = csr_put n v (mk_arch pc rf ?K)" for pc rf v
    using csr_put_mk [of n a v pc rf "csr_count ?K"] old by simp
  have same: "csr_put n old a = a"
    using csr_put_same [OF old] r(1,2) unfolding cpu_wf_def by (metis mk_arch_simps(4))
  have "get_x a 0 = 0" by (simp add: get_x_def)
  then have "?a = mk_arch (ar_pc a) (core_rf i c) (core_csrs i' ?c)"
    using r(1) same by (cases op) (auto simp: K put)
  then have "advance (csr_exec op rd (q = 0) (get_x a q) n a) = arch_of (ar_pc a + 4) i' ?c"
    using old by (simp add: csr_exec_def Let_def arch_of_def wb si fields [symmetric] rd)
  then show "refill i' ?c (advance (csr_exec op rd (q = 0) (get_x a q) n a))"
    unfolding refill_def using wfK epc ready_flush [OF assms(1,2)] by (simp add: f addr arch_of_def si)
qed

lemma csr_step:
  assumes "ready i c a" "decode (fe_inst c) = Some (Csr op rd q n)" "allowed (Csr op rd q n) a" "\<not> im_err i'"
    "\<not> bus_fault i'"
  shows "refill i' (core_next i c) (exec (dm_rdata i') (Csr op rd q n) a)"
    "core_iaddr i c = ar_pc a + 4"
  using csr_inst_step [OF assms(1,2) _ assms(4,5)] assms(3) by auto

text \<open>Traps and the return from one.\<close>

lemma trap_step:
  assumes "ready i c a" "decode (fe_inst c) = Some inst" "allowed inst a" "\<not> im_err i'" "\<not> bus_fault i'" "trapping inst"
  shows "redirect i' (core_next i c) (exec (dm_rdata i') inst a)"
proof -
  let ?K = "core_csrs i c" and ?c = "core_next i c"
  note r = ready_a [OF assms(1)] and wb = ready_write_back [OF assms(1,2) allowed_load_ok [OF assms(3)]]
  note f = core_next_fields [OF r(3)] and sig = control_sig [OF assms(2)]
  have "aligned 4 (ar_pc a + 4 + 4)" using r(10) by (simp only: aligned_plus4)
  then have al: "aligned 4 (core_iaddr i c)"
    using ready_iaddr [OF assms(1,2)] assms(6) r(10) by (cases inst) (simp_all add: B_def aligned_plus4 add.commute)
  have b: "cpu_wf_base i' ?c"
    using cpu_wf_base_next [OF r(2) assms(4) al] .
  have l: "\<not> ew_illegal ?c" by (simp add: f sig sig_of_legal)
  have rf: "core_rf i' ?c = core_rf i c"
    using wb assms(6) by (cases inst) (simp_all add: B_def rf_write_def)
  show ?thesis
  proof (cases "inst = Mret")
    case True
    have n: "ew_csr_type ?c = Cs_er" by (simp add: f sig True B_def)
    then have ne: "\<not> csr_exception (core_csr_in i' ?c) ?K" using cpu_wf_exception [OF b] assms(5) l by (simp add: f)
    have u: "csr_unit (core_csr_in i' ?c) ?K =
        (Some (cr_mepc ?K), (csr_count ?K)\<lparr>cr_priv := cr_mpp ?K, cr_mie := cr_mpie ?K, cr_mpp := 0, cr_mpie := True\<rparr>)"
      using ne n by (simp add: csr_unit_def Let_def)
    then have k: "core_csrs i' ?c =
        (csr_count ?K)\<lparr>cr_priv := cr_mpp ?K, cr_mie := cr_mpie ?K, cr_mpp := 0, cr_mpie := True\<rparr>"
      and e: "core_epc i' ?c = Some (cr_mepc ?K)"
      by (simp_all add: core_csrs_def [of i'] core_epc_def [of i'] f)
    have "ar_mpp a = 3" using assms(3) True by simp
    then have "cr_mpp ?K = 3" using r(1) by (metis mk_arch_simps(7))
    then have w: "cpu_wf i' ?c" "aligned 4 (cr_mepc ?K)" using b r(2) by (simp_all add: cpu_wf_def k)
    have "exec (dm_rdata i') Mret (mk_arch (ar_pc a) (core_rf i c) ?K) = arch_of (cr_mepc ?K) i' ?c"
      by (simp add: arch_of_def rf k) (simp add: mk_arch_def csr_count_def)
    then have x: "exec (dm_rdata i') inst a = arch_of (cr_mepc ?K) i' ?c" using True r(1) by metis
    show ?thesis
      unfolding redirect_def using w e ready_flush [OF assms(1,2)] True x by (simp add: f arch_of_def B_def)
  next
    case False
    then have ec: "inst = Ecall \<or> inst = Ebreak" using assms(6) by (cases inst) simp_all
    define cause :: u32 where "cause = (if inst = Ecall then 11 else 3)"
    have t: "ew_csr_type ?c = (if inst = Ecall then Cs_ec else Cs_eb)" using ec by (auto simp: f sig B_def)
    have u: "csr_unit (core_csr_in i' ?c) ?K = (Some (cr_mtvec ?K),
        (csr_count ?K)\<lparr>cr_mepc := push_bit 2 (drop_bit 2 (ar_pc a)), cr_mcause := cause, cr_priv := 3,
          cr_mie := False, cr_mpie := cr_mie ?K, cr_mpp := 3\<rparr>)"
      using cpu_wf_exception [OF b] cpu_wf_cause [OF b] assms(5) l t r(2,6) by (simp add: csr_unit_def Let_def f cause_def cpu_wf_def)
    then have k: "core_csrs i' ?c = (csr_count ?K)\<lparr>cr_mepc := ar_pc a, cr_mcause := cause, cr_priv := 3,
          cr_mie := False, cr_mpie := cr_mie ?K, cr_mpp := 3\<rparr>"
      and e: "core_epc i' ?c = Some (cr_mtvec ?K)"
      using clear_aligned(1) [OF r(10)] by (simp_all add: core_csrs_def [of i'] core_epc_def [of i'] f clear_two)
    have "aligned 4 (ar_mtvec a)" using assms(3) ec by auto
    then have m: "aligned 4 (cr_mtvec ?K)" using r(1) by (metis mk_arch_simps(3))
    have w: "cpu_wf i' ?c" using b r(10) by (simp add: cpu_wf_def k)
    have "trap cause (mk_arch (ar_pc a) (core_rf i c) ?K) = arch_of (cr_mtvec ?K) i' ?c"
      by (simp add: arch_of_def rf k trap_def) (simp add: mk_arch_def csr_count_def)
    moreover have "exec (dm_rdata i') inst a = trap cause a" using ec by (auto simp: cause_def)
    ultimately have x: "exec (dm_rdata i') inst a = arch_of (cr_mtvec ?K) i' ?c" using r(1) by metis
    have fl: "core_flush i c" using ready_flush [OF assms(1,2)] ec by (auto simp: B_def)
    show ?thesis
      unfolding redirect_def using w e m x fl by (simp add: f arch_of_def)
  qed
qed


section \<open>A step of the pipeline\<close>

lemma plain_or_csr:
  "allowed inst a \<Longrightarrow> \<not> trapping inst \<Longrightarrow> s_csr_type (sig_of inst) \<noteq> Cs_n \<Longrightarrow> \<exists>op rd q n. inst = Csr op rd q n"
  by (cases inst) (simp_all add: B_def)

lemma ready_step:
  assumes "ready i c a" "decode (fe_inst c) = Some inst" "allowed inst a" "\<not> im_err i'" "\<not> bus_fault i'"
  defines "c' \<equiv> core_next i c" and "a' \<equiv> exec (dm_rdata i') inst a"
  shows "if straight inst a then ready i' c' a' \<and> fe_inst c' = im_rdata i \<and> ar_pc a' = ar_pc a + 4
      \<and> core_iaddr i c = ar_pc a + 8
    else if trapping inst then redirect i' c' a'
    else refill i' c' a' \<and> core_iaddr i c = ar_pc a'"
proof (cases "straight inst a")
  case True
  then show ?thesis using straight_step [OF assms(1-5) True] straight_pc [OF True] by (simp add: assms(6,7))
next
  case st: False
  show ?thesis
  proof (cases "trapping inst")
    case True
    then show ?thesis using st trap_step [OF assms(1-5) True] by (simp add: assms(6,7))
  next
    case tr: False
    show ?thesis
    proof (cases "s_csr_type (sig_of inst) = Cs_n")
      case True
      then show ?thesis using st tr slow_step [OF assms(1-5) st True] by (simp add: assms(6,7))
    next
      case False
      then obtain op rd q n where i: "inst = Csr op rd q n" using plain_or_csr [OF assms(3) tr] by blast
      have "ar_pc a' = ar_pc a + 4"
        by (simp add: assms(7) i csr_exec_def advance_def csr_put_def Let_def)
      then show ?thesis
        using st tr csr_step [OF assms(1) assms(2,3) [unfolded i] assms(4,5)] i by (simp add: assms(6,7))
    qed
  qed
qed

section \<open>Where the processor departs from the instruction set\<close>

text \<open>The instructions with an immediate write the register of that number instead of the immediate.\<close>

lemma csr_immediate_is_register:
  assumes "ready i c a" "decode (fe_inst c) = Some (Csri op rd u n)" "csr_get n a \<noteq> None" "\<not> im_err i'" "\<not> bus_fault i'"
  shows "refill i' (core_next i c) (exec (dm_rdata i') (Csr op rd u n) a)"
  using csr_inst_step(1) [OF assms(1,2) _ assms(4,5,3)] by auto

text \<open>A load that the data memory answers with an error traps with the cause 5, but its register is written all the
  same, with what the data bus shows.\<close>

lemma load_fault_step:
  assumes "ready i c a" "decode (fe_inst c) = Some (Load k rd q v)" "\<not> im_err i'" "bus_fault i'" "aligned 4 (ar_mtvec a)"
  shows "redirect i' (core_next i c) (trap 5 (set_x rd (load_result (ld_of k) (dm_rdata i') (get_x a q + v)) a))"
proof -
  let ?K = "core_csrs i c" and ?c = "core_next i c"
  note r = ready_a [OF assms(1)]
  note f = core_next_fields [OF r(3)] and sig = control_sig [OF assms(2)]
  have fields: "rd = f_rd (fe_inst c)" using decode_fields_ok [OF assms(2)] by simp
  have "core_iaddr i c = ar_pc a + 4" using ready_iaddr [OF assms(1,2)] by (simp add: B_def)
  then have b: "cpu_wf_base i' ?c"
    using cpu_wf_base_next [OF r(2) assms(3)] r(10) by (simp add: aligned_plus4)
  have u: "csr_unit (core_csr_in i' ?c) ?K = (Some (cr_mtvec ?K),
      (csr_count ?K)\<lparr>cr_mepc := push_bit 2 (drop_bit 2 (ar_pc a)), cr_mcause := 5, cr_priv := 3,
        cr_mie := False, cr_mpie := cr_mie ?K, cr_mpp := 3\<rparr>)"
    using cpu_wf_exception [OF b] cpu_wf_cause [OF b] assms(4) r(2,6) by (simp add: csr_unit_def Let_def f cpu_wf_def)
  then have k: "core_csrs i' ?c = (csr_count ?K)\<lparr>cr_mepc := ar_pc a, cr_mcause := 5, cr_priv := 3,
        cr_mie := False, cr_mpie := cr_mie ?K, cr_mpp := 3\<rparr>"
    and e: "core_epc i' ?c = Some (cr_mtvec ?K)"
    using clear_aligned(1) [OF r(10)] by (simp_all add: core_csrs_def [of i'] core_epc_def [of i'] f clear_two)
  have m: "aligned 4 (cr_mtvec ?K)" using r(1) assms(5) by (metis mk_arch_simps(3))
  have w: "cpu_wf i' ?c" using b r(10) by (simp add: cpu_wf_def k)
  let ?v = "load_result (ld_of k) (dm_rdata i') (get_x a q + v)"
  have rf: "core_rf i' ?c = rf_write True rd ?v (core_rf i c)"
    using ready_execute(1) [OF assms(1,2)] fields by (simp add: core_rf_def [of i'] f sig B_def writeback_def)
  have "trap 5 (set_x rd ?v (mk_arch (ar_pc a) (core_rf i c) ?K)) = arch_of (cr_mtvec ?K) i' ?c"
    by (simp add: arch_of_def rf k trap_def) (simp add: mk_arch_def csr_count_def)
  then have x: "trap 5 (set_x rd ?v a) = arch_of (cr_mtvec ?K) i' ?c" using r(1) by metis
  have fl: "core_flush i c" using ready_flush [OF assms(1,2)] by (simp add: B_def)
  show ?thesis
    unfolding redirect_def using w e m x fl by (simp add: f arch_of_def)
qed


text \<open>An illegal instruction traps when the instruction after it is already in the second stage, and that one is
  carried out as well: here an operation with an immediate.\<close>

lemma illegal_default:
  assumes "s_illegal (control w)"
  shows "control w = default_signals"
proof (cases "find (\<lambda>(p, s). matches p w) insts")
  case (Some r)
  have legal: "list_all (\<lambda>r. \<not> s_illegal (snd r)) insts" by (simp add: insts_def B_def)
  from Some have "r \<in> set insts" by (metis find_Some_iff nth_mem)
  then have "\<not> s_illegal (snd r)" using legal by (simp add: list_all_iff)
  with assms Some show ?thesis by (simp add: control_def split_beta)
qed (simp add: control_def)

lemma illegal_step:
  assumes "ready i c a" "s_illegal (control (fe_inst c))" "decode (im_rdata i) = Some (Op_imm op rd q v)"
    and "\<not> im_err i1" "\<not> bus_fault i1" "\<not> im_err i2" "\<not> bus_fault i2" "aligned 4 (ar_mtvec a)"
  shows "refill i2 (core_next i1 (core_next i c)) (set_x rd (arith_val op (get_x a q) v) (trap 2 a))"
proof -
  let ?K = "core_csrs i c" and ?c = "core_next i c" and ?d = "core_next i1 (core_next i c)"
  note r = ready_a [OF assms(1)]
  note f = core_next_fields [OF r(3)] and sig = illegal_default [OF assms(2)]
  have ex: "fst (snd (core_execute c)) = False"
    by (simp add: core_execute_def sig default_signals_def B_def execute_def Let_def br_none)
  have flush: "\<not> core_flush i c" using r(5) ex by (simp add: core_flush_def sig default_signals_def B_def)
  have "core_iaddr i c = ar_pc a + 4 + 4"
    using r(3,5,7) ex by (simp add: core_iaddr fetch_next_def sig default_signals_def B_def)
  then have b: "cpu_wf_base i1 ?c"
    using cpu_wf_base_next [OF r(2) assms(4)] r(10) by (simp only: aligned_plus4)
  have ill: "ew_illegal ?c" "ew_csr_type ?c = Cs_n" "ew_wb_en ?c = False" using assms(2) by (simp_all add: f sig default_signals_def B_def)
  have u: "csr_unit (core_csr_in i1 ?c) ?K = (Some (cr_mtvec ?K),
      (csr_count ?K)\<lparr>cr_mepc := push_bit 2 (drop_bit 2 (ar_pc a)), cr_mcause := 2, cr_priv := 3,
        cr_mie := False, cr_mpie := cr_mie ?K, cr_mpp := 3\<rparr>)"
    using cpu_wf_exception [OF b] cpu_wf_cause [OF b] assms(5) ill r(2,6) by (simp add: csr_unit_def Let_def f cpu_wf_def)
  then have k: "core_csrs i1 ?c = (csr_count ?K)\<lparr>cr_mepc := ar_pc a, cr_mcause := 2, cr_priv := 3,
        cr_mie := False, cr_mpie := cr_mie ?K, cr_mpp := 3\<rparr>"
    and e: "core_epc i1 ?c = Some (cr_mtvec ?K)"
    using clear_aligned(1) [OF r(10)] by (simp_all add: core_csrs_def [of i1] core_epc_def [of i1] f clear_two)
  have rf: "core_rf i1 ?c = core_rf i c" using ill(3) by (simp add: core_rf_def [of i1] f rf_write_def)
  have m: "aligned 4 (cr_mtvec ?K)" using r(1) assms(8) by (metis mk_arch_simps(3))
  have w1: "cpu_wf i1 ?c" using b r(10) by (simp add: cpu_wf_def k)
  have s1: "\<not> c_started ?c" by (simp add: f)
  note g = core_next_fields [OF s1]
  have inst: "fe_inst ?c = im_rdata i" by (simp add: f flush)
  have ia: "core_iaddr i1 ?c = cr_mtvec ?K" by (simp add: core_iaddr [OF s1] e fetch_next_def)
  have b2: "cpu_wf_base i2 ?d" using cpu_wf_base_next [OF w1 assms(6)] m by (simp add: ia)
  have d: "decode (fe_inst ?c) = Some (Op_imm op rd q v)" using assms(3) inst by simp
  note sg = control_sig [OF d]
  have n: "ew_csr_type ?d = Cs_n" "\<not> ew_illegal ?d" by (simp_all add: g sg B_def)
  have k2: "core_csrs i2 ?d = csr_count (core_csrs i1 ?c)"
    using cpu_wf_csrs(2) [OF b2 assms(7) n(2,1)] by (simp add: g)
  have x: "rs_value ?c = get_x a" using ill(3) r(8) by (auto simp: rs_value_def f)
  have out: "fst (core_execute ?c) = arith_val op (get_x a q) v"
  proof -
    have "core_execute ?c = execute (control (fe_inst ?c)) (fe_inst ?c) (fe_pc ?c) (get_x a (f_rs1 (fe_inst ?c)))
        (get_x a (f_rs2 (fe_inst ?c)))"
      by (simp add: core_execute_def x f_rs1_def f_rs2_def)
    with execute_eq [OF d, of "fe_pc ?c" "get_x a"] show ?thesis by (metis ex_out.simps(8) fst_conv)
  qed
  have rd: "rd = f_rd (fe_inst ?c)" using decode_fields_ok [OF d] by simp
  have rf2: "core_rf i2 ?d = rf_write True rd (arith_val op (get_x a q) v) (core_rf i c)"
    by (simp add: core_rf_def [of i2] g sg B_def writeback_def out rd rf)
  have "set_x rd y (trap 2 (mk_arch (ar_pc a) (core_rf i c) ?K)) = mk_arch (cr_mtvec ?K) (rf_write True rd y (core_rf i c))
      (core_csrs i1 ?c)" for y
    by (simp add: k trap_def mk_arch_def csr_count_def set_x_def rf_write_def)
  then have a: "set_x rd (arith_val op (get_x a q) v) (trap 2 a) = arch_of (cr_mtvec ?K) i2 ?d"
    unfolding arch_of_def k2 rf2 using r(1) by (metis mk_arch_simps(11))
  have w2: "cpu_wf i2 ?d" using b2 w1 by (simp add: cpu_wf_def k2)
  show ?thesis
    unfolding refill_def a using w2 e cpu_wf_csrs(1) [OF b2 assms(7) n(2,1)]
    by (simp add: g ia core_flush_def arch_of_def)
qed

end
