(* ===== verification/CpuSoc.thy ===== *)
theory CpuSoc
  imports CpuRefines
begin

text \<open>
  The processor with its bus and its memory: \<^verbatim>\<open>bus/Bus.scala\<close>, \<^verbatim>\<open>sys/ram/Ram.scala\<close> and their connection in
  \<^verbatim>\<open>Soc.scala\<close>. The answers of the three other devices are inputs of a clock.
\<close>

section \<open>The bus\<close>

text \<open>Bases and masks of the four devices.\<close>

definition devs :: "(u32 \<times> u32) list" where
  "devs = [(0x100000, 32 * 1024 - 1), (0x10000, 1024 - 1), (0x20000, 1024 - 1), (0x30000, 1024 - 1)]"

text \<open>The last device that matches, 4 if none does.\<close>

definition dev_sel :: "u32 \<Rightarrow> nat" where
  "dev_sel addr = fold (\<lambda>d sel. if addr AND NOT (snd (devs ! d)) = fst (devs ! d) then d else sel) [0..<4] 4"

definition no_req :: dmem_req where
  "no_req = \<lparr>dm_req = False, dm_we = False, dm_addr = 0, dm_be = 0, dm_wdata = 0\<rparr>"

definition bus_req :: "dmem_req \<Rightarrow> nat \<Rightarrow> dmem_req" where
  "bus_req r d = (if d = dev_sel (dm_addr r) then r else no_req)"

text \<open>The answer for the host: \<open>host\<close> and \<open>sel\<close> are the registers with the selections of the cycle before, \<open>dev\<close>
  the outputs \<open>rvalid\<close>, \<open>err\<close> and \<open>rdata\<close> of the devices.\<close>

definition bus_resp :: "nat \<Rightarrow> nat \<Rightarrow> (nat \<Rightarrow> bool \<times> bool \<times> u32) \<Rightarrow> bool \<times> bool \<times> u32" where
  "bus_resp host sel dev = (if host = 0 then if sel = 4 then (True, True, 0) else dev sel else (False, False, 0))"

section \<open>The memory\<close>

text \<open>32 * 1024 words, more than the range on the bus; the bits of an address above those needed to index them
  do not count.\<close>

type_synonym ram = "15 word \<Rightarrow> u32"

definition ram_index :: "u32 \<Rightarrow> 15 word" where
  "ram_index addr = ucast (drop_bit 2 addr)"

definition put_byte :: "bool \<Rightarrow> nat \<Rightarrow> u32 \<Rightarrow> u32 \<Rightarrow> u32" where
  "put_byte be k wdata old =
     (if be then old AND NOT (push_bit (8 * k) (mask 8)) OR wdata AND push_bit (8 * k) (mask 8) else old)"

definition ram_write :: "dmem_req \<Rightarrow> ram \<Rightarrow> ram" where
  "ram_write r ram =
     (if dm_we r \<and> dm_req r
      then ram(ram_index (dm_addr r) :=
        put_byte (bit (dm_be r) 0) 0 (dm_wdata r) (put_byte (bit (dm_be r) 1) 1 (dm_wdata r)
          (put_byte (bit (dm_be r) 2) 2 (dm_wdata r) (put_byte (bit (dm_be r) 3) 3 (dm_wdata r) (ram (ram_index (dm_addr r)))))))
      else ram)"

section \<open>The chip\<close>

record soc =
  so_cpu :: cpu
  so_ram :: ram
  so_irdata :: u32
  so_drdata :: u32
  so_irvalid :: bool
  so_drvalid :: bool
  so_host :: nat
  so_sel :: nat

definition soc_in :: "(nat \<Rightarrow> bool \<times> bool \<times> u32) \<Rightarrow> soc \<Rightarrow> core_in" where
  "soc_in ext s =
     (case bus_resp (so_host s) (so_sel s) (\<lambda>d. if d = 0 then (so_drvalid s, False, so_drdata s) else ext d) of
        (rvalid, err, rdata) \<Rightarrow>
        \<lparr>im_rvalid = so_irvalid s, im_err = False, im_rdata = so_irdata s, dm_rvalid = rvalid, dm_err = err, dm_rdata = rdata\<rparr>)"

text \<open>One clock. The memory is read before it is written.\<close>

definition soc_clock :: "bool \<Rightarrow> (nat \<Rightarrow> bool \<times> bool \<times> u32) \<Rightarrow> soc \<Rightarrow> soc" where
  "soc_clock rst ext s =
     (case core_clock 0x100000 rst (soc_in ext s) (so_cpu s) of
        (iaddr, dreq, c') \<Rightarrow>
        let r = bus_req dreq 0
        in \<lparr>so_cpu = c', so_ram = ram_write r (so_ram s), so_irdata = so_ram s (ram_index iaddr),
            so_drdata = so_ram s (ram_index (dm_addr r)), so_irvalid = True, so_drvalid = dm_req r,
            so_host = (if rst then 0 else if dm_req dreq then 0 else 1), so_sel = (if rst then 0 else dev_sel (dm_addr dreq))\<rparr>)"

text \<open>Clocks without reset, with their number and the requests to the other devices so far.\<close>

type_synonym chip_state = "soc \<times> nat \<times> (nat \<times> nat \<times> dmem_req) list"

definition requests :: "nat \<Rightarrow> dmem_req \<Rightarrow> (nat \<times> nat \<times> dmem_req) list" where
  "requests now r = map (\<lambda>d. (now, d, bus_req r d)) (filter (\<lambda>d. dm_req (bus_req r d)) [1, 2, 3])"

definition chip_clock :: "env \<Rightarrow> chip_state \<Rightarrow> chip_state" where
  "chip_clock env x =
     (case x of (s, now, log) \<Rightarrow>
        (soc_clock False (env now) s, now + 1, log @ requests now (core_dreq (soc_in (env now) s) (so_cpu s))))"

fun chip_run :: "env \<Rightarrow> nat \<Rightarrow> chip_state \<Rightarrow> chip_state" where
  "chip_run env 0 x = x"
| "chip_run env (Suc n) x = chip_run env n (chip_clock env x)"

section \<open>Memory and words\<close>

definition in_ram :: "u32 \<Rightarrow> bool" where
  "in_ram a \<longleftrightarrow> a AND NOT 0x7fff = 0x100000"

definition holds :: "ram \<Rightarrow> mem \<Rightarrow> bool" where
  "holds ram m \<longleftrightarrow> (\<forall>a. in_ram a \<longrightarrow> m a = ucast (drop_bit (8 * byte_off a) (ram (ram_index a))))"

lemma dev_sel_ram: "in_ram a \<Longrightarrow> dev_sel a = 0"
proof -
  have u: "[0..<4] = [0, 1, 2, 3 :: nat]" by (simp add: upt_rec)
  assume "in_ram a"
  then have r: "a AND NOT 0x7fff = 0x100000" by (simp add: in_ram_def)
  have c: "(a AND NOT 0x3ff) AND NOT 0x7fff = 0x100000"
  proof -
    have "NOT 0x3ff AND NOT 0x7fff = (NOT 0x7fff :: u32)" by simp
    then show ?thesis using r by (simp add: and.assoc)
  qed
  have n: "a AND NOT 0x3ff \<noteq> k" if "k AND NOT 0x7fff \<noteq> 0x100000" for k
    using c that by metis
  have "a AND NOT 0x3ff \<noteq> 0x10000" "a AND NOT 0x3ff \<noteq> 0x20000" "a AND NOT 0x3ff \<noteq> 0x30000"
    by (rule n, simp)+
  then show ?thesis using r by (simp add: dev_sel_def u devs_def)
qed

text \<open>The four bytes of a word.\<close>

lemma word_parts:
  assumes "aligned 4 a" "k \<in> {0, 1, 2, 3}"
  shows "byte_off (a + k) = unat k" "ram_index (a + k) = ram_index a" "in_ram (a + k) = in_ram a" "(a + k) AND NOT 3 = a"
proof -
  have a0: "\<not> bit a 0" "\<not> bit a 1"
    using assms(1) bit_take_bit_iff [of 2 a 0] bit_take_bit_iff [of 2 a 1] by (simp_all add: aligned4_iff)
  have k: "\<not> bit k n" if "2 \<le> n" for n
  proof -
    from that obtain j where "n = 2 + j" using le_Suc_ex by blast
    then have n: "n = Suc (Suc j)" by simp
    show ?thesis using assms(2) unfolding n by (auto simp: bit_Suc bit_1_iff)
  qed
  have "bit a n \<longrightarrow> \<not> bit k n" for n
    using a0 k [of n] by (cases "n = 0"; cases "n = 1") auto
  then have "a AND k = 0" by (intro bit_eqI) (auto simp: bit_simps)
  then have or: "a + k = a OR k" by (rule disjunctive_add_eq_or)
  have d: "drop_bit 2 k = 0" by (rule bit_eqI) (simp add: bit_simps k)
  have t: "take_bit 2 k = k" by (rule bit_eqI) (use k in \<open>auto simp: bit_simps not_less [symmetric]\<close>)
  show "byte_off (a + k) = unat k" using assms(1) by (simp add: or byte_off_def aligned4_iff t)
  show "ram_index (a + k) = ram_index a" by (simp add: or ram_index_def d)
  have h: "k AND NOT 0x7fff = 0" "k AND NOT 3 = 0" using assms(2) by auto
  show "in_ram (a + k) = in_ram a" unfolding in_ram_def or by (simp only: bit.conj_disj_distrib2 h bit.disj_zero_right)
  show "(a + k) AND NOT 3 = a" unfolding or by (simp only: bit.conj_disj_distrib2 h bit.disj_zero_right clear_aligned(1) [OF assms(1)])
qed

lemma holds_word:
  assumes "holds ram m" "aligned 4 a" "in_ram a"
  shows "get32 m a = ram (ram_index a)"
proof -
  have b: "m (a + k) = ucast (drop_bit (8 * unat k) (ram (ram_index a)))" if "k \<in> {0, 1, 2, 3}" for k
    using assms word_parts [OF assms(2) that] by (simp add: holds_def)
  show ?thesis
    using b [of 0] b [of 1] b [of 2] b [of 3] word32_bytes [of "ram (ram_index a)"] by (simp add: get32_def)
qed


text \<open>The byte enables write the bytes of a store and no others.\<close>

lemma put_byte_lane:
  assumes "j \<in> {0, 1, 2, 3}" "k \<in> {0, 1, 2, 3}"
  shows "(ucast (drop_bit (8 * j) (put_byte be k wd old)) :: u8) =
    (if j = k \<and> be then ucast (drop_bit (8 * j) wd) else ucast (drop_bit (8 * j) old))"
proof (rule bit_word_eqI)
  fix n assume n: "n < LENGTH(8)"
  show "bit (ucast (drop_bit (8 * j) (put_byte be k wd old)) :: u8) n =
      bit (if j = k \<and> be then ucast (drop_bit (8 * j) wd) else ucast (drop_bit (8 * j) old) :: u8) n"
    using n assms by (elim insertE emptyE) (auto simp: put_byte_def bit_simps)
qed

lemma ram_write_lane:
  assumes "j \<in> {0, 1, 2, 3}" "dm_we r" "dm_req r"
  shows "(ucast (drop_bit (8 * j) (ram_write r ram (ram_index (dm_addr r)))) :: u8) =
    (if bit (dm_be r) j then ucast (drop_bit (8 * j) (dm_wdata r)) else ucast (drop_bit (8 * j) (ram (ram_index (dm_addr r)))))"
proof -
  note l = put_byte_lane [OF assms(1)]
  have l4: "l = 0 \<or> l = 1 \<or> l = 2 \<or> l = 3 \<Longrightarrow> (ucast (drop_bit (8 * j) (put_byte be l wd old)) :: u8) =
    (if j = l \<and> be then ucast (drop_bit (8 * j) wd) else ucast (drop_bit (8 * j) old))" for l be wd old
    using l by auto
  show ?thesis
    using assms(1) by (simp only: ram_write_def assms(2,3) fun_upd_same l4 if_True simp_thms) auto
qed

lemma shifted_byte:
  "off \<le> j \<Longrightarrow> j \<le> 3 \<Longrightarrow> (ucast (drop_bit (8 * j) (push_bit (8 * off) v)) :: u8) = ucast (drop_bit (8 * (j - off)) v)"
  for v :: u32
  by (rule bit_word_eqI) (auto simp: bit_simps diff_mult_distrib2)

lemma shifted_bytes:
  "(ucast (drop_bit 8 (push_bit 8 v)) :: u8) = ucast v" "(ucast (drop_bit 16 (push_bit 16 v)) :: u8) = ucast v"
  "(ucast (drop_bit 24 (push_bit 24 v)) :: u8) = ucast v" "(ucast (drop_bit 24 (push_bit 16 v)) :: u8) = ucast (drop_bit 8 v)"
  for v :: u32
  using shifted_byte [of 1 1 v] shifted_byte [of 2 2 v] shifted_byte [of 3 3 v] shifted_byte [of 2 3 v] by simp_all

lemma offset_aligned:
  assumes "aligned 4 w" "off \<in> {0, 1, 2, 3}"
  shows "aligned 2 (w + off) \<Longrightarrow> off \<in> {0, 2}" "aligned 4 (w + off) \<Longrightarrow> off = 0"
proof -
  have o: "unat (w + off) mod 4 = unat off" using word_parts(1) [OF assms] by (simp add: byte_off_mod)
  have "unat off \<in> {0, 1, 2, 3}" using assms(2) by auto
  show "off = 0" if "aligned 4 (w + off)"
    using that o by (simp add: aligned_def dvd_eq_mod_eq_0 unat_eq_0)
  assume "aligned 2 (w + off)"
  then have "even (unat (w + off) mod 4)" by (simp add: aligned_def dvd_mod_iff)
  then have "even (unat off)" by (simp add: o)
  then show "off \<in> {0, 2}" using assms(2) by auto
qed

lemma write_access_byte:
  assumes "aligned (width_bytes k) (w + off)" "k \<notin> {W_bu, W_hu}" "aligned 4 w" "off \<in> {0, 1, 2, 3}" "j \<in> {0, 1, 2, 3}"
  shows "write_access (Write_bytes k (w + off) v) m (w + j) =
    (if bit (byte_mask k (w + off)) (unat j) then ucast (drop_bit (8 * unat j) (push_bit (8 * unat off) v)) else m (w + j))"
proof (cases k)
  have o: "byte_off w = 0" using word_parts(1) [OF assms(3), of 0] by simp
  case W_b
  then show ?thesis using assms(4,5)
    by (elim insertE emptyE) (simp_all add: put8_def word_parts(1) [OF assms(3)] o shifted_bytes)
next
  have o: "byte_off w = 0" using word_parts(1) [OF assms(3), of 0] by simp
  case W_h
  then have "off \<in> {0, 2}" using offset_aligned(1) [OF assms(3,4)] assms(1) by simp
  with W_h show ?thesis using assms(5)
    by (elim insertE emptyE) (simp_all add: put8_def word_parts(1) [OF assms(3)] o shifted_bytes)
next
  case W_w
  then have "off = 0" using offset_aligned(2) [OF assms(3,4)] assms(1) by simp
  with W_w show ?thesis using assms(5)
    by (elim insertE emptyE) (simp_all add: put32_def)
qed (use assms(2) in auto)

lemma write_access_outside:
  assumes "aligned (width_bytes k) (w + off)" "aligned 4 w" "off \<in> {0, 1, 2, 3}" "a \<noteq> w" "a \<noteq> w + 1" "a \<noteq> w + 2" "a \<noteq> w + 3"
  shows "write_access (Write_bytes k (w + off) v) m a = m a"
proof (cases k)
  case W_h
  then have "off \<in> {0, 2}" using offset_aligned(1) [OF assms(2,3)] assms(1) by simp
  with W_h show ?thesis using assms(4-) by (elim insertE emptyE) (simp_all add: put8_def add.commute [of w 3])
next
  case W_w
  then have "off = 0" using offset_aligned(2) [OF assms(2,3)] assms(1) by simp
  with W_w show ?thesis using assms(4-) by (simp add: put32_def)
qed (use assms(3-) in \<open>auto simp: put8_def\<close>)

lemma ram_index_inj:
  assumes "in_ram a" "in_ram b" "ram_index a = ram_index b"
  shows "a AND NOT 3 = b AND NOT 3"
proof (rule bit_word_eqI)
  fix n assume n: "n < LENGTH(32)"
  have m: "(3 :: u32) = mask 2" "(0x7fff :: u32) = mask 15" by (simp_all add: mask_eq_exp_minus_1)
  have low: "bit a n = bit b n" if "2 \<le> n" "n < 17"
  proof -
    from \<open>2 \<le> n\<close> obtain j where j: "n = 2 + j" by (rule le_Suc_ex [THEN exE])
    have "bit (ram_index x) j \<longleftrightarrow> j < 15 \<and> bit x (2 + j)" for x
      by (simp add: ram_index_def bit_simps)
    from this [of a] this [of b] show ?thesis using assms(3) that(2) unfolding j by simp
  qed
  have "a AND NOT (mask 15) = b AND NOT (mask 15)" using assms(1,2) by (simp add: in_ram_def flip: m(2))
  then have "bit (a AND NOT (mask 15)) n = bit (b AND NOT (mask 15)) n" by simp
  then have high: "bit a n = bit b n" if "15 \<le> n" using that n by (simp add: bit_simps)
  show "bit (a AND NOT 3) n = bit (b AND NOT 3) n"
    unfolding m(1) using low high by (cases "n < 17"; cases "2 \<le> n") (auto simp: bit_simps)
qed

lemma split_word: "\<exists>off \<in> {0, 1, 2, 3}. a = (a AND NOT 3) + off" for a :: u32
proof -
  have "(a AND NOT 3) AND (a AND 3) = 0" by (rule bit_eqI) (auto simp: bit_simps)
  then have "(a AND NOT 3) + (a AND 3) = (a AND NOT 3) OR (a AND 3)" by (rule disjunctive_add_eq_or)
  also have "\<dots> = a" by (rule bit_eqI) (auto simp: bit_simps)
  finally have a: "a = (a AND NOT 3) + (a AND 3)" ..
  have "a AND 3 = take_bit 2 a" by (simp add: take_bit_eq_mask mask_eq_exp_minus_1)
  then have "unat (a AND 3) < 4" using byte_off_mod [of a] by (simp add: byte_off_def)
  then have "unat (a AND 3) \<in> {0, 1, 2, 3}" by auto
  then have "a AND 3 \<in> of_nat ` {0, 1, 2, 3}" by (metis imageI of_nat_unat)
  then have "a AND 3 \<in> {0, 1, 2, 3}" by simp
  then show ?thesis using a by blast
qed


lemma holds_write:
  assumes "holds ram m" "serves r (Write_bytes k addr v)" "aligned (width_bytes k) addr" "k \<notin> {W_bu, W_hu}" "in_ram addr"
  shows "holds (ram_write (bus_req r 0) ram) (write_access (Write_bytes k addr v) m)"
  unfolding holds_def
proof (intro allI impI)
  fix b assume b: "in_ram b"
  define w where "w = addr AND NOT 3"
  have w: "aligned 4 w" using clear_aligned(2) by (simp add: w_def)
  obtain off where off: "off \<in> {0, 1, 2, 3}" "addr = w + off" using split_word w_def by metis
  have r: "dm_req r" "dm_we r" "dm_addr r = w" "dm_be r = byte_mask k addr" "dm_wdata r = push_bit (8 * byte_off addr) v"
    using assms(2) by (simp_all add: w_def)
  have wr: "in_ram w" using assms(5) off w word_parts(3) by metis
  have req: "bus_req r 0 = r" using dev_sel_ram [OF wr] by (simp add: bus_req_def r)
  have off_addr: "byte_off addr = unat off" using word_parts(1) [OF w off(1)] off(2) by simp
  obtain j where j: "j \<in> {0, 1, 2, 3}" "b = (b AND NOT 3) + j" using split_word by metis
  show "write_access (Write_bytes k addr v) m b = ucast (drop_bit (8 * byte_off b) (ram_write (bus_req r 0) ram (ram_index b)))"
  proof (cases "ram_index b = ram_index w")
    case True
    have "w AND NOT 3 = w" using clear_aligned(1) [OF w] .
    then have "b AND NOT 3 = w" using ram_index_inj [OF b wr True] by simp
    then have bw: "b = w + j" using j(2) by simp
    have jb: "byte_off b = unat j" using word_parts(1) [OF w j(1)] bw by simp
    have ju: "unat j \<in> {0, 1, 2, 3}" using j(1) by auto
    have old: "m b = ucast (drop_bit (8 * unat j) (ram (ram_index w)))"
      using assms(1) b jb True unfolding holds_def by auto
    have "write_access (Write_bytes k addr v) m b =
        (if bit (byte_mask k addr) (unat j) then ucast (drop_bit (8 * unat j) (push_bit (8 * unat off) v)) else m b)"
      using write_access_byte [OF _ assms(4) w off(1) j(1), of v m] assms(3) off(2) bw by simp
    also have "\<dots> = ucast (drop_bit (8 * unat j) (ram_write r ram (ram_index w)))"
      using ram_write_lane [OF ju r(2,1), of ram] old by (simp add: r off_addr)
    finally show ?thesis using jb True req by simp
  next
    case False
    have "b \<noteq> w + i" if "i \<in> {0, 1, 2, 3}" for i
      using word_parts(2) [OF w that] False by metis
    from this [of 0] this [of 1] this [of 2] this [of 3]
    have "write_access (Write_bytes k addr v) m b = m b"
      using write_access_outside [of k w off b v m] assms(3) w off by simp
    then show ?thesis
      using False assms(1) b by (simp add: req ram_write_def r holds_def)
  qed
qed

lemma get32_write_outside:
  assumes "aligned (width_bytes k) addr" "aligned 4 p" "addr AND NOT 3 \<noteq> p"
  shows "get32 (write_access (Write_bytes k addr v) m) p = get32 m p"
proof -
  define w where "w = addr AND NOT 3"
  have w: "aligned 4 w" using clear_aligned(2) by (simp add: w_def)
  obtain off where off: "off \<in> {0, 1, 2, 3}" "addr = w + off" using split_word w_def by metis
  have ne: "p + j \<noteq> w + i" if "i \<in> {0, 1, 2, 3}" "j \<in> {0, 1, 2, 3}" for i j
    using word_parts(4) [OF w that(1)] word_parts(4) [OF assms(2) that(2)] assms(3) w_def by metis
  have "write_access (Write_bytes k addr v) m (p + j) = m (p + j)" if "j \<in> {0, 1, 2, 3}" for j
    using write_access_outside [of k w off "p + j" v m] assms(1) w off ne [of 0 j] ne [of 1 j] ne [of 2 j] ne [of 3 j] that
    by simp
  from this [of 0] this [of 1] this [of 2] this [of 3] show ?thesis
    by (simp add: get32_def)
qed

end
