(* ===== verification/CpuRun.thy ===== *)
theory CpuRun
  imports CpuSoc
begin

text \<open>
  The chip runs programs: as long as a program stays in the memory, each of its instructions takes the
  processor, the bus and the memory the number of clocks \<open>clocks\<close> says, after which they stand for the state of the
  instruction set after the instruction; what it accesses outside the memory is on the bus of the device in the
  clock of the instruction, and what it reads there is what the device answers in the next.
\<close>

section \<open>One step of the pipeline\<close>

text \<open>C8: An instruction in the second stage makes the request to the data memory that the instruction set asks for.
  Behind it come three cases. Where the program keeps to \<open>allowed\<close> (targets of jumps and accesses are aligned, CSR
  instructions are those with a register and one of the five CSRs, \<open>mret\<close> returns to machine mode) and neither
  memory answers with an error, the state the pipeline stands for becomes the one after the instruction, with the word
  the data memory answers: the next instruction follows at once, or after one bubble from the address that is being
  fetched, or, for a trap or a return from one, after two. A CSR instruction with an immediate is carried out as the
  one with the register of that number. A load that the data memory answers with an error traps with the cause 5, and
  still writes its register.\<close>

theorem pipeline_step:
  assumes "ready i c a" "decode (fe_inst c) = Some inst" "\<not> im_err i'"
  defines "c' \<equiv> core_next i c"
  shows "serves (core_dreq i c) (access_of inst a)
    \<and> (allowed inst a \<and> \<not> bus_fault i' \<longrightarrow>
         (let a' = exec (dm_rdata i') inst a
          in if straight inst a then ready i' c' a' \<and> fe_inst c' = im_rdata i \<and> ar_pc a' = ar_pc a + 4
               \<and> core_iaddr i c = ar_pc a + 8
             else if trapping inst then redirect i' c' a'
             else refill i' c' a' \<and> core_iaddr i c = ar_pc a'))
    \<and> (\<forall>op rd u n. inst = Csri op rd u n \<and> csr_get n a \<noteq> None \<and> \<not> bus_fault i' \<longrightarrow>
         refill i' c' (exec (dm_rdata i') (Csr op rd u n) a))
    \<and> (\<forall>k rd q v. inst = Load k rd q v \<and> bus_fault i' \<and> aligned 4 (ar_mtvec a) \<longrightarrow>
         redirect i' c' (trap 5 (set_x rd (load_result (ld_of k) (dm_rdata i') (get_x a q + v)) a)))"
proof (intro conjI allI impI; (elim conjE)?)
  show "serves (core_dreq i c) (access_of inst a)" by (rule ready_execute(3) [OF assms(1,2)])
next
  assume "allowed inst a" "\<not> bus_fault i'"
  from ready_step [OF assms(1,2) this(1) assms(3) this(2)]
  show "let a' = exec (dm_rdata i') inst a
      in if straight inst a then ready i' c' a' \<and> fe_inst c' = im_rdata i \<and> ar_pc a' = ar_pc a + 4
           \<and> core_iaddr i c = ar_pc a + 8
         else if trapping inst then redirect i' c' a'
         else refill i' c' a' \<and> core_iaddr i c = ar_pc a'"
    unfolding Let_def c'_def .
next
  fix op rd u n assume "inst = Csri op rd u n" "csr_get n a \<noteq> None" "\<not> bus_fault i'"
  then show "refill i' c' (exec (dm_rdata i') (Csr op rd u n) a)"
    using csr_immediate_is_register assms unfolding c'_def by blast
next
  fix k rd q v assume "inst = Load k rd q v" "bus_fault i'" "aligned 4 (ar_mtvec a)"
  then show "redirect i' c' (trap 5 (set_x rd (load_result (ld_of k) (dm_rdata i') (get_x a q + v)) a))"
    using load_fault_step assms unfolding c'_def by blast
qed

section \<open>One clock of the chip\<close>

lemma soc_in_simps: "\<not> im_err (soc_in e s)" "im_rdata (soc_in e s) = so_irdata s"
  by (simp_all add: soc_in_def split_beta)

lemma soc_clock_simps:
  fixes e s
  defines "i \<equiv> soc_in e s" and "s' \<equiv> soc_clock False e s"
  shows "so_cpu s' = core_next i (so_cpu s)"
    "so_ram s' = ram_write (bus_req (core_dreq i (so_cpu s)) 0) (so_ram s)"
    "so_irdata s' = so_ram s (ram_index (core_iaddr i (so_cpu s)))"
    "so_drdata s' = so_ram s (ram_index (dm_addr (bus_req (core_dreq i (so_cpu s)) 0)))"
    "so_host s' = (if dm_req (core_dreq i (so_cpu s)) then 0 else 1)"
    "so_sel s' = dev_sel (dm_addr (core_dreq i (so_cpu s)))"
  by (simp_all add: assms soc_clock_def core_clock_def core_next_def core_dreq_def core_iaddr_def split_beta Let_def)

text \<open>The answer to the request of the clock before.\<close>

lemma next_answer:
  fixes e s e'
  defines "r \<equiv> core_dreq (soc_in e s) (so_cpu s)" and "i' \<equiv> soc_in e' (soc_clock False e s)"
  shows "\<not> dm_req r \<Longrightarrow> \<not> bus_fault i'"
    "dm_req r \<Longrightarrow> dev_sel (dm_addr r) = 0 \<Longrightarrow> \<not> bus_fault i' \<and> dm_rdata i' = so_ram s (ram_index (dm_addr r))"
    "dm_req r \<Longrightarrow> dev_sel (dm_addr r) = d \<Longrightarrow> d \<in> {1, 2, 3} \<Longrightarrow>
      bus_fault i' = (fst (e' d) \<and> fst (snd (e' d))) \<and> dm_rdata i' = snd (snd (e' d))"
    "dm_req r \<Longrightarrow> dev_sel (dm_addr r) = 4 \<Longrightarrow> bus_fault i' \<and> dm_rdata i' = 0"
  by (auto simp: i'_def r_def soc_in_def bus_resp_def bus_fault_def soc_clock_simps bus_req_def split_beta)

text \<open>The chip at an instruction (\<open>w\<close> is its word), and in the two kinds of bubbles; the requests to the devices so
  far serve the accesses so far.\<close>

definition served :: "(nat \<times> nat \<times> dmem_req) list \<Rightarrow> (nat \<times> nat \<times> access) list \<Rightarrow> bool" where
  "served rs es = list_all2 (\<lambda>(t, d, r) (t', d', acc). t = t' \<and> d = d' \<and> serves r acc) rs es"

fun at_inst :: "env \<Rightarrow> u32 \<Rightarrow> chip_state \<Rightarrow> isa \<Rightarrow> bool" where
  "at_inst env w (s, now, rs) (a, m, now', es) \<longleftrightarrow>
     now = now' \<and> served rs es \<and> ready (soc_in (env now) s) (so_cpu s) a \<and> holds (so_ram s) m
     \<and> (in_ram (ar_pc a) \<longrightarrow> fe_inst (so_cpu s) = w) \<and> (in_ram (ar_pc a + 4) \<longrightarrow> so_irdata s = get32 m (ar_pc a + 4))"

fun at_refill :: "env \<Rightarrow> chip_state \<Rightarrow> isa \<Rightarrow> bool" where
  "at_refill env (s, now, rs) (a, m, now', es) \<longleftrightarrow>
     now = now' \<and> served rs es \<and> refill (soc_in (env now) s) (so_cpu s) a \<and> holds (so_ram s) m
     \<and> (in_ram (ar_pc a) \<longrightarrow> so_irdata s = get32 m (ar_pc a))"

fun at_redirect :: "env \<Rightarrow> chip_state \<Rightarrow> isa \<Rightarrow> bool" where
  "at_redirect env (s, now, rs) (a, m, now', es) \<longleftrightarrow>
     now = now' \<and> served rs es \<and> redirect (soc_in (env now) s) (so_cpu s) a \<and> holds (so_ram s) m"

lemma no_req_clock:
  assumes "\<not> dm_req (core_dreq (soc_in e s) (so_cpu s))"
  shows "so_ram (soc_clock False e s) = so_ram s" "requests now (core_dreq (soc_in e s) (so_cpu s)) = []"
  using assms by (simp_all add: soc_clock_simps ram_write_def bus_req_def no_req_def requests_def)

lemma refill_clock:
  assumes "at_refill env (s, now, rs) (a, m, now, es)"
  shows "at_inst env (get32 m (ar_pc a)) (chip_clock env (s, now, rs)) (a, m, now + 1, es)"
proof -
  let ?s = "soc_clock False (env now) s"
  have r: "refill (soc_in (env now) s) (so_cpu s) a" and h: "holds (so_ram s) m" and l: "served rs es"
    and p: "in_ram (ar_pc a) \<longrightarrow> so_irdata s = get32 m (ar_pc a)"
    using assms by auto
  have al: "aligned 4 (ar_pc a)" using r by (auto simp: refill_def cpu_wf_def cpu_wf_base_def)
  have nr: "\<not> dm_req (core_dreq (soc_in (env now) s) (so_cpu s))"
    using bubble_execute(2) r by (auto simp: refill_def)
  note n = no_req_clock [OF nr] and st = refill_step [OF r soc_in_simps(1) next_answer(1) [OF nr, of "env (now + 1)"]]
  have c: "chip_clock env (s, now, rs) = (?s, now + 1, rs)" by (simp add: chip_clock_def n)
  show ?thesis
    unfolding c using st n h p al l
    by (auto simp: soc_clock_simps(1,3) holds_word aligned_plus4 soc_in_simps)
qed

lemma redirect_clock:
  assumes "at_redirect env (s, now, rs) (a, m, now, es)"
  shows "at_refill env (chip_clock env (s, now, rs)) (a, m, now + 1, es)"
proof -
  let ?s = "soc_clock False (env now) s"
  have r: "redirect (soc_in (env now) s) (so_cpu s) a" and h: "holds (so_ram s) m" and l: "served rs es"
    using assms by auto
  have al: "aligned 4 (ar_pc a)" using r by (simp add: redirect_def)
  have nr: "\<not> dm_req (core_dreq (soc_in (env now) s) (so_cpu s))"
    using bubble_execute(2) r by (auto simp: redirect_def)
  note n = no_req_clock [OF nr] and st = redirect_step [OF r soc_in_simps(1) next_answer(1) [OF nr, of "env (now + 1)"]]
  have c: "chip_clock env (s, now, rs) = (?s, now + 1, rs)" by (simp add: chip_clock_def n)
  show ?thesis
    unfolding c using st n h al l by (auto simp: soc_clock_simps(1,3) holds_word)
qed

section \<open>One instruction\<close>

lemma exec_word: "(\<And>addr. access_of inst a = Read_word addr \<Longrightarrow> w1 = w2) \<Longrightarrow> exec w1 inst a = exec w2 inst a"
  by (cases inst) simp_all

lemma access_store:
  assumes "decode w = Some inst" "access_of inst a = Write_bytes k addr v" "allowed inst a"
  shows "k \<notin> {W_bu, W_hu}" "aligned (width_bytes k) addr"
  using assms decode_fields_ok [OF assms(1)] by (cases inst; auto)+

lemma in_ram_word: "in_ram addr \<Longrightarrow> in_ram (addr AND NOT 3)"
proof -
  assume a: "in_ram addr"
  obtain off where "off \<in> {0, 1, 2, 3}" "addr = (addr AND NOT 3) + off" using split_word by metis
  then show ?thesis using word_parts(3) [OF clear_aligned(2)] a by metis
qed

lemma in_ram_iff_word: "in_ram (addr AND NOT 3) = in_ram addr"
proof -
  obtain off where "off \<in> {0, 1, 2, 3}" "addr = (addr AND NOT 3) + off" using split_word by metis
  then show ?thesis using word_parts(3) [OF clear_aligned(2)] by metis
qed

lemma dev_sel_0: "dev_sel a = 0 \<longleftrightarrow> in_ram a"
proof
  have u: "[0..<4] = [0, 1, 2, 3 :: nat]" by (simp add: upt_rec)
  show "dev_sel a = 0 \<Longrightarrow> in_ram a"
    by (simp add: dev_sel_def u devs_def in_ram_def split: if_splits)
qed (rule dev_sel_ram)

lemma dev_sel_word: "dev_sel (addr AND NOT 3) = 0 \<longleftrightarrow> in_ram addr"
  by (simp only: dev_sel_0 in_ram_iff_word)

lemma requests_one:
  assumes "dm_req r"
  shows "dev_sel (dm_addr r) = 0 \<Longrightarrow> requests now r = []"
    "dev_sel (dm_addr r) = d \<Longrightarrow> d \<in> {1, 2, 3} \<Longrightarrow> requests now r = [(now, d, r)]"
  using assms by (auto simp: requests_def bus_req_def no_req_def)

lemma inst_access:
  fixes env s now
  assumes "at_inst env w (s, now, rs) (a, m, now, es)" "decode w = Some inst" "in_ram (ar_pc a)" "allowed inst a"
    and "access_ok in_ram dev_sel env now (ar_pc a) (access_of inst a)"
  defines "s' \<equiv> soc_clock False (env now) s" and "acc \<equiv> access_of inst a"
  shows "\<not> bus_fault (soc_in (env (now + 1)) s') \<and> holds (so_ram s') (mem_after in_ram dev_sel m acc)
    \<and> exec (dm_rdata (soc_in (env (now + 1)) s')) inst a = exec (answer in_ram dev_sel env now m acc) inst a
    \<and> served (rs @ requests now (core_dreq (soc_in (env now) s) (so_cpu s))) (es @ event_of in_ram dev_sel now acc)"
proof -
  have r: "ready (soc_in (env now) s) (so_cpu s) a" and h: "holds (so_ram s) m" and f: "fe_inst (so_cpu s) = w"
    and l: "served rs es"
    using assms(1,3) by auto
  let ?r = "core_dreq (soc_in (env now) s) (so_cpu s)" and ?e = "env (now + 1)"
  have serves: "serves ?r acc" using ready_execute(3) [OF r] assms(2) f by (simp add: acc_def)
  note na = next_answer [of "env now" s, folded s'_def]
  have ram: "so_ram s' = ram_write (bus_req ?r 0) (so_ram s)" by (simp add: s'_def soc_clock_simps)
  show ?thesis
  proof (cases "device_of in_ram dev_sel acc")
    case None
    show ?thesis
    proof (cases acc)
      case No_data
      then have n: "\<not> dm_req ?r" using serves by simp
      have x: "exec w1 inst a = exec w2 inst a" for w1 w2 by (rule exec_word) (use No_data acc_def in simp)
      show ?thesis
        using na(1) [OF n, of ?e] no_req_clock(1) [OF n] no_req_clock(2) [OF n, of now] h l No_data x
        by (simp add: mem_after_def answer_def event_of_def s'_def)
    next
      case (Read_word addr)
      then have ra: "in_ram addr" using None by (simp split: if_splits)
      define u where "u = addr AND NOT 3"
      have rq: "dm_req ?r" "\<not> dm_we ?r" "dm_addr ?r = u" using serves Read_word by (auto simp: u_def)
      have u: "in_ram u" "aligned 4 u" unfolding u_def by (rule in_ram_word [OF ra], rule clear_aligned(2))
      have d: "dev_sel (dm_addr ?r) = 0" using dev_sel_ram [OF u(1)] rq(3) by simp
      have "dm_rdata (soc_in ?e s') = answer in_ram dev_sel env now m acc"
        using na(2) [OF rq(1) d, of ?e] holds_word [OF h u(2,1)] None Read_word rq(3) by (simp add: answer_def u_def)
      moreover have "so_ram s' = so_ram s" by (simp add: ram ram_write_def bus_req_def rq no_req_def)
      ultimately show ?thesis
        using na(2) [OF rq(1) d, of ?e] h l None Read_word requests_one(1) [OF rq(1) d, of now]
        by (simp add: mem_after_def event_of_def)
    next
      case (Write_bytes k addr v)
      then have ra: "in_ram addr" using None by (simp split: if_splits)
      have rq: "dm_req ?r" "dm_addr ?r = addr AND NOT 3" using serves Write_bytes by auto
      have d: "dev_sel (dm_addr ?r) = 0" unfolding rq(2) using ra by (simp only: dev_sel_word)
      note st = access_store [OF assms(2) _ assms(4), folded acc_def, OF Write_bytes]
      have "holds (so_ram s') (write_access acc m)"
        using holds_write [OF h _ st(2,1) ra] serves Write_bytes by (simp add: ram)
      moreover have x: "exec w1 inst a = exec w2 inst a" for w1 w2
        by (rule exec_word) (use Write_bytes acc_def in simp)
      ultimately show ?thesis
        using na(2) [OF rq(1) d, of ?e] l None requests_one(1) [OF rq(1) d, of now] by (simp add: mem_after_def event_of_def)
    qed
  next
    case (Some dv)
    then have dv: "dv \<in> {1, 2, 3}" "\<not> (fst (?e dv) \<and> fst (snd (?e dv)))"
      using assms(5) by (auto simp: access_ok_def acc_def)
    have rq: "dm_req ?r" "dev_sel (dm_addr ?r) = dv"
      using serves Some by (cases acc; auto split: if_splits)+
    have nw: "so_ram s' = so_ram s" using rq dv(1) by (auto simp: ram ram_write_def bus_req_def no_req_def)
    show ?thesis
      using na(3) [OF rq dv(1), of ?e] dv(2) nw h l Some requests_one(2) [OF rq dv(1), of now] serves
      by (simp add: mem_after_def answer_def event_of_def served_def list_all2_appendI)
  qed
qed


lemma inst_next_words:
  assumes "decode w = Some inst" "allowed inst a" "access_ok in_ram dev_sel env now pc (access_of inst a)"
    and "aligned 4 p" "p \<in> {pc + 4, pc + 8}"
  shows "get32 (mem_after in_ram dev_sel m (access_of inst a)) p = get32 m p"
proof (cases "access_of inst a")
  case (Write_bytes k addr v)
  then have "addr AND NOT 3 \<noteq> p" using assms(3,5) by (auto simp: access_ok_def)
  then show ?thesis
    using get32_write_outside [OF access_store(2) [OF assms(1) Write_bytes assms(2)] assms(4)] Write_bytes
    by (simp add: mem_after_def)
qed (simp_all add: mem_after_def)

lemma jump_no_write: "\<not> straight inst a \<Longrightarrow> mem_after in_ram dev_sel m (access_of inst a) = m"
  by (cases inst) (simp_all add: mem_after_def)

lemma refill_aligned: "refill i c a \<Longrightarrow> aligned 4 (ar_pc a)"
  by (auto simp: refill_def cpu_wf_def cpu_wf_base_def)

lemma inst_clock:
  fixes env s now rs es m a inst
  defines "acc \<equiv> access_of inst a"
  defines "a' \<equiv> exec (answer in_ram dev_sel env now m acc) inst a" and "m' \<equiv> mem_after in_ram dev_sel m acc"
    and "x \<equiv> chip_clock env (s, now, rs)" and "es' \<equiv> es @ event_of in_ram dev_sel now acc"
  assumes "at_inst env w (s, now, rs) (a, m, now, es)" "decode w = Some inst" "in_ram (ar_pc a)" "allowed inst a"
    and "access_ok in_ram dev_sel env now (ar_pc a) acc"
  shows "straight inst a \<Longrightarrow> at_inst env (get32 m' (ar_pc a')) x (a', m', now + 1, es')"
    "\<not> straight inst a \<Longrightarrow> \<not> trapping inst \<Longrightarrow> at_refill env x (a', m', now + 1, es')"
    "trapping inst \<Longrightarrow> at_redirect env x (a', m', now + 1, es')"
proof -
  note at = assms(6) and dec = assms(7) and inr = assms(8) and alw = assms(9)
  define s' where "s' = soc_clock False (env now) s"
  define rs' where "rs' = rs @ requests now (core_dreq (soc_in (env now) s) (so_cpu s))"
  have x: "x = (s', now + 1, rs')" by (simp add: x_def chip_clock_def s'_def rs'_def)
  have r: "ready (soc_in (env now) s) (so_cpu s) a" and h: "holds (so_ram s) m" and f: "fe_inst (so_cpu s) = w"
    and p: "in_ram (ar_pc a + 4) \<Longrightarrow> so_irdata s = get32 m (ar_pc a + 4)"
    using at inr by auto
  have acc: "\<not> bus_fault (soc_in (env (now + 1)) s')" "holds (so_ram s') m'"
    "exec (dm_rdata (soc_in (env (now + 1)) s')) inst a = a'" "served rs' es'"
    using inst_access [OF at dec inr alw] assms(10) by (simp_all add: s'_def a'_def m'_def acc_def rs'_def es'_def)
  note e = soc_in_simps(1) [of "env (now + 1)" s'] acc(1)
  have d: "decode (fe_inst (so_cpu s)) = Some inst" using dec f by simp
  have al: "aligned 4 (ar_pc a)" using ready_a(10) [OF r] .
  have c: "so_cpu s' = core_next (soc_in (env now) s) (so_cpu s)" by (simp add: s'_def soc_clock_simps)
  have ir: "so_irdata s' = so_ram s (ram_index (core_iaddr (soc_in (env now) s) (so_cpu s)))"
    by (simp add: s'_def soc_clock_simps)
  {
    assume st: "straight inst a"
    note n = straight_step [OF r d alw e st]
    have pc: "ar_pc a' = ar_pc a + 4" using straight_pc [OF st] by (simp add: a'_def)
    have al4: "aligned 4 (ar_pc a + 4)" using al by (simp add: aligned_plus4)
    then have "aligned 4 (ar_pc a + 4 + 4)" by (simp only: aligned_plus4)
    then have al8: "aligned 4 (ar_pc a + 8)" by (simp add: add.commute)
    have "get32 m' (ar_pc a + 4) = get32 m (ar_pc a + 4)" "get32 m' (ar_pc a + 8) = get32 m (ar_pc a + 8)"
      unfolding m'_def acc_def using inst_next_words [OF dec alw assms(10) [unfolded acc_def]] al4 al8 by simp_all
    then show "at_inst env (get32 m' (ar_pc a')) x (a', m', now + 1, es')"
      unfolding x using n acc p holds_word [OF h al8]
      by (auto simp: c ir pc soc_in_simps add.commute [of 8 "ar_pc a"])
  }
  {
    assume st: "\<not> straight inst a" "\<not> trapping inst"
    have "refill (soc_in (env (now + 1)) s') (core_next (soc_in (env now) s) (so_cpu s)) a'
        \<and> core_iaddr (soc_in (env now) s) (so_cpu s) = ar_pc a'"
      using ready_step [OF r d alw e] st acc(3) by simp
    then show "at_refill env x (a', m', now + 1, es')"
      unfolding x using acc holds_word [OF h, of "ar_pc a'"] jump_no_write [OF st(1), of m, folded acc_def] refill_aligned
      by (auto simp: c ir m'_def)
  }
  {
    assume st: "trapping inst"
    show "at_redirect env x (a', m', now + 1, es')"
      unfolding x using trap_step [OF r d alw e st] acc by (simp add: c)
  }
qed

section \<open>Programs\<close>

lemma clocks_eq: "allowed inst a \<Longrightarrow> clocks inst a = (if straight inst a then 1 else if trapping inst then 3 else 2)"
  by (cases inst) simp_all

lemma trapping_not_straight: "trapping inst \<Longrightarrow> \<not> straight inst a"
  by (cases inst) simp_all

lemma chip_run_add: "chip_run env (t + t') x = chip_run env t' (chip_run env t x)"
  by (induction t arbitrary: x) simp_all

lemma chip_clock_time: "\<exists>s' rs'. chip_clock env (s, now, rs) = (s', now + 1, rs')"
  by (simp add: chip_clock_def)

lemma inst_runs:
  assumes "at_inst env w (s, now, rs) (a, m, now, es)"
    and "isa_next in_ram dev_sel env w (a, m, now, es) = Some ((a', m', now', es'), t)"
  shows "at_inst env (get32 m' (ar_pc a')) (chip_run env t (s, now, rs)) (a', m', now', es') \<and> now' = now + t"
proof -
  from assms(2) obtain inst where i: "decode w = Some inst" "in_ram (ar_pc a)" "allowed inst a"
      "access_ok in_ram dev_sel env now (ar_pc a) (access_of inst a)"
      "a' = exec (answer in_ram dev_sel env now m (access_of inst a)) inst a"
      "m' = mem_after in_ram dev_sel m (access_of inst a)" "es' = es @ event_of in_ram dev_sel now (access_of inst a)"
      "t = clocks inst a" "now' = now + t"
    by (auto simp: isa_next_def Let_def split: option.splits if_splits)
  note n = inst_clock [OF assms(1) i(1-4), folded i(5-7)]
  obtain s1 r1 where c1: "chip_clock env (s, now, rs) = (s1, now + 1, r1)" using chip_clock_time by metis
  consider "straight inst a" "t = Suc 0" | "trapping inst" "t = Suc (Suc (Suc 0))" | "\<not> straight inst a" "\<not> trapping inst" "t = Suc (Suc 0)"
    using clocks_eq [OF i(3)] i(8) trapping_not_straight by (cases "straight inst a"; cases "trapping inst") auto
  then have "at_inst env (get32 m' (ar_pc a')) (chip_run env t (s, now, rs)) (a', m', now + t, es')"
  proof cases
    case 1
    then show ?thesis using n(1) by (simp del: at_inst.simps)
  next
    case 2
    obtain s2 r2 where c2: "chip_clock env (s1, now + 1, r1) = (s2, now + 1 + 1, r2)" using chip_clock_time by metis
    have "at_refill env (s2, now + 1 + 1, r2) (a', m', now + 1 + 1, es')"
      using redirect_clock [of env s1 "now + 1" r1 a' m' es'] n(3) [OF 2(1)] unfolding c1 c2 by blast
    then have "at_inst env (get32 m' (ar_pc a')) (chip_clock env (s2, now + 1 + 1, r2)) (a', m', now + 1 + 1 + 1, es')"
      by (rule refill_clock)
    then show ?thesis using 2(2) by (simp add: c1 c2 [simplified] del: at_inst.simps)
  next
    case 3
    have "at_inst env (get32 m' (ar_pc a')) (chip_clock env (s1, now + 1, r1)) (a', m', now + 1 + 1, es')"
      using refill_clock [of env s1 "now + 1" r1 a' m' es'] n(2) [OF 3(1,2)] unfolding c1 by blast
    then show ?thesis using 3(3) by (simp add: c1 del: at_inst.simps)
  qed
  then show ?thesis using i(9) by simp
qed

text \<open>A machine that needs a number of clocks for each step of its specification.\<close>

locale timed_simulation =
  fixes run :: "nat \<Rightarrow> 's \<Rightarrow> 's"
    and rel :: "'s \<Rightarrow> 'a \<Rightarrow> bool"
    and step :: "'a \<Rightarrow> ('a \<times> nat) option"
  assumes run_zero: "run 0 s = s"
    and run_add: "run (t + t') s = run t' (run t s)"
    and run_step: "rel s a \<Longrightarrow> step a = Some (a', t) \<Longrightarrow> rel (run t s) a'"
begin

lemma run_steps: "rel s a \<Longrightarrow> timed_steps step n a = Some (a', t) \<Longrightarrow> rel (run t s) a'"
proof (induction n arbitrary: a s t)
  case 0
  then show ?case by (simp add: run_zero)
next
  case (Suc n)
  from Suc.prems(2) obtain b t1 t2 where n: "step a = Some (b, t1)" "timed_steps step n b = Some (a', t2)" "t = t1 + t2"
    by (auto split: option.splits)
  then show ?case using Suc.IH [OF run_step [OF Suc.prems(1) n(1)] n(2)] by (simp add: run_add)
qed

lemma run_splits:
  assumes "rel s a" "timed_steps step n a = Some (b, t)" "timed_steps step k b = Some (c, t')"
  shows "rel (run (t + t') s) c"
  using run_steps [OF run_steps [OF assms(1,2)] assms(3)] by (simp add: run_add)

end

definition at_next :: "env \<Rightarrow> chip_state \<Rightarrow> isa \<Rightarrow> bool" where
  "at_next env x y = at_inst env (get32 (fst (snd y)) (ar_pc (fst y))) x y"

lemma at_next_runs:
  assumes "at_next env x y" "isa_step in_ram dev_sel env y = Some (y', t)"
  shows "at_next env (chip_run env t x) y'"
proof -
  obtain s now rs a m now' es where x: "x = (s, now, rs)" and y: "y = (a, m, now', es)" by (metis prod_cases3 prod_cases4)
  obtain a' m' now'' es' where y': "y' = (a', m', now'', es')" by (metis prod_cases4)
  have n: "now' = now" using assms(1) by (simp add: at_next_def x y)
  have at: "at_inst env (get32 m (ar_pc a)) (s, now, rs) (a, m, now, es)"
    using assms(1) by (simp only: at_next_def x y n fst_conv snd_conv)
  have "isa_next in_ram dev_sel env (get32 m (ar_pc a)) (a, m, now, es) = Some ((a', m', now'', es'), t)"
    using assms(2) by (simp only: isa_step_def y y' n fst_conv snd_conv)
  from inst_runs [OF at this] show ?thesis unfolding at_next_def x y' fst_conv snd_conv by blast
qed

interpretation soc_chip: timed_simulation "chip_run env" "at_next env" "isa_step in_ram dev_sel env" for env
  by unfold_locales (simp_all add: chip_run_add at_next_runs)

text \<open>C2: the chip runs every program of the memory that keeps to the rules of \<open>isa_run\<close>, with any answers of the other
  devices: when the second stage has the instruction at the program counter, and the instruction set comes from
  registers \<open>a\<close> and memory \<open>m\<close> to \<open>a'\<close> and \<open>m'\<close> in \<open>n\<close> instructions, the chip is there after exactly the clocks these
  instructions need, and the requests to the devices in between are those the program makes, each in the clock of
  its instruction.\<close>

theorem chip_runs_programs:
  assumes "at_inst env (get32 m (ar_pc a)) (s, now, rs) (a, m, now, es)"
    and "isa_run in_ram dev_sel env n (a, m, now, es) = Some ((a', m', now', es'), t)"
  shows "at_inst env (get32 m' (ar_pc a')) (chip_run env t (s, now, rs)) (a', m', now', es')"
  using soc_chip.run_steps [of env "(s, now, rs)" "(a, m, now, es)" n "(a', m', now', es')" t] assms
  by (simp only: isa_run_def at_next_def fst_conv snd_conv)


text \<open>A memory with one word everywhere, and the processor after a clock of the reset. The tests run on it with devices
  that do not answer, or, in one, with a word from the UART.\<close>

definition all_word :: "u32 \<Rightarrow> mem" where
  "all_word w a = ucast (drop_bit (8 * byte_off a) w)"

definition zero_cpu :: cpu where
  "zero_cpu = \<lparr>c_started = False, c_pc = 0, c_rf = (\<lambda>r. 0), c_csr = csr_reset 0, fe_pc = 0, fe_inst = 0, fe_imem_req = False,
     fe_imem_addr = 0, ew_dmem_req = False, ew_dmem_addr = 0, ew_imem_req = False, ew_imem_addr = 0,
     ew_imem_rvalid = False, ew_imem_err = False, ew_wb_sel = Wb_alu, ew_wb_en = False, ew_ld_type = Ld_none,
     ew_csr_type = Cs_n, ew_illegal = False, ew_rd = 0, ew_pc = 0, ew_alu_out = 0, ew_csr = 0, ew_rs1 = 0, ew_rs1r = 0\<rparr>"

definition fresh_soc :: "regfile \<Rightarrow> u32 \<Rightarrow> soc" where
  "fresh_soc rf w = \<lparr>so_cpu = core_reset 0x100000 (zero_cpu\<lparr>c_rf := rf\<rparr>), so_ram = (\<lambda>i. w), so_irdata = w, so_drdata = 0,
     so_irvalid = False, so_drvalid = False, so_host = 0, so_sel = 0\<rparr>"

definition quiet_env :: env where
  "quiet_env t d = (False, False, 0)"

definition uart_env :: env where
  "uart_env t d = (d = 3, False, 0x41)"

section \<open>Accesses to no device\<close>

text \<open>C20: a load from an address of no device traps with the cause of a load access fault, three clocks later, as the
  handler of \<^verbatim>\<open>ecall.c\<close> expects; its register has become 0, though.\<close>

theorem unmapped_load_traps:
  assumes "at_inst env w (s, now, rs) (a, m, now, es)" "in_ram (ar_pc a)" "decode w = Some (Load k rd q v)"
    and "dev_sel ((get_x a q + v) AND NOT 3) = 4" "aligned 4 (ar_mtvec a)"
  shows "at_inst env (get32 m (ar_mtvec a)) (chip_run env 3 (s, now, rs)) (trap 5 (set_x rd 0 a), m, now + 3, es)"
proof -
  let ?s = "soc_clock False (env now) s" and ?i = "soc_in (env (now + 1)) (soc_clock False (env now) s)"
  let ?r = "core_dreq (soc_in (env now) s) (so_cpu s)"
  have r: "ready (soc_in (env now) s) (so_cpu s) a" and h: "holds (so_ram s) m" and f: "fe_inst (so_cpu s) = w" and l: "served rs es"
    using assms(1,2) by auto
  have d: "decode (fe_inst (so_cpu s)) = Some (Load k rd q v)" using assms(3) f by simp
  have rq: "dm_req ?r" "\<not> dm_we ?r" "dev_sel (dm_addr ?r) = 4"
    using ready_execute(3) [OF r d] assms(4) by simp_all
  note i = next_answer(4) [OF rq(1,3), of "env (now + 1)"]
  have h': "holds (so_ram ?s) m" using rq h by (simp add: soc_clock_simps ram_write_def bus_req_def no_req_def)
  have zero: "load_result t 0 addr = 0" for t addr
    by (cases t) (simp_all add: load_result_def bits_def)
  have "requests now ?r = []" using rq(3) by (simp add: requests_def bus_req_def no_req_def)
  then have c: "chip_clock env (s, now, rs) = (?s, now + 1, rs)" by (simp add: chip_clock_def)
  have "redirect ?i (so_cpu ?s) (trap 5 (set_x rd 0 a))"
    using load_fault_step [OF r d soc_in_simps(1) conjunct1 [OF i] assms(5)] conjunct2 [OF i]
    by (simp only: zero soc_clock_simps(1))
  then have "at_redirect env (?s, now + 1, rs) (trap 5 (set_x rd 0 a), m, now + 1, es)" using h' l by simp
  note step = redirect_clock [OF this]
  obtain s2 r2 where c2: "chip_clock env (?s, now + 1, rs) = (s2, now + 1 + 1, r2)" using chip_clock_time by metis
  have pc: "ar_pc (trap 5 (set_x rd 0 a)) = ar_mtvec a" by (simp add: trap_def set_x_def)
  have "at_inst env (get32 m (ar_mtvec a)) (chip_clock env (s2, now + 1 + 1, r2)) (trap 5 (set_x rd 0 a), m, now + 1 + 1 + 1, es)"
    using refill_clock [of env s2 "now + 1 + 1" r2] step unfolding c2 pc [symmetric] by blast
  then show ?thesis by (simp add: numeral_3_eq_3 c c2 [simplified] del: at_inst.simps)
qed

section \<open>After a reset\<close>

definition boot_arch :: "regfile \<Rightarrow> arch" where
  "boot_arch rf = \<lparr>ar_pc = 0x100000, ar_x = rf, ar_mtvec = 0x100000, ar_mepc = 0, ar_mcause = 0, ar_mscratch = 0,
     ar_mpp = 3, ar_mpie = False, ar_mie = False\<rparr>"

text \<open>Clocks with the reset line up.\<close>

fun soc_resets :: "env \<Rightarrow> nat \<Rightarrow> soc \<Rightarrow> soc" where
  "soc_resets env 0 s = s"
| "soc_resets env (Suc n) s = soc_resets env n (soc_clock True (env n) s)"

text \<open>The line is up: the state after one more clock is of the same kind, and the word fetched is the one at
  \<open>boot + 4\<close>.\<close>

definition in_reset :: "soc \<Rightarrow> regfile \<Rightarrow> ram \<Rightarrow> bool" where
  "in_reset s rf ram \<longleftrightarrow> (\<exists>c. so_cpu s = core_reset 0x100000 c \<and> c_rf c = rf) \<and> so_host s = 0 \<and> so_sel s = 0 \<and> so_ram s = ram"

lemma reset_clock_simps:
  "so_cpu (soc_clock True e s) = core_reset 0x100000 (core_next (soc_in e s) (so_cpu s))"
  "so_ram (soc_clock True e s) = ram_write (bus_req (core_dreq (soc_in e s) (so_cpu s)) 0) (so_ram s)"
  "so_irdata (soc_clock True e s) = so_ram s (ram_index (core_iaddr (soc_in e s) (so_cpu s)))"
  "so_host (soc_clock True e s) = 0" "so_sel (soc_clock True e s) = 0"
  by (simp_all add: soc_clock_def core_clock_def core_next_def core_dreq_def core_iaddr_def split_beta Let_def)

lemma reset_refill:
  assumes "in_reset s rf ram" "rf 0 = 0"
  shows "refill (soc_in e s) (so_cpu s) (boot_arch rf)" "core_rf (soc_in e s) (so_cpu s) = rf" "\<not> c_started (so_cpu s)"
proof -
  obtain c where c: "so_cpu s = core_reset 0x100000 c" "c_rf c = rf" "so_host s = 0" "so_sel s = 0"
    using assms(1) by (auto simp: in_reset_def)
  have nf: "\<not> bus_fault (soc_in e s)" by (simp add: bus_fault_def soc_in_def bus_resp_def c)
  have b: "cpu_wf_base (soc_in e s) (so_cpu s)"
    using assms(2) c soc_in_simps(1) by (simp add: cpu_wf_base_def core_reset_def csr_reset_def aligned_def)
  have n: "ew_csr_type (so_cpu s) = Cs_n" "\<not> ew_illegal (so_cpu s)" by (simp_all add: c core_reset_def)
  note k = cpu_wf_csrs(1,2) [OF b nf n(2,1)]
  have k2: "core_csrs (soc_in e s) (so_cpu s) = csr_count (csr_reset 0x100000)"
    using k(2) by (simp add: c core_reset_def)
  show rf: "core_rf (soc_in e s) (so_cpu s) = rf" using c by (simp add: core_rf_def core_reset_def rf_write_def)
  show "\<not> c_started (so_cpu s)" by (simp add: c core_reset_def)
  have "boot_arch rf = arch_of 0x100000 (soc_in e s) (so_cpu s)"
    by (simp add: arch_of_def k2 rf) (simp add: boot_arch_def mk_arch_def csr_reset_def)
  moreover have "cpu_wf (soc_in e s) (so_cpu s)" using b by (simp add: cpu_wf_def k2 csr_reset_def aligned_def)
  moreover have "ar_pc (boot_arch rf) = 0x100000" "fe_inst (so_cpu s) = NOP" "c_pc (so_cpu s) = 0x100000"
    by (simp_all add: boot_arch_def c(1) core_reset_def)
  ultimately show "refill (soc_in e s) (so_cpu s) (boot_arch rf)" using k(1) by (simp only: refill_def simp_thms)
qed

lemma reset_again:
  assumes "in_reset s rf ram" "rf 0 = 0"
  shows "in_reset (soc_clock True e s) rf ram \<and> so_irdata (soc_clock True e s) = ram (ram_index 0x100004)"
proof -
  note r = reset_refill(1,2) [OF assms, of e] reset_refill(3) [OF assms]
  have ram: "so_ram s = ram" using assms(1) by (simp add: in_reset_def)
  have addr: "core_iaddr (soc_in e s) (so_cpu s) = 0x100004"
    using r(1,3) bubble_execute(1) [of "soc_in e s" "so_cpu s"]
    by (auto simp: refill_def core_iaddr fetch_next_def control_NOP B_def boot_arch_def)
  have "\<not> dm_req (core_dreq (soc_in e s) (so_cpu s))" using bubble_execute(2) r(1) by (auto simp: refill_def)
  then have "so_ram (soc_clock True e s) = ram"
    using ram by (simp add: reset_clock_simps ram_write_def bus_req_def no_req_def)
  moreover have "c_rf (core_next (soc_in e s) (so_cpu s)) = rf" using r(2) by (simp add: core_next_fields [OF r(3)])
  ultimately show ?thesis unfolding in_reset_def using ram by (auto simp: reset_clock_simps addr)
qed

lemma resets:
  assumes "in_reset s rf ram" "rf 0 = 0"
  shows "in_reset (soc_resets env (Suc n) s) rf ram \<and> so_irdata (soc_resets env (Suc n) s) = ram (ram_index 0x100004)"
  using assms
proof (induction n arbitrary: s)
  case 0
  then show ?case using reset_again by simp
next
  case (Suc n)
  have "in_reset (soc_clock True (env (Suc n)) s) rf ram" using reset_again [OF Suc.prems] by blast
  from Suc.IH [OF this Suc.prems(2)] show ?case by simp
qed

lemma released:
  assumes "in_reset s rf ram" "rf 0 = 0" "so_irdata s = ram (ram_index 0x100004)" "holds ram m"
  shows "at_inst env (get32 m 0x100004) (chip_clock env (s, now, [])) (boot_arch rf, m, now + 1, [])"
proof -
  note r = reset_refill(1) [OF assms(1,2), of "env now"]
  have ram: "so_ram s = ram" using assms(1) by (simp add: in_reset_def)
  have nr: "\<not> dm_req (core_dreq (soc_in (env now) s) (so_cpu s))" using bubble_execute(2) r by (auto simp: refill_def)
  note n = no_req_clock(1) [OF nr] no_req_clock(2) [OF nr, of now]
    and st = refill_step [OF r soc_in_simps(1) next_answer(1) [OF nr, of "env (now + 1)"]]
  have g: "get32 m 0x100004 = ram (ram_index 0x100004)"
    by (rule holds_word [OF assms(4)]) (simp_all add: aligned_def in_ram_def)
  have c: "chip_clock env (s, now, []) = (soc_clock False (env now) s, now + 1, [])" by (simp add: chip_clock_def n)
  show ?thesis
    unfolding c using st(1-3) n assms(3,4) g ram
    by (simp add: soc_clock_simps soc_in_simps served_def) (simp add: boot_arch_def)
qed

text \<open>C21: after a reset of two or more clocks the processor runs the program as it should, but for the first
  instruction: at the address of the boot it executes the word that follows it. (The register \<open>started\<close>, which
  is to hold it back for a clock, is reset while it should be set.)\<close>

theorem boot_runs_second_word:
  assumes "s1 = soc_clock True e s0" "c_rf (so_cpu s1) 0 = 0" "holds (so_ram s1) m"
    and "s = soc_resets env' (Suc k) s1"
    and "isa_next in_ram dev_sel env (get32 m 0x100004) (boot_arch (c_rf (so_cpu s1)), m, 1, []) = Some (y, t1)"
    and "isa_run in_ram dev_sel env n y = Some ((a', m', now', es'), t)"
  shows "at_inst env (get32 m' (ar_pc a')) (chip_run env (1 + t1 + t) (s, 0, [])) (a', m', now', es')"
proof -
  have "c_rf (core_reset b c) = c_rf c" for b c by (simp add: core_reset_def)
  then have i: "in_reset s1 (c_rf (so_cpu s1)) (so_ram s1)"
    unfolding assms(1) in_reset_def reset_clock_simps(1,4,5) by metis
  note s = resets [OF i assms(2), of env' k, folded assms(4)]
  let ?a = "boot_arch (c_rf (so_cpu s1))"
  have 1: "at_inst env (get32 m 0x100004) (chip_run env 1 (s, 0, [])) (?a, m, 1, [])"
    using released [OF conjunct1 [OF s] assms(2) conjunct2 [OF s] assms(3), of env 0] by (simp del: at_inst.simps)
  obtain sx nx rx where x: "chip_run env 1 (s, 0, []) = (sx, nx, rx)" by (metis prod_cases3)
  have nx: "nx = 1" using 1 unfolding x by simp
  obtain a2 m2 n2 e2 where y: "y = (a2, m2, n2, e2)" by (metis prod_cases4)
  have "at_next env (chip_run env t1 (sx, 1, rx)) y"
    using inst_runs [OF 1 [unfolded x nx] assms(5) [unfolded y]] unfolding at_next_def y fst_conv snd_conv by blast
  then have "at_next env (chip_run env t (chip_run env t1 (sx, 1, rx))) (a', m', now', es')"
    using soc_chip.run_steps assms(6) unfolding isa_run_def by blast
  then show ?thesis unfolding chip_run_add [of env "1 + t1" t] chip_run_add [of env 1 t1] x nx at_next_def by simp
qed

section \<open>Examples\<close>

lemma holds_all_word: "holds (\<lambda>i. w) (all_word w)"
  by (simp add: holds_def all_word_def)

lemma get32_all_word: "aligned 4 a \<Longrightarrow> in_ram a \<Longrightarrow> get32 (all_word w) a = w"
  using holds_word [OF holds_all_word] .

lemma fresh_in_reset: "in_reset (fresh_soc rf w) rf (\<lambda>i. w)"
  by (auto simp: in_reset_def fresh_soc_def intro: exI [of _ "zero_cpu\<lparr>c_rf := rf\<rparr>"])

lemma fresh_at:
  assumes "rf 0 = 0"
  shows "at_inst env w (chip_clock env (fresh_soc rf w, now, [])) (boot_arch rf, all_word w, now + 1, [])"
proof -
  have "get32 (all_word w) 0x100004 = w"
    by (rule get32_all_word) (simp_all add: aligned_def in_ram_def)
  moreover have "so_irdata (fresh_soc rf w) = w" by (simp add: fresh_soc_def)
  ultimately show ?thesis
    using released [OF fresh_in_reset [of rf w] assms _ holds_all_word [of w], of env now] by (simp del: at_inst.simps)
qed

text \<open>\<open>addi x1, x1, 1\<close> twice.\<close>

lemma decode_addi: "decode 0x00108093 = Some (Op_imm A_add 1 1 1)"
  by code_simp

lemma run_addi: "\<exists>a'. isa_run in_ram dev_sel env 2 (boot_arch (\<lambda>r. 0), all_word 0x00108093, 1, [])
      = Some ((a', all_word 0x00108093, 3, []), 2)
    \<and> get_x a' 1 = 2 \<and> ar_pc a' = 0x100008"
proof -
  have g: "get32 (all_word 0x00108093) 0x100000 = 0x00108093" "get32 (all_word 0x00108093) 0x100004 = 0x00108093"
    by (rule get32_all_word, simp_all add: aligned_def in_ram_def)+
  show ?thesis
    by (simp add: eval_nat_numeral isa_run_def isa_step_def isa_next_def g decode_addi boot_arch_def advance_def set_x_def get_x_def
        in_ram_def access_ok_def mem_after_def event_of_def)
qed

text \<open>\<open>lw x2, 0(x1)\<close> with the address of the UART in \<open>x1\<close>: the register gets the word it answers, and the request is in
  the log with its clock.\<close>

lemma decode_lw: "decode 0x0000A103 = Some (Load W_w 2 1 0)"
  by code_simp

definition uart_regs :: regfile where
  "uart_regs = (\<lambda>r. 0)(1 := 0x30000)"

lemma dev_sel_uart: "dev_sel 0x30000 = 3"
  by code_simp

lemma run_lw: "\<exists>a'. isa_run in_ram dev_sel uart_env 1 (boot_arch uart_regs, all_word 0x0000A103, 1, [])
      = Some ((a', all_word 0x0000A103, 3, [(1, 3, Read_word 0x30000)]), 2)
    \<and> get_x a' 2 = 0x41 \<and> ar_pc a' = 0x100004"
proof -
  have g: "get32 (all_word 0x0000A103) 0x100000 = 0x0000A103"
    by (rule get32_all_word) (simp_all add: aligned_def in_ram_def)
  have m: "(0x30000 :: u32) AND -4 = 0x30000" by code_simp
  have l: "load_val W_w 0x30000 0x41 = 0x41" by code_simp
  show ?thesis
    by (simp add: isa_run_def isa_step_def isa_next_def g decode_lw boot_arch_def advance_def set_x_def get_x_def
        in_ram_def access_ok_def answer_def mem_after_def event_of_def uart_regs_def uart_env_def dev_sel_uart m l aligned_def)
qed

theorem chip_runs_programs_witness:
  "\<exists>a'. at_inst uart_env (get32 (all_word 0x0000A103) (ar_pc a'))
      (chip_run uart_env 2 (chip_clock uart_env (fresh_soc uart_regs 0x0000A103, 0, [])))
      (a', all_word 0x0000A103, 3, [(1, 3, Read_word 0x30000)])
    \<and> get_x a' 2 = 0x41 \<and> ar_pc a' = 0x100004"
proof -
  have g: "get32 (all_word 0x0000A103) (ar_pc (boot_arch uart_regs)) = 0x0000A103"
    by (simp add: boot_arch_def, rule get32_all_word) (simp_all add: aligned_def in_ram_def)
  obtain s rs where c: "chip_clock uart_env (fresh_soc uart_regs 0x0000A103, 0, []) = (s, 1, rs)"
    using chip_clock_time [of uart_env "fresh_soc uart_regs 0x0000A103" 0 "[]"] by auto
  have "uart_regs 0 = 0" by (simp add: uart_regs_def)
  then have at: "at_inst uart_env (get32 (all_word 0x0000A103) (ar_pc (boot_arch uart_regs))) (s, 1, rs) (boot_arch uart_regs, all_word 0x0000A103, 1, [])"
    using fresh_at [of uart_regs uart_env "0x0000A103" 0] c g by (simp del: at_inst.simps)
  obtain a' where r: "isa_run in_ram dev_sel uart_env 1 (boot_arch uart_regs, all_word 0x0000A103, 1, [])
      = Some ((a', all_word 0x0000A103, 3, [(1, 3, Read_word 0x30000)]), 2)" "get_x a' 2 = 0x41" "ar_pc a' = 0x100004"
    using run_lw by blast
  from chip_runs_programs [OF at r(1)] show ?thesis using r(2,3) unfolding c by blast
qed

theorem pipeline_step_witness:
  "let s = fst (chip_clock quiet_env (fresh_soc (\<lambda>r. 0) 0x00108093, 0, [])); i = soc_in (quiet_env 1) s; a = boot_arch (\<lambda>r. 0)
   in ready i (core_next i (so_cpu s)) (exec (dm_rdata i) (Op_imm A_add 1 1 1) a)
     \<and> core_iaddr i (so_cpu s) = 0x100008"
proof -
  obtain s rs where c: "chip_clock quiet_env (fresh_soc (\<lambda>r. 0) 0x00108093, 0, []) = (s, 1, rs)"
    using chip_clock_time [of quiet_env "fresh_soc (\<lambda>r. 0) 0x00108093" 0 "[]"] by auto
  let ?i = "soc_in (quiet_env 1) s"
  have at: "ready ?i (so_cpu s) (boot_arch (\<lambda>r. 0))" "fe_inst (so_cpu s) = 0x00108093"
    using fresh_at [of "\<lambda>r. 0" quiet_env "0x00108093" 0] unfolding c by (simp_all add: boot_arch_def in_ram_def)
  have d: "decode (fe_inst (so_cpu s)) = Some (Op_imm A_add 1 1 1)" using at(2) decode_addi by simp
  have "refill (soc_in (quiet_env 0) (fresh_soc (\<lambda>r. 0) 0x00108093)) (so_cpu (fresh_soc (\<lambda>r. 0) 0x00108093)) (boot_arch (\<lambda>r. 0))"
    by (rule reset_refill(1) [OF fresh_in_reset]) simp
  then have "\<not> dm_req (core_dreq (soc_in (quiet_env 0) (fresh_soc (\<lambda>r. 0) 0x00108093)) (so_cpu (fresh_soc (\<lambda>r. 0) 0x00108093)))"
    using bubble_execute(2) by (auto simp: refill_def)
  from next_answer(1) [OF this, of "quiet_env 1"] have "\<not> bus_fault ?i" using c by (simp add: chip_clock_def)
  then show ?thesis
    using pipeline_step [OF at(1) d soc_in_simps(1), of "quiet_env 1" s] by (simp add: c Let_def boot_arch_def)
qed

text \<open>\<open>lw x5, 16(x0)\<close>.\<close>

theorem unmapped_load_traps_witness:
  "at_inst quiet_env (get32 (all_word 0x01002283) 0x100000)
    (chip_run quiet_env 3 (chip_clock quiet_env (fresh_soc (\<lambda>r. 0) 0x01002283, 0, [])))
    (trap 5 (set_x 5 0 (boot_arch (\<lambda>r. 0))), all_word 0x01002283, 4, [])"
proof -
  obtain s rs where c: "chip_clock quiet_env (fresh_soc (\<lambda>r. 0) 0x01002283, 0, []) = (s, 1, rs)"
    using chip_clock_time [of quiet_env "fresh_soc (\<lambda>r. 0) 0x01002283" 0 "[]"] by auto
  have d: "decode 0x01002283 = Some (Load W_w 5 0 16)" by code_simp
  have "dev_sel (16 AND NOT 3) = 4" by code_simp
  then have u: "dev_sel ((get_x (boot_arch (\<lambda>r. 0)) 0 + 16) AND NOT 3) = 4" by (simp add: get_x_def)
  have at: "at_inst quiet_env 0x01002283 (s, 1, rs) (boot_arch (\<lambda>r. 0), all_word 0x01002283, 1, [])"
    using fresh_at [of "\<lambda>r. 0" quiet_env "0x01002283" 0] c by (simp del: at_inst.simps)
  show ?thesis
    using unmapped_load_traps [OF at _ d u] by (simp add: c boot_arch_def in_ram_def aligned_def del: at_inst.simps)
qed

theorem boot_runs_second_word_witness:
  "\<exists>a'. at_inst quiet_env (get32 (all_word 0x00108093) (ar_pc a'))
      (chip_run quiet_env 3 (soc_resets quiet_env 1 (soc_clock True (quiet_env 0) (fresh_soc (\<lambda>r. 0) 0x00108093)), 0, []))
      (a', all_word 0x00108093, 3, [])
    \<and> get_x a' 1 = 2"
proof -
  let ?w = "0x00108093 :: u32" and ?m = "all_word 0x00108093"
  let ?s = "soc_clock True (quiet_env 0) (fresh_soc (\<lambda>r. 0) ?w)"
  have "in_reset ?s (\<lambda>r. 0) (\<lambda>i. ?w)" using reset_again [OF fresh_in_reset] by simp
  then have rf: "c_rf (so_cpu ?s) = (\<lambda>r. 0)" and ram: "so_ram ?s = (\<lambda>i. ?w)"
    by (auto simp: in_reset_def core_reset_def)
  have g: "get32 ?m 0x100000 = ?w" "get32 ?m 0x100004 = ?w"
    by (rule get32_all_word, simp_all add: aligned_def in_ram_def)+
  obtain a' where r: "isa_run in_ram dev_sel quiet_env (Suc 1) (boot_arch (\<lambda>r. 0), ?m, 1, []) = Some ((a', ?m, 3, []), 2)"
      "get_x a' 1 = 2"
    using run_addi by (auto simp: numeral_2_eq_2)
  then obtain y t1 t2 where n: "isa_next in_ram dev_sel quiet_env ?w (boot_arch (\<lambda>r. 0), ?m, 1, []) = Some (y, t1)"
      "isa_run in_ram dev_sel quiet_env 1 y = Some ((a', ?m, 3, []), t2)" "t1 + t2 = 2"
    unfolding isa_run_def timed_steps.simps by (auto simp: isa_step_def g boot_arch_def split: option.splits)
  have e: "Suc 0 + t1 + t2 = 3" using n(3) by simp
  have "at_inst quiet_env (get32 ?m (ar_pc a')) (chip_run quiet_env (1 + t1 + t2) (soc_resets quiet_env (Suc 0) ?s, 0, [])) (a', ?m, 3, [])"
    by (rule boot_runs_second_word [of ?s "quiet_env 0" "fresh_soc (\<lambda>r. 0) ?w" ?m _ quiet_env 0 quiet_env y t1 1])
      (use rf ram holds_all_word g n in \<open>simp_all\<close>)
  then show ?thesis using r(2) unfolding One_nat_def e by blast
qed

end
