(* ===== verification/UartRx.thy ===== *)
theory UartRx
  imports Uart
begin

text \<open>
  The receiver of the UART, \<^verbatim>\<open>src/main/scala/sys/uart/Rx.scala\<close>, with 8 data bits and 16 ticks a bit, and
  its place in \<^verbatim>\<open>UartBlock.scala\<close>: it takes the level of the line and the tick of the baud counter, and
  writes its byte to the receive queue. Its bit counter is not set to 0 at the end of a byte, so that
  it receives one byte after a reset, and cuts every later one to a single bit.
\<close>

section \<open>The hardware\<close>

record rx =
  rx_state :: uart_state
  rx_data :: u8
  rx_tick :: "4 word"
  rx_bit :: "3 word"

definition rx_done :: "bool \<Rightarrow> rx \<Rightarrow> bool" where
  "rx_done tick r \<longleftrightarrow> rx_state r = Stop \<and> tick \<and> rx_tick r = 15"

definition rx_step :: "bool \<Rightarrow> bool \<Rightarrow> rx \<Rightarrow> rx" where
  "rx_step tick serial r =
     (case rx_state r of
        Idle \<Rightarrow> if \<not> serial then r\<lparr>rx_state := Start, rx_tick := 0\<rparr> else r
      | Start \<Rightarrow>
          if tick
          then if rx_tick r = 7 then r\<lparr>rx_tick := 0, rx_state := Data\<rparr> else r\<lparr>rx_tick := rx_tick r + 1\<rparr>
          else r
      | Data \<Rightarrow>
          if tick
          then if rx_tick r = 15
               then let r = r\<lparr>rx_tick := 0, rx_data := push_bit 7 (of_bool serial) OR drop_bit 1 (rx_data r)\<rparr>
                    in if rx_bit r = 7 then r\<lparr>rx_state := Stop\<rparr> else r\<lparr>rx_bit := rx_bit r + 1\<rparr>
               else r\<lparr>rx_tick := rx_tick r + 1\<rparr>
          else r
      | Stop \<Rightarrow>
          if tick
          then if rx_tick r = 15 then r\<lparr>rx_state := Idle\<rparr> else r\<lparr>rx_tick := rx_tick r + 1\<rparr>
          else r)"

text \<open>One cycle of the UART with the level of its input line.\<close>

definition rx_out :: "uart_hw \<times> rx \<Rightarrow> u8 option" where
  "rx_out s = (if rx_done (baud_tick (u_baud (fst s))) (snd s) then Some (rx_data (snd s)) else None)"

definition block_cycle :: "bus_op \<Rightarrow> bool \<Rightarrow> uart_hw \<times> rx \<Rightarrow> uart_hw \<times> rx" where
  "block_cycle op serial s =
     (uart_cycle op (rx_out s) (fst s), rx_step (baud_tick (u_baud (fst s))) serial (snd s))"

section \<open>A frame\<close>

text \<open>The receiver behind the cycle that found the line low, after ticks at which the line had the levels
  \<open>ls\<close>: \<open>k\<close> is where the bit counter began and \<open>d\<close> what the register held. It samples the line in the
  middle of each bit.\<close>

definition shift_in :: "u8 \<Rightarrow> bool list \<Rightarrow> u8" where
  "shift_in d ss = foldl (\<lambda>d s. push_bit 7 (of_bool s) OR drop_bit 1 d) d ss"

definition samples :: "nat \<Rightarrow> bool list \<Rightarrow> bool list" where
  "samples n ls = map (\<lambda>j. ls ! (23 + 16 * j)) [0..<n]"

definition rx_at :: "nat \<Rightarrow> u8 \<Rightarrow> bool list \<Rightarrow> rx" where
  "rx_at k d ls =
     (let m = length ls - 8; n = 8 - k
      in if length ls < 8 then \<lparr>rx_state = Start, rx_data = d, rx_tick = of_nat (length ls), rx_bit = of_nat k\<rparr>
         else if m < 16 * n
         then \<lparr>rx_state = Data, rx_data = shift_in d (samples (m div 16) ls), rx_tick = of_nat (m mod 16),
               rx_bit = of_nat (k + m div 16)\<rparr>
         else \<lparr>rx_state = Stop, rx_data = shift_in d (samples n ls), rx_tick = of_nat (m - 16 * n), rx_bit = 7\<rparr>)"

lemma shift_in_snoc: "shift_in d (ss @ [s]) = push_bit 7 (of_bool s) OR drop_bit 1 (shift_in d ss)"
  by (simp add: shift_in_def)

lemma samples_Suc: "samples (Suc n) ls = samples n ls @ [ls ! (23 + 16 * n)]"
  by (simp add: samples_def)

lemma samples_append: "8 + 16 * n \<le> length ls \<Longrightarrow> samples n (ls @ xs) = samples n ls"
  by (auto simp: samples_def nth_append)

lemma of_nat_small:
  "m < 16 \<Longrightarrow> of_nat m = (15 :: 4 word) \<longleftrightarrow> m = 15" "m < 16 \<Longrightarrow> of_nat m = (7 :: 4 word) \<longleftrightarrow> m = 7"
  "j < 8 \<Longrightarrow> of_nat j = (7 :: 3 word) \<longleftrightarrow> j = 7"
  by (simp_all add: word_unat_eq_iff unat_of_nat)

lemma rx_at_quiet:
  "rx_state (rx_at k d ls) \<noteq> Idle" "rx_step False serial (rx_at k d ls) = rx_at k d ls"
  "\<not> rx_done False (rx_at k d ls)"
  by (simp_all add: rx_at_def rx_step_def rx_done_def Let_def)

lemma rx_at_tick:
  assumes k: "k < 8" and l: "length ls < 8 + 16 * (9 - k) - 1"
  shows "rx_step True serial (rx_at k d ls) = rx_at k d (ls @ [serial])" and "\<not> rx_done True (rx_at k d ls)"
proof -
  define m where "m = length ls - 8"
  define n where "n = 8 - k"
  have n: "0 < n" "n \<le> 8" "k + n = 8" "9 - k = n + 1" using k by (auto simp: n_def)
  consider "length ls < 7" | "length ls = 7" | "8 \<le> length ls" "m < 16 * n" "m mod 16 = 15"
    | "8 \<le> length ls" "m < 16 * n" "m mod 16 \<noteq> 15" | "8 \<le> length ls" "16 * n \<le> m"
    by linarith
  then have "rx_step True serial (rx_at k d ls) = rx_at k d (ls @ [serial]) \<and> \<not> rx_done True (rx_at k d ls)"
  proof cases
    case 1
    then show ?thesis by (simp add: rx_at_def rx_step_def rx_done_def of_nat_small add.commute)
  next
    case 2
    then show ?thesis using n by (simp add: rx_at_def rx_step_def rx_done_def Let_def samples_def shift_in_def flip: n_def)
  next
    case 3
    define q where "q = m div 16"
    have q: "m = 16 * q + 15" "q < n" "k + q < 8" using 3 n mult_div_mod_eq [of 16 m] unfolding q_def by linarith+
    have len: "length ls = 8 + m" using 3 by (simp add: m_def)
    have qn: "16 * q + 15 < 16 * n" using q(2) by linarith
    have now: "rx_at k d ls = \<lparr>rx_state = Data, rx_data = shift_in d (samples q ls), rx_tick = 15, rx_bit = of_nat (k + q)\<rparr>"
      using qn by (simp add: rx_at_def len q(1) flip: n_def)
    have s: "samples (Suc q) (ls @ [serial]) = samples q ls @ [serial]"
      using len q(1) by (simp add: samples_Suc samples_append nth_append)
    have nx: "rx_at k d (ls @ [serial]) =
      (if q + 1 < n then \<lparr>rx_state = Data, rx_data = shift_in d (samples (Suc q) (ls @ [serial])), rx_tick = 0, rx_bit = of_nat (k + Suc q)\<rparr>
       else \<lparr>rx_state = Stop, rx_data = shift_in d (samples (Suc q) (ls @ [serial])), rx_tick = 0, rx_bit = 7\<rparr>)"
    proof (cases "q + 1 < n")
      case True
      then have "16 * Suc q < 16 * n" by simp
      then show ?thesis using True by (simp add: rx_at_def len q(1) flip: n_def)
    next
      case False
      then have "n = Suc q" using q(2) by linarith
      then show ?thesis by (simp add: rx_at_def len q(1) flip: n_def)
    qed
    have "of_nat (k + q) = (7 :: 3 word) \<longleftrightarrow> \<not> q + 1 < n" using of_nat_small(3) [OF q(3)] n q(2) by auto
    then show ?thesis by (auto simp: now nx rx_step_def rx_done_def s shift_in_snoc)
  next
    case 4
    have len: "length ls = 8 + m" using 4 by (simp add: m_def)
    have sm: "Suc m mod 16 = Suc (m mod 16)" using 4(3) by (simp add: mod_Suc)
    have "Suc m \<noteq> 16 * n" by (rule notI) (use sm in simp)
    then have "m + 1 < 16 * n" using 4(2) by linarith
    moreover have "Suc m div 16 = m div 16" using sm by (simp add: div_Suc)
    moreover note sm
    moreover have "8 + 16 * (m div 16) \<le> length ls" by (simp add: len)
    ultimately show ?thesis using 4 
      by (simp add: rx_at_def rx_step_def rx_done_def len samples_append of_nat_small add.commute flip: n_def)
  next
    case 5
    have len: "length ls = 8 + m" using 5 by (simp add: m_def)
    define t where "t = m - 16 * n"
    have "t < 15" "m = 16 * n + t" using 5 l by (auto simp: n len t_def)
    then show ?thesis
      by (simp add: rx_at_def rx_step_def rx_done_def len samples_append of_nat_small add.commute flip: n_def)
  qed
  then show "rx_step True serial (rx_at k d ls) = rx_at k d (ls @ [serial])" and "\<not> rx_done True (rx_at k d ls)" by auto
qed

text \<open>The last tick of the stop bit.\<close>

lemma rx_at_done:
  assumes "k < 8" and "length ls = 8 + 16 * (9 - k) - 1"
  shows "rx_done True (rx_at k d ls)" and "rx_data (rx_at k d ls) = shift_in d (samples (8 - k) ls)"
    and "rx_state (rx_step True serial (rx_at k d ls)) = Idle" and "rx_bit (rx_step True serial (rx_at k d ls)) = 7"
proof -
  define n where "n = 8 - k"
  have l: "length ls = 8 + (16 * n + 15)" "\<not> length ls < 8" using assms by (auto simp: n_def)
  have r: "rx_at k d ls = \<lparr>rx_state = Stop, rx_data = shift_in d (samples n ls), rx_tick = 15, rx_bit = 7\<rparr>"
    by (simp add: rx_at_def l flip: n_def)
  show "rx_done True (rx_at k d ls)" "rx_data (rx_at k d ls) = shift_in d (samples (8 - k) ls)"
    "rx_state (rx_step True serial (rx_at k d ls)) = Idle" "rx_bit (rx_step True serial (rx_at k d ls)) = 7"
    by (simp_all add: r rx_done_def rx_step_def n_def)
qed

text \<open>Eight samples are a byte; one sample leaves seven bits of what was there before.\<close>

lemma bit_shift_in:
  "length ss \<le> 8 \<Longrightarrow> i < 8 \<Longrightarrow>
    bit (shift_in d ss) i = (if i + length ss < 8 then bit d (i + length ss) else ss ! (i + length ss - 8))"
proof (induction ss arbitrary: i rule: rev_induct)
  case Nil
  then show ?case by (simp add: shift_in_def)
next
  case (snoc s ss)
  have "bit (shift_in d (ss @ [s])) i = (if i = 7 then s else bit (shift_in d ss) (Suc i))"
    using snoc.prems bit_imp_le_length [of "shift_in d ss" "Suc i"]
    by (auto simp: shift_in_snoc bit_or_iff bit_push_bit_iff bit_drop_bit_eq)
  moreover have "i \<noteq> 7 \<Longrightarrow> Suc i < 8" using snoc.prems(2) by simp
  ultimately show ?case using snoc.prems snoc.IH [of "Suc i"] by (auto simp: nth_append)
qed

lemma shift_in_byte:
  assumes "\<forall>j < 8. ss ! j = bit b j" and "length ss = 8"
  shows "shift_in d ss = b"
proof (rule bit_eqI)
  fix i assume "possible_bit TYPE(u8) i"
  then have "i < 8" by simp
  then show "bit (shift_in d ss) i = bit b i" using assms by (simp add: bit_shift_in)
qed

section \<open>The line of the transmitter, read back\<close>

definition loopback :: "uart_hw \<times> rx \<Rightarrow> uart_hw \<times> rx" where
  "loopback s = block_cycle No_access (tx_line (u_tx (fst s))) s"

text \<open>The level of the line belongs to the state once a cycle has passed in it.\<close>

definition line_ok :: "tx \<Rightarrow> bool" where
  "line_ok t \<longleftrightarrow> (case tx_state t of Idle \<Rightarrow> tx_line t | Start \<Rightarrow> True
     | Data \<Rightarrow> tick_c t \<noteq> 0 \<longrightarrow> tx_line t = bit (tx_data t) 0 | Stop \<Rightarrow> tick_c t \<noteq> 0 \<longrightarrow> tx_line t)"

lemma line_ok_step: "line_ok (tx_step start tick bits t)"
  by (cases "tx_state t") (simp_all add: line_ok_def tx_step_def Let_def)

text \<open>One byte on its way: transmitter, receiver, and what is in their queues. The receiver is two ticks
  behind the transmitter at most.\<close>

inductive loop_phase :: "u8 \<Rightarrow> tx \<Rightarrow> rx \<Rightarrow> u8 list \<Rightarrow> u8 list \<Rightarrow> bool" for b where
  waits: "tx_state t = Idle \<Longrightarrow> rx_state r = Idle \<Longrightarrow> rx_bit r = 0 \<Longrightarrow> loop_phase b t r [b] []"
| starts: "tx_holds b t \<Longrightarrow> tx_state t = Start \<Longrightarrow> unat (tick_c t) \<le> of_bool (\<not> tx_line t) \<Longrightarrow>
    rx_state r = Idle \<Longrightarrow> rx_bit r = 0 \<Longrightarrow> loop_phase b t r [b] []"
| transfers: "tx_holds b t \<Longrightarrow> length ls < 152 \<Longrightarrow> e \<le> 2 \<Longrightarrow> frame_pos t = length ls + e \<Longrightarrow>
    \<forall>j < 8. 23 + 16 * j < length ls \<longrightarrow> ls ! (23 + 16 * j) = bit b j \<Longrightarrow> loop_phase b t (rx_at 0 d ls) [b] []"
| stops: "tx_holds b t \<Longrightarrow> 152 \<le> frame_pos t \<Longrightarrow> rx_state r = Idle \<Longrightarrow> rx_bit r = 7 \<Longrightarrow> loop_phase b t r [b] [b]"
| ends: "tx_state t = Idle \<Longrightarrow> rx_state r = Idle \<Longrightarrow> rx_bit r = 7 \<Longrightarrow> loop_phase b t r [] [b]"

lemma tx_holds_step:
  assumes "tx_holds b t"
  shows "if tx_done tick t then frame_pos t = 159 \<and> tx_state (tx_step start tick bits t) = Idle
    else tx_holds b (tx_step start tick bits t)
      \<and> frame_pos (tx_step start tick bits t) = frame_pos t + (if tick then 1 else 0)"
  using tx_quiet [OF assms] tx_ticks [OF assms] by (cases tick) auto

lemma div_mod_16:
  assumes "16 * a + c = 16 * a' + c'" and "c < 16" and "c' < (16 :: nat)"
  shows "a = a' \<and> c = c'"
proof -
  have "a = (16 * a + c) div 16" "a' = (16 * a' + c') div 16" using assms(2,3) by simp_all
  then have "a = a'" unfolding assms(1) by simp
  then show ?thesis using assms(1) by simp
qed

text \<open>In the middle of a bit the line has its level.\<close>

lemma line_mid:
  assumes h: "tx_holds b t" and ok: "line_ok t" and p: "frame_pos t = 16 + 16 * j + c" and "j < 8" "0 < c" "c < 16"
  shows "tx_line t = bit b j"
proof -
  note cb = counter_bounds(1) [of "tick_c t"] counter_bounds(2) [of "data_c t"]
  have st: "tx_state t = Data" using p h assms(4-6) cb by (cases "tx_state t") (simp_all add: frame_pos_def tx_holds_def)
  then have "16 * unat (data_c t) + unat (tick_c t) = 16 * j + c" using p by (simp add: frame_pos_def)
  then have "unat (data_c t) = j" "unat (tick_c t) = c" using div_mod_16 [OF _ cb(1) assms(6)] by blast+
  moreover from this have "tick_c t \<noteq> 0" using assms(5) by auto
  ultimately show ?thesis using st h ok by (simp add: line_ok_def tx_holds_def bit_drop_bit_eq)
qed

lemma line_end:
  assumes "tx_holds b t" "line_ok t" "152 \<le> frame_pos t"
  shows "tx_line t"
proof -
  note cb = counter_bounds(1) [of "tick_c t"] counter_bounds(2) [of "data_c t"]
  have "tx_state t = Stop" using assms cb by (cases "tx_state t") (simp_all add: frame_pos_def tx_holds_def)
  moreover from this have "tick_c t \<noteq> 0" using assms(3) by (auto simp: frame_pos_def)
  ultimately show ?thesis using assms(2) by (simp add: line_ok_def)
qed

lemma loop_phase_step:
  assumes "loop_phase b t r tq rq" and ok: "line_ok t"
  shows "loop_phase b (tx_step (tq \<noteq> []) tick (hd tq) t) (rx_step tick (tx_line t) r)
    (if tx_done tick t then tl tq else tq) (rq @ (if rx_done tick r then [rx_data r] else []))"
  using assms(1)
proof cases
  case waits
  then have "tx_line t" using ok by (simp add: line_ok_def)
  then show ?thesis using waits
    by (simp add: tx_done_def rx_done_def tx_step_def rx_step_def) (intro loop_phase.starts; simp add: tx_holds_def)
next
  case starts
  have "frame_pos t < 2" using starts by (cases "tx_line t") (simp_all add: frame_pos_def)
  then have nd: "\<not> tx_done tick t" and s: "tx_holds b (tx_step (tq \<noteq> []) tick (hd tq) t)"
    "frame_pos (tx_step (tq \<noteq> []) tick (hd tq) t) = frame_pos t + (if tick then 1 else 0)"
    using tx_holds_step [OF starts(3), of tick "tq \<noteq> []" "hd tq"] by (simp_all split: if_splits)
  show ?thesis
  proof (cases "tx_line t")
    case True
    then have "rx_step tick (tx_line t) r = r" "\<not> rx_done tick r" "tick_c t = 0"
      using starts by (simp_all add: rx_step_def rx_done_def unat_eq_zero)
    then show ?thesis using starts nd s(1)
      by (simp, intro loop_phase.starts) (simp_all add: tx_step_def Let_def)
  next
    case False
    then have "rx_step tick (tx_line t) r = rx_at 0 (rx_data r) []" "\<not> rx_done tick r"
      using starts by (simp_all add: rx_step_def rx_done_def rx_at_def)
    then show ?thesis using starts nd s \<open>frame_pos t < 2\<close>
      by (simp, intro loop_phase.transfers [where e = "frame_pos (tx_step True tick b t)"]) simp_all
  qed
next
  case (transfers ls e d)
  note hs = tx_holds_step [OF transfers(4), of tick "tq \<noteq> []" "hd tq"]
  have nd: "\<not> tx_done tick t" using hs transfers(5-7) by (auto split: if_splits)
  let ?t = "tx_step (tq \<noteq> []) tick (hd tq) t" and ?ls = "ls @ [tx_line t]"
  consider "\<not> tick" | "tick" "length ls < 151" | "tick" "length ls = 151" using transfers(5) by linarith
  then show ?thesis
  proof cases
    case 1
    then have "loop_phase b ?t (rx_at 0 d ls) [b] []" using hs nd transfers(5-8) by (intro loop_phase.transfers [where e = e]) simp_all
    then show ?thesis using 1 nd by (simp add: transfers(1-3) rx_at_quiet)
  next
    case 2
    have "?ls ! (23 + 16 * j) = bit b j" if "j < 8" "23 + 16 * j < length ?ls" for j
    proof (cases "23 + 16 * j < length ls")
      case True
      then show ?thesis using transfers(8) that(1) by (simp add: nth_append)
    next
      case False
      then have l: "length ls = 23 + 16 * j" using that(2) by simp
      then have "tx_line t = bit b j"
        using transfers(6,7) that(1) by (intro line_mid [OF transfers(4) ok, of j "7 + e"]) simp_all
      then show ?thesis by (simp add: nth_append l)
    qed
    then have "loop_phase b ?t (rx_at 0 d ?ls) [b] []"
      using 2 hs nd transfers(6,7) by (intro loop_phase.transfers [where e = e]) simp_all
    then show ?thesis using 2 nd rx_at_tick [where k = 0 and ls = ls and d = d] by (simp add: transfers(1-3))
  next
    case 3
    note rd = rx_at_done [where k = 0 and ls = ls and d = d]
    have "shift_in d (samples 8 ls) = b"
      by (rule shift_in_byte) (use transfers(8) 3 in \<open>simp_all add: samples_def\<close>)
    moreover have "loop_phase b ?t (rx_step True (tx_line t) (rx_at 0 d ls)) [b] [b]"
      using 3 hs nd transfers(7) rd by (intro loop_phase.stops) simp_all
    ultimately show ?thesis using 3 nd rd by (simp add: transfers(1-3))
  qed
next
  case stops
  have l: "tx_line t" by (rule line_end [OF stops(3) ok stops(4)])
  have "rx_step tick (tx_line t) r = r" "\<not> rx_done tick r" using stops l by (simp_all add: rx_step_def rx_done_def)
  moreover note tx_holds_step [OF stops(3), of tick "tq \<noteq> []" "hd tq"]
  ultimately show ?thesis using stops
    by (cases "tx_done tick t") (simp_all add: loop_phase.stops loop_phase.ends)
next
  case ends
  then have "tx_line t" using ok by (simp add: line_ok_def)
  then show ?thesis using ends
    by (simp add: tx_done_def rx_done_def tx_step_def rx_step_def) (intro loop_phase.ends; simp)
qed

text \<open>The UART with its line read back, a byte in its queue.\<close>

definition loop_ok :: "u8 \<Rightarrow> uart_hw \<times> rx \<Rightarrow> bool" where
  "loop_ok b s \<longleftrightarrow> (let u = fst s in fifo_ok (u_txf u) \<and> fifo_ok (u_rxf u) \<and> line_ok (u_tx u)
     \<and> loop_phase b (u_tx u) (snd s) (queued (u_txf u)) (queued (u_rxf u)))"

lemma loop_phase_queues: "loop_phase b t r tq rq \<Longrightarrow> length rq \<le> 1"
  by (erule loop_phase.cases) simp_all

lemma loopback_ok:
  assumes "loop_ok b s"
  shows "loop_ok b (loopback s)"
proof -
  obtain u r where s: "s = (u, r)" by (cases s)
  let ?t = "u_tx u" and ?tick = "baud_tick (u_baud u)" and ?f = "u_txf u" and ?g = "u_rxf u"
  have ok: "fifo_ok ?f" "fifo_ok ?g" "line_ok ?t" "loop_phase b ?t r (queued ?f) (queued ?g)"
    using assms by (simp_all add: loop_ok_def s Let_def)
  have e: "\<not> ff_empty ?f \<longleftrightarrow> queued ?f \<noteq> []" using queued_Nil [OF ok(1)] by blast
  have h: "tx_step (\<not> ff_empty ?f) ?tick (fifo_head ?f) ?t = tx_step (queued ?f \<noteq> []) ?tick (hd (queued ?f)) ?t"
  proof (cases "ff_empty ?f")
    case True
    then show ?thesis using e by (cases "tx_state ?t") (simp_all add: tx_step_def)
  next
    case False
    then have "hd (queued ?f) = fifo_head ?f" using queued_Cons [OF ok(1)] by simp
    then show ?thesis using e by simp
  qed
  have d: "tx_done ?tick ?t \<Longrightarrow> \<not> ff_empty ?f"
    using ok(4) unfolding e by (cases rule: loop_phase.cases) (simp_all add: tx_done_def)
  have tq: "queued (fifo_step False (tx_done ?tick ?t) 0 ?f) = (if tx_done ?tick ?t then tl (queued ?f) else queued ?f)"
    using txf_step [OF ok(1), of False] d by simp
  have "\<not> ff_full ?g" using loop_phase_queues [OF ok(4)] by (auto simp: queued_def fifo_count_def)
  then have rq: "queued (fifo_step (rx_done ?tick r) False x ?g) = queued ?g @ (if rx_done ?tick r then [x] else [])" for x
    using txf_step [OF ok(2), of "rx_done ?tick r" False x] by simp
  have n: "written reg No_access = None" for reg by (simp add: written_def)
  have "u_tx (fst (loopback s)) = tx_step (queued ?f \<noteq> []) ?tick (hd (queued ?f)) ?t"
    "u_txf (fst (loopback s)) = fifo_step False (tx_done ?tick ?t) 0 ?f"
    "u_rxf (fst (loopback s)) = fifo_step (rx_done ?tick r) False (if rx_done ?tick r then rx_data r else 0) ?g"
    "snd (loopback s) = rx_step ?tick (tx_line ?t) r"
    by (simp_all add: loopback_def block_cycle_def s uart_cycle_def n h rx_out_def Let_def)
  then show ?thesis
    using loop_phase_step [OF ok(4,3), of ?tick] fifo_ok_step [OF ok(1)] fifo_ok_step [OF ok(2)] 
    by (simp add: loop_ok_def line_ok_step tq rq split: if_splits)
qed

text \<open>The run of the UART alone, with what the receiver delivers.\<close>

lemma loopback_run:
  "run_hw (idle_cycles n (\<lambda>i. rx_out ((loopback ^^ i) s)) (r\<lparr>run_hw := fst s\<rparr>)) = fst ((loopback ^^ n) s)"
proof (induction n arbitrary: s r)
  case (Suc n)
  have "run_cycle No_access (rx_out s) (r\<lparr>run_hw := fst s\<rparr>)
      = (run_cycle No_access (rx_out s) (r\<lparr>run_hw := fst s\<rparr>))\<lparr>run_hw := fst (loopback s)\<rparr>"
    by (simp add: run_cycle_def loopback_def block_cycle_def Let_def)
  then show ?case
    using Suc.IH [of "loopback s" "run_cycle No_access (rx_out s) (r\<lparr>run_hw := fst s\<rparr>)"]
    by (simp add: funpow_swap1)
qed simp

text \<open>C29: With its output wired to its input, the UART receives the byte it sends, if it is the first
  behind a reset: the transmitter ends, and the byte stands in the receive queue, alone, and the
  receiver waits, its bit counter at 7.\<close>

theorem loopback_receives:
  assumes "u_dvsr u \<noteq> 0" and "fifo_ok (u_txf u)" "fifo_ok (u_rxf u)" and "tx_state (u_tx u) = Idle" "tx_line (u_tx u)"
    and "queued (u_txf u) = [b]" and "ff_empty (u_rxf u)" and "rx_state r = Idle" "rx_bit r = 0"
  shows "\<exists>n. case (loopback ^^ n) (u, r) of (u', r') \<Rightarrow>
    ff_empty (u_txf u') \<and> queued (u_rxf u') = [b] \<and> tx_state (u_tx u') = Idle \<and> rx_state r' = Idle \<and> rx_bit r' = 7"
proof -
  let ?run = "\<lparr>run_hw = u, taken = [], wire = []\<rparr>"
  have "run_ok ?run" using assms(1-4) by (simp add: run_ok_def)
  then obtain n where n: "ff_empty (u_txf (run_hw (idle_cycles n (\<lambda>i. rx_out ((loopback ^^ i) (u, r))) ?run)))"
    using queue_sent by blast
  have "queued (u_rxf u) = []" using assms(3,7) queued_Nil by blast
  then have "loop_ok b (u, r)" using assms(2-6,8,9) by (simp add: loop_ok_def line_ok_def loop_phase.waits)
  then have ok: "loop_ok b ((loopback ^^ n) (u, r))" by (induction n) (simp_all add: loopback_ok)
  obtain u' r' where s: "(loopback ^^ n) (u, r) = (u', r')" by (cases "(loopback ^^ n) (u, r)")
  have e: "ff_empty (u_txf u')" using n loopback_run [of n "(u, r)" ?run] by (simp add: s)
  then have "queued (u_txf u') = []" using ok queued_Nil by (simp add: loop_ok_def s Let_def)
  then have "loop_phase b (u_tx u') r' [] (queued (u_rxf u'))" using ok by (simp add: loop_ok_def s Let_def)
  then show ?thesis using e s by (intro exI [of _ n]) (auto elim: loop_phase.cases)
qed

text \<open>Behind the reset, the divisor and then a byte are written.\<close>

definition rx_reset :: rx where
  "rx_reset = \<lparr>rx_state = Idle, rx_data = 0, rx_tick = 0, rx_bit = 0\<rparr>"

definition loop_ready :: uart_hw where
  "loop_ready = uart_cycle (Bus_write TXDATA 0x41) None (uart_cycle (Bus_write DVSR 12) None (uart_reset (\<lambda>_. 0) (\<lambda>_. 0)))"

theorem loopback_receives_witness:
  "\<exists>n. queued (u_rxf (fst ((loopback ^^ n) (loop_ready, rx_reset)))) = [0x41]"
proof -
  have f: "fifo_ok (fifo_reset m)" "\<not> ff_full (fifo_reset m)" "queued (fifo_reset m) = []" "ff_empty (fifo_reset m)" for m
    by (simp_all add: fifo_ok_def fifo_reset_def queued_def fifo_count_def)
  have u: "u_dvsr loop_ready = 12" "u_txf loop_ready = fifo_step True False 0x41 (fifo_reset (\<lambda>_. 0))"
    "u_rxf loop_ready = fifo_reset (\<lambda>_. 0)" "tx_state (u_tx loop_ready) = Idle" "tx_line (u_tx loop_ready)"
    by (simp_all add: loop_ready_def uart_cycle_def uart_reset_def written_def TXDATA_def DVSR_def CLEAR_def Let_def
        fifo_idle tx_step_def tx_done_def f)
  have "\<exists>n. case (loopback ^^ n) (loop_ready, rx_reset) of (u', r') \<Rightarrow>
      ff_empty (u_txf u') \<and> queued (u_rxf u') = [0x41] \<and> tx_state (u_tx u') = Idle \<and> rx_state r' = Idle \<and> rx_bit r' = 7"
    using u f fifo_write [OF f(1,2)]
    by (intro loopback_receives) (simp_all add: rx_reset_def)
  then show ?thesis by (auto simp: split_beta)
qed

section \<open>Every later byte\<close>

text \<open>The receiver over a number of cycles, given by tick and level: what it delivers, and its state.\<close>

primrec rx_run :: "(bool \<times> bool) list \<Rightarrow> rx \<Rightarrow> u8 list \<times> rx" where
  "rx_run [] r = ([], r)"
| "rx_run (c # cs) r =
     (let (bs, r') = rx_run cs (rx_step (fst c) (snd c) r)
      in ((if rx_done (fst c) r then [rx_data r] else []) @ bs, r'))"

definition levels :: "(bool \<times> bool) list \<Rightarrow> bool list" where
  "levels cs = map snd (filter fst cs)"

lemma rx_run_append: "rx_run (as @ cs) r = (fst (rx_run as r) @ fst (rx_run cs (snd (rx_run as r))), snd (rx_run cs (snd (rx_run as r))))"
  by (induction as arbitrary: r) (simp_all add: split_beta)

lemma rx_run_frame:
  "k < 8 \<Longrightarrow> length (ls @ levels cs) \<le> 8 + 16 * (9 - k) - 1 \<Longrightarrow> rx_run cs (rx_at k d ls) = ([], rx_at k d (ls @ levels cs))"
proof (induction cs arbitrary: ls)
  case (Cons c cs)
  show ?case
  proof (cases "fst c")
    case True
    then have l: "levels (c # cs) = snd c # levels cs" by (simp add: levels_def)
    then have "length ls < 8 + 16 * (9 - k) - 1" "length ((ls @ [snd c]) @ levels cs) \<le> 8 + 16 * (9 - k) - 1"
      using Cons.prems(2) by simp_all
    then show ?thesis using True Cons.IH [OF Cons.prems(1)] rx_at_tick [OF Cons.prems(1)] by (simp add: l)
  next
    case False
    then have "levels (c # cs) = levels cs" by (simp add: levels_def)
    then show ?thesis using False Cons by (simp add: rx_at_quiet)
  qed
qed (simp add: levels_def)

text \<open>What it receives of a line that goes low, when its bit counter begins at \<open>k\<close>: \<open>8 - k\<close> samples, and
  so one sample from the second byte on.\<close>

lemma rx_receives:
  assumes "rx_state r = Idle" and "unat (rx_bit r) = k" and "length (levels cs) = 8 + 16 * (9 - k) - 1"
  shows "fst (rx_run ((tick, False) # cs @ [(True, level)]) r) = [shift_in (rx_data r) (samples (8 - k) (levels cs))]
    \<and> rx_state (snd (rx_run ((tick, False) # cs @ [(True, level)]) r)) = Idle
    \<and> rx_bit (snd (rx_run ((tick, False) # cs @ [(True, level)]) r)) = 7"
proof -
  have k: "k < 8" using assms(2) counter_bounds(2) [of "rx_bit r"] by simp
  have "rx_bit r = of_nat k" by (simp flip: assms(2))
  then have "rx_step tick False r = rx_at k (rx_data r) []" "\<not> rx_done tick r"
    using assms(1) by (simp_all add: rx_step_def rx_at_def rx_done_def)
  then show ?thesis
    using rx_run_frame [OF k, of "[]" cs "rx_data r"] rx_at_done [OF k assms(3), where d = "rx_data r"] assms(3)
    by (simp add: rx_run_append)
qed

text \<open>Behind a first byte \<open>a\<close> the receiver delivers, after 40 ticks of the next frame, the upper seven bits
  of \<open>a\<close> and one bit of the new byte.\<close>

lemma second_byte_cut:
  assumes "rx_state r = Idle" "rx_bit r = 7" "rx_data r = a" and "length (levels cs) = 39"
  shows "fst (rx_run ((tick, False) # cs @ [(True, level)]) r)
    = [push_bit 7 (of_bool (levels cs ! 23)) OR drop_bit 1 a]"
  using rx_receives [of r 7 cs tick level] assms by (simp add: samples_def shift_in_def)

end
