(* ===== verification/CpuChip.thy ===== *)
theory CpuChip
  imports CpuRun UartRx Gpio
begin

text \<open>
  The whole of \<^verbatim>\<open>Soc.scala\<close>: the processor with its memory, and on the bus the timer, the pins and the UART of the other
  theories, whose answers now come from their registers. The inputs of a clock, one without reset, are the level of the
  input pin and that of the serial line.
\<close>

section \<open>The hardware\<close>

text \<open>\<open>sy_tval\<close>, \<open>sy_gval\<close> and \<open>sy_uval\<close> are the registers \<open>rvalid\<close> of the devices, \<open>sy_udata\<close> is the answer of the UART;
  the UART has its observers with it.\<close>

record sys =
  sy_soc :: soc
  sy_timer :: u32
  sy_taddr :: "10 word"
  sy_tval :: bool
  sy_gpio :: gpio_hw
  sy_gval :: bool
  sy_uart :: uart_run
  sy_rx :: rx
  sy_uval :: bool
  sy_udata :: u32

text \<open>What the devices answer: the timer only at the address of its counter, the pins at their two registers.\<close>

definition timer_resp :: "bool \<Rightarrow> 10 word \<Rightarrow> u32 \<Rightarrow> bool \<times> bool \<times> u32" where
  "timer_resp valid addr count = (if addr = 16 then (valid, False, count) else (valid, True, 0))"

definition gpio_resp :: "bool \<Rightarrow> gpio_hw \<Rightarrow> bool \<times> bool \<times> u32" where
  "gpio_resp valid g = (valid, g_addr g \<noteq> 0 \<and> g_addr g \<noteq> 4, g_rdata g)"

definition sys_resp :: "sys \<Rightarrow> nat \<Rightarrow> bool \<times> bool \<times> u32" where
  "sys_resp s d =
     (if d = 1 then timer_resp (sy_tval s) (sy_taddr s) (sy_timer s)
      else if d = 2 then gpio_resp (sy_gval s) (sy_gpio s)
      else (sy_uval s, False, sy_udata s))"

text \<open>A request as an access to the registers of the UART, which do not look at the byte lanes.\<close>

definition dev_op :: "dmem_req \<Rightarrow> bus_op" where
  "dev_op r =
     (if dm_req r
      then if dm_we r then Bus_write (take_bit 10 (dm_addr r)) (dm_wdata r) else Bus_read (take_bit 10 (dm_addr r))
      else No_access)"

definition sys_req :: "sys \<Rightarrow> dmem_req" where
  "sys_req s = core_dreq (soc_in (sys_resp s) (sy_soc s)) (so_cpu (sy_soc s))"

definition sys_clock :: "1 word \<Rightarrow> bool \<Rightarrow> sys \<Rightarrow> sys" where
  "sys_clock gpi serial s =
     (let t = bus_req (sys_req s) 1; g = bus_req (sys_req s) 2; u = bus_req (sys_req s) 3; hw = run_hw (sy_uart s)
      in \<lparr>sy_soc = soc_clock False (sys_resp s) (sy_soc s),
          sy_timer = sy_timer s + 1, sy_taddr = ucast (dm_addr t), sy_tval = dm_req t,
          sy_gpio = gpio_cycle (ucast (dm_addr g)) (if dm_req g \<and> dm_we g then Some (dm_wdata g) else None) gpi (sy_gpio s),
          sy_gval = dm_req g,
          sy_uart = run_cycle (dev_op u) (rx_out (hw, sy_rx s)) (sy_uart s),
          sy_rx = rx_step (baud_tick (u_baud hw)) serial (sy_rx s),
          sy_uval = dm_req u, sy_udata = uart_rdata (take_bit 10 (dm_addr u)) hw\<rparr>)"

fun sys_run :: "(nat \<Rightarrow> 1 word \<times> bool) \<Rightarrow> nat \<Rightarrow> sys \<Rightarrow> sys" where
  "sys_run pins 0 s = s"
| "sys_run pins (Suc n) s = sys_clock (fst (pins n)) (snd (pins n)) (sys_run pins n s)"

text \<open>The answers in a run, as an environment of the processor.\<close>

definition sys_env :: "(nat \<Rightarrow> 1 word \<times> bool) \<Rightarrow> sys \<Rightarrow> env" where
  "sys_env pins s t = sys_resp (sys_run pins t s)"

section \<open>The processor in the chip\<close>

definition sys_log :: "(nat \<Rightarrow> 1 word \<times> bool) \<Rightarrow> nat \<Rightarrow> sys \<Rightarrow> (nat \<times> nat \<times> dmem_req) list" where
  "sys_log pins n s = concat (map (\<lambda>k. requests k (sys_req (sys_run pins k s))) [0..<n])"

lemma sys_chip: "chip_run (sys_env pins s) n (sy_soc s, 0, []) = (sy_soc (sys_run pins n s), n, sys_log pins n s)"
proof (induction n)
  case (Suc n)
  have "chip_run (sys_env pins s) (n + 1) (sy_soc s, 0, []) = chip_clock (sys_env pins s) (sy_soc (sys_run pins n s), n, sys_log pins n s)"
    unfolding chip_run_add Suc by simp
  moreover have "sys_env pins s n = sys_resp (sys_run pins n s)" by (simp add: sys_env_def)
  ultimately show ?case
    by (simp add: chip_clock_def sys_clock_def sys_req_def sys_log_def Let_def del: chip_run.simps)
qed (simp add: sys_log_def)

section \<open>The UART in the chip\<close>

definition op_bytes :: "bus_op \<Rightarrow> u8 list" where
  "op_bytes op = (case written TXDATA op of Some x \<Rightarrow> [ucast x] | None \<Rightarrow> [])"

definition sys_op :: "(nat \<Rightarrow> 1 word \<times> bool) \<Rightarrow> sys \<Rightarrow> nat \<Rightarrow> bus_op" where
  "sys_op pins s k = dev_op (bus_req (sys_req (sys_run pins k s)) 3)"

lemma sys_uart:
  assumes "run_ok (sy_uart s)" "\<And>k. k < n \<Longrightarrow> op_ok (sys_op pins s k) (run_hw (sy_uart (sys_run pins k s)))"
  shows "run_ok (sy_uart (sys_run pins n s))
    \<and> accepted (sy_uart (sys_run pins n s)) = accepted (sy_uart s) @ concat (map (\<lambda>k. op_bytes (sys_op pins s k)) [0..<n])"
  using assms(2)
proof (induction n)
  case 0
  then show ?case using assms(1) by simp
next
  case (Suc n)
  let ?x = "sys_run pins n s"
  have ih: "run_ok (sy_uart ?x)"
      "accepted (sy_uart ?x) = accepted (sy_uart s) @ concat (map (\<lambda>k. op_bytes (sys_op pins s k)) [0..<n])"
    using Suc.IH Suc.prems by simp_all
  have "sy_uart (sys_run pins (Suc n) s)
      = run_cycle (sys_op pins s n) (rx_out (run_hw (sy_uart ?x), sy_rx ?x)) (sy_uart ?x)"
    by (simp add: sys_clock_def sys_op_def Let_def)
  then show ?case using run_cycle_ok [OF ih(1) Suc.prems [of n]] ih(2) by (simp add: op_bytes_def)
qed

lemma dev_op_none: "op_bytes (dev_op no_req) = []"
  by (simp add: op_bytes_def dev_op_def no_req_def written_def)

definition request_bytes :: "nat \<times> nat \<times> dmem_req \<Rightarrow> u8 list" where
  "request_bytes x = (case x of (t, d, r) \<Rightarrow> if d = 3 then op_bytes (dev_op r) else [])"

lemma requests_uart: "concat (map request_bytes (requests k r)) = op_bytes (dev_op (bus_req r 3))"
  using dev_op_none by (auto simp: requests_def request_bytes_def bus_req_def) (auto simp: no_req_def op_bytes_def dev_op_def written_def)

lemma sys_log_bytes: "concat (map request_bytes (sys_log pins n s)) = concat (map (\<lambda>k. op_bytes (sys_op pins s k)) [0..<n])"
  by (induction n) (simp_all add: sys_log_def requests_uart sys_op_def)

lemma sys_log_uart:
  assumes "k < n" "dm_req (bus_req (sys_req (sys_run pins k s)) 3)"
  shows "(k, 3, bus_req (sys_req (sys_run pins k s)) 3) \<in> set (sys_log pins n s)"
  using assms by (auto simp: sys_log_def requests_def intro!: bexI [of _ k])

text \<open>An access of the program at the UART.\<close>

fun acc_op :: "access \<Rightarrow> bus_op" where
  "acc_op (Read_word addr) = Bus_read (take_bit 10 (addr AND NOT 3))"
| "acc_op (Write_bytes k addr v) = Bus_write (take_bit 10 (addr AND NOT 3)) (push_bit (8 * byte_off addr) v)"
| "acc_op No_data = No_access"

definition access_bytes :: "nat \<times> nat \<times> access \<Rightarrow> u8 list" where
  "access_bytes x = (case x of (t, d, acc) \<Rightarrow> if d = 3 then op_bytes (acc_op acc) else [])"

lemma serves_op: "serves r acc \<Longrightarrow> dev_op r = acc_op acc"
  by (cases acc) (simp_all add: dev_op_def)

lemma served_bytes: "served rs es \<Longrightarrow> concat (map request_bytes rs) = concat (map access_bytes es)"
  unfolding served_def by (induction rule: list_all2_induct) (auto simp: request_bytes_def access_bytes_def serves_op)

lemma served_in:
  assumes "served rs es" "(t, d, r) \<in> set rs"
  shows "\<exists>acc. (t, d, acc) \<in> set es \<and> serves r acc"
  using assms unfolding served_def by (induction rule: list_all2_induct) auto

section \<open>The pins in the chip\<close>

definition op_pins :: "bus_op \<Rightarrow> 7 word \<Rightarrow> 7 word" where
  "op_pins op out = (case written GPO_VAL op of Some x \<Rightarrow> ucast x | None \<Rightarrow> out)"

definition request_pins :: "nat \<times> nat \<times> dmem_req \<Rightarrow> 7 word \<Rightarrow> 7 word" where
  "request_pins x out = (case x of (t, d, r) \<Rightarrow> if d = 2 then op_pins (dev_op r) out else out)"

definition access_pins :: "nat \<times> nat \<times> access \<Rightarrow> 7 word \<Rightarrow> 7 word" where
  "access_pins x out = (case x of (t, d, acc) \<Rightarrow> if d = 2 then op_pins (acc_op acc) out else out)"

lemma reg_4: "(ucast (x :: u32) :: 10 word) = 4 \<longleftrightarrow> take_bit 10 x = 4"
  by (transfer; simp)

lemma gpio_clock: "g_out (sy_gpio (sys_clock gpi serial s)) = op_pins (dev_op (bus_req (sys_req s) 2)) (g_out (sy_gpio s))"
  by (auto simp: sys_clock_def gpio_cycle_def op_pins_def dev_op_def written_def GPO_VAL_def reg_4 Let_def)

lemma requests_pins: "fold request_pins (requests k r) out = op_pins (dev_op (bus_req r 2)) out"
  by (auto simp: requests_def request_pins_def bus_req_def no_req_def op_pins_def dev_op_def written_def)

lemma sys_log_pins: "g_out (sy_gpio (sys_run pins n s)) = fold request_pins (sys_log pins n s) (g_out (sy_gpio s))"
  by (induction n) (simp_all add: sys_log_def gpio_clock requests_pins)

lemma served_pins: "served rs es \<Longrightarrow> fold request_pins rs out = fold access_pins es out"
  unfolding served_def
  by (induction arbitrary: out rule: list_all2_induct) (auto simp: request_pins_def access_pins_def serves_op)

text \<open>A chip whose memory is full of \<open>sw x2, 0(x1)\<close>, with the address of the UART and an A in the registers.\<close>

definition store_regs :: regfile where
  "store_regs = (\<lambda>r. 0)(1 := 0x30000, 2 := 0x41)"

definition store_sys :: sys where
  "store_sys = \<lparr>sy_soc = soc_clock False (quiet_env 0) (fresh_soc store_regs 0x0020A023), sy_timer = 0, sy_taddr = 0,
     sy_tval = False, sy_gpio = \<lparr>g_in = 0, g_out = 5, g_addr = 0, g_rdata = 0\<rparr>, sy_gval = False,
     sy_uart = \<lparr>run_hw = uart_cycle (Bus_write DVSR 12) None (uart_reset (\<lambda>_. 0) (\<lambda>_. 0)), taken = [], wire = []\<rparr>,
     sy_rx = \<lparr>rx_state = Idle, rx_data = 0, rx_tick = 0, rx_bit = 0\<rparr>, sy_uval = False, sy_udata = 0\<rparr>"

section \<open>Programs\<close>

text \<open>C3: in the whole chip, too, the processor runs a program as the instruction set says, where what it reads from a
  device is what the device has; the pins have the levels the program stored last; and the UART accepts the bytes the
  program stores into its transmit register, in their order, and no others, and puts their frames on the line, as
  long as the program does not store there while the queue is full and does not set the divisor to 0.\<close>

theorem chip_program_on_line:
  assumes "run_ok (sy_uart s)"
    and "at_inst (sys_env pins s) (get32 m (ar_pc a)) (sy_soc s, 0, []) (a, m, 0, [])"
    and "isa_run in_ram dev_sel (sys_env pins s) n (a, m, 0, []) = Some ((a', m', now', es), t)"
    and "\<forall>(k, d, acc) \<in> set es. d = 3 \<longrightarrow> op_ok (acc_op acc) (run_hw (sy_uart (sys_run pins k s)))"
  defines "s' \<equiv> sys_run pins t s"
  shows "at_inst (sys_env pins s) (get32 m' (ar_pc a')) (sy_soc s', t, sys_log pins t s) (a', m', now', es)
    \<and> g_out (sy_gpio s') = fold access_pins es (g_out (sy_gpio s))
    \<and> accepted (sy_uart s') = accepted (sy_uart s) @ concat (map access_bytes es)
    \<and> (\<exists>i. wire (idle_cycles i rxd (sy_uart s')) = concat (map frame (accepted (sy_uart s) @ concat (map access_bytes es))))"
proof -
  have at: "at_inst (sys_env pins s) (get32 m' (ar_pc a')) (sy_soc s', t, sys_log pins t s) (a', m', now', es)"
    using soc_chip.run_steps [of "sys_env pins s" "(sy_soc s, 0, [])" "(a, m, 0, [])" n "(a', m', now', es)" t] assms(2,3)
    by (simp only: isa_run_def at_next_def fst_conv snd_conv sys_chip s'_def)
  then have sv: "served (sys_log pins t s) es" unfolding at_inst.simps by blast
  have op: "op_ok (sys_op pins s k) (run_hw (sy_uart (sys_run pins k s)))" if k: "k < t" for k
  proof (cases "dm_req (bus_req (sys_req (sys_run pins k s)) 3)")
    case True
    then show ?thesis using served_in [OF sv sys_log_uart [OF k True]] assms(4) serves_op by (fastforce simp: sys_op_def)
  next
    case False
    then show ?thesis by (intro quiet_ok) (simp add: sys_op_def dev_op_def quiet_No_access)
  qed
  have u: "run_ok (sy_uart s')" "accepted (sy_uart s') = accepted (sy_uart s) @ concat (map access_bytes es)"
    using sys_uart [OF assms(1) op] sys_log_bytes [of pins t s] served_bytes [OF sv] by (simp_all add: s'_def)
  obtain i where "ff_empty (u_txf (run_hw (idle_cycles i rxd (sy_uart s'))))" using queue_sent [OF u(1)] by blast
  then have "wire (idle_cycles i rxd (sy_uart s')) = concat (map frame (accepted (sy_uart s')))"
    using sent_all idle_cycles_ok [OF u(1)] by metis
  moreover have "g_out (sy_gpio s') = fold access_pins es (g_out (sy_gpio s))"
    unfolding s'_def sys_log_pins by (rule served_pins [OF sv])
  ultimately show ?thesis using at u(2) by auto
qed

section \<open>Examples\<close>

lemma fresh_now:
  assumes "rf 0 = 0"
  shows "at_inst env w (soc_clock False e (fresh_soc rf w), 0, []) (boot_arch rf, all_word w, 0, [])"
proof -
  let ?env = "\<lambda>t. if t = 0 then e else env 0"
  have "at_inst ?env w (chip_clock ?env (fresh_soc rf w, 0, [])) (boot_arch rf, all_word w, 1, [])"
    using fresh_at [of rf ?env w 0] assms by (simp del: at_inst.simps)
  then show ?thesis unfolding chip_clock_def split_conv at_inst.simps by (simp add: served_def)
qed

lemma decode_sw: "decode 0x0020A023 = Some (Store W_w 1 2 0)"
  by code_simp

lemma run_sw: "\<exists>a'. isa_run in_ram dev_sel env 1 (boot_arch store_regs, all_word 0x0020A023, 0, [])
      = Some ((a', all_word 0x0020A023, 1, [(0, 3, Write_bytes W_w 0x30000 0x41)]), 1)"
  if "\<not> fst (snd (env 1 3))"
proof -
  have g: "get32 (all_word 0x0020A023) 0x100000 = 0x0020A023"
    by (rule get32_all_word) (simp_all add: aligned_def in_ram_def)
  have m: "(0x30000 :: u32) AND -4 = 0x30000" by code_simp
  show ?thesis
    using that
    by (simp add: isa_run_def isa_step_def isa_next_def g decode_sw boot_arch_def advance_def set_x_def get_x_def
        in_ram_def access_ok_def answer_def mem_after_def event_of_def store_regs_def dev_sel_uart m aligned_def)
qed

lemma sw_bytes: "access_bytes (0, 3, Write_bytes W_w 0x30000 0x41) = [0x41]"
  by code_simp

theorem chip_program_on_line_witness:
  "accepted (sy_uart (sys_run (\<lambda>k. (0, True)) 1 store_sys)) = [0x41] \<and> g_out (sy_gpio (sys_run (\<lambda>k. (0, True)) 1 store_sys)) = 5
    \<and> (\<exists>i. wire (idle_cycles i (\<lambda>k. None) (sy_uart (sys_run (\<lambda>k. (0, True)) 1 store_sys))) = frame 0x41)"
proof -
  let ?s = store_sys and ?w = "0x0020A023 :: u32" and ?pins = "\<lambda>k :: nat. (0 :: 1 word, True)"
  have u: "run_ok (sy_uart ?s)" "accepted (sy_uart ?s) = []"
    by (simp_all add: store_sys_def uart_reset_def fifo_reset_def uart_cycle_def fifo_step_def tx_step_def written_def DVSR_def
        TXDATA_def CLEAR_def run_ok_def accepted_def fifo_ok_def queued_def fifo_count_def Let_def)
  have g: "get32 (all_word ?w) (ar_pc (boot_arch store_regs)) = ?w"
    by (simp add: boot_arch_def, rule get32_all_word) (simp_all add: aligned_def in_ram_def)
  have at: "at_inst (sys_env ?pins ?s) (get32 (all_word ?w) (ar_pc (boot_arch store_regs))) (sy_soc ?s, 0, [])
      (boot_arch store_regs, all_word ?w, 0, [])"
    using fresh_now [of store_regs "sys_env ?pins ?s" ?w "quiet_env 0"] g
    by (simp add: store_sys_def store_regs_def del: at_inst.simps)
  have "\<not> fst (snd (sys_env ?pins ?s 1 3))" by (simp add: sys_env_def sys_resp_def)
  then obtain a' where r: "isa_run in_ram dev_sel (sys_env ?pins ?s) 1 (boot_arch store_regs, all_word ?w, 0, [])
      = Some ((a', all_word ?w, 1, [(0, 3, Write_bytes W_w 0x30000 0x41)]), 1)"
    using run_sw by blast
  have op: "op_ok (acc_op (Write_bytes W_w 0x30000 0x41)) (run_hw (sy_uart (sys_run ?pins 0 ?s)))"
    by (simp add: store_sys_def uart_reset_def fifo_reset_def uart_cycle_def fifo_step_def tx_step_def op_ok_def written_def
        DVSR_def TXDATA_def CLEAR_def Let_def)
  have p: "access_pins (0, 3, acc) = id" for acc by (simp add: access_pins_def fun_eq_iff)
  from chip_program_on_line [OF u(1) at r, of "\<lambda>k. None"] op show ?thesis
    by (simp add: sw_bytes u(2) p) (simp add: store_sys_def)
qed

end
