(* ===== verification/Spec2Isabelle.thy ===== *)
theory Spec2Isabelle
  imports Crc Bits Libc TinyprintfCorrect CoreStateCorrect ParseVal CoreOnChip FloatPrintf CoreOptions CpuChip
begin

text \<open>
  Riscinator is a small rv32i system on a chip with a bare-metal C library, a few example programs and a
  port of CoreMark. This development models the C code of the repository, all paths below being relative
  to the root of the repository, and the hardware: the processor with its bus and memory, and the devices the
  drivers talk to.

  \<^bold>\<open>The parts and how they interact.\<close> \<^verbatim>\<open>sw/librtor\<close> is the library: \<^verbatim>\<open>cstart.c\<close> clears \<^verbatim>\<open>.bss\<close>, sets up the
  UART and calls \<open>main\<close>; \<^verbatim>\<open>libc/tinyprintf.c\<close> formats text and hands it, character by character, to
  the call-back registered with \<open>init_printf\<close>, which is \<open>uart_putc\<close> of \<^verbatim>\<open>uart.c\<close>; that driver polls the
  registers of the UART, \<^verbatim>\<open>src/main/scala/sys/uart\<close>, whose queue feeds the transmitter and so the line.
  \<^verbatim>\<open>gpio.h\<close>, \<^verbatim>\<open>timer.h\<close>, \<^verbatim>\<open>csr.h\<close> and \<^verbatim>\<open>exception.c\<close> are the other drivers. CoreMark,
  \<^verbatim>\<open>sw/coremark\<close>, divides a static block in three, sets up a linked list, two matrices and an input for
  a state machine there, runs the three over and over, where the list benchmark calls the other two from
  its comparison function, compares the checksums of the results with known ones, and prints a report
  through a \<open>printf\<close> of its own, \<^verbatim>\<open>riscinator/ee_printf.c\<close>, and \<open>uart_tx\<close>.

  \<^bold>\<open>Machine, memory, errors.\<close> \<open>Prelude\<close>: integers are words of their C width, a signed one being the word
  read by \<open>sint\<close>; what C leaves undefined and the code can reach (a shift by 32, an overflow of \<open>int\<close>,
  a \<open>va_arg\<close> of another size than the argument, a write behind a buffer) is \<open>None\<close>, but for the negation of the
  most negative number before its digits are printed, which wraps as on the machine. \<open>Memory\<close>:
  \<^verbatim>\<open>mem.h\<close> on a store of bytes. \<open>Varargs\<close>: argument lists. \<open>Digits\<close>: positional notation.
  A loop whose end is not structural is a \<open>function\<close> with a termination proof, or, where it need not
  end, a \<open>partial_function (option)\<close>, whose value \<open>None\<close> then also stands for running for ever: there
  is no fuel in the development, and that a call returns is part of what is proved of it.

  \<^bold>\<open>The library.\<close>
  \<^item> \<open>Bits\<close>, \<^verbatim>\<open>bits.h\<close>: every helper, when it is defined and which bits it yields; the pin contract
    \<open>pin_word\<close> the GPIO driver uses.
  \<^item> \<open>Libc\<close>, \<^verbatim>\<open>libc/libc.c\<close>: the memory and string functions, with overlaps and addresses that wrap.
  \<^item> \<open>Tinyprintf\<close>, \<^verbatim>\<open>libc/tinyprintf.c\<close>: \<open>tfp_format\<close> is generic in the state of its call-back.
    \<open>TinyprintfProofs\<close> has the text it sends, \<open>format_text\<close>; \<open>TinyprintfFrontends\<close> when there is one and the string
    front ends, through the locale of a character sink; \<open>TinyprintfSpec\<close> the specification of that text,
    \<open>printf_text\<close>, which takes nothing from the code, and that the two are equal; \<open>TinyprintfCorrect\<close> the properties.
  \<^item> \<open>Fifo\<close> and \<open>UartHw\<close>, \<^verbatim>\<open>lib/fifo/Fifo.scala\<close> and \<^verbatim>\<open>sys/uart/*.scala\<close>: \<open>fifo_step\<close> and \<open>uart_cycle\<close> are
    one clock cycle. Observers record the bytes the transmitter takes and the level of the line at each
    tick; \<open>run_ok\<close> is the invariant that the line has carried the frames of the bytes taken, every cycle
    keeps it, and a rank that falls in every cycle shows that the queue drains.
  \<^item> \<open>Uart\<close>, \<^verbatim>\<open>uart.c\<close>: the driver on any device, what it needs of one as the locale \<open>uart_bus\<close>, and its
    interpretation \<open>chip\<close> on the UART above, with any number of cycles between two accesses.
  \<^item> \<open>UartRx\<close>, \<^verbatim>\<open>sys/uart/Rx.scala\<close>: the receiver beside the rest of the UART. \<open>rx_at\<close> is its state as a function
    of the levels at the ticks since the start bit; \<open>loop_phase\<close>, inductive, is how a byte passes from the
    transmitter to the receiver on one wire. \<open>second_byte_cut\<close> is what becomes of every later byte.
  \<^item> \<open>Gpio\<close>, \<open>Devices\<close>: \<^verbatim>\<open>gpio.h\<close> on \<^verbatim>\<open>Gpio.scala\<close>, \<^verbatim>\<open>timer.h\<close> on the counter of \<^verbatim>\<open>Timer.scala\<close>, the trap registers.
  \<^item> \<open>Boot\<close>, \<open>ChipCorrect\<close>: \<^verbatim>\<open>cstart.c\<close>, \<^verbatim>\<open>hello.c\<close>, \<^verbatim>\<open>blink.c\<close> and the handler of \<^verbatim>\<open>ecall.c\<close> on a chip made of the
    devices. \<open>line_carries\<close> is the statement about the wire the properties end in.

  \<^bold>\<open>The processor,\<close> \<^verbatim>\<open>src/main/scala/core\<close>, \<^verbatim>\<open>bus/Bus.scala\<close>, \<^verbatim>\<open>sys/ram/Ram.scala\<close>, \<^verbatim>\<open>Soc.scala\<close>.
  \<^item> \<open>Rv32i\<close>: the abstract specification, the instruction set: encoding, \<open>exec\<close> and \<open>access_of\<close> of one
    instruction, programs on a store of \<open>Memory\<close> with devices that answer as a function of the clock and a log of the
    accesses to them, the clocks an instruction takes, and what a program must keep to (\<open>allowed\<close>, \<open>access_ok\<close>).
  \<^item> \<open>CpuDecode\<close>: patterns, control table, ALU, branches, second stage; \<open>CpuPipeline\<close>: control and status registers,
    write-back, fetch, and \<open>core_cycle\<close>, one clock of the pipeline.
  \<^item> \<open>CpuControl\<close>: the decoder against the encoding; \<open>CpuStep\<close>: the units against the operations.
  \<^item> \<open>CpuRefines\<close>: the simulation. \<open>arch_of\<close> is the state of the instruction set a state of the pipeline stands for,
    with the last stage finished; an instruction (\<open>ready\<close>) is followed by another, a bubble (\<open>refill\<close>) or two
    (\<open>redirect\<close> first). At its end, where the processor departs from the instruction set.
  \<^item> \<open>CpuSoc\<close>, \<open>CpuRun\<close>: bus and memory, words against bytes, and the runs of the chip, through the locale of a
    machine with timed steps: \<open>chip_run\<close> records the requests on the buses of the devices, \<open>served\<close> matches them
    with the accesses of the program; errors of the bus; what a reset starts.
  \<^item> \<open>CpuChip\<close>: the chip with the timer, the pins and the UART of their theories on the bus, whose answers are an
    environment of \<open>chip_run\<close>; what a program stores there arrives at the pins and on the line.

  \<^bold>\<open>CoreMark.\<close>
  \<^item> \<open>Crc\<close>, \<^verbatim>\<open>core_util.c\<close>: the CRC functions are one bit-serial shift register, which is linear.
  \<^item> \<open>CoreState\<close>, \<open>CoreStateProofs\<close>, \<open>CoreStateCorrect\<close>, \<^verbatim>\<open>core_state.c\<close>: a call of the state machine classifies one
    token of its input by the language each end state stands for.
  \<^item> \<open>CoreMatrix\<close>, \<open>CoreMatrixProofs\<close>, \<^verbatim>\<open>core_matrix.c\<close>: all loops over cells as one walk over a flat index.
  \<^item> \<open>CoreList\<close>, \<open>CoreListProofs\<close>, \<^verbatim>\<open>core_list_join.c\<close>: the cells in a heap, segments and lists as sequences of
    their addresses. \<open>CoreSort\<close> proves the merge sort once for any comparison that meets its locale,
    also one that changes the data it compares, as \<open>cmp_complex\<close> does; \<open>CoreSortCorrect\<close>
    interprets it on both comparisons. \<open>CoreBenchList\<close> is the benchmark, \<open>CoreListInit\<close> the set-up.
  \<^item> \<open>CoreMain\<close>, \<open>CoreMainCorrect\<close>, \<^verbatim>\<open>core_main.c\<close>, \<^verbatim>\<open>core_portme.c\<close>: seeds, division of the block, calibration,
    timed run, checks. \<open>ParseVal\<close>: the seeds on a command line.
  \<^item> \<open>EePrintf\<close>, \<open>EePrintfCorrect\<close>, \<^verbatim>\<open>riscinator/ee_printf.c\<close>: fields of numbers and addresses, agreement with
    \<open>tfp_format\<close>, what is sent.
  \<^item> \<open>CoreOptions\<close>: code other builds compile, the printing of matrices and the seeds of \<open>SEED_FUNC\<close>.
  \<^item> \<open>Double\<close>, \<open>Cvt\<close>, \<open>FloatPrintf\<close>, \<^verbatim>\<open>riscinator/cvt.c\<close> and the part of \<^verbatim>\<open>ee_printf.c\<close> under \<open>HAS_FLOAT\<close>: a finite
    \<open>double\<close> is a rational number, an operation on it the rounding of the exact result to 53 bits. The
    digits are those of the correctly rounded number; where buffers overflow and texts are cut is in
    \<open>fcvtbuf_large\<close> and the lemmas beside it.
  \<^item> \<open>CoreReport\<close>, \<open>CoreReportCorrect\<close>, \<open>CoreOnChip\<close>: what \<open>main\<close> prints, the whole program, and the whole
    program on the chip.

  \<^bold>\<open>Locales.\<close> Where one part relies on another, the contract is a locale, interpreted on the code's own
  definitions: the character sink (front ends of \<^verbatim>\<open>tinyprintf.c\<close>), the comparison of the merge sort
  (\<open>cmp_idx\<close>, \<open>cmp_complex\<close>), the pin word (\<^verbatim>\<open>bits.h\<close>), the UART bus (the chip), a machine with timed steps
  (the processor with its memory).

  \<^bold>\<open>Bounds.\<close> The standard runs take blocks of 2000 and 1200 bytes below address 2^32 - 2^15; the three
  strings of the build are shorter than 1000 characters, so that no line leaves the 1024 bytes of
  \<open>ee_printf\<close>; 115200 baud need a clock of 4 to 2147 MHz; a delay must leave the time of one poll below
  2^32 cycles; numbers are printed with \<open>f\<close> when they are below 2^51 and multiples of 2^-50, with 60
  decimal places at most, where every operation of \<^verbatim>\<open>cvt.c\<close> is exact enough.

  The programs of the processor are in the 32 KB of the memory and access it and the three devices, at aligned
  addresses; they do not store to the two instructions that follow, get no error from a device they access, use the five machine-level registers of \<open>csr_get\<close>, and remain in machine mode.

  \<^bold>\<open>Not modelled.\<close> The compiler: that the C code becomes the instructions the processor runs is no part of this, and
  to the drivers the processor is the accesses it makes, at any time (what the receiver delivers to the driver is
  an input);
  \<^verbatim>\<open>start.s\<close>, linker scripts, tests and the build; infinities and NaNs, and \<open>va_arg\<close> of a \<open>double\<close>: \<^verbatim>\<open>core_portme.h\<close>
  sets \<open>HAS_FLOAT\<close> to 0, so that the \<open>ee_vsprintf\<close> of the build has no case \<open>f\<close>, whose call is \<open>ee_float\<close>;
  the build options of CoreMark for several contexts, for memory from \<open>malloc\<close> or the stack and for the
  printing of the list; the main loop of \<^verbatim>\<open>ecall.c\<close>, which exists to take a trap.
\<close>

end
